(* ===== verification/Prelude.thy ===== *)
theory Prelude
  imports Main "HOL-Library.Word" "HOL-Library.AList"
begin

text \<open>
  Shared vocabulary of the development: the types that stand for C++'s fixed-width
  integers, byte buffers and exceptions, the parts of the C++ standard library the
  server's sources call (\<open>std::string::find\<close>, \<open>substr\<close>,
  \<open>find_first_not_of\<close>, \<open>std::to_string\<close>, \<open>std::stoi\<close>,
  \<open>std::from_chars\<close>, \<open>std::getline\<close>, the \<open>ctype\<close> predicates of the C
  locale, \<open>std::unordered_map\<close>), and the lemmas about them that the components use.
\<close>

unbundle bit_operations_syntax

section \<open>Types\<close>

type_synonym byte = "8 word"
type_synonym u16 = "16 word"
type_synonym u32 = "32 word"
type_synonym u64 = "64 word"

text \<open>
  A \<open>std::unordered_map<std::string, std::string>\<close> is an association list with
  distinct keys: \<open>find\<close> is \<^const>\<open>map_of\<close>, \<open>m[k] = v\<close> is
  \<^const>\<open>AList.update\<close>. The order of the list stands for the unspecified iteration order
  of the hash table; statements quantify over every list.
\<close>

type_synonym smap = "(string \<times> string) list"

abbreviation smap_set :: "string \<Rightarrow> string \<Rightarrow> smap \<Rightarrow> smap" where
  "smap_set k v m \<equiv> AList.update k v m"

text \<open>
  The exceptions the sources throw or let through; \<open>JsonError\<close> carries the number of
  an exception of the JSON library (101 parse error, 302 and 306 wrong type, 316 invalid
  UTF-8, 406 number overflow). \<open>UndefinedBehaviour\<close> is not an
  exception: it marks an access outside an array, after which the program promises nothing.
\<close>

datatype exn =
    OutOfRange
  | InvalidArgument string
  | LengthError
  | RuntimeError string
  | BadOptionalAccess
  | UniqueViolation
  | FilesystemError
  | JsonError nat
  | UnknownException
  | UndefinedBehaviour

type_synonym 'a res = "exn + 'a"

definition bind_res :: "'a res \<Rightarrow> ('a \<Rightarrow> 'b res) \<Rightarrow> 'b res" where
  "bind_res r f = (case r of Inl e \<Rightarrow> Inl e | Inr x \<Rightarrow> f x)"

named_theorems bytes_simps \<open>conversions between characters, bytes and numbers\<close>
named_theorems find_simps \<open>positions returned by the string searches\<close>

lemma bind_res_Inl [simp]: "bind_res (Inl e) f = Inl e"
  by (simp add: bind_res_def)

lemma bind_res_Inr [simp]: "bind_res (Inr x) f = f x"
  by (simp add: bind_res_def)

lemma bind_res_eq_Inr: "bind_res r f = Inr y \<longleftrightarrow> (\<exists>x. r = Inr x \<and> f x = Inr y)"
  by (cases r) auto

section \<open>Characters and bytes\<close>

definition byte_of_char :: "char \<Rightarrow> byte" where
  "byte_of_char c = of_char c"

definition char_of_byte :: "byte \<Rightarrow> char" where
  "char_of_byte b = char_of (unat b)"

abbreviation bytes_of :: "string \<Rightarrow> byte list" where
  "bytes_of s \<equiv> map byte_of_char s"

abbreviation string_of :: "byte list \<Rightarrow> string" where
  "string_of bs \<equiv> map char_of_byte bs"

lemma of_char_less_256 [simp]: "(of_char c :: nat) < 256"
proof -
  have "(of_char (char_of (of_char c :: nat)) :: nat) = of_char c mod 256"
    by (rule of_char_of)
  then have "(of_char c :: nat) = of_char c mod 256" by simp
  then show ?thesis by (metis mod_less_divisor zero_less_numeral)
qed

lemma byte_of_char_nat: "byte_of_char c = word_of_nat (of_char c)"
  by (simp add: byte_of_char_def of_nat_of_char)

lemma unat_byte_of_char [bytes_simps]: "unat (byte_of_char c) = of_char c"
  by (simp add: byte_of_char_nat unat_of_nat)

lemma char_of_byte_of_char [simp]: "char_of_byte (byte_of_char c) = c"
  by (simp add: char_of_byte_def unat_byte_of_char)

lemma byte_of_char_of_byte [simp]: "byte_of_char (char_of_byte b) = b"
proof -
  have "unat b < 2 ^ LENGTH(8)" by (rule unsigned_less)
  then have "unat b < 256" by simp
  then show ?thesis by (simp add: byte_of_char_nat char_of_byte_def)
qed

lemma string_of_bytes_of [simp]: "string_of (bytes_of s) = s"
  by (simp add: comp_def)

lemma bytes_of_string_of [simp]: "bytes_of (string_of bs) = bs"
  by (simp add: comp_def)

text \<open>The \<open>ctype\<close> predicates in the C locale; bytes from 128 on belong to no class.\<close>

definition is_digit :: "char \<Rightarrow> bool" where
  "is_digit c = (let n = (of_char c :: nat) in 48 \<le> n \<and> n \<le> 57)"

definition is_upper :: "char \<Rightarrow> bool" where
  "is_upper c = (let n = (of_char c :: nat) in 65 \<le> n \<and> n \<le> 90)"

definition is_lower :: "char \<Rightarrow> bool" where
  "is_lower c = (let n = (of_char c :: nat) in 97 \<le> n \<and> n \<le> 122)"

definition is_alnum :: "char \<Rightarrow> bool" where
  "is_alnum c \<longleftrightarrow> is_digit c \<or> is_upper c \<or> is_lower c"

definition is_space :: "char \<Rightarrow> bool" where
  "is_space c = (let n = (of_char c :: nat) in n = 32 \<or> (9 \<le> n \<and> n \<le> 13))"

lemma is_digit_not_space: "is_digit c \<Longrightarrow> \<not> is_space c"
  by (auto simp: is_digit_def is_space_def Let_def)

section \<open>Searching in strings\<close>

definition occurs_at :: "'a list \<Rightarrow> 'a list \<Rightarrow> nat \<Rightarrow> bool" where
  "occurs_at p s i \<longleftrightarrow> take (length p) (drop i s) = p"

text \<open>
  \<open>s.find(p)\<close>: the first position at which \<open>p\<close> occurs, \<^const>\<open>None\<close> for
  \<open>npos\<close>; \<open>s.find(p, pos)\<close> starts at \<open>pos\<close>, and a start past the end finds
  nothing.
\<close>

fun find_sub :: "'a list \<Rightarrow> 'a list \<Rightarrow> nat option" where
  "find_sub p [] = (if p = [] then Some 0 else None)"
| "find_sub p (c # s) =
     (if take (length p) (c # s) = p then Some 0 else map_option Suc (find_sub p s))"

definition find_from :: "'a list \<Rightarrow> 'a list \<Rightarrow> nat \<Rightarrow> nat option" where
  "find_from p s pos =
     (if length s < pos then None else map_option ((+) pos) (find_sub p (drop pos s)))"

text \<open>\<open>s.rfind(c)\<close>: the last position of a character.\<close>

definition rfind_char :: "'a \<Rightarrow> 'a list \<Rightarrow> nat option" where
  "rfind_char c s = map_option (\<lambda>i. length s - 1 - i) (find_sub [c] (rev s))"

text \<open>\<open>s.find_first_not_of(set, pos)\<close>.\<close>

definition find_first_not_of :: "char list \<Rightarrow> string \<Rightarrow> nat \<Rightarrow> nat option" where
  "find_first_not_of cs s pos =
     (let n = pos + length (takeWhile (\<lambda>c. c \<in> set cs) (drop pos s))
      in if n < length s then Some n else None)"

text \<open>
  \<open>s.substr(pos, n)\<close> throws \<open>std::out_of_range\<close> when \<open>pos\<close> is past the end
  and clips \<open>n\<close> to the string; \<open>slice\<close> is its value when \<open>pos\<close> is in range.
\<close>

definition slice :: "'a list \<Rightarrow> nat \<Rightarrow> nat \<Rightarrow> 'a list" where
  "slice s pos n = take n (drop pos s)"

definition substr :: "'a list \<Rightarrow> nat \<Rightarrow> nat \<Rightarrow> 'a list res" where
  "substr s pos n = (if length s < pos then Inl OutOfRange else Inr (slice s pos n))"

definition ends_with :: "'a list \<Rightarrow> 'a list \<Rightarrow> bool" where
  "ends_with s suf \<longleftrightarrow> length suf \<le> length s \<and> drop (length s - length suf) s = suf"

text \<open>
  \<open>npos + k\<close> on \<open>size_t\<close> wraps around to \<open>k - 1\<close>: adding to the result of a failed
  search does not fail.
\<close>

definition npos :: nat where
  "npos = 2 ^ 64 - 1"

definition pos_plus :: "nat option \<Rightarrow> nat \<Rightarrow> nat" where
  "pos_plus p k = (case p of Some i \<Rightarrow> i + k | None \<Rightarrow> (npos + k) mod 2 ^ 64)"

lemma occurs_at_0 [simp]: "occurs_at p s 0 \<longleftrightarrow> take (length p) s = p"
  by (simp add: occurs_at_def)

lemma occurs_at_Suc [simp]: "occurs_at p (c # s) (Suc i) \<longleftrightarrow> occurs_at p s i"
  by (simp add: occurs_at_def)

lemma occurs_at_length: "occurs_at p s i \<Longrightarrow> p \<noteq> [] \<Longrightarrow> i + length p \<le> length s"
proof -
  assume a: "occurs_at p s i" and "p \<noteq> []"
  from a have "length p = min (length p) (length s - i)"
    unfolding occurs_at_def by (metis length_drop length_take min.commute)
  with \<open>p \<noteq> []\<close> show ?thesis by (cases p) auto
qed

lemma occurs_at_append: "occurs_at p (a @ p @ b) (length a)"
  by (simp add: occurs_at_def)

lemma find_sub_Nil [simp]: "find_sub [] s = Some 0"
  by (cases s) simp_all

lemma find_sub_SomeD:
  "find_sub p s = Some i \<Longrightarrow> occurs_at p s i \<and> i \<le> length s \<and> (\<forall>j < i. \<not> occurs_at p s j)"
proof (induction s arbitrary: i)
  case Nil
  then show ?case by (auto split: if_splits)
next
  case (Cons c s)
  show ?case
  proof (cases "take (length p) (c # s) = p")
    case True
    with Cons.prems show ?thesis by simp
  next
    case False
    with Cons.prems obtain k where k: "find_sub p s = Some k" "i = Suc k" by auto
    have "\<not> occurs_at p (c # s) j" if "j < i" for j
      using that False Cons.IH [OF k(1)] k(2) by (cases j) auto
    with Cons.IH [OF k(1)] k(2) show ?thesis by auto
  qed
qed

lemma find_sub_None_iff: "find_sub p s = None \<longleftrightarrow> (\<forall>i. \<not> occurs_at p s i)"
proof (induction s)
  case Nil
  then show ?case by (auto simp: occurs_at_def)
next
  case (Cons c s)
  have "(\<forall>i. \<not> occurs_at p (c # s) i) \<longleftrightarrow>
      take (length p) (c # s) \<noteq> p \<and> (\<forall>i. \<not> occurs_at p s i)"
    by (metis occurs_at_0 occurs_at_Suc not0_implies_Suc)
  with Cons show ?case by auto
qed

lemma find_sub_eq_Some:
  assumes "occurs_at p s i" and "\<And>j. j < i \<Longrightarrow> \<not> occurs_at p s j"
  shows "find_sub p s = Some i"
proof (cases "find_sub p s")
  case None
  with assms(1) show ?thesis by (simp add: find_sub_None_iff)
next
  case (Some k)
  with find_sub_SomeD [OF Some] assms show ?thesis
    by (metis linorder_neqE_nat)
qed

text \<open>A search passes over a prefix that does not hold the pattern's first character.\<close>

lemma find_sub_skip [find_simps]:
  assumes "p \<noteq> []" and "hd p \<notin> set a"
  shows "find_sub p (a @ s) = map_option ((+) (length a)) (find_sub p s)"
  using assms(2)
proof (induction a)
  case Nil
  then show ?case by (simp add: option.map_ident_strong)
next
  case (Cons x a)
  with assms(1) have "take (length p) ((x # a) @ s) \<noteq> p" by (cases p) auto
  with Cons show ?case by (simp add: option.map_comp comp_def)
qed

lemma find_sub_prefix [find_simps]: "find_sub p (p @ s) = Some 0"
  by (cases "p @ s") (auto simp: append_eq_Cons_conv)

lemma find_sub_after:
  "p \<noteq> [] \<Longrightarrow> hd p \<notin> set a \<Longrightarrow> find_sub p (a @ p @ s) = Some (length a)"
  by (simp add: find_sub_skip find_sub_prefix)

lemma find_char_None_iff: "find_sub [c] s = None \<longleftrightarrow> c \<notin> set s"
  by (induction s) auto

lemma find_char_SomeD:
  assumes "find_sub [c] s = Some i"
  shows "i < length s \<and> s ! i = c \<and> c \<notin> set (take i s)"
  using assms
proof (induction s arbitrary: i)
  case (Cons x s)
  then show ?case by (cases i) (auto split: if_splits)
qed simp

lemma find_char_split:
  assumes "find_sub [c] s = Some i"
  shows "s = take i s @ c # drop (Suc i) s"
  using find_char_SomeD [OF assms] by (metis id_take_nth_drop)

lemma find_from_append:
  "length a = n \<Longrightarrow> find_from p (a @ s) n = map_option ((+) n) (find_sub p s)"
  by (auto simp: find_from_def)

lemma slice_append: "length a = i \<Longrightarrow> length b = n \<Longrightarrow> slice (a @ b @ c) i n = b"
  by (simp add: slice_def)

lemma ends_with_iff: "ends_with s suf \<longleftrightarrow> (\<exists>a. s = a @ suf)"
proof
  assume "ends_with s suf"
  then show "\<exists>a. s = a @ suf" unfolding ends_with_def by (metis append_take_drop_id)
qed (auto simp: ends_with_def)

section \<open>Splitting and trimming\<close>

text \<open>
  The segments \<open>std::getline(stream, seg, d)\<close> yields until it fails: a delimiter at the
  very end opens no further segment.
\<close>

function getlines :: "'a \<Rightarrow> 'a list \<Rightarrow> 'a list list" where
  "getlines d s =
     (if s = [] then []
      else takeWhile (\<lambda>c. c \<noteq> d) s # getlines d (drop 1 (dropWhile (\<lambda>c. c \<noteq> d) s)))"
  by pat_completeness auto
termination
proof (relation "measure (length \<circ> snd)")
  fix d :: 'a and s :: "'a list"
  assume "s \<noteq> []"
  then have "0 < length s" by simp
  with length_dropWhile_le [of "\<lambda>c. c \<noteq> d" s]
  have "length (drop 1 (dropWhile (\<lambda>c. c \<noteq> d) s)) < length s"
    unfolding length_drop by linarith
  then show "((d, drop 1 (dropWhile (\<lambda>c. c \<noteq> d) s)), d, s) \<in> measure (length \<circ> snd)"
    by simp
qed simp

declare getlines.simps [simp del]

lemma getlines_Nil [simp]: "getlines d [] = []"
  by (simp add: getlines.simps)

lemma getlines_no_delim: "d \<notin> set s \<Longrightarrow> getlines d s = (if s = [] then [] else [s])"
proof -
  assume d: "d \<notin> set s"
  then have "takeWhile (\<lambda>c. c \<noteq> d) s = s" "dropWhile (\<lambda>c. c \<noteq> d) s = []"
    by (induction s) auto
  then show ?thesis by (subst getlines.simps) (simp del: dropWhile_eq_Nil_conv)
qed

lemma getlines_delim:
  assumes "d \<notin> set a"
  shows "getlines d (a @ d # s) = a # getlines d s"
proof -
  have "takeWhile (\<lambda>c. c \<noteq> d) (a @ d # s) = a" "dropWhile (\<lambda>c. c \<noteq> d) (a @ d # s) = d # s"
    using assms by (induction a) auto
  then show ?thesis by (subst getlines.simps) simp
qed

lemma getlines_no_delim_in: "x \<in> set (getlines d s) \<Longrightarrow> d \<notin> set x"
proof (induction d s rule: getlines.induct)
  case (1 d s)
  show ?case
  proof (cases "s = []")
    case True
    with "1.prems" show ?thesis by simp
  next
    case False
    with "1.prems" have "x = takeWhile (\<lambda>c. c \<noteq> d) s \<or>
        x \<in> set (getlines d (drop 1 (dropWhile (\<lambda>c. c \<noteq> d) s)))"
      by (subst (asm) getlines.simps) simp
    with False "1.IH" show ?thesis by (auto dest: set_takeWhileD)
  qed
qed

text \<open>Lists of strings with a separator between them.\<close>

fun sep_by :: "'a list \<Rightarrow> 'a list list \<Rightarrow> 'a list" where
  "sep_by s [] = []"
| "sep_by s [x] = x"
| "sep_by s (x # xs) = x @ s @ sep_by s xs"

lemma sep_by_Cons: "xs \<noteq> [] \<Longrightarrow> sep_by s (x # xs) = x @ s @ sep_by s xs"
  by (cases xs) simp_all

lemma sep_by_concat: "sep_by s (x # xs) = x @ concat (map (\<lambda>y. s @ y) xs)"
  by (induction xs arbitrary: x) simp_all

lemma sep_by_snoc: "xs \<noteq> [] \<Longrightarrow> sep_by s (xs @ [x]) = sep_by s xs @ s @ x"
  by (induction xs rule: induct_list012) simp_all

lemma concat_sep_by: "xs \<noteq> [] \<Longrightarrow> concat (map (\<lambda>x. x @ s) xs) = sep_by s xs @ s"
  by (induction xs rule: induct_list012) simp_all

lemma hd_sep_by: "xs \<noteq> [] \<Longrightarrow> hd xs \<noteq> [] \<Longrightarrow> sep_by s xs \<noteq> [] \<and> hd (sep_by s xs) = hd (hd xs)"
  by (induction xs rule: induct_list012) simp_all

text \<open>\<open>stream >> word\<close>: skip white space, then read up to the next white space.\<close>

definition read_word :: "string \<Rightarrow> string \<times> string" where
  "read_word s =
     (let t = dropWhile is_space s
      in (takeWhile (\<lambda>c. \<not> is_space c) t, dropWhile (\<lambda>c. \<not> is_space c) t))"

lemma takeWhile_all_append:
  "list_all P a \<Longrightarrow> (b = [] \<or> \<not> P (hd b)) \<Longrightarrow> takeWhile P (a @ b) = a"
  by (induction a) (auto simp: takeWhile_eq_Nil_iff)

lemma dropWhile_all_append:
  "list_all P a \<Longrightarrow> (b = [] \<or> \<not> P (hd b)) \<Longrightarrow> dropWhile P (a @ b) = b"
  by (induction a) (auto simp: dropWhile_eq_self_iff)

lemma read_word_append:
  assumes "w \<noteq> []" and "list_all (\<lambda>c. \<not> is_space c) w" and "b = [] \<or> is_space (hd b)"
  shows "read_word (w @ b) = (w, b)"
proof -
  have "dropWhile is_space (w @ b) = w @ b"
    using assms(1,2) by (cases w) auto
  then show ?thesis
    using assms(2,3) by (simp add: read_word_def takeWhile_all_append dropWhile_all_append)
qed

section \<open>Numbers as text\<close>

definition digit_char :: "nat \<Rightarrow> char" where
  "digit_char d = char_of (48 + d)"

definition digit_val :: "char \<Rightarrow> nat" where
  "digit_val c = of_char c - 48"

text \<open>\<open>std::to_string\<close> on a non-negative and on a signed integer.\<close>

fun nat_to_string :: "nat \<Rightarrow> string" where
  "nat_to_string n =
     (if n < 10 then [digit_char n] else nat_to_string (n div 10) @ [digit_char (n mod 10)])"

declare nat_to_string.simps [simp del]

definition int_to_string :: "int \<Rightarrow> string" where
  "int_to_string i = (if i < 0 then CHR ''-'' # nat_to_string (nat (- i)) else nat_to_string (nat i))"

fun digits_val :: "nat \<Rightarrow> string \<Rightarrow> nat" where
  "digits_val a [] = a"
| "digits_val a (c # cs) = digits_val (10 * a + digit_val c) cs"

text \<open>
  \<open>strtol\<close> in base 10, as \<open>std::stoi\<close> and \<open>std::stol\<close> use it: leading white space, an
  optional sign, then the longest run of digits; no digit at all is
  \<open>std::invalid_argument\<close>, a value outside the type's range is
  \<open>std::out_of_range\<close>.
\<close>

definition parse_signed :: "string \<Rightarrow> int res" where
  "parse_signed s =
     (let t = dropWhile is_space s;
          neg = (t \<noteq> [] \<and> hd t = CHR ''-'');
          u = (if t \<noteq> [] \<and> (hd t = CHR ''-'' \<or> hd t = CHR ''+'') then tl t else t);
          ds = takeWhile is_digit u
      in if ds = [] then Inl (InvalidArgument ''stoi'')
         else Inr (if neg then - int (digits_val 0 ds) else int (digits_val 0 ds)))"

definition in_int_range :: "nat \<Rightarrow> int \<Rightarrow> bool" where
  "in_int_range w v \<longleftrightarrow> - (2 ^ (w - 1)) \<le> v \<and> v < 2 ^ (w - 1)"

definition stoi :: "string \<Rightarrow> int res" where
  "stoi s = bind_res (parse_signed s)
     (\<lambda>v. if in_int_range 32 v then Inr v else Inl OutOfRange)"

definition stol :: "string \<Rightarrow> int res" where
  "stol s = bind_res (parse_signed s)
     (\<lambda>v. if in_int_range 64 v then Inr v else Inl OutOfRange)"

text \<open>
  \<open>std::from_chars\<close> into a \<open>size_t\<close>: no white space and no sign is skipped, and on
  failure (no digit, or a value of 64 bits exceeded) the variable keeps its old value.
\<close>

definition from_chars_size :: "string \<Rightarrow> nat \<Rightarrow> nat" where
  "from_chars_size s old =
     (let ds = takeWhile is_digit s; v = digits_val 0 ds
      in if ds = [] then old else if v < 2 ^ 64 then v else old)"

lemma of_char_digit_char [bytes_simps]: "d < 10 \<Longrightarrow> of_char (digit_char d) = 48 + d"
  by (simp add: digit_char_def)

lemma digit_val_digit_char [simp]: "d < 10 \<Longrightarrow> digit_val (digit_char d) = d"
  by (simp add: digit_val_def of_char_digit_char)

lemma is_digit_digit_char [simp]: "d < 10 \<Longrightarrow> is_digit (digit_char d)"
  by (simp add: is_digit_def of_char_digit_char)

lemma digits_val_append: "digits_val a (xs @ ys) = digits_val (digits_val a xs) ys"
  by (induction xs arbitrary: a) auto

lemma nat_to_string_nonempty [simp]: "nat_to_string n \<noteq> []"
  by (subst nat_to_string.simps) simp

lemma nat_to_string_digits: "list_all is_digit (nat_to_string n)"
proof (induction n rule: nat_to_string.induct)
  case (1 n)
  then show ?case by (subst nat_to_string.simps) simp
qed

lemma digits_val_nat_to_string [simp]: "digits_val 0 (nat_to_string n) = n"
proof (induction n rule: nat_to_string.induct)
  case (1 n)
  then show ?case by (subst nat_to_string.simps) (simp add: digits_val_append)
qed

lemma takeWhile_nat_to_string:
  "rest = [] \<or> \<not> is_digit (hd rest) \<Longrightarrow> takeWhile is_digit (nat_to_string n @ rest) = nat_to_string n"
  by (rule takeWhile_all_append [OF nat_to_string_digits])

lemma hd_nat_to_string: "is_digit (hd (nat_to_string n))"
  using nat_to_string_digits [of n] by (cases "nat_to_string n") auto

lemma is_digit_not_sign: "is_digit c \<Longrightarrow> c \<noteq> CHR ''-'' \<and> c \<noteq> CHR ''+''"
  by (auto simp: is_digit_def)

lemma parse_signed_nat:
  assumes "rest = [] \<or> \<not> is_digit (hd rest)"
  shows "parse_signed (nat_to_string n @ rest) = Inr (int n)"
proof -
  obtain c cs where c: "nat_to_string n = c # cs" by (cases "nat_to_string n") auto
  with hd_nat_to_string [of n] have d: "is_digit c" by simp
  have "dropWhile is_space (nat_to_string n @ rest) = nat_to_string n @ rest"
    using c is_digit_not_space [OF d] by simp
  moreover have "hd (nat_to_string n @ rest) = c" using c by simp
  ultimately show ?thesis
    using is_digit_not_sign [OF d] takeWhile_nat_to_string [OF assms]
    by (simp add: parse_signed_def Let_def)
qed

lemma parse_signed_int:
  assumes "rest = [] \<or> \<not> is_digit (hd rest)"
  shows "parse_signed (int_to_string i @ rest) = Inr i"
proof (cases "i < 0")
  case True
  have "\<not> is_space CHR ''-''" by (simp add: is_space_def)
  with True show ?thesis
    using takeWhile_nat_to_string [OF assms, of "nat (- i)"]
    by (simp add: parse_signed_def Let_def int_to_string_def)
next
  case False
  then show ?thesis by (simp add: int_to_string_def parse_signed_nat [OF assms])
qed

lemma stoi_int_to_string:
  "rest = [] \<or> \<not> is_digit (hd rest) \<Longrightarrow> in_int_range 32 i \<Longrightarrow> stoi (int_to_string i @ rest) = Inr i"
  by (simp add: stoi_def parse_signed_int)

lemma stol_int_to_string:
  "rest = [] \<or> \<not> is_digit (hd rest) \<Longrightarrow> in_int_range 64 i \<Longrightarrow> stol (int_to_string i @ rest) = Inr i"
  by (simp add: stol_def parse_signed_int)

lemma from_chars_size_nat_to_string:
  "rest = [] \<or> \<not> is_digit (hd rest) \<Longrightarrow> n < 2 ^ 64 \<Longrightarrow>
    from_chars_size (nat_to_string n @ rest) old = n"
  using takeWhile_nat_to_string by (simp add: from_chars_size_def)

lemma int_to_string_chars: "c \<in> set (int_to_string i) \<Longrightarrow> is_digit c \<or> c = CHR ''-''"
  using nat_to_string_digits by (auto simp: int_to_string_def list_all_iff split: if_splits)

end
