(* ===== verification/Env.thy ===== *)
theory Env
  imports Prelude
begin

text \<open>
  \<open>env/EnvConfig.h\<close>: the configuration read from a \<open>.env\<close> file, with the process
  environment taking precedence. A file is its content (\<^const>\<open>None\<close> when it cannot be
  opened), the process environment a function, and the singleton's \<open>vars_\<close> a string map.
\<close>

section \<open>Reading a file\<close>

text \<open>\<open>s.find_last_not_of(set)\<close>.\<close>

definition find_last_not_of :: "char list \<Rightarrow> string \<Rightarrow> nat option" where
  "find_last_not_of cs s =
     (let n = length (dropWhile (\<lambda>c. c \<in> set cs) (rev s)) in if n = 0 then None else Some (n - 1))"

text \<open>\<open>s.erase(s.find_last_not_of(cs) + 1)\<close>, where \<open>npos + 1\<close> is \<open>0\<close>, and
  \<open>s.erase(0, s.find_first_not_of(cs))\<close>, where \<open>npos\<close> erases everything.\<close>

definition trim_end :: "char list \<Rightarrow> string \<Rightarrow> string" where
  "trim_end cs s = take (pos_plus (find_last_not_of cs s) 1) s"

definition trim_start :: "char list \<Rightarrow> string \<Rightarrow> string" where
  "trim_start cs s = (case find_first_not_of cs s 0 of Some i \<Rightarrow> drop i s | None \<Rightarrow> [])"

definition env_blanks :: string where
  "env_blanks = [CHR '' '', CHR 0x09, CHR 0x0D]"

definition strip_quotes :: "string \<Rightarrow> string" where
  "strip_quotes value =
     (if 2 \<le> length value \<and>
         (hd value = CHR 0x22 \<and> last value = CHR 0x22 \<or> hd value = CHR 0x27 \<and> last value = CHR 0x27)
      then slice value 1 (length value - 2) else value)"

definition env_line :: "string \<Rightarrow> (string \<times> string) option" where
  "env_line raw =
     (let line = dropWhile is_space raw in
      if line = [] \<or> hd line = CHR ''#'' then None
      else case find_sub ''='' line of
          None \<Rightarrow> None
        | Some eqPos \<Rightarrow>
            let key = trim_start env_blanks (trim_end env_blanks (slice line 0 eqPos));
                value = trim_start env_blanks (trim_end env_blanks (drop (eqPos + 1) line))
            in Some (key, strip_quotes value))"

definition set_env_line :: "smap \<Rightarrow> string \<Rightarrow> smap" where
  "set_env_line vars raw = (case env_line raw of None \<Rightarrow> vars | Some (k, v) \<Rightarrow> smap_set k v vars)"

definition LoadEnv :: "string option \<Rightarrow> smap \<Rightarrow> smap" where
  "LoadEnv content vars =
     (case content of None \<Rightarrow> vars | Some s \<Rightarrow> foldl set_env_line vars (getlines CHR 0x0A s))"

definition GetEnv :: "(string \<Rightarrow> string option) \<Rightarrow> smap \<Rightarrow> string \<Rightarrow> string option" where
  "GetEnv env vars key =
     (case env key of Some val \<Rightarrow> Some val | None \<Rightarrow> map_of vars key)"

definition GetEnvDefault :: "(string \<Rightarrow> string option) \<Rightarrow> smap \<Rightarrow> string \<Rightarrow> string \<Rightarrow> string" where
  "GetEnvDefault env vars key defaultValue =
     (case env key of Some val \<Rightarrow> val
      | None \<Rightarrow> (case map_of vars key of Some v \<Rightarrow> v | None \<Rightarrow> defaultValue))"

section \<open>Trimming\<close>

lemma npos_plus_1 [simp]: "pos_plus None 1 = 0"
  by (simp add: pos_plus_def npos_def)

lemma trim_end_rev: "trim_end cs s = rev (dropWhile (\<lambda>c. c \<in> set cs) (rev s))"
proof -
  let ?d = "dropWhile (\<lambda>c. c \<in> set cs) (rev s)"
  have "s = rev ?d @ rev (takeWhile (\<lambda>c. c \<in> set cs) (rev s))"
    by (metis rev_append rev_rev_ident takeWhile_dropWhile_id)
  then have "take (length ?d) s = rev ?d" by (metis append_eq_conv_conj length_rev)
  moreover have "pos_plus (find_last_not_of cs s) 1 = length ?d"
    by (simp add: find_last_not_of_def Let_def pos_plus_def npos_def)
  ultimately show ?thesis by (simp add: trim_end_def)
qed

lemma trim_start_dropWhile: "trim_start cs s = dropWhile (\<lambda>c. c \<in> set cs) s"
proof -
  have "dropWhile (\<lambda>c. c \<in> set cs) s = drop (length (takeWhile (\<lambda>c. c \<in> set cs) s)) s"
    by (metis append_eq_conv_conj takeWhile_dropWhile_id)
  then show ?thesis
    by (auto simp: trim_start_def find_first_not_of_def Let_def split: option.splits)
qed

lemma trim_id:
  assumes "s = [] \<or> hd s \<notin> set cs \<and> last s \<notin> set cs"
  shows "trim_start cs (trim_end cs s) = s"
proof -
  have "dropWhile (\<lambda>c. c \<in> set cs) (rev s) = rev s"
    using assms by (cases "s = []") (auto simp: dropWhile_eq_self_iff hd_rev)
  then have "trim_start cs (trim_end cs s) = dropWhile (\<lambda>c. c \<in> set cs) s"
    by (simp only: trim_end_rev trim_start_dropWhile rev_rev_ident)
  also have "\<dots> = s" using assms by (auto simp: dropWhile_eq_self_iff)
  finally show ?thesis .
qed

section \<open>Lines that assign\<close>

definition plain_key :: "string \<Rightarrow> bool" where
  "plain_key k \<longleftrightarrow> k \<noteq> [] \<and> list_all (\<lambda>c. \<not> is_space c \<and> c \<noteq> CHR ''='') k \<and> hd k \<noteq> CHR ''#''"

lemma blank_is_space: "c \<in> set env_blanks \<Longrightarrow> is_space c"
  by (auto simp: env_blanks_def is_space_def)

lemma env_line_assign:
  assumes "plain_key k" and "v = [] \<or> hd v \<notin> set env_blanks \<and> last v \<notin> set env_blanks"
  shows "env_line (k @ ''='' @ v) = Some (k, strip_quotes v)"
proof -
  from assms(1) have k: "k \<noteq> []" "\<not> is_space (hd k)" "\<not> is_space (last k)" "CHR ''='' \<notin> set k"
    by (auto simp: plain_key_def list_all_iff)
  have l: "dropWhile is_space (k @ ''='' @ v) = k @ ''='' @ v"
    using k by (simp add: dropWhile_eq_self_iff)
  have f: "find_sub ''='' (k @ ''='' @ v) = Some (length k)"
    using k by (simp add: find_sub_skip)
  have "trim_start env_blanks (trim_end env_blanks k) = k"
    using k by (intro trim_id) (auto dest: blank_is_space)
  moreover have "slice (k @ ''='' @ v) 0 (length k) = k" by (simp add: slice_def)
  moreover have "hd (k @ ''='' @ v) \<noteq> CHR ''#''" using assms(1) k by (simp add: plain_key_def)
  ultimately show ?thesis
    using trim_id [OF assms(2)] k(1) unfolding env_line_def Let_def l f by simp
qed

lemma strip_quotes_quoted: "strip_quotes (CHR 0x22 # v @ [CHR 0x22]) = v"
  by (simp add: strip_quotes_def slice_def)

lemma env_line_quoted:
  "plain_key k \<Longrightarrow> env_line (k @ ''='' @ CHR 0x22 # v @ [CHR 0x22]) = Some (k, v)"
  by (subst env_line_assign) (simp_all add: strip_quotes_quoted env_blanks_def)

lemma env_line_comment: "env_line (CHR ''#'' # s) = None"
  by (simp add: env_line_def is_space_def)

definition env_file :: "(string \<times> string) list \<Rightarrow> string" where
  "env_file kvs = concat (map (\<lambda>(k, v). k @ ''='' @ CHR 0x22 # v @ [CHR 0x22, CHR 0x0A]) kvs)"

lemma newline_is_space: "is_space CHR 0x0A"
  by (simp add: is_space_def)

lemma plain_key_no_newline: "plain_key k \<Longrightarrow> CHR 0x0A \<notin> set k"
  using newline_is_space by (auto simp: plain_key_def list_all_iff)

lemma getlines_env_file:
  "list_all (\<lambda>(k, v). plain_key k \<and> CHR 0x0A \<notin> set v) kvs \<Longrightarrow>
    getlines CHR 0x0A (env_file kvs) = map (\<lambda>(k, v). k @ ''='' @ CHR 0x22 # v @ [CHR 0x22]) kvs"
proof (induction kvs)
  case (Cons kv kvs)
  obtain k v where kv: "kv = (k, v)" by (cases kv)
  have "CHR 0x0A \<notin> set (k @ ''='' @ CHR 0x22 # v @ [CHR 0x22])"
    using Cons.prems plain_key_no_newline by (auto simp: kv)
  with Cons show ?case
    using getlines_delim [of "CHR 0x0A" "k @ ''='' @ CHR 0x22 # v @ [CHR 0x22]" "env_file kvs"]
    by (simp add: env_file_def kv)
qed (simp add: env_file_def)

lemma LoadEnv_env_file:
  assumes "list_all (\<lambda>(k, v). plain_key k \<and> CHR 0x0A \<notin> set v) kvs"
  shows "LoadEnv (Some (env_file kvs)) vars = foldl (\<lambda>m (k, v). smap_set k v m) vars kvs"
  using assms
proof (induction kvs arbitrary: vars)
  case (Cons kv kvs)
  then show ?case
    using getlines_env_file [OF Cons.prems] getlines_env_file [of kvs]
    by (simp add: LoadEnv_def set_env_line_def env_line_quoted [simplified] split: prod.splits)
qed (simp add: LoadEnv_def env_file_def)

lemma map_of_foldl_update:
  "map_of (foldl (\<lambda>m (k, v). smap_set k v m) vars kvs) = map_of vars ++ map_of (rev kvs)"
proof (induction kvs arbitrary: vars)
  case (Cons kv kvs)
  then show ?case by (cases kv) (simp add: update_conv' map_add_upd_left del: fun_upd_apply)
qed simp

section \<open>Property\<close>

text \<open>
  A configuration file is read back faithfully. Loading a file of quoted assignments gives every
  key the value of its last assignment, whatever characters other than a newline the value
  holds; keys not mentioned keep their values, and a variable of the process environment wins over
  the file. A line whose first visible character is \<open>#\<close> assigns nothing.
\<close>

theorem env_roundtrip:
  assumes "list_all (\<lambda>(k, v). plain_key k \<and> CHR 0x0A \<notin> set v) kvs" and "CHR 0x0A \<notin> set comment"
  shows "GetEnv env (LoadEnv (Some (CHR ''#'' # comment @ CHR 0x0A # env_file kvs)) vars) =
      map_of vars ++ map_of (rev kvs) ++ env \<and>
    GetEnvDefault env (LoadEnv (Some (CHR ''#'' # comment @ CHR 0x0A # env_file kvs)) vars) key d =
      (case (map_of vars ++ map_of (rev kvs) ++ env) key of Some v \<Rightarrow> v | None \<Rightarrow> d)"
proof -
  have "LoadEnv (Some (CHR ''#'' # comment @ CHR 0x0A # env_file kvs)) vars = LoadEnv (Some (env_file kvs)) vars"
    using assms(2) getlines_delim [of "CHR 0x0A" "CHR ''#'' # comment" "env_file kvs"]
    by (simp add: LoadEnv_def set_env_line_def env_line_comment)
  then have m: "map_of (LoadEnv (Some (CHR ''#'' # comment @ CHR 0x0A # env_file kvs)) vars) =
      map_of vars ++ map_of (rev kvs)"
    by (simp add: LoadEnv_env_file [OF assms(1)] map_of_foldl_update)
  show ?thesis
    by (auto simp: GetEnv_def GetEnvDefault_def m map_add_def fun_eq_iff split: option.splits)
qed

theorem env_roundtrip_witness:
  "GetEnvDefault (\<lambda>_. None) (LoadEnv (Some (CHR ''#'' # '' local'' @ CHR 0x0A #
      env_file [(''PORT'', ''1''), (''PORT'', ''8 = 8'')])) []) ''PORT'' ''x'' = ''8 = 8''"
  using env_roundtrip [of "[(''PORT'', ''1''), (''PORT'', ''8 = 8'')]" "'' local''" "\<lambda>_. None" "[]" "''PORT''" "''x''"]
  by (simp add: plain_key_def is_space_def)

end
