(* ===== verification/Redis.thy ===== *)
theory Redis
  imports Prelude
begin

text \<open>
  \<open>services/RedisClient.h\<close>: the commands, the RESP encoder and the reply readers. The socket is the
  list of the byte runs that successive \<open>recv\<close> calls find (an empty list is the end of the stream)
  and the numbers of bytes that successive \<open>send\<close> calls take; a socket that has been closed gives
  errors. \<open>connect\<close> is a parameter that says whether the socket could be opened, and on what streams.
\<close>

section \<open>The client\<close>

record redis =
  redis_open :: bool
  redis_in :: "string list"
  redis_sends :: "nat list"
  redis_out :: string

definition new_redis :: redis where
  "new_redis = \<lparr>redis_open = False, redis_in = [], redis_sends = [], redis_out = []\<rparr>"

definition connect_redis :: "(string list \<times> nat list) option \<Rightarrow> redis \<Rightarrow> bool \<times> redis" where
  "connect_redis socket c =
     (case socket of
        None \<Rightarrow> (False, c\<lparr>redis_open := False\<rparr>)
      | Some (segs, sends) \<Rightarrow> (True, c\<lparr>redis_open := True, redis_in := segs, redis_sends := sends\<rparr>))"

definition disconnect :: "redis \<Rightarrow> redis" where
  "disconnect c = c\<lparr>redis_open := False\<rparr>"

definition isConnected :: "redis \<Rightarrow> bool" where
  "isConnected c = redis_open c"

text \<open>One call of \<open>recv\<close> for at most \<open>n\<close> bytes; no byte means the end of the stream or an error.\<close>

fun take_run :: "nat \<Rightarrow> string list \<Rightarrow> string \<times> string list" where
  "take_run n [] = ([], [])"
| "take_run n (s # ss) =
     (if s = [] then take_run n ss
      else (take n s, if drop n s = [] then ss else drop n s # ss))"

definition recv_redis :: "nat \<Rightarrow> redis \<Rightarrow> string \<times> redis" where
  "recv_redis n c =
     (if redis_open c
      then (case take_run n (redis_in c) of (got, segs) \<Rightarrow> (got, c\<lparr>redis_in := segs\<rparr>))
      else ([], c))"

section \<open>Sending\<close>

definition resp_crlf :: string where
  "resp_crlf = [CHR 0x0D, CHR 0x0A]"

definition encode_bulk :: "string \<Rightarrow> string" where
  "encode_bulk arg = ''$'' @ nat_to_string (length arg) @ resp_crlf @ arg @ resp_crlf"

definition encode_command :: "string list \<Rightarrow> string" where
  "encode_command args = ''*'' @ nat_to_string (length args) @ resp_crlf @ concat (map encode_bulk args)"

text \<open>The loop over \<open>send\<close>: a call that takes nothing is a failure. What was taken, and what is left.\<close>

fun send_loop :: "nat list \<Rightarrow> string \<Rightarrow> string \<times> nat list \<times> bool" where
  "send_loop ks [] = ([], ks, True)"
| "send_loop [] (c # cs) = ([], [], False)"
| "send_loop (k # ks) (c # cs) =
     (if k = 0 then ([], ks, False)
      else case send_loop ks (drop k (c # cs)) of (out, ks', ok) \<Rightarrow> (take k (c # cs) @ out, ks', ok))"

definition sendCommand :: "string list \<Rightarrow> redis \<Rightarrow> redis" where
  "sendCommand args c =
     (if \<not> redis_open c then disconnect c
      else case send_loop (redis_sends c) (encode_command args) of
        (out, ks, ok) \<Rightarrow>
          let c' = c\<lparr>redis_out := redis_out c @ out, redis_sends := ks\<rparr>
          in if ok then c' else disconnect c')"

section \<open>Reading replies\<close>

lemma take_run_length:
  "take_run n segs = (got, segs') \<Longrightarrow> got @ concat segs' = concat segs \<and> (got = [] \<longrightarrow> n = 0 \<or> concat segs = [])"
  by (induction segs) (auto split: if_splits)

lemma recv_redis_Suc:
  assumes "recv_redis (Suc n) c = (b # bs, c')"
  shows "length (concat (redis_in c')) < length (concat (redis_in c))"
proof -
  from assms obtain segs where t: "take_run (Suc n) (redis_in c) = (b # bs, segs)" "redis_in c' = segs"
    by (auto simp: recv_redis_def split: if_splits prod.splits)
  then have "concat (redis_in c) = (b # bs) @ concat segs" using take_run_length [of "Suc n" "redis_in c"] by auto
  with t(2) show ?thesis by simp
qed

text \<open>Read up to a carriage return, one byte at a time; the byte after it is dropped unseen.\<close>

function read_line_loop :: "string \<Rightarrow> redis \<Rightarrow> string \<times> redis" where
  "read_line_loop line c =
     (case recv_redis 1 c of
        ([], c') \<Rightarrow> ([], disconnect c')
      | (b # _, c') \<Rightarrow>
          if b = CHR 0x0D then (line, snd (recv_redis 1 c'))
          else read_line_loop (line @ [b]) c')"
  by pat_completeness auto
termination
  by (relation "measure (\<lambda>(line, c). length (concat (redis_in c)))") (auto dest!: recv_redis_Suc [OF sym])

definition readLine :: "redis \<Rightarrow> string \<times> redis" where
  "readLine c = read_line_loop [] c"

function read_bytes_loop :: "nat \<Rightarrow> string \<Rightarrow> redis \<Rightarrow> string option \<times> redis" where
  "read_bytes_loop count buf c =
     (if count \<le> length buf then (Some buf, c)
      else case recv_redis (count - length buf) c of
          ([], c') \<Rightarrow> (None, disconnect c')
        | (b # bs, c') \<Rightarrow> read_bytes_loop count (buf @ b # bs) c')"
  by pat_completeness auto
termination
  by (relation "measure (\<lambda>(count, buf, c). count - length buf)") auto

declare read_line_loop.simps [simp del] read_bytes_loop.simps [simp del]

text \<open>The two bytes of the line end are asked for with a single \<open>recv\<close>, which may find only one.\<close>

definition readBytes :: "nat \<Rightarrow> redis \<Rightarrow> string \<times> redis" where
  "readBytes count c =
     (case read_bytes_loop count [] c of
        (None, c') \<Rightarrow> ([], c')
      | (Some buf, c') \<Rightarrow> (buf, snd (recv_redis 2 c')))"

definition readInteger :: "redis \<Rightarrow> int res \<times> redis" where
  "readInteger c =
     (case readLine c of (line, c') \<Rightarrow>
        if line = [] \<or> hd line \<noteq> CHR '':'' then (Inr 0, c') else (stoi (tl line), c'))"

definition readBulkString :: "redis \<Rightarrow> string option res \<times> redis" where
  "readBulkString c =
     (case readLine c of (line, c') \<Rightarrow>
        if line = [] then (Inr None, c')
        else if hd line = CHR ''$'' then
          (case stoi (tl line) of
             Inl e \<Rightarrow> (Inl e, c')
           | Inr len \<Rightarrow>
               if len < 0 then (Inr None, c')
               else case readBytes (nat len) c' of (buf, c'') \<Rightarrow> (Inr (Some buf), c''))
        else if hd line = CHR ''+'' then (Inr (Some (tl line)), c')
        else (Inr None, c'))"

fun read_elements :: "nat \<Rightarrow> redis \<Rightarrow> string list res \<times> redis" where
  "read_elements 0 c = (Inr [], c)"
| "read_elements (Suc n) c =
     (case readBulkString c of
        (Inl e, c') \<Rightarrow> (Inl e, c')
      | (Inr v, c') \<Rightarrow>
          (case read_elements n c' of
             (Inl e, c'') \<Rightarrow> (Inl e, c'')
           | (Inr vs, c'') \<Rightarrow> (Inr ((case v of None \<Rightarrow> [] | Some x \<Rightarrow> x) # vs), c'')))"

definition readArray :: "redis \<Rightarrow> string list res \<times> redis" where
  "readArray c =
     (case readLine c of (line, c') \<Rightarrow>
        if line = [] \<or> hd line \<noteq> CHR ''*'' then (Inr [], c')
        else case stoi (tl line) of
            Inl e \<Rightarrow> (Inl e, c')
          | Inr count \<Rightarrow> read_elements (nat count) c')"

section \<open>Commands\<close>

definition redis_set :: "string \<Rightarrow> string \<Rightarrow> redis \<Rightarrow> bool \<times> redis" where
  "redis_set key value c =
     (case readLine (sendCommand [''SET'', key, value] c) of (reply, c') \<Rightarrow> (reply = ''+OK'', c'))"

definition redis_get :: "string \<Rightarrow> redis \<Rightarrow> string option res \<times> redis" where
  "redis_get key c = readBulkString (sendCommand [''GET'', key] c)"

definition redis_incr :: "string \<Rightarrow> redis \<Rightarrow> int res \<times> redis" where
  "redis_incr key c = readInteger (sendCommand [''INCR'', key] c)"

definition redis_decr :: "string \<Rightarrow> redis \<Rightarrow> int res \<times> redis" where
  "redis_decr key c = readInteger (sendCommand [''DECR'', key] c)"

definition redis_del :: "string \<Rightarrow> redis \<Rightarrow> bool res \<times> redis" where
  "redis_del key c =
     (case readInteger (sendCommand [''DEL'', key] c) of (r, c') \<Rightarrow> (bind_res r (\<lambda>n. Inr (0 < n)), c'))"

definition redis_publish :: "string \<Rightarrow> string \<Rightarrow> redis \<Rightarrow> int res \<times> redis" where
  "redis_publish channel message c = readInteger (sendCommand [''PUBLISH'', channel, message] c)"
section \<open>Progress\<close>

definition unread :: "redis \<Rightarrow> string" where
  "unread c = concat (redis_in c)"

text \<open>Reading never opens a socket, and only ever moves forward in the stream.\<close>

definition advances :: "redis \<Rightarrow> redis \<Rightarrow> bool" where
  "advances c c' \<longleftrightarrow> (redis_open c' \<longrightarrow> redis_open c) \<and> length (unread c') \<le> length (unread c)"

lemma advances_refl: "advances c c"
  by (simp add: advances_def)

lemma advances_trans [trans]: "advances a b \<Longrightarrow> advances b c \<Longrightarrow> advances a c"
  by (auto simp: advances_def)

lemma advances_disconnect [simp]: "advances c c' \<Longrightarrow> advances c (disconnect c')"
  by (simp add: advances_def disconnect_def unread_def)

lemma advances_recv: "recv_redis n c = (got, c') \<Longrightarrow> advances c c'"
  using take_run_length [of n "redis_in c"]
  by (fastforce simp: advances_def unread_def recv_redis_def dest: arg_cong [where f = length]
    split: if_splits prod.splits)

lemma advances_read_line_loop:
  "read_line_loop line c = (l, c') \<Longrightarrow>
    advances c c' \<and> (redis_open c' \<longrightarrow> length (unread c') < length (unread c))"
proof (induction line c arbitrary: l c' rule: read_line_loop.induct)
  case (1 line c)
  obtain got c1 where r: "recv_redis 1 c = (got, c1)" by fastforce
  show ?case
  proof (cases got)
    case Nil
    then show ?thesis using "1.prems" r advances_recv [OF r]
      by (auto simp: read_line_loop.simps disconnect_def advances_def unread_def)
  next
    case (Cons b bs)
    then have lt: "length (unread c1) < length (unread c)"
      using recv_redis_Suc [of 0 c b bs c1] r by (simp add: unread_def)
    obtain got2 c2 where r2: "recv_redis 1 c1 = (got2, c2)" by fastforce
    show ?thesis
      using "1.prems" "1.IH" [of got c1 b bs l c'] Cons r r2 lt advances_recv [OF r] advances_recv [OF r2]
      by (auto simp: read_line_loop.simps [of line] advances_def split: if_splits)
  qed
qed

lemma advances_readLine:
  "readLine c = (l, c') \<Longrightarrow> advances c c' \<and> (redis_open c' \<longrightarrow> length (unread c') < length (unread c))"
  unfolding readLine_def by (rule advances_read_line_loop)

lemma advances_read_bytes_loop: "read_bytes_loop count buf c = (r, c') \<Longrightarrow> advances c c'"
proof (induction count buf c arbitrary: r c' rule: read_bytes_loop.induct)
  case (1 count buf c)
  obtain got c1 where g: "recv_redis (count - length buf) c = (got, c1)" by fastforce
  show ?case
    using "1.prems" "1.IH" [OF _ g [symmetric]] advances_recv [OF g] g
    by (cases got) (auto simp: read_bytes_loop.simps [of count buf] advances_refl
      intro: advances_trans split: if_splits)
qed

lemma advances_readBytes: "readBytes n c = (buf, c') \<Longrightarrow> advances c c'"
proof -
  assume r: "readBytes n c = (buf, c')"
  obtain x c1 where l: "read_bytes_loop n [] c = (x, c1)" by fastforce
  obtain got c2 where g: "recv_redis 2 c1 = (got, c2)" by fastforce
  show ?thesis
    using r l g advances_read_bytes_loop [OF l] advances_recv [OF g]
    by (auto simp: readBytes_def intro: advances_trans split: option.splits)
qed

lemma advances_readBulkString: "readBulkString c = (r, c') \<Longrightarrow> advances c c'"
proof -
  assume r: "readBulkString c = (r, c')"
  obtain l c1 where l: "readLine c = (l, c1)" by fastforce
  obtain buf c2 where b: "readBytes (nat (projr (stoi (tl l)))) c1 = (buf, c2)" by fastforce
  have "c' = c1 \<or> c' = c2"
    using r l b by (auto simp: readBulkString_def split: if_splits sum.splits)
  with advances_readLine [OF l] advances_readBytes [OF b] show ?thesis by (auto intro: advances_trans)
qed

lemma advances_read_elements: "read_elements n c = (r, c') \<Longrightarrow> advances c c'"
proof (induction n arbitrary: c r c')
  case (Suc n)
  obtain v c1 where v: "readBulkString c = (v, c1)" by fastforce
  obtain vs c2 where vs: "read_elements n c1 = (vs, c2)" by fastforce
  show ?case
    using Suc.prems v vs Suc.IH [OF vs] advances_readBulkString [OF v]
    by (auto intro: advances_trans split: sum.splits)
qed (simp add: advances_refl)

lemma advances_readArray:
  assumes "readArray c = (r, c')"
  shows "advances c c' \<and> (redis_open c' \<longrightarrow> length (unread c') < length (unread c))"
proof -
  obtain l c1 where l: "readLine c = (l, c1)" by fastforce
  obtain vs c2 where vs: "read_elements (nat (projr (stoi (tl l)))) c1 = (vs, c2)" by fastforce
  have "c' = c1 \<or> c' = c2"
    using assms l vs by (auto simp: readArray_def split: if_splits sum.splits)
  with advances_readLine [OF l] advances_read_elements [OF vs] show ?thesis
    by (auto simp: advances_def)
qed

section \<open>Subscriptions\<close>

text \<open>
  The three subscription loops differ in the command, the number of confirmations and the shape of the
  messages. They run until the socket is closed or an exception leaves the loop.
\<close>

definition message_of :: "string list \<Rightarrow> (string \<times> string) option" where
  "message_of arr =
     (if length arr = 3 \<and> arr ! 0 = ''message'' then Some (arr ! 1, arr ! 2) else None)"

definition pmessage_of :: "string list \<Rightarrow> (string \<times> string) option" where
  "pmessage_of arr =
     (if length arr = 4 \<and> arr ! 0 = ''pmessage'' then Some (arr ! 2, arr ! 3) else None)"

function sub_loop ::
    "(string list \<Rightarrow> (string \<times> string) option) \<Rightarrow> (string \<Rightarrow> string \<Rightarrow> 'w \<Rightarrow> 'w) \<Rightarrow>
     redis \<Rightarrow> 'w \<Rightarrow> exn option \<times> redis \<times> 'w" where
  "sub_loop shape callback c w =
     (if \<not> redis_open c then (None, c, w)
      else case readArray c of
          (Inl e, c') \<Rightarrow> (Some e, c', w)
        | (Inr arr, c') \<Rightarrow>
            sub_loop shape callback c'
              (case shape arr of None \<Rightarrow> w | Some (channel, message) \<Rightarrow> callback channel message w))"
  by pat_completeness auto
termination
  by (relation "measures [\<lambda>(_, _, c, _). if redis_open c then 1 else 0, \<lambda>(_, _, c, _). length (unread c)]")
    (auto dest!: advances_readArray [OF sym] simp: advances_def)

declare sub_loop.simps [simp del]

fun skip_arrays :: "nat \<Rightarrow> redis \<Rightarrow> exn option \<times> redis" where
  "skip_arrays 0 c = (None, c)"
| "skip_arrays (Suc n) c =
     (case readArray c of (Inl e, c') \<Rightarrow> (Some e, c') | (Inr _, c') \<Rightarrow> skip_arrays n c')"

definition subscribe_with ::
    "string list \<Rightarrow> nat \<Rightarrow> (string list \<Rightarrow> (string \<times> string) option) \<Rightarrow>
     (string \<Rightarrow> string \<Rightarrow> 'w \<Rightarrow> 'w) \<Rightarrow> redis \<Rightarrow> 'w \<Rightarrow> exn option \<times> redis \<times> 'w" where
  "subscribe_with cmd confirmations shape callback c w =
     (case skip_arrays confirmations (sendCommand cmd c) of
        (Some e, c') \<Rightarrow> (Some e, c', w)
      | (None, c') \<Rightarrow> sub_loop shape callback c' w)"

definition subscribe :: "string \<Rightarrow> (string \<Rightarrow> string \<Rightarrow> 'w \<Rightarrow> 'w) \<Rightarrow> redis \<Rightarrow> 'w \<Rightarrow> exn option \<times> redis \<times> 'w" where
  "subscribe channel callback = subscribe_with [''SUBSCRIBE'', channel] 1 message_of callback"

definition psubscribe :: "string \<Rightarrow> (string \<Rightarrow> string \<Rightarrow> 'w \<Rightarrow> 'w) \<Rightarrow> redis \<Rightarrow> 'w \<Rightarrow> exn option \<times> redis \<times> 'w" where
  "psubscribe pattern callback = subscribe_with [''PSUBSCRIBE'', pattern] 1 pmessage_of callback"

definition subscribeMultiple ::
    "string list \<Rightarrow> (string \<Rightarrow> string \<Rightarrow> 'w \<Rightarrow> 'w) \<Rightarrow> redis \<Rightarrow> 'w \<Rightarrow> exn option \<times> redis \<times> 'w" where
  "subscribeMultiple channels callback =
     subscribe_with (''SUBSCRIBE'' # channels) (length channels) message_of callback"
section \<open>Reading what is there\<close>

text \<open>
  \<open>feeds segs s\<close>: the runs add up to the bytes \<open>s\<close>, and none of them ends with a carriage return, so that
  the line end behind a bulk string is found in one piece.
\<close>

definition feeds :: "string list \<Rightarrow> string \<Rightarrow> bool" where
  "feeds segs s \<longleftrightarrow> concat segs = s \<and> (\<forall>x \<in> set segs. x \<noteq> [] \<longrightarrow> last x \<noteq> CHR 0x0D)"

lemma feeds_take_run:
  assumes "feeds segs s" and "s \<noteq> []" and "0 < n"
  obtains got segs' s' where "take_run n segs = (got, segs')" and "got \<noteq> []" and "length got \<le> n"
    and "s = got @ s'" and "feeds segs' s'"
    and "got \<noteq> [CHR 0x0D] \<or> n = 1"
  using assms
proof (induction segs arbitrary: thesis)
  case (Cons x xs)
  show ?case
  proof (cases "x = []")
    case True
    with Cons.IH Cons.prems show ?thesis by (auto simp: feeds_def)
  next
    case False
    let ?segs = "if drop n x = [] then xs else drop n x # xs"
    have t: "take_run n (x # xs) = (take n x, ?segs)" using False by simp
    have s: "s = take n x @ concat ?segs" "concat (x # xs) = s" using Cons.prems(2)
      by (auto simp: feeds_def simp flip: append_assoc)
    have f: "feeds ?segs (concat ?segs)"
      using Cons.prems(2) False by (auto simp: feeds_def last_drop)
    have "take n x \<noteq> [CHR 0x0D] \<or> n = 1"
    proof (rule ccontr)
      assume *: "\<not> ?thesis"
      with Cons.prems(4) have "1 < n" "take n x = [CHR 0x0D]" by auto
      then have "length (take n x) = 1" by simp
      with \<open>1 < n\<close> have "length x \<le> n" by (simp add: min_def split: if_splits)
      with * have "x = [CHR 0x0D]" by simp
      with Cons.prems(2) show False by (simp add: feeds_def)
    qed
    with Cons.prems(1) [OF t _ _ s(1) f] False Cons.prems(4) show ?thesis by simp
  qed
qed (simp add: feeds_def)

lemma recv_one:
  assumes "redis_open c" and "feeds (redis_in c) (b # s)"
  obtains segs where "recv_redis 1 c = ([b], c\<lparr>redis_in := segs\<rparr>)" and "feeds segs s"
proof -
  from feeds_take_run [OF assms(2), of 1] obtain got segs s'
    where t: "take_run 1 (redis_in c) = (got, segs)" "got \<noteq> []" "length got \<le> 1" "b # s = got @ s'" "feeds segs s'"
    by auto
  then have "got = [b] \<and> s' = s" by (cases got) auto
  with t that [of segs] assms(1) show thesis by (simp add: recv_redis_def)
qed

lemma recv_crlf:
  assumes "redis_open c" and "feeds (redis_in c) (resp_crlf @ s)"
  obtains segs where "recv_redis 2 c = (resp_crlf, c\<lparr>redis_in := segs\<rparr>)" and "feeds segs s"
proof -
  from feeds_take_run [OF assms(2), of 2] obtain got segs s'
    where t: "take_run 2 (redis_in c) = (got, segs)" "got \<noteq> []" "length got \<le> 2" "resp_crlf @ s = got @ s'"
      "feeds segs s'" "got \<noteq> [CHR 0x0D]"
    by (auto simp: resp_crlf_def)
  then have "got = resp_crlf \<and> s' = s"
    by (cases got; cases "tl got") (auto simp: resp_crlf_def)
  with t that [of segs] assms(1) show thesis by (simp add: recv_redis_def)
qed

lemma read_line_loop_line:
  "redis_open c \<Longrightarrow> feeds (redis_in c) (line @ resp_crlf @ s) \<Longrightarrow> CHR 0x0D \<notin> set line \<Longrightarrow>
    \<exists>segs. read_line_loop acc c = (acc @ line, c\<lparr>redis_in := segs\<rparr>) \<and> feeds segs s"
proof (induction line arbitrary: acc c)
  case Nil
  then have "feeds (redis_in c) (CHR 0x0D # CHR 0x0A # s)" by (simp add: resp_crlf_def)
  from recv_one [OF Nil.prems(1) this] obtain segs
    where r: "recv_redis 1 c = ([CHR 0x0D], c\<lparr>redis_in := segs\<rparr>)" "feeds segs (CHR 0x0A # s)" by blast
  from recv_one [of "c\<lparr>redis_in := segs\<rparr>"] Nil.prems(1) r(2) obtain segs'
    where "recv_redis 1 (c\<lparr>redis_in := segs\<rparr>) = ([CHR 0x0A], c\<lparr>redis_in := segs'\<rparr>)" "feeds segs' s" by auto
  with r show ?case by (subst read_line_loop.simps) auto
next
  case (Cons b line)
  from recv_one [OF Cons.prems(1), of b "line @ resp_crlf @ s"] Cons.prems(2) obtain segs
    where r: "recv_redis 1 c = ([b], c\<lparr>redis_in := segs\<rparr>)" "feeds segs (line @ resp_crlf @ s)" by auto
  have "\<exists>segs'. read_line_loop (acc @ [b]) (c\<lparr>redis_in := segs\<rparr>) = ((acc @ [b]) @ line, c\<lparr>redis_in := segs'\<rparr>) \<and> feeds segs' s"
    using Cons.IH [of "c\<lparr>redis_in := segs\<rparr>" "acc @ [b]"] Cons.prems r(2) by simp
  with r(1) Cons.prems(3) show ?case by (subst read_line_loop.simps) auto
qed

lemma readLine_line:
  assumes "redis_open c" and "feeds (redis_in c) (line @ resp_crlf @ s)" and "CHR 0x0D \<notin> set line"
  obtains segs where "readLine c = (line, c\<lparr>redis_in := segs\<rparr>)" and "feeds segs s"
  using read_line_loop_line [OF assms, of "[]"] by (auto simp: readLine_def)

lemma read_bytes_loop_bytes:
  "redis_open c \<Longrightarrow> feeds (redis_in c) (bs @ s) \<Longrightarrow> count = length buf + length bs \<Longrightarrow>
    \<exists>segs. read_bytes_loop count buf c = (Some (buf @ bs), c\<lparr>redis_in := segs\<rparr>) \<and> feeds segs s"
proof (induction "length bs" arbitrary: bs buf c rule: less_induct)
  case less
  show ?case
  proof (cases "bs = []")
    case True
    with less.prems show ?thesis by (auto simp: read_bytes_loop.simps intro!: exI [of _ "redis_in c"])
  next
    case False
    then have "0 < count - length buf" "bs @ s \<noteq> []" using less.prems(3) by auto
    from feeds_take_run [OF less.prems(2) this(2,1)] obtain got segs s'
      where t: "take_run (count - length buf) (redis_in c) = (got, segs)" "got \<noteq> []"
        "length got \<le> count - length buf" "bs @ s = got @ s'" "feeds segs s'" by metis
    then obtain bs' where b: "bs = got @ bs'" "s' = bs' @ s"
      using less.prems(3) by (auto simp: append_eq_append_conv2)
    have r: "recv_redis (count - length buf) c = (got, c\<lparr>redis_in := segs\<rparr>)"
      using less.prems(1) t(1) by (simp add: recv_redis_def)
    have "\<exists>segs'. read_bytes_loop count (buf @ got) (c\<lparr>redis_in := segs\<rparr>) =
        (Some ((buf @ got) @ bs'), c\<lparr>redis_in := segs'\<rparr>) \<and> feeds segs' s"
      using less.hyps [of bs' "c\<lparr>redis_in := segs\<rparr>" "buf @ got"] less.prems t b by simp
    with r t(2) b less.prems(3) show ?thesis
      by (subst read_bytes_loop.simps) (auto simp: neq_Nil_conv split: list.splits)
  qed
qed

lemma readBytes_bulk:
  assumes "redis_open c" and "feeds (redis_in c) (bs @ resp_crlf @ s)"
  obtains segs where "readBytes (length bs) c = (bs, c\<lparr>redis_in := segs\<rparr>)" and "feeds segs s"
proof -
  from read_bytes_loop_bytes [OF assms, of "length bs" "[]"] obtain segs
    where r: "read_bytes_loop (length bs) [] c = (Some bs, c\<lparr>redis_in := segs\<rparr>)" "feeds segs (resp_crlf @ s)"
    by auto
  from recv_crlf [of "c\<lparr>redis_in := segs\<rparr>" s] assms(1) r(2) obtain segs'
    where "recv_redis 2 (c\<lparr>redis_in := segs\<rparr>) = (resp_crlf, c\<lparr>redis_in := segs'\<rparr>)" "feeds segs' s" by auto
  with r(1) that [of segs'] show thesis by (simp add: readBytes_def)
qed
section \<open>Replies\<close>

text \<open>The values of the protocol and their encodings, as the Redis documentation gives them.\<close>

datatype reply = Bulk string | NilReply | Simple string | ErrorReply string | IntReply int

fun encode_reply :: "reply \<Rightarrow> string" where
  "encode_reply (Bulk s) = encode_bulk s"
| "encode_reply NilReply = ''$-1'' @ resp_crlf"
| "encode_reply (Simple s) = ''+'' @ s @ resp_crlf"
| "encode_reply (ErrorReply s) = ''-'' @ s @ resp_crlf"
| "encode_reply (IntReply i) = '':'' @ int_to_string i @ resp_crlf"

fun reply_ok :: "reply \<Rightarrow> bool" where
  "reply_ok (Bulk s) \<longleftrightarrow> length s < 2 ^ 31"
| "reply_ok NilReply \<longleftrightarrow> True"
| "reply_ok (Simple s) \<longleftrightarrow> CHR 0x0D \<notin> set s"
| "reply_ok (ErrorReply s) \<longleftrightarrow> CHR 0x0D \<notin> set s"
| "reply_ok (IntReply i) \<longleftrightarrow> in_int_range 32 i"

fun string_of_reply :: "reply \<Rightarrow> string option" where
  "string_of_reply (Bulk s) = Some s"
| "string_of_reply (Simple s) = Some s"
| "string_of_reply _ = None"

fun int_of_reply :: "reply \<Rightarrow> int" where
  "int_of_reply (IntReply i) = i"
| "int_of_reply _ = 0"

definition encode_array :: "reply list \<Rightarrow> string" where
  "encode_array rs = ''*'' @ nat_to_string (length rs) @ resp_crlf @ concat (map encode_reply rs)"

lemma encode_command_array: "encode_command args = encode_array (map Bulk args)"
  by (simp add: encode_command_def encode_array_def comp_def)

lemma no_cr_number: "CHR 0x0D \<notin> set (nat_to_string n)" "CHR 0x0D \<notin> set (int_to_string i)"
  using nat_to_string_digits [of n] by (auto dest!: int_to_string_chars simp: list_all_iff is_digit_def)

lemma stoi_nat_to_string: "n < 2 ^ 31 \<Longrightarrow> stoi (nat_to_string n) = Inr (int n)"
  using stoi_int_to_string [of "[]" "int n"] by (simp add: int_to_string_def in_int_range_def)

lemma stoi_int_alone: "in_int_range 32 i \<Longrightarrow> stoi (int_to_string i) = Inr i"
  using stoi_int_to_string [of "[]" i] by simp

lemma readBulkString_reply:
  assumes "redis_open c" and "feeds (redis_in c) (encode_reply r @ s)" and "reply_ok r"
  obtains segs where "readBulkString c = (Inr (string_of_reply r), c\<lparr>redis_in := segs\<rparr>)" and "feeds segs s"
proof (cases r)
  case (Bulk b)
  with assms(2) have f: "feeds (redis_in c) ((''$'' @ nat_to_string (length b)) @ resp_crlf @ b @ resp_crlf @ s)"
    by (simp add: encode_bulk_def)
  from readLine_line [OF assms(1) f] no_cr_number obtain segs
    where l: "readLine c = (''$'' @ nat_to_string (length b), c\<lparr>redis_in := segs\<rparr>)" "feeds segs (b @ resp_crlf @ s)"
    by auto
  from readBytes_bulk [of "c\<lparr>redis_in := segs\<rparr>" b s] assms(1) l(2) obtain segs'
    where "readBytes (length b) (c\<lparr>redis_in := segs\<rparr>) = (b, c\<lparr>redis_in := segs'\<rparr>)" "feeds segs' s" by auto
  with that [of segs'] l(1) Bulk assms(3) show thesis
    by (simp add: readBulkString_def stoi_nat_to_string)
next
  case NilReply
  with assms(1,2) obtain segs where "readLine c = (''$-1'', c\<lparr>redis_in := segs\<rparr>)" "feeds segs s"
    using readLine_line [of c "''$-1''" s] by auto
  moreover have "stoi ''-1'' = Inr (- 1)" by code_simp
  ultimately show thesis using that [of segs] NilReply by (simp add: readBulkString_def)
next
  case (Simple x)
  with assms obtain segs where "readLine c = (''+'' @ x, c\<lparr>redis_in := segs\<rparr>)" "feeds segs s"
    using readLine_line [of c "''+'' @ x" s] by auto
  then show thesis using that [of segs] Simple by (simp add: readBulkString_def)
next
  case (ErrorReply x)
  with assms obtain segs where "readLine c = (''-'' @ x, c\<lparr>redis_in := segs\<rparr>)" "feeds segs s"
    using readLine_line [of c "''-'' @ x" s] by auto
  then show thesis using that [of segs] ErrorReply by (simp add: readBulkString_def)
next
  case (IntReply i)
  with assms(1,2) obtain segs where "readLine c = ('':'' @ int_to_string i, c\<lparr>redis_in := segs\<rparr>)" "feeds segs s"
    using readLine_line [of c "'':'' @ int_to_string i" s] no_cr_number(2) [of i] by auto
  then show thesis using that [of segs] IntReply by (simp add: readBulkString_def)
qed

lemma readInteger_reply:
  assumes "redis_open c" and "feeds (redis_in c) (encode_reply (IntReply i) @ s)" and "in_int_range 32 i"
  obtains segs where "readInteger c = (Inr i, c\<lparr>redis_in := segs\<rparr>)" and "feeds segs s"
proof -
  from assms(1,2) obtain segs where "readLine c = ('':'' @ int_to_string i, c\<lparr>redis_in := segs\<rparr>)" "feeds segs s"
    using readLine_line [of c "'':'' @ int_to_string i" s] no_cr_number(2) [of i] by auto
  then show thesis using that [of segs] assms(3) by (simp add: readInteger_def stoi_int_alone)
qed

lemma read_elements_replies:
  "redis_open c \<Longrightarrow> feeds (redis_in c) (concat (map encode_reply rs) @ s) \<Longrightarrow> list_all reply_ok rs \<Longrightarrow>
    \<exists>segs. read_elements (length rs) c =
      (Inr (map (\<lambda>r. case string_of_reply r of None \<Rightarrow> [] | Some x \<Rightarrow> x) rs), c\<lparr>redis_in := segs\<rparr>) \<and> feeds segs s"
proof (induction rs arbitrary: c)
  case Nil
  then show ?case by (auto intro!: exI [of _ "redis_in c"])
next
  case (Cons r rs)
  from readBulkString_reply [of c r "concat (map encode_reply rs) @ s"] Cons.prems obtain segs
    where b: "readBulkString c = (Inr (string_of_reply r), c\<lparr>redis_in := segs\<rparr>)"
      "feeds segs (concat (map encode_reply rs) @ s)" by auto
  with Cons.IH [of "c\<lparr>redis_in := segs\<rparr>"] Cons.prems show ?case by auto
qed

lemma readArray_replies:
  assumes "redis_open c" and "feeds (redis_in c) (encode_array rs @ s)" and "list_all reply_ok rs"
    and "length rs < 2 ^ 31"
  obtains segs where "readArray c =
      (Inr (map (\<lambda>r. case string_of_reply r of None \<Rightarrow> [] | Some x \<Rightarrow> x) rs), c\<lparr>redis_in := segs\<rparr>)"
    and "feeds segs s"
proof -
  from assms(2) have "feeds (redis_in c) ((''*'' @ nat_to_string (length rs)) @ resp_crlf @ concat (map encode_reply rs) @ s)"
    by (simp add: encode_array_def)
  from readLine_line [OF assms(1) this] no_cr_number obtain segs
    where l: "readLine c = (''*'' @ nat_to_string (length rs), c\<lparr>redis_in := segs\<rparr>)"
      "feeds segs (concat (map encode_reply rs) @ s)" by auto
  from read_elements_replies [of "c\<lparr>redis_in := segs\<rparr>" rs s] assms(1,3) l(2) obtain segs'
    where "read_elements (length rs) (c\<lparr>redis_in := segs\<rparr>) =
      (Inr (map (\<lambda>r. case string_of_reply r of None \<Rightarrow> [] | Some x \<Rightarrow> x) rs), c\<lparr>redis_in := segs'\<rparr>)"
      "feeds segs' s" by auto
  with that [of segs'] l(1) assms(4) show thesis by (simp add: readArray_def stoi_nat_to_string)
qed

lemma send_loop_all:
  "list_all (\<lambda>k. 0 < k) ks \<Longrightarrow> length t \<le> length ks \<Longrightarrow> \<exists>ks'. send_loop ks t = (t, ks', True)"
proof (induction ks t rule: send_loop.induct)
  case (3 k ks c cs)
  then have "0 < k" "length (drop k (c # cs)) \<le> length ks" "list_all (\<lambda>k. 0 < k) ks" by auto
  with "3.IH" obtain ks' where "send_loop ks (drop k (c # cs)) = (drop k (c # cs), ks', True)" by blast
  with "3.prems" append_take_drop_id [of k "c # cs"] show ?case by auto
qed auto

lemma sendCommand_all:
  assumes "redis_open c" and "list_all (\<lambda>k. 0 < k) (redis_sends c)"
    and "length (encode_command args) \<le> length (redis_sends c)"
  obtains ks where "sendCommand args c = c\<lparr>redis_out := redis_out c @ encode_command args, redis_sends := ks\<rparr>"
  using send_loop_all [OF assms(2,3)] assms(1) by (auto simp: sendCommand_def Let_def)

text \<open>The end of the stream: the loop stops with the socket closed and nothing more delivered.\<close>

lemma readArray_eof:
  assumes "redis_open c" and "concat (redis_in c) = []"
  shows "readArray c = (Inr [], c\<lparr>redis_in := [], redis_open := False\<rparr>)"
proof -
  have "concat segs = [] \<Longrightarrow> take_run 1 segs = ([], [])" for segs
    by (induction segs) auto
  with assms show ?thesis
    by (simp add: readArray_def readLine_def read_line_loop.simps recv_redis_def disconnect_def)
qed
section \<open>Properties\<close>

lemma value_or_Bulk:
  "map ((\<lambda>r. case string_of_reply r of None \<Rightarrow> [] | Some x \<Rightarrow> x) \<circ> Bulk) args = args"
  by (simp add: comp_def)

text \<open>
  The command round trip. What \<open>sendCommand\<close> puts on the wire is an array of bulk strings that the
  client's own reader takes apart again: whatever bytes the arguments hold, line ends included, and
  wherever the stream is cut (never right behind a carriage return), the arguments come back and nothing
  behind the command is touched.
\<close>

theorem redis_command_roundtrip:
  assumes "redis_open c" and "feeds (redis_in c) (encode_command args @ rest)"
    and "list_all (\<lambda>a. length a < 2 ^ 31) args" and "length args < 2 ^ 31"
  shows "\<exists>segs. readArray c = (Inr args, c\<lparr>redis_in := segs\<rparr>) \<and> feeds segs rest"
  using assms(3,4) readArray_replies [of c "map Bulk args" rest, OF assms(1)] assms(2)
  by (auto simp: encode_command_array list_all_iff value_or_Bulk)

text \<open>
  Commands get their own replies. On an open connection whose socket takes the command, each command
  appends exactly its encoding to what was sent, returns what the next reply in the stream says, and
  leaves the stream right behind that reply, ready for the next command: a bulk or simple string for
  \<open>GET\<close>, nothing for a missing key or an error, the number for \<open>INCR\<close>, \<open>DECR\<close> and \<open>PUBLISH\<close>, and
  whether the status is \<open>OK\<close> for \<open>SET\<close>.
\<close>

theorem redis_replies:
  assumes "redis_open c" and "list_all (\<lambda>k. 0 < k) (redis_sends c)"
    and "length (encode_command cmd) \<le> length (redis_sends c)"
    and "feeds (redis_in c) (encode_reply r @ rest)" and "reply_ok r"
  shows "\<exists>segs ks. feeds segs rest \<and>
    (let c' = c\<lparr>redis_out := redis_out c @ encode_command cmd, redis_sends := ks, redis_in := segs\<rparr> in
      (\<forall>key. cmd = [''GET'', key] \<longrightarrow> redis_get key c = (Inr (string_of_reply r), c')) \<and>
      (\<forall>key i. cmd = [''INCR'', key] \<and> r = IntReply i \<longrightarrow> redis_incr key c = (Inr i, c')) \<and>
      (\<forall>key i. cmd = [''DECR'', key] \<and> r = IntReply i \<longrightarrow> redis_decr key c = (Inr i, c')) \<and>
      (\<forall>ch m i. cmd = [''PUBLISH'', ch, m] \<and> r = IntReply i \<longrightarrow> redis_publish ch m c = (Inr i, c')) \<and>
      (\<forall>key v st. cmd = [''SET'', key, v] \<and> r = Simple st \<longrightarrow> redis_set key v c = (st = ''OK'', c')))"
proof -
  obtain ks where k: "sendCommand cmd c = c\<lparr>redis_out := redis_out c @ encode_command cmd, redis_sends := ks\<rparr>"
    using sendCommand_all [OF assms(1-3)] .
  let ?c = "c\<lparr>redis_out := redis_out c @ encode_command cmd, redis_sends := ks\<rparr>"
  have o: "redis_open ?c" "feeds (redis_in ?c) (encode_reply r @ rest)" using assms by simp_all
  consider i where "r = IntReply i" | st where "r = Simple st" | "\<forall>i. r \<noteq> IntReply i" "\<forall>st. r \<noteq> Simple st"
    by (cases r) auto
  then show ?thesis
  proof cases
    case (1 i)
    with readInteger_reply [OF o(1), of i rest] o(2) assms(5) obtain segs
      where "readInteger ?c = (Inr i, ?c\<lparr>redis_in := segs\<rparr>)" "feeds segs rest" by auto
    moreover from readBulkString_reply [OF o assms(5)] obtain segs'
      where "readBulkString ?c = (Inr None, ?c\<lparr>redis_in := segs'\<rparr>)" "feeds segs' rest"
      using 1 by auto
    ultimately show ?thesis
      using k 1 by (intro exI [of _ "if \<exists>key. cmd = [''GET'', key] then segs' else segs"] exI [of _ ks])
        (auto simp: redis_get_def redis_incr_def redis_decr_def redis_publish_def Let_def)
  next
    case (2 st)
    from 2 o assms(5) obtain segs where "readLine ?c = (''+'' @ st, ?c\<lparr>redis_in := segs\<rparr>)" "feeds segs rest"
      using readLine_line [of ?c "''+'' @ st" rest] by auto
    moreover from readBulkString_reply [OF o assms(5)] obtain segs'
      where "readBulkString ?c = (Inr (Some st), ?c\<lparr>redis_in := segs'\<rparr>)" "feeds segs' rest"
      using 2 by auto
    ultimately show ?thesis
      using k 2 by (intro exI [of _ "if \<exists>key. cmd = [''GET'', key] then segs' else segs"] exI [of _ ks])
        (auto simp: redis_get_def redis_set_def Let_def)
  next
    case 3
    from readBulkString_reply [OF o assms(5)] obtain segs
      where "readBulkString ?c = (Inr (string_of_reply r), ?c\<lparr>redis_in := segs\<rparr>)" "feeds segs rest" .
    with k 3 show ?thesis by (intro exI [of _ segs] exI [of _ ks]) (auto simp: redis_get_def Let_def)
  qed
qed
text \<open>What Redis sends to a subscriber of a pattern: one confirmation, then one array per message.\<close>

definition psub_confirmation :: "string \<Rightarrow> int \<Rightarrow> string" where
  "psub_confirmation pattern n = encode_array [Bulk ''psubscribe'', Bulk pattern, IntReply n]"

definition pmessage_text :: "string \<times> string \<times> string \<Rightarrow> string" where
  "pmessage_text m = (case m of (pattern, channel, message) \<Rightarrow>
     encode_array [Bulk ''pmessage'', Bulk pattern, Bulk channel, Bulk message])"

definition pmessage_ok :: "string \<times> string \<times> string \<Rightarrow> bool" where
  "pmessage_ok m \<longleftrightarrow> (case m of (pattern, channel, message) \<Rightarrow>
     length pattern < 2 ^ 31 \<and> length channel < 2 ^ 31 \<and> length message < 2 ^ 31)"

lemma sub_loop_pmessages:
  "redis_open c \<Longrightarrow> feeds (redis_in c) (concat (map pmessage_text msgs)) \<Longrightarrow> list_all pmessage_ok msgs \<Longrightarrow>
    \<exists>segs. sub_loop pmessage_of callback c w =
      (None, c\<lparr>redis_in := segs, redis_open := False\<rparr>, fold (\<lambda>(_, channel, message). callback channel message) msgs w)"
proof (induction msgs arbitrary: c w)
  case Nil
  then have "concat (redis_in c) = []" by (simp add: feeds_def)
  from readArray_eof [OF Nil.prems(1) this] Nil.prems(1) show ?case
    by (auto simp: sub_loop.simps pmessage_of_def)
next
  case (Cons m msgs)
  obtain p ch b where m: "m = (p, ch, b)" by (cases m)
  let ?rs = "[Bulk ''pmessage'', Bulk p, Bulk ch, Bulk b]"
  have "feeds (redis_in c) (encode_array ?rs @ concat (map pmessage_text msgs))" "list_all reply_ok ?rs"
    using Cons.prems(2,3) by (simp_all add: m pmessage_text_def [of "(p, ch, b)"] pmessage_ok_def [of "(p, ch, b)"])
  from readArray_replies [OF Cons.prems(1) this] obtain segs
    where r: "readArray c = (Inr [''pmessage'', p, ch, b], c\<lparr>redis_in := segs\<rparr>)"
      "feeds segs (concat (map pmessage_text msgs))" by auto
  with Cons.IH [of "c\<lparr>redis_in := segs\<rparr>" "callback ch b w"] Cons.prems
  obtain segs' where "sub_loop pmessage_of callback (c\<lparr>redis_in := segs\<rparr>) (callback ch b w) =
    (None, c\<lparr>redis_in := segs', redis_open := False\<rparr>, fold (\<lambda>(_, channel, message). callback channel message) (m # msgs) w)"
    by (auto simp: m)
  with r(1) Cons.prems(1) show ?case by (subst sub_loop.simps) (auto simp: pmessage_of_def)
qed

lemma psubscribe_messages:
  assumes "redis_open c" and "list_all (\<lambda>k. 0 < k) (redis_sends c)"
    and "length (encode_command [''PSUBSCRIBE'', pattern]) \<le> length (redis_sends c)"
    and "feeds (redis_in c) (psub_confirmation pattern n @ concat (map pmessage_text msgs))"
    and "length pattern < 2 ^ 31" and "in_int_range 32 n" and "list_all pmessage_ok msgs"
  shows "\<exists>c'. psubscribe pattern callback c w =
      (None, c', fold (\<lambda>(_, channel, message). callback channel message) msgs w) \<and>
    \<not> redis_open c' \<and> redis_out c' = redis_out c @ encode_command [''PSUBSCRIBE'', pattern]"
proof -
  obtain ks where k: "sendCommand [''PSUBSCRIBE'', pattern] c =
      c\<lparr>redis_out := redis_out c @ encode_command [''PSUBSCRIBE'', pattern], redis_sends := ks\<rparr>"
    using sendCommand_all [OF assms(1-3)] .
  let ?c = "c\<lparr>redis_out := redis_out c @ encode_command [''PSUBSCRIBE'', pattern], redis_sends := ks\<rparr>"
  have "redis_open ?c" "feeds (redis_in ?c) (encode_array [Bulk ''psubscribe'', Bulk pattern, IntReply n] @
      concat (map pmessage_text msgs))"
    "list_all reply_ok [Bulk ''psubscribe'', Bulk pattern, IntReply n]"
    using assms by (simp_all add: psub_confirmation_def)
  from readArray_replies [OF this] obtain segs
    where r: "readArray ?c = (Inr [''psubscribe'', pattern, []], ?c\<lparr>redis_in := segs\<rparr>)"
      "feeds segs (concat (map pmessage_text msgs))" by auto
  from sub_loop_pmessages [of "?c\<lparr>redis_in := segs\<rparr>" msgs callback w] r(2) assms(1,7) obtain segs'
    where "sub_loop pmessage_of callback (?c\<lparr>redis_in := segs\<rparr>) w =
      (None, ?c\<lparr>redis_in := segs', redis_open := False\<rparr>, fold (\<lambda>(_, channel, message). callback channel message) msgs w)"
    by auto
  with k r(1) show ?thesis by (simp add: psubscribe_def subscribe_with_def)
qed


section \<open>Witnesses\<close>

definition demo_redis :: "string list \<Rightarrow> redis" where
  "demo_redis segs = \<lparr>redis_open = True, redis_in = segs, redis_sends = replicate 100 7, redis_out = []\<rparr>"

theorem redis_command_roundtrip_witness:
  "fst (readArray (demo_redis [encode_command [''GET'', [CHR 0x0D, CHR 0x0A]]])) = Inr [''GET'', [CHR 0x0D, CHR 0x0A]]"
proof -
  have "feeds (redis_in (demo_redis [encode_command [''GET'', [CHR 0x0D, CHR 0x0A]]]))
      (encode_command [''GET'', [CHR 0x0D, CHR 0x0A]] @ [])"
    by code_simp
  from redis_command_roundtrip [OF _ this] show ?thesis by (auto simp: demo_redis_def)
qed

theorem redis_replies_witness:
  "fst (redis_incr ''viewers:a'' (demo_redis ['':4'', [CHR 0x32, CHR 0x0D, CHR 0x0A]])) = Inr 42"
proof -
  let ?c = "demo_redis ['':4'', [CHR 0x32, CHR 0x0D, CHR 0x0A]]"
  have "feeds (redis_in ?c) (encode_reply (IntReply 42) @ [])" "reply_ok (IntReply 42)"
    "redis_open ?c" "list_all (\<lambda>k. 0 < k) (redis_sends ?c)"
    "length (encode_command [''INCR'', ''viewers:a'']) \<le> length (redis_sends ?c)"
    by code_simp+
  from redis_replies [OF this(3-5,1,2)] show ?thesis by (auto simp: Let_def)
qed


end
