(* ===== verification/Pools.thy ===== *)
theory Pools
  imports Redis Env "HOL-Library.Multiset"
begin

text \<open>
  The two connection pools, \<open>RedisPool.h\<close> and \<open>pg-connection-pool\<close>: a queue behind a mutex, a
  blocking acquire, and a lease object whose destructor gives the connection back. Each operation
  holds the mutex for its whole critical section, so a run of several threads is a sequence of
  operations; a thread whose acquire finds the queue empty waits, which is the result \<open>Blocked\<close>.
  A PostgreSQL connection is a value of any type: whether it is still open and whether a
  new one can be made are arguments.
\<close>

section \<open>The interface\<close>

datatype 'c acquired = Blocked | Failed exn | Leased 'c

text \<open>What threads do to a pool: take a connection, or give the \<open>i\<close>-th of those held back.\<close>

datatype 'r pool_event = Acquire 'r | Release nat

definition drop_nth :: "nat \<Rightarrow> 'a list \<Rightarrow> 'a list" where
  "drop_nth i xs = take i xs @ drop (Suc i) xs"

fun pool_step ::
    "('r \<Rightarrow> 's \<Rightarrow> 'c acquired \<times> 's) \<Rightarrow> ('c \<Rightarrow> 's \<Rightarrow> 's) \<Rightarrow> 'r pool_event \<Rightarrow> 's \<times> 'c list \<Rightarrow> 's \<times> 'c list" where
  "pool_step acquire release (Acquire r) (s, held) =
     (case acquire r s of (Leased c, s') \<Rightarrow> (s', held @ [c]) | (_, s') \<Rightarrow> (s', held))"
| "pool_step acquire release (Release i) (s, held) =
     (if i < length held then (release (held ! i) s, drop_nth i held) else (s, held))"

definition pool_run ::
    "('r \<Rightarrow> 's \<Rightarrow> 'c acquired \<times> 's) \<Rightarrow> ('c \<Rightarrow> 's \<Rightarrow> 's) \<Rightarrow> 'r pool_event list \<Rightarrow> 's \<times> 'c list \<Rightarrow> 's \<times> 'c list" where
  "pool_run acquire release events st = fold (pool_step acquire release) events st"

text \<open>A scope with a lease in it: the destructor runs on every way out, exceptions included.\<close>

definition with_lease ::
    "('r \<Rightarrow> 's \<Rightarrow> 'c acquired \<times> 's) \<Rightarrow> ('c \<Rightarrow> 's \<Rightarrow> 's) \<Rightarrow> 'r \<Rightarrow> ('c \<Rightarrow> 'w \<Rightarrow> 'a res \<times> 'c \<times> 'w) \<Rightarrow>
     's \<Rightarrow> 'w \<Rightarrow> ('a res option) \<times> 's \<times> 'w" where
  "with_lease acquire release r f s w =
     (case acquire r s of
        (Blocked, s') \<Rightarrow> (None, s', w)
      | (Failed e, s') \<Rightarrow> (Some (Inl e), s', w)
      | (Leased c, s') \<Rightarrow> (case f c w of (x, c', w') \<Rightarrow> (Some x, release c' s', w')))"

lemma length_drop_nth: "i < length xs \<Longrightarrow> length xs = Suc (length (drop_nth i xs))"
  by (simp add: drop_nth_def)

lemma mset_drop_nth: "i < length xs \<Longrightarrow> mset xs = add_mset (xs ! i) (mset (drop_nth i xs))"
proof -
  assume "i < length xs"
  then have "xs = take i xs @ xs ! i # drop (Suc i) xs" by (simp add: id_take_nth_drop)
  then have "mset xs = mset (take i xs @ xs ! i # drop (Suc i) xs)" by simp
  then show ?thesis by (simp add: drop_nth_def)
qed

text \<open>What the users of a pool rely on: no slot is lost, and an acquire waits only for an empty queue.\<close>

locale lease_pool =
  fixes acquire :: "'r \<Rightarrow> 's \<Rightarrow> 'c acquired \<times> 's"
    and release :: "'c \<Rightarrow> 's \<Rightarrow> 's"
    and idle :: "'s \<Rightarrow> nat"
  assumes blocked_iff: "fst (acquire r s) = Blocked \<longleftrightarrow> idle s = 0"
    and blocked_state: "acquire r s = (Blocked, s') \<Longrightarrow> s' = s"
    and failed_idle: "acquire r s = (Failed e, s') \<Longrightarrow> idle s' = idle s"
    and leased_idle: "acquire r s = (Leased c, s') \<Longrightarrow> idle s = Suc (idle s')"
    and release_idle: "idle (release c s) = Suc (idle s)"
begin

lemma step_total:
  "pool_step acquire release e (s, held) = (s', held') \<Longrightarrow> idle s' + length held' = idle s + length held"
proof (cases e)
  case (Acquire r)
  assume "pool_step acquire release e (s, held) = (s', held')"
  then show ?thesis
    using Acquire blocked_state [of r s] failed_idle [of r s] leased_idle [of r s]
    by (cases "acquire r s"; cases "fst (acquire r s)") auto
next
  case (Release i)
  assume "pool_step acquire release e (s, held) = (s', held')"
  with Release show ?thesis
    using length_drop_nth [of i held] by (auto simp: release_idle split: if_splits)
qed

lemma run_total:
  "pool_run acquire release es (s, held) = (s', held') \<Longrightarrow> idle s' + length held' = idle s + length held"
proof (induction es arbitrary: s held)
  case (Cons e es)
  obtain s1 held1 where "pool_step acquire release e (s, held) = (s1, held1)" by fastforce
  with Cons step_total [OF this] show ?case by (simp add: pool_run_def)
qed (simp add: pool_run_def)

lemma run_blocks_iff:
  assumes "pool_run acquire release es (s, []) = (s', held')"
  shows "fst (acquire r s') = Blocked \<longleftrightarrow> length held' = idle s"
  using run_total [OF assms] by (auto simp: blocked_iff)

lemma with_lease_idle: "with_lease acquire release r f s w = (x, s', w') \<Longrightarrow> idle s' = idle s"
proof -
  assume l: "with_lease acquire release r f s w = (x, s', w')"
  obtain a s1 where a: "acquire r s = (a, s1)" by fastforce
  show ?thesis
  proof (cases a)
    case (Leased c)
    then show ?thesis using l a leased_idle [of r s c s1]
      by (auto simp: with_lease_def release_idle split: prod.splits)
  qed (use l a blocked_state [of r s s1] failed_idle [of r s _ s1] in \<open>auto simp: with_lease_def\<close>)
qed

end

text \<open>A pool that moreover hands out exactly the connections it was given.\<close>

locale exclusive_pool = lease_pool acquire release idle
  for acquire :: "'r \<Rightarrow> 's \<Rightarrow> 'c acquired \<times> 's" and release :: "'c \<Rightarrow> 's \<Rightarrow> 's" and idle :: "'s \<Rightarrow> nat" +
  fixes items :: "'s \<Rightarrow> 'c multiset"
  assumes never_fails: "fst (acquire r s) \<noteq> Failed e"
    and leased_items: "acquire r s = (Leased c, s') \<Longrightarrow> items s = add_mset c (items s')"
    and release_items: "items (release c s) = add_mset c (items s)"
begin

lemma step_items:
  "pool_step acquire release e (s, held) = (s', held') \<Longrightarrow> items s' + mset held' = items s + mset held"
proof (cases e)
  case (Acquire r)
  assume "pool_step acquire release e (s, held) = (s', held')"
  moreover obtain a s1 where a: "acquire r s = (a, s1)" by fastforce
  ultimately show ?thesis
    using Acquire blocked_state [of r s s1] leased_items [of r s _ s1] never_fails [of r s "case a of Failed e \<Rightarrow> e"]
    by (cases a) auto
next
  case (Release i)
  assume "pool_step acquire release e (s, held) = (s', held')"
  with Release show ?thesis
    using mset_drop_nth [of i held] by (auto simp: release_items split: if_splits)
qed

lemma run_items:
  "pool_run acquire release es (s, held) = (s', held') \<Longrightarrow> items s' + mset held' = items s + mset held"
proof (induction es arbitrary: s held)
  case (Cons e es)
  obtain s1 held1 where "pool_step acquire release e (s, held) = (s1, held1)" by fastforce
  with Cons step_items [OF this] show ?case by (simp add: pool_run_def)
qed (simp add: pool_run_def)

end

section \<open>The Redis pool\<close>

type_synonym 'c redis_pool = "'c list"

text \<open>The constructor connects the clients one by one and throws when one of them cannot connect.\<close>

fun fill_redis_pool :: "(nat \<Rightarrow> (string list \<times> nat list) option) \<Rightarrow> nat \<Rightarrow> nat \<Rightarrow> redis list \<Rightarrow> redis list res" where
  "fill_redis_pool sockets i 0 pool = Inr pool"
| "fill_redis_pool sockets i (Suc n) pool =
     (case connect_redis (sockets i) new_redis of
        (False, _) \<Rightarrow> Inl (RuntimeError (''RedisPool: failed to connect client '' @ int_to_string (int i)))
      | (True, client) \<Rightarrow> fill_redis_pool sockets (i + 1) n (pool @ [client]))"

definition mk_RedisPool :: "(nat \<Rightarrow> (string list \<times> nat list) option) \<Rightarrow> int \<Rightarrow> redis list res" where
  "mk_RedisPool sockets n = fill_redis_pool sockets 0 (nat n) []"

definition redis_acquire :: "unit \<Rightarrow> 'c redis_pool \<Rightarrow> 'c acquired \<times> 'c redis_pool" where
  "redis_acquire _ pool = (case pool of [] \<Rightarrow> (Blocked, []) | client # rest \<Rightarrow> (Leased client, rest))"

definition redis_release :: "'c \<Rightarrow> 'c redis_pool \<Rightarrow> 'c redis_pool" where
  "redis_release client pool = pool @ [client]"

definition ScopedConnection ::
    "('c \<Rightarrow> 'w \<Rightarrow> 'a res \<times> 'c \<times> 'w) \<Rightarrow> 'c redis_pool \<Rightarrow> 'w \<Rightarrow> 'a res option \<times> 'c redis_pool \<times> 'w" where
  "ScopedConnection f pool w = with_lease redis_acquire redis_release () f pool w"

interpretation redis_pool: exclusive_pool redis_acquire redis_release length mset
  by unfold_locales (auto simp: redis_acquire_def redis_release_def split: list.splits)

section \<open>The PostgreSQL pool\<close>

definition buildConnectionString :: "(string \<Rightarrow> string option) \<Rightarrow> smap \<Rightarrow> string" where
  "buildConnectionString process env =
     ''host='' @ GetEnvDefault process env ''DB_HOST'' ''localhost'' @ '' '' @
     ''port='' @ GetEnvDefault process env ''DB_PORT'' ''5432'' @ '' '' @
     ''dbname='' @ GetEnvDefault process env ''DB_NAME'' ''postgres'' @ '' '' @
     ''user='' @ GetEnvDefault process env ''DB_USER'' ''postgres'' @ '' '' @
     ''password='' @ GetEnvDefault process env ''DB_PASSWORD'' []"

definition POOL_SIZE :: nat where
  "POOL_SIZE = 20"

record 'c PGPool =
  m_pool :: "'c list"

fun fill_pg_pool :: "(nat \<Rightarrow> 'c res) \<Rightarrow> nat \<Rightarrow> nat \<Rightarrow> 'c PGPool \<Rightarrow> 'c PGPool res" where
  "fill_pg_pool mk i 0 p = Inr p"
| "fill_pg_pool mk i (Suc n) p =
     (case mk i of Inl e \<Rightarrow> Inl e | Inr c \<Rightarrow> fill_pg_pool mk (i + 1) n (p\<lparr>m_pool := m_pool p @ [c]\<rparr>))"

definition createPool :: "(nat \<Rightarrow> 'c res) \<Rightarrow> 'c PGPool res" where
  "createPool mk = fill_pg_pool mk 0 POOL_SIZE \<lparr>m_pool = []\<rparr>"

definition freeConnection :: "'c \<Rightarrow> 'c PGPool \<Rightarrow> 'c PGPool" where
  "freeConnection c p = p\<lparr>m_pool := m_pool p @ [c]\<rparr>"

text \<open>The call's environment: which connections are open, and what making a new one gives.\<close>

definition pg_connection :: "('c \<Rightarrow> bool) \<times> 'c res \<Rightarrow> 'c PGPool \<Rightarrow> 'c acquired \<times> 'c PGPool" where
  "pg_connection r p =
     (case r of (is_open, fresh) \<Rightarrow>
        case m_pool p of
          [] \<Rightarrow> (Blocked, p)
        | c # rest \<Rightarrow>
            let p' = p\<lparr>m_pool := rest\<rparr> in
            if is_open c then (Leased c, p')
            else case fresh of
                Inr c' \<Rightarrow> (Leased c', p')
              | Inl e \<Rightarrow> (Failed e, freeConnection c p'))"

definition Lease ::
    "('c \<Rightarrow> bool) \<times> 'c res \<Rightarrow> ('c \<Rightarrow> 'w \<Rightarrow> 'a res \<times> 'c \<times> 'w) \<Rightarrow> 'c PGPool \<Rightarrow> 'w \<Rightarrow> 'a res option \<times> 'c PGPool \<times> 'w" where
  "Lease r f p w = with_lease pg_connection freeConnection r f p w"

interpretation pg_pool: lease_pool pg_connection freeConnection "\<lambda>p. length (m_pool p)"
  by unfold_locales
    (auto simp: pg_connection_def freeConnection_def Let_def split: prod.splits list.splits if_splits sum.splits)

lemma fill_pg_pool_length: "fill_pg_pool mk i n p = Inr p' \<Longrightarrow> length (m_pool p') = length (m_pool p) + n"
  by (induction mk i n p rule: fill_pg_pool.induct) (auto split: sum.splits)

lemma pg_connection_open:
  "pg_connection (is_open, fresh) p = (Leased c, p') \<Longrightarrow> is_open c \<or> fresh = Inr c"
  by (auto simp: pg_connection_def Let_def split: list.splits if_splits sum.splits)

section \<open>Properties\<close>

text \<open>
  A Redis connection has one user at a time. Over any interleaving of threads that take and return
  connections, those in the queue and those in use are together exactly the clients the pool was made
  with, so that distinct clients are never in two hands at once; a thread waits exactly when all of
  them are in use; and a scope returns its connection even when its body throws.
\<close>

theorem redis_pool_exclusive:
  assumes "pool_run redis_acquire redis_release events (pool, []) = (queue, held)"
  shows "mset queue + mset held = mset pool \<and>
    (distinct pool \<longrightarrow> distinct (queue @ held)) \<and>
    (fst (redis_acquire () queue) = Blocked \<longleftrightarrow> length held = length pool) \<and>
    (\<forall>f w x q w'. ScopedConnection f queue w = (x, q, w') \<longrightarrow> length q = length queue)"
proof (intro conjI impI allI)
  show m: "mset queue + mset held = mset pool" using redis_pool.run_items [OF assms] by simp
  show "distinct (queue @ held)" if "distinct pool"
    using that mset_eq_imp_distinct_iff [of "queue @ held" pool] m by simp
  show "fst (redis_acquire () queue) = Blocked \<longleftrightarrow> length held = length pool"
    by (rule redis_pool.run_blocks_iff [OF assms])
  show "length q = length queue" if "ScopedConnection f queue w = (x, q, w')" for f w x q w'
    using that redis_pool.with_lease_idle [of "()" f queue w x q w'] by (simp add: ScopedConnection_def)
qed

text \<open>
  The PostgreSQL pool never shrinks. A pool that was created holds 20 connections; over any
  interleaving of threads, with connections dying and reconnects failing at any point, idle and leased
  ones stay 20 together, a thread waits exactly when all 20 are leased, a lease that is granted is of a
  connection that is open or was just made, and a failed reconnect reports its error.
\<close>

theorem pg_pool_constant:
  assumes "createPool mk = Inr p0"
    and "pool_run pg_connection freeConnection events (p0, []) = (p, held)"
  shows "length (m_pool p) + length held = 20 \<and>
    (\<forall>r. fst (pg_connection r p) = Blocked \<longleftrightarrow> length held = 20) \<and>
    (\<forall>is_open fresh c p'. pg_connection (is_open, fresh) p = (Leased c, p') \<longrightarrow> is_open c \<or> fresh = Inr c) \<and>
    (\<forall>is_open fresh e p'. pg_connection (is_open, fresh) p = (Failed e, p') \<longrightarrow>
       fresh = Inl e \<and> length (m_pool p') = length (m_pool p)) \<and>
    (\<forall>r f w x p' w'. Lease r f p w = (x, p', w') \<longrightarrow> length (m_pool p') = length (m_pool p))"
proof (intro conjI allI impI)
  have n: "length (m_pool p0) = 20"
    using fill_pg_pool_length [of mk 0 POOL_SIZE] assms(1) by (auto simp: createPool_def POOL_SIZE_def)
  show "length (m_pool p) + length held = 20" using pg_pool.run_total [OF assms(2)] n by simp
  show "fst (pg_connection r p) = Blocked \<longleftrightarrow> length held = 20" for r
    using pg_pool.run_blocks_iff [OF assms(2)] n by simp
  show "is_open c \<or> fresh = Inr c" if "pg_connection (is_open, fresh) p = (Leased c, p')" for is_open fresh c p'
    using that by (rule pg_connection_open)
  show "fresh = Inl e" if "pg_connection (is_open, fresh) p = (Failed e, p')" for is_open fresh e p'
    using that by (auto simp: pg_connection_def Let_def split: list.splits if_splits sum.splits)
  show "length (m_pool p') = length (m_pool p)" if "pg_connection (is_open, fresh) p = (Failed e, p')" for is_open fresh e p'
    by (rule pg_pool.failed_idle [OF that])
  show "length (m_pool p') = length (m_pool p)" if "Lease r f p w = (x, p', w')" for r f w x p' w'
    using that pg_pool.with_lease_idle [of r f p w x p' w'] by (simp add: Lease_def)
qed

theorem redis_pool_exclusive_witness:
  "pool_run redis_acquire redis_release [Acquire (), Acquire (), Release 0] ([1, 2, 3 :: nat], []) = ([3, 1], [2]) \<and>
   distinct ([3, 1] @ [2 :: nat])"
  using redis_pool_exclusive [of "[Acquire (), Acquire (), Release 0]" "[1, 2, 3 :: nat]" "[3, 1]" "[2]"]
  by (simp add: pool_run_def redis_acquire_def redis_release_def drop_nth_def)

lemma fill_pg_pool_upt: "fill_pg_pool Inr i n p = Inr (p\<lparr>m_pool := m_pool p @ [i..<i + n]\<rparr>)"
  by (induction n arbitrary: i p) (simp_all add: upt_rec)

theorem pg_pool_constant_witness:
  "\<exists>p0 p. createPool Inr = Inr p0 \<and>
    pool_run pg_connection freeConnection
      [Acquire (\<lambda>_. False, Inl UnknownException), Acquire (\<lambda>_. False, Inr 99)] (p0, []) = (p, [99 :: nat]) \<and>
    length (m_pool p) + 1 = 20"
proof -
  let ?start = "\<lparr>m_pool = [0..<20]\<rparr>"
  let ?final = "\<lparr>m_pool = [2..<20] @ [0 :: nat]\<rparr>"
  have c: "createPool Inr = Inr ?start"
    by (simp add: createPool_def POOL_SIZE_def fill_pg_pool_upt)
  have r: "pool_run pg_connection freeConnection
      [Acquire (\<lambda>_. False, Inl UnknownException), Acquire (\<lambda>_. False, Inr 99)] (?start, []) = (?final, [99])"
    by (simp add: pool_run_def pg_connection_def freeConnection_def upt_rec)
  from pg_pool_constant [OF c r] c r show ?thesis by auto
qed

end
