(* ===== verification/Framing.thy ===== *)
theory Framing
  imports Prelude
begin

text \<open>
  What the readers of a byte stream rely on. HTTP requests, WebSocket frames and Redis replies
  all arrive in a buffer that the socket fills in pieces of any size; a framing function says whether the
  buffer starts with a complete message and how long it is. The locale states the two laws that make
  the pieces irrelevant; the readers prove them for their own framing function.
\<close>

section \<open>A framing function\<close>

locale framing =
  fixes frame :: "'a list \<Rightarrow> nat option res"
  assumes frame_bound: "frame b = Inr (Some n) \<Longrightarrow> n \<le> length b"
    and frame_stable: "frame b \<noteq> Inr None \<Longrightarrow> frame (b @ c) = frame b"
begin

text \<open>A proper prefix of a complete message is incomplete, never an error and never a message.\<close>

lemma prefix_waits:
  assumes "frame (p @ q) = Inr (Some (length (p @ q)))" and "q \<noteq> []"
  shows "frame p = Inr None"
proof (rule ccontr)
  assume "frame p \<noteq> Inr None"
  then have "frame (p @ q) = frame p" by (rule frame_stable)
  with assms(1) have "frame p = Inr (Some (length (p @ q)))" by simp
  then have "length (p @ q) \<le> length p" by (rule frame_bound)
  with assms(2) show False by simp
qed

text \<open>A message followed by anything is cut off exactly.\<close>

lemma message_then:
  "frame m = Inr (Some (length m)) \<Longrightarrow> frame (m @ c) = Inr (Some (length m))"
  using frame_stable [of m c] by simp

end

section \<open>Draining a buffer\<close>

locale framing_loop = framing +
  assumes frame_pos: "frame b = Inr (Some n) \<Longrightarrow> 0 < n"
begin

text \<open>The messages at the front of a buffer, the rest, and the exception that stopped the loop.\<close>

function drain :: "'a list \<Rightarrow> 'a list list \<times> 'a list \<times> exn option" where
  "drain b =
     (case frame b of
        Inl e \<Rightarrow> ([], b, Some e)
      | Inr None \<Rightarrow> ([], b, None)
      | Inr (Some n) \<Rightarrow> (case drain (drop n b) of (ms, rest, e) \<Rightarrow> (take n b # ms, rest, e)))"
  by pat_completeness auto
termination
proof (relation "measure length")
  fix b :: "'a list" and y :: "nat option" and n :: nat
  assume "frame b = Inr y" and "y = Some n"
  then show "(drop n b, b) \<in> measure length"
    using frame_pos [of b n] frame_bound [of b n] by simp
qed simp

declare drain.simps [simp del]

lemma drain_wait: "frame b = Inr None \<Longrightarrow> drain b = ([], b, None)"
  by (simp add: drain.simps)

lemma drain_throw: "frame b = Inl e \<Longrightarrow> drain b = ([], b, Some e)"
  by (simp add: drain.simps)

lemma drain_message:
  "frame b = Inr (Some n) \<Longrightarrow> drain b = (case drain (drop n b) of (ms, rest, e) \<Rightarrow> (take n b # ms, rest, e))"
  by (subst drain.simps) simp

text \<open>Draining in two pieces is draining at once.\<close>

lemma drain_append:
  "drain a = (ms, rest, None) \<Longrightarrow>
    drain (a @ c) = (case drain (rest @ c) of (ms', rest', e) \<Rightarrow> (ms @ ms', rest', e))"
proof (induction a arbitrary: ms rest rule: drain.induct)
  case (1 a)
  show ?case
  proof (cases "frame a")
    case (Inl e)
    with "1.prems" show ?thesis by (simp add: drain.simps [of a])
  next
    case (Inr y)
    show ?thesis
    proof (cases y)
      case None
      with "1.prems" Inr show ?thesis by (simp add: drain_wait split: prod.splits)
    next
      case (Some n)
      then have fa: "frame a = Inr (Some n)" using Inr by simp
      obtain ms0 where d: "drain (drop n a) = (ms0, rest, None)" "ms = take n a # ms0"
        using "1.prems" by (auto simp: drain_message [OF fa] split: prod.splits)
      have le: "n \<le> length a" by (rule frame_bound [OF fa])
      have "frame (a @ c) = Inr (Some n)" using frame_stable [of a c] fa by simp
      then have "drain (a @ c) = (case drain (drop n a @ c) of (ms, rest, e) \<Rightarrow> (take n a # ms, rest, e))"
        using le by (simp add: drain_message)
      also have "drain (drop n a @ c) = (case drain (rest @ c) of (ms', rest', e) \<Rightarrow> (ms0 @ ms', rest', e))"
        by (rule "1.IH" [OF Inr Some d(1)])
      finally show ?thesis using d(2) by (simp split: prod.splits)
    qed
  qed
qed

lemma drain_error: "drain a = (ms, rest, Some e) \<Longrightarrow> drain (a @ c) = (ms, rest @ c, Some e)"
proof (induction a arbitrary: ms rule: drain.induct)
  case (1 a)
  show ?case
  proof (cases "frame a")
    case (Inl x)
    then have "frame (a @ c) = Inl x" using frame_stable [of a c] by simp
    with Inl "1.prems" show ?thesis by (auto simp: drain_throw)
  next
    case (Inr y)
    show ?thesis
    proof (cases y)
      case None
      with "1.prems" Inr show ?thesis by (simp add: drain_wait)
    next
      case (Some n)
      then have fa: "frame a = Inr (Some n)" using Inr by simp
      obtain ms0 where d: "drain (drop n a) = (ms0, rest, Some e)" "ms = take n a # ms0"
        using "1.prems" by (auto simp: drain_message [OF fa] split: prod.splits)
      have "frame (a @ c) = Inr (Some n)" using frame_stable [of a c] fa by simp
      with frame_bound [OF fa] "1.IH" [OF Inr Some d(1)] d(2) show ?thesis
        by (simp add: drain_message)
    qed
  qed
qed

lemma drain_rest: "drain a = (ms, rest, None) \<Longrightarrow> frame rest = Inr None"
proof (induction a arbitrary: ms rule: drain.induct)
  case (1 a)
  then show ?case
    by (cases "frame a") (auto simp: drain.simps [of a] split: option.splits prod.splits)
qed

text \<open>Reading piece by piece: each piece is appended and the buffer drained.\<close>

primrec read_pieces :: "'a list \<Rightarrow> 'a list list \<Rightarrow> 'a list list \<times> 'a list \<times> exn option" where
  "read_pieces b [] = ([], b, None)"
| "read_pieces b (c # cs) =
     (case drain (b @ c) of
        (ms, rest, Some e) \<Rightarrow> (ms, rest, Some e)
      | (ms, rest, None) \<Rightarrow>
          (case read_pieces rest cs of (ms', rest', e) \<Rightarrow> (ms @ ms', rest', e)))"

lemma read_pieces_drain:
  "frame b = Inr None \<Longrightarrow> read_pieces b cs = (ms, rest, e) \<Longrightarrow>
    \<exists>unread. drain (b @ concat cs) = (ms, rest @ unread, e) \<and> (e = None \<longrightarrow> unread = [])"
proof (induction cs arbitrary: b ms)
  case Nil
  then show ?case by (auto simp: drain_wait)
next
  case (Cons c cs)
  obtain ms1 r1 e1 where d: "drain (b @ c) = (ms1, r1, e1)" by (metis prod_cases3)
  show ?case
  proof (cases e1)
    case (Some x)
    with d Cons.prems(2) have "ms = ms1" "rest = r1" "e = Some x" by simp_all
    with drain_error [of "b @ c" ms1 r1 x "concat cs"] d Some show ?thesis by auto
  next
    case None
    with d Cons.prems(2) obtain ms2 where r: "read_pieces r1 cs = (ms2, rest, e)" "ms = ms1 @ ms2"
      by (auto split: prod.splits)
    have "frame r1 = Inr None" using drain_rest d None by blast
    from Cons.IH [OF this r(1)] drain_append [of "b @ c" ms1 r1 "concat cs"] d None r(2)
    show ?thesis by auto
  qed
qed

end

end
