(* ===== verification/WsFrame.thy ===== *)
theory WsFrame
  imports Framing
begin

text \<open>
  \<open>WebSocketFrame.h\<close>: parsing and serialising the frames of RFC 6455. Bytes are 8-bit words, the
  payload length is a \<open>uint64_t\<close>, positions are \<open>size_t\<close>: their sum wraps. A four-bit opcode without a
  name is kept as it is.
\<close>

section \<open>Frames\<close>

datatype WsOpcode = CONTINUATION | TEXT | BINARY | CLOSE | PING | PONG | OtherOpcode byte

fun opcode_byte :: "WsOpcode \<Rightarrow> byte" where
  "opcode_byte CONTINUATION = 0x0"
| "opcode_byte TEXT = 0x1"
| "opcode_byte BINARY = 0x2"
| "opcode_byte CLOSE = 0x8"
| "opcode_byte PING = 0x9"
| "opcode_byte PONG = 0xA"
| "opcode_byte (OtherOpcode b) = b"

definition to_opcode :: "byte \<Rightarrow> WsOpcode" where
  "to_opcode b =
     (if b = 0x0 then CONTINUATION else if b = 0x1 then TEXT else if b = 0x2 then BINARY
      else if b = 0x8 then CLOSE else if b = 0x9 then PING else if b = 0xA then PONG else OtherOpcode b)"

record WebSocketFrame =
  ws_fin :: bool
  ws_opcode :: WsOpcode
  ws_masked :: bool
  ws_mask_key :: "byte list"
  ws_payload :: "byte list"

definition default_frame :: WebSocketFrame where
  "default_frame = \<lparr>ws_fin = True, ws_opcode = TEXT, ws_masked = False, ws_mask_key = [0, 0, 0, 0], ws_payload = []\<rparr>"

definition unmask :: "byte list \<Rightarrow> byte list \<Rightarrow> byte list" where
  "unmask mask_key payload = map (\<lambda>i. (payload ! i) XOR (mask_key ! (i mod 4))) [0..<length payload]"

text \<open>The length field: its value and the position after it, \<^const>\<open>None\<close> when it is not there yet.\<close>

definition payload_length :: "byte list \<Rightarrow> (u64 \<times> nat) option" where
  "payload_length data =
     (let len7 = data ! 1 AND 0x7F in
      if len7 = 126 then
        if length data < 2 + 2 then None
        else Some (push_bit 8 (ucast (data ! 2)) OR ucast (data ! 3), 4)
      else if len7 = 127 then
        if length data < 2 + 8 then None
        else Some (foldl (\<lambda>acc b. push_bit 8 acc OR ucast b) 0 (slice data 2 8), 10)
      else Some (ucast len7, 2))"

text \<open>\<open>std::vector<uint8_t>::max_size()\<close>; a larger \<open>resize\<close> throws \<open>std::length_error\<close>.\<close>

definition vector_max_size :: nat where
  "vector_max_size = 2 ^ 63 - 1"

definition ParseFrame :: "byte list \<Rightarrow> (WebSocketFrame \<times> nat) option res" where
  "ParseFrame data =
     (if length data < 2 then Inr None
      else
        let fin = (data ! 0 AND 0x80 \<noteq> 0);
            opcode = to_opcode (data ! 0 AND 0x0F);
            masked = (data ! 1 AND 0x80 \<noteq> 0)
        in case payload_length data of
            None \<Rightarrow> Inr None
          | Some (payload_len, pos) \<Rightarrow>
              if masked \<and> length data < pos + 4 then Inr None
              else
                let mask_key = (if masked then slice data pos 4 else [0, 0, 0, 0]);
                    pos' = (if masked then pos + 4 else pos)
                in if length data < (pos' + unat payload_len) mod 2 ^ 64 then Inr None
                   else if vector_max_size < unat payload_len then Inl LengthError
                   else
                     let raw = slice data pos' (unat payload_len);
                         payload = (if masked then unmask mask_key raw else raw)
                     in Inr (Some (\<lparr>ws_fin = fin, ws_opcode = opcode, ws_masked = masked,
                          ws_mask_key = mask_key, ws_payload = payload\<rparr>,
                          (pos' + unat payload_len) mod 2 ^ 64)))"

definition length_bytes :: "byte \<Rightarrow> nat \<Rightarrow> byte list" where
  "length_bytes mask_bit n =
     (let size = (word_of_nat n :: u64) in
      if n \<le> 125 then [mask_bit OR ucast size]
      else if n \<le> 65535 then
        [mask_bit OR 126, ucast (drop_bit 8 size AND 0xFF), ucast (size AND 0xFF)]
      else
        (mask_bit OR 127) # map (\<lambda>i. ucast (drop_bit i size AND 0xFF)) [56, 48, 40, 32, 24, 16, 8, 0])"

definition Serialize :: "WebSocketFrame \<Rightarrow> byte list" where
  "Serialize f =
     ((if ws_fin f then 0x80 else 0x00) OR opcode_byte (ws_opcode f))
       # length_bytes 0 (length (ws_payload f)) @ ws_payload f"

section \<open>The header bytes\<close>

text \<open>A frame as RFC 6455 encodes it, with or without a mask; the server's own frames have none.\<close>

definition encode_frame :: "WebSocketFrame \<Rightarrow> byte list" where
  "encode_frame f =
     ((if ws_fin f then 0x80 else 0x00) OR opcode_byte (ws_opcode f))
       # length_bytes (if ws_masked f then 0x80 else 0) (length (ws_payload f))
       @ (if ws_masked f then ws_mask_key f @ unmask (ws_mask_key f) (ws_payload f) else ws_payload f)"

definition frame_ok :: "WebSocketFrame \<Rightarrow> bool" where
  "frame_ok f \<longleftrightarrow> to_opcode (opcode_byte (ws_opcode f)) = ws_opcode f \<and> opcode_byte (ws_opcode f) AND 0x0F = opcode_byte (ws_opcode f) \<and>
     length (ws_mask_key f) = 4 \<and> (ws_masked f \<or> ws_mask_key f = [0, 0, 0, 0]) \<and>
     length (ws_payload f) < 2 ^ 63"

lemma Serialize_encode: "Serialize f = encode_frame (f\<lparr>ws_masked := False\<rparr>)"
  by (simp add: Serialize_def encode_frame_def)

lemma and_0F: "(b :: byte) AND 0x0F = take_bit 4 b"
  by (simp add: take_bit_eq_mask mask_numeral)

lemma and_7F: "(b :: byte) AND 0x7F = take_bit 7 b"
  by (simp add: take_bit_eq_mask mask_numeral)

lemma and_FF: "(w :: u64) AND 0xFF = take_bit 8 w"
  by (simp add: take_bit_eq_mask mask_numeral)

lemma bit_80: "bit (0x80 :: byte) i \<longleftrightarrow> i = 7"
proof -
  have "(0x80 :: byte) = 2 ^ 7" by simp
  then show ?thesis by (simp only: bit_exp_iff) auto
qed

lemma and_80: "(b :: byte) AND 0x80 \<noteq> 0 \<longleftrightarrow> bit b 7"
proof -
  have "(0x80 :: byte) = 2 ^ 7" by simp
  then show ?thesis using and_exp_eq_0_iff_not_bit [of b 7] by simp
qed

lemma high_bit_parts:
  fixes w :: byte
  assumes "take_bit 7 w = w" and "m = 0 \<or> m = 0x80"
  shows "take_bit 7 (m OR w) = w" and "bit (m OR w) 7 \<longleftrightarrow> m \<noteq> 0"
proof -
  have w: "\<not> bit w i" if "7 \<le> i" for i using assms(1) that by (metis bit_take_bit_iff not_less)
  have "take_bit 7 (0x80 OR w) = w"
  proof (rule bit_word_eqI)
    fix i
    assume "i < LENGTH(8)"
    show "bit (take_bit 7 (0x80 OR w)) i = bit w i"
      using w [of i] by (cases "i < 7") (auto simp: bit_take_bit_iff bit_or_iff bit_80)
  qed
  with assms show "take_bit 7 (m OR w) = w" by auto
  show "bit (m OR w) 7 \<longleftrightarrow> m \<noteq> 0" using assms(2) w [of 7] by (auto simp: bit_or_iff bit_80)
qed

lemma take_bit_of_nat: "n < 2 ^ k \<Longrightarrow> take_bit k (word_of_nat n :: 'a::len word) = word_of_nat n"
  by (metis of_nat_take_bit take_bit_nat_eq_self)

lemma ucast_small:
  assumes "n < 128"
  shows "(ucast (word_of_nat n :: u64) :: byte) = word_of_nat n" "(ucast (word_of_nat n :: byte) :: u64) = word_of_nat n"
proof -
  show "(ucast (word_of_nat n :: u64) :: byte) = word_of_nat n"
    using assms by (simp add: word_unat_eq_iff unsigned_ucast_eq unat_of_nat take_bit_nat_eq_self)
  show "(ucast (word_of_nat n :: byte) :: u64) = word_of_nat n"
    using assms by (simp add: word_unat_eq_iff unsigned_ucast_eq unat_of_nat take_bit_nat_eq_self)
qed

section \<open>The length field\<close>

lemma byte_step:
  fixes n :: u64
  shows "push_bit 8 (drop_bit (k + 8) n) OR ucast (ucast (drop_bit k n AND 0xFF) :: byte) = drop_bit k n"
proof (rule bit_word_eqI)
  fix i
  assume "i < LENGTH(64)"
  then show "bit (push_bit 8 (drop_bit (k + 8) n) OR ucast (ucast (drop_bit k n AND 0xFF) :: byte)) i = bit (drop_bit k n) i"
    by (cases "i < 8") (auto simp: and_FF bit_simps)
qed

lemma eight_bytes:
  fixes n :: u64
  shows "foldl (\<lambda>acc b. push_bit 8 acc OR ucast b) 0
     (map (\<lambda>i. ucast (drop_bit i n AND 0xFF) :: byte) [56, 48, 40, 32, 24, 16, 8, 0]) = n"
proof -
  have 0: "(0 :: u64) = drop_bit 64 n"
    by (rule bit_word_eqI) (auto simp: bit_simps dest: bit_imp_le_length)
  show ?thesis
    using byte_step [of 56 n] byte_step [of 48 n] byte_step [of 40 n] byte_step [of 32 n]
      byte_step [of 24 n] byte_step [of 16 n] byte_step [of 8 n] byte_step [of 0 n]
    by (simp only: list.map foldl.simps 0) simp
qed

lemma two_bytes:
  fixes n :: u64
  assumes "take_bit 16 n = n"
  shows "push_bit 8 (ucast (ucast (drop_bit 8 n AND 0xFF) :: byte)) OR ucast (ucast (n AND 0xFF) :: byte) = n"
proof -
  have "(ucast (ucast (drop_bit 8 n AND 0xFF) :: byte) :: u64) = drop_bit 8 n"
  proof (rule bit_word_eqI)
    fix i
    assume "i < LENGTH(64)"
    have "\<not> bit n j" if "16 \<le> j" for j using assms that by (metis bit_take_bit_iff not_less)
    then show "bit (ucast (ucast (drop_bit 8 n AND 0xFF) :: byte) :: u64) i = bit (drop_bit 8 n) i"
      using \<open>i < LENGTH(64)\<close> by (cases "i < 8") (auto simp: and_FF bit_simps)
  qed
  then show ?thesis using byte_step [of 0 n] by simp
qed

lemma length_length_bytes:
  "length (length_bytes m n) = (if n \<le> 125 then 1 else if n \<le> 65535 then 3 else 9)"
  by (simp add: length_bytes_def Let_def)

lemma payload_length_bytes:
  assumes "m = 0 \<or> m = 0x80" and "n < 2 ^ 64"
  shows "payload_length (b0 # length_bytes m n @ rest) =
      Some (word_of_nat n, 1 + length (length_bytes m n))" (is ?len)
    and "(b0 # length_bytes m n @ rest) ! 1 AND 0x80 \<noteq> 0 \<longleftrightarrow> m \<noteq> 0" (is ?mask)
proof -
  have t: "take_bit 7 (word_of_nat k :: byte) = word_of_nat k" if "k < 128" for k
    by (rule take_bit_of_nat) (use that in simp)
  consider "n \<le> 125" | "125 < n" "n \<le> 65535" | "65535 < n" by linarith
  then have "?len \<and> ?mask"
  proof cases
    case 1
    have u: "(ucast (word_of_nat n :: u64) :: byte) = word_of_nat n" "(ucast (word_of_nat n :: byte) :: u64) = word_of_nat n"
      using 1 by (simp_all add: ucast_small)
    have ne: "(word_of_nat n :: byte) \<noteq> 126" "(word_of_nat n :: byte) \<noteq> 127"
      using 1 by (simp_all add: word_unat_eq_iff unat_of_nat)
    show ?thesis
      using 1 t [of n] ne high_bit_parts [of "word_of_nat n" m] assms(1)
      by (simp add: length_bytes_def Let_def payload_length_def and_7F and_80 u)
  next
    case 2
    have "take_bit 16 (word_of_nat n :: u64) = word_of_nat n" using 2 by (intro take_bit_of_nat) simp
    from two_bytes [OF this] show ?thesis
      using 2 t [of 126] high_bit_parts [of 126 m] assms(1)
      by (simp add: length_bytes_def Let_def payload_length_def and_7F and_80)
  next
    case 3
    have t: "take_bit 7 (127 :: byte) = 127" using t [of 127] by simp
    let ?bs = "map (\<lambda>i. ucast (drop_bit i (word_of_nat n :: u64) AND 0xFF) :: byte) [56, 48, 40, 32, 24, 16, 8, 0]"
    have lb: "length_bytes m n = (m OR 127) # ?bs" using 3 by (simp add: length_bytes_def Let_def)
    have "slice (b0 # length_bytes m n @ rest) 2 8 = ?bs" unfolding lb by (simp add: slice_def)
    then show ?thesis
      using 3 t high_bit_parts [of 127 m] assms(1) eight_bytes [of "word_of_nat n"]
      unfolding payload_length_def by (simp add: lb Let_def and_7F and_80)
  qed
  then show ?len ?mask by blast+
qed

lemma length_unmask [simp]: "length (unmask k p) = length p"
  by (simp add: unmask_def)

lemma unmask_unmask [simp]: "unmask k (unmask k p) = p"
  by (rule nth_equalityI) (simp_all add: unmask_def xor.assoc)

section \<open>Parsing what was encoded\<close>

lemma ParseFrame_encode:
  assumes "frame_ok f" and "length (encode_frame f) < 2 ^ 64"
  shows "ParseFrame (encode_frame f @ rest) = Inr (Some (f, length (encode_frame f)))"
proof -
  let ?m = "if ws_masked f then 0x80 else 0 :: byte" and ?n = "length (ws_payload f)"
  let ?b0 = "(if ws_fin f then 0x80 else 0x00) OR opcode_byte (ws_opcode f)"
  let ?k = "if ws_masked f then ws_mask_key f else []"
  let ?p = "if ws_masked f then unmask (ws_mask_key f) (ws_payload f) else ws_payload f"
  let ?lb = "length_bytes ?m ?n"
  have e: "encode_frame f @ rest = ?b0 # ?lb @ ?k @ ?p @ rest"
    by (simp add: encode_frame_def)
  have ok: "to_opcode (opcode_byte (ws_opcode f)) = ws_opcode f" "take_bit 4 (opcode_byte (ws_opcode f)) = opcode_byte (ws_opcode f)"
    "length (ws_mask_key f) = 4" "ws_masked f \<or> ws_mask_key f = [0, 0, 0, 0]" "?n < 2 ^ 63"
    using assms(1) by (simp_all add: frame_ok_def and_0F)
  have lp: "length ?p = ?n" "length ?k = (if ws_masked f then 4 else 0)" using ok(3) by simp_all
  have op7: "take_bit 7 (opcode_byte (ws_opcode f)) = opcode_byte (ws_opcode f)"
    using ok(2) by (metis min.absorb_iff2 take_bit_take_bit numeral_le_iff semiring_norm(68,69,71,72))
  have b0: "?b0 AND 0x80 \<noteq> 0 \<longleftrightarrow> ws_fin f"
    using high_bit_parts(2) [OF op7, of "if ws_fin f then 0x80 else 0"] by (simp add: and_80)
  have b0': "?b0 AND 0x0F = opcode_byte (ws_opcode f)"
  proof -
    have "take_bit 4 ?b0 = take_bit 4 (take_bit 7 ?b0)" by (simp add: take_bit_take_bit)
    also have "take_bit 7 ?b0 = opcode_byte (ws_opcode f)"
      using high_bit_parts(1) [OF op7, of "if ws_fin f then 0x80 else 0"] by simp
    finally show ?thesis using ok(2) by (simp add: and_0F)
  qed
  have m: "?m = 0 \<or> ?m = 0x80" "?n < 2 ^ 64" using ok(5) by simp_all
  note pl = payload_length_bytes [OF m, of ?b0 "?k @ ?p @ rest"]
  have u: "unat (word_of_nat ?n :: u64) = ?n" using m(2) by (simp add: unat_of_nat)
  have len: "length (encode_frame f) = 1 + length ?lb + length ?k + ?n"
    using lp ok(3) by (simp add: encode_frame_def)
  have k: "slice (?b0 # ?lb @ ?k @ ?p @ rest) (1 + length ?lb) 4 = ws_mask_key f" if "ws_masked f"
    using that ok(3) by (simp add: slice_def)
  have p: "slice (?b0 # ?lb @ ?k @ ?p @ rest) (1 + length ?lb + length ?k) ?n = ?p"
    using slice_append [of "?b0 # ?lb @ ?k" "1 + length ?lb + length ?k" ?p ?n rest] lp by simp
  have l2: "\<not> length (?b0 # ?lb @ ?k @ ?p @ rest) < 2" by (simp add: length_length_bytes)
  have tot: "(1 + length ?lb + length ?k + ?n) mod 2 ^ 64 = length (encode_frame f)"
    using assms(2) len by simp
  have enough: "\<not> length (?b0 # ?lb @ ?k @ ?p @ rest) < length (encode_frame f)"
    using len lp by simp
  have pos: "(if ws_masked f then 1 + length ?lb + 4 else 1 + length ?lb) = 1 + length ?lb + length ?k"
    using lp by simp
  have nomask: "\<not> (ws_masked f \<and> length (?b0 # ?lb @ ?k @ ?p @ rest) < 1 + length ?lb + 4)"
    using ok(3) by simp
  have mk: "?m \<noteq> 0 \<longleftrightarrow> ws_masked f" by simp
  have key: "(if ws_masked f then slice (?b0 # ?lb @ ?k @ ?p @ rest) (1 + length ?lb) 4 else [0, 0, 0, 0]) = ws_mask_key f"
    using k ok(4) by auto
  have max: "\<not> vector_max_size < ?n" using ok(5) by (simp add: vector_max_size_def)
  have un: "(if ws_masked f then unmask (ws_mask_key f) ?p else ?p) = ws_payload f" by simp
  show ?thesis
    unfolding e ParseFrame_def Let_def pl(1) option.case case_prod_conv pl(2) mk nth_Cons_0 b0 b0' ok(1)
      pos key u tot p un if_not_P [OF l2] if_not_P [OF nomask] if_not_P [OF enough] if_not_P [OF max]
    by (cases f) simp
qed

text \<open>A parsed frame is inside the buffer: no read is past its end, and it is never empty.\<close>

lemma payload_length_pos: "payload_length data = Some (n, pos) \<Longrightarrow> 2 \<le> length data \<Longrightarrow> 2 \<le> pos \<and> pos \<le> 10 \<and> pos \<le> length data"
  by (auto simp: payload_length_def Let_def split: if_splits)

lemma ParseFrame_SomeD:
  assumes "ParseFrame data = Inr (Some (f, n))"
  obtains payload_len pos pos' where "payload_length data = Some (payload_len, pos)"
    and "pos' = (if data ! 1 AND 0x80 \<noteq> 0 then pos + 4 else pos)" and "pos' \<le> length data"
    and "n = pos' + unat payload_len" and "n \<le> length data" and "2 \<le> n" and "length (ws_payload f) = unat payload_len"
proof -
  from assms have l: "2 \<le> length data" by (auto simp: ParseFrame_def split: if_splits)
  from assms l obtain pl pos where p: "payload_length data = Some (pl, pos)"
    by (cases "payload_length data") (auto simp: ParseFrame_def Let_def)
  define pos' where "pos' = (if data ! 1 AND 0x80 \<noteq> 0 then pos + 4 else pos)"
  from assms l p have *: "\<not> (data ! 1 AND 0x80 \<noteq> 0 \<and> length data < pos + 4)"
    "n = (pos' + unat pl) mod 2 ^ 64" "n \<le> length data" "unat pl \<le> vector_max_size"
    by (auto simp: ParseFrame_def Let_def pos'_def split: if_splits)
  have b: "2 \<le> pos'" "pos' \<le> 14" "pos' \<le> length data"
    using payload_length_pos [OF p l] *(1) by (auto simp: pos'_def)
  have n: "n = pos' + unat pl" using *(2,4) b(2) by (simp add: vector_max_size_def)
  have "length (ws_payload f) = unat pl"
    using assms l p *(1,3) n b(3) by (auto simp: ParseFrame_def Let_def slice_def pos'_def split: if_splits)
  with that [OF p pos'_def b(3) n *(3)] n b show thesis by simp
qed

section \<open>Frames in a stream\<close>

definition ws_frame :: "byte list \<Rightarrow> nat option res" where
  "ws_frame data = bind_res (ParseFrame data) (\<lambda>r. Inr (map_option snd r))"

lemma payload_length_append:
  assumes "payload_length b = Some x" and "2 \<le> length b"
  shows "payload_length (b @ c) = Some x"
proof -
  have "(b @ c) ! 1 = b ! 1" using assms(2) by (simp add: nth_append)
  moreover have "(b @ c) ! 2 = b ! 2" "(b @ c) ! 3 = b ! 3" if "4 \<le> length b" using that by (simp_all add: nth_append)
  moreover have "slice (b @ c) 2 8 = slice b 2 8" if "10 \<le> length b" using that by (simp add: slice_def)
  ultimately show ?thesis using assms(1) by (auto simp: payload_length_def Let_def split: if_splits)
qed

lemma slice_append_left: "pos + n \<le> length b \<Longrightarrow> slice (b @ c) pos n = slice b pos n"
  by (simp add: slice_def)

lemma ParseFrame_append:
  assumes "ParseFrame b \<noteq> Inr None"
  shows "ParseFrame (b @ c) = ParseFrame b"
proof -
  from assms have l: "2 \<le> length b" by (auto simp: ParseFrame_def split: if_splits)
  from assms l obtain n pos where p: "payload_length b = Some (n, pos)"
    by (cases "payload_length b") (auto simp: ParseFrame_def Let_def)
  define pos' where "pos' = (if b ! 1 AND 0x80 \<noteq> 0 then pos + 4 else pos)"
  have q: "payload_length (b @ c) = Some (n, pos)" by (rule payload_length_append [OF p l])
  have nth: "(b @ c) ! 0 = b ! 0" "(b @ c) ! 1 = b ! 1" using l by (auto simp: nth_append)
  from assms l p have mk: "\<not> (b ! 1 AND 0x80 \<noteq> 0 \<and> length b < pos + 4)"
    and tot: "(pos' + unat n) mod 2 ^ 64 \<le> length b"
    by (auto simp: ParseFrame_def Let_def pos'_def split: if_splits)
  let ?M = "b ! 1 AND 0x80 \<noteq> 0"
  have key: "(if ?M then slice (b @ c) pos 4 else z) = (if ?M then slice b pos 4 else z)" for z
    using mk slice_append_left [of pos 4 b c] by auto
  have "pos' \<le> 14" using payload_length_pos [OF p l] by (simp add: pos'_def)
  then have raw: "slice (b @ c) pos' (unat n) = slice b pos' (unat n)" if "\<not> vector_max_size < unat n"
    using tot that by (intro slice_append_left) (simp add: vector_max_size_def)
  have c: "\<not> length (b @ c) < 2" "\<not> length b < 2" "\<not> (?M \<and> length (b @ c) < pos + 4)"
    "\<not> length (b @ c) < (pos' + unat n) mod 2 ^ 64" "\<not> length b < (pos' + unat n) mod 2 ^ 64"
    using l mk tot by auto
  show ?thesis
    unfolding ParseFrame_def Let_def p q option.case case_prod_conv nth key pos'_def [symmetric]
      if_not_P [OF c(1)] if_not_P [OF c(2)] if_not_P [OF c(3)] if_not_P [OF c(4)] if_not_P [OF c(5)] if_not_P [OF mk]
    using raw by (cases "vector_max_size < unat n") simp_all
qed

interpretation ws: framing_loop ws_frame
proof
  fix b :: "byte list" and n
  assume "ws_frame b = Inr (Some n)"
  then obtain f where "ParseFrame b = Inr (Some (f, n))" by (auto simp: ws_frame_def bind_res_eq_Inr)
  then show "n \<le> length b" "0 < n" by (auto elim: ParseFrame_SomeD)
next
  fix b c :: "byte list"
  assume "ws_frame b \<noteq> Inr None"
  then have "ParseFrame b \<noteq> Inr None" by (auto simp: ws_frame_def)
  then show "ws_frame (b @ c) = ws_frame b" by (simp add: ws_frame_def ParseFrame_append)
qed

definition encodes :: "WebSocketFrame \<Rightarrow> bool" where
  "encodes f \<longleftrightarrow> frame_ok f \<and> length (encode_frame f) < 2 ^ 64"

lemma ws_frame_encode: "encodes f \<Longrightarrow> ws_frame (encode_frame f @ rest) = Inr (Some (length (encode_frame f)))"
  by (simp add: ws_frame_def encodes_def ParseFrame_encode)

lemma drain_encoded:
  "list_all encodes fs \<Longrightarrow> ws.drain (concat (map encode_frame fs)) = (map encode_frame fs, [], None)"
proof (induction fs)
  case Nil
  have "ws_frame [] = Inr None" by (simp add: ws_frame_def ParseFrame_def)
  then show ?case by (simp add: ws.drain_wait)
next
  case (Cons f fs)
  then show ?case by (simp add: ws.drain_message [OF ws_frame_encode])
qed

section \<open>Properties\<close>

text \<open>
  C10: the frame round trip. \<open>Parse\<close> on an encoded frame, masked by a client or not, in any of the three
  length formats and with anything behind it, returns the frame with its payload unmasked and
  consumes exactly its bytes; and \<open>Serialize\<close> writes the unmasked encoding.
\<close>

theorem ws_frame_roundtrip:
  assumes "frame_ok f" and "length (encode_frame f) < 2 ^ 64"
  shows "ParseFrame (encode_frame f @ rest) = Inr (Some (f, length (encode_frame f))) \<and>
    Serialize f = encode_frame (f\<lparr>ws_masked := False\<rparr>)"
  using ParseFrame_encode [OF assms] Serialize_encode by simp

theorem ws_frame_roundtrip_witness:
  "ParseFrame [0x81, 0x82, 1, 2, 3, 4, 0x49, 0x6B] =
    Inr (Some (\<lparr>ws_fin = True, ws_opcode = TEXT, ws_masked = True, ws_mask_key = [1, 2, 3, 4],
      ws_payload = [0x48, 0x69]\<rparr>, 8))"
  using ws_frame_roundtrip [of "\<lparr>ws_fin = True, ws_opcode = TEXT, ws_masked = True, ws_mask_key = [1, 2, 3, 4],
      ws_payload = [0x48, 0x69]\<rparr>" "[]"]
  by (simp add: frame_ok_def encode_frame_def length_bytes_def unmask_def to_opcode_def)

text \<open>
  Parsing stays inside the buffer. A parsed frame ends inside the buffer and takes at least two bytes,
  its payload has exactly the declared length, and the sum of position and length did not
  wrap. The only exception is \<open>std::length_error\<close>, for a declared length of \<open>2 ^ 63\<close> or more that wraps
  the sum. Bytes that arrive later never change a result.
\<close>

theorem ws_parse_bounds:
  "case ParseFrame data of
     Inr None \<Rightarrow> True
   | Inr (Some (f, n)) \<Rightarrow> 2 \<le> n \<and> n \<le> length data \<and> length (ws_payload f) < n \<and>
       ParseFrame (data @ later) = ParseFrame data
   | Inl e \<Rightarrow> e = LengthError \<and> ParseFrame (data @ later) = ParseFrame data \<and>
       (\<exists>n pos. payload_length data = Some (n, pos) \<and> 2 ^ 63 \<le> unat n)"
proof (cases "ParseFrame data")
  case (Inl e)
  then have "e = LengthError \<and> (\<exists>n pos. payload_length data = Some (n, pos) \<and> 2 ^ 63 \<le> unat n)"
    by (auto simp: ParseFrame_def Let_def vector_max_size_def split: if_splits option.splits prod.splits)
  with Inl ParseFrame_append [of data later] show ?thesis by simp
next
  case (Inr y)
  show ?thesis
  proof (cases y)
    case None
    with Inr show ?thesis by simp
  next
    case (Some fn)
    obtain f n where fn: "fn = (f, n)" by (cases fn)
    with Inr Some have p: "ParseFrame data = Inr (Some (f, n))" by simp
    have "2 \<le> n \<and> n \<le> length data \<and> length (ws_payload f) < n"
    proof (rule ParseFrame_SomeD [OF p])
      fix pl pos pos'
      assume a: "payload_length data = Some (pl, pos)" "pos' = (if data ! 1 AND 0x80 \<noteq> 0 then pos + 4 else pos)"
        "pos' \<le> length data" "n = pos' + unat pl" "n \<le> length data" "2 \<le> n" "length (ws_payload f) = unat pl"
      have "0 < pos'" using a(1,2) by (auto simp: payload_length_def Let_def split: if_splits)
      with a show ?thesis by simp
    qed
    with p ParseFrame_append [of data later] show ?thesis by simp
  qed
qed

end
