(* ===== verification/HttpTypes.thy ===== *)
theory HttpTypes
  imports Prelude
begin

text \<open>
  The values that flow through the REST framework: \<open>HttpMethod.h\<close>, \<open>HttpRequest.h\<close>,
  \<open>HttpResponse.h\<close>, \<open>types/AuthenticatedUser.h\<close>. A request's method is a C++ enum that is
  uninitialised until it is assigned, so it is an option here. \<open>HttpResponse::File\<close> reads a
  file: the file system is a function from paths to contents.
\<close>

section \<open>Methods\<close>

datatype HttpMethod = GET | POST | PUT | DELETE | PATCH | HEAD | OPTIONS | TRACE | CONNECT

definition GetEnumForString :: "string \<Rightarrow> HttpMethod res" where
  "GetEnumForString m =
     (if m = ''GET'' then Inr GET
      else if m = ''POST'' then Inr POST
      else if m = ''PUT'' then Inr PUT
      else if m = ''DELETE'' then Inr DELETE
      else if m = ''PATCH'' then Inr PATCH
      else if m = ''HEAD'' then Inr HEAD
      else if m = ''OPTIONS'' then Inr OPTIONS
      else if m = ''TRACE'' then Inr TRACE
      else if m = ''CONNECT'' then Inr CONNECT
      else Inl (InvalidArgument (''Invalid HTTP method: '' @ m)))"

fun GetStringForEnum :: "HttpMethod \<Rightarrow> string" where
  "GetStringForEnum GET = ''GET''"
| "GetStringForEnum POST = ''POST''"
| "GetStringForEnum PUT = ''PUT''"
| "GetStringForEnum DELETE = ''DELETE''"
| "GetStringForEnum PATCH = ''PATCH''"
| "GetStringForEnum HEAD = ''HEAD''"
| "GetStringForEnum OPTIONS = ''OPTIONS''"
| "GetStringForEnum TRACE = ''TRACE''"
| "GetStringForEnum CONNECT = ''CONNECT''"

lemma GetEnumForString_eq_Inr: "GetEnumForString m = Inr x \<longleftrightarrow> m = GetStringForEnum x"
  by (cases x) (auto simp: GetEnumForString_def)

lemma GetEnumForString_eq_Inl:
  "GetEnumForString m = Inl e \<longleftrightarrow> (\<forall>x. m \<noteq> GetStringForEnum x) \<and> e = InvalidArgument (''Invalid HTTP method: '' @ m)"
proof (cases "GetEnumForString m")
  case (Inl e')
  then have "e' = InvalidArgument (''Invalid HTTP method: '' @ m)"
    by (auto simp: GetEnumForString_def split: if_splits)
  with Inl GetEnumForString_eq_Inr [of m] show ?thesis by auto
next
  case (Inr b)
  then have "m = GetStringForEnum b" by (simp add: GetEnumForString_eq_Inr)
  with Inr show ?thesis by auto
qed

lemma GetEnumForString_GetStringForEnum [simp]: "GetEnumForString (GetStringForEnum x) = Inr x"
  by (simp add: GetEnumForString_eq_Inr)

lemma GetStringForEnum_word: "list_all (\<lambda>c. \<not> is_space c) (GetStringForEnum x)" "GetStringForEnum x \<noteq> []"
  by (cases x; simp add: is_space_def)+

section \<open>Requests\<close>

record AuthenticatedUser =
  au_id :: int
  au_username :: string

record HttpRequest =
  req_method :: "HttpMethod option"
  req_path :: string
  req_version :: string
  req_query_string :: string
  req_headers :: smap
  req_query_params :: smap
  req_body_params :: smap
  req_path_params :: smap
  req_body :: string

definition empty_request :: HttpRequest where
  "empty_request = \<lparr>req_method = None, req_path = [], req_version = [], req_query_string = [],
     req_headers = [], req_query_params = [], req_body_params = [], req_path_params = [], req_body = []\<rparr>"

definition BodyString :: "HttpRequest \<Rightarrow> string" where
  "BodyString req = req_body req"

definition QueryParam :: "HttpRequest \<Rightarrow> string \<Rightarrow> string option" where
  "QueryParam req key = map_of (req_query_params req) key"

definition BodyParam :: "HttpRequest \<Rightarrow> string \<Rightarrow> string option" where
  "BodyParam req key = map_of (req_body_params req) key"

definition PathParam :: "HttpRequest \<Rightarrow> string \<Rightarrow> string option" where
  "PathParam req key = map_of (req_path_params req) key"

section \<open>Responses\<close>

record HttpResponse =
  res_status_code :: int
  res_status_text :: string
  res_headers :: smap
  res_body :: string

definition mk_response :: "int \<Rightarrow> string \<Rightarrow> string \<Rightarrow> HttpResponse" where
  "mk_response code txt b = \<lparr>res_status_code = code, res_status_text = txt, res_headers = [], res_body = b\<rparr>"

definition Ok :: "string \<Rightarrow> HttpResponse" where
  "Ok b = mk_response 200 ''OK'' b"

definition Created :: "string \<Rightarrow> HttpResponse" where
  "Created b = mk_response 201 ''Created'' b"

definition NoContent :: HttpResponse where
  "NoContent = mk_response 204 ''No Content'' []"

definition BadRequest :: "string \<Rightarrow> HttpResponse" where
  "BadRequest b = mk_response 400 ''Bad Request'' b"

definition Unauthorized :: "string \<Rightarrow> HttpResponse" where
  "Unauthorized b = mk_response 401 ''Unauthorized'' b"

definition Forbidden :: "string \<Rightarrow> HttpResponse" where
  "Forbidden b = mk_response 403 ''Forbidden'' b"

definition NotFound :: "string \<Rightarrow> HttpResponse" where
  "NotFound b = mk_response 404 ''Not Found'' b"

definition Conflict :: "string \<Rightarrow> HttpResponse" where
  "Conflict b = mk_response 409 ''Conflict'' b"

definition UnprocessableEntity :: "string \<Rightarrow> HttpResponse" where
  "UnprocessableEntity b = mk_response 422 ''Unprocessable Entity'' b"

definition Json :: "string \<Rightarrow> HttpResponse" where
  "Json j = (mk_response 200 ''OK'' j)\<lparr>res_headers := [(''Content-Type'', ''application/json'')]\<rparr>"

definition InternalServerError :: "string \<Rightarrow> HttpResponse" where
  "InternalServerError b = mk_response 500 ''Internal Server Error'' b"

definition content_type_of :: "string \<Rightarrow> string" where
  "content_type_of filePath =
     (if ends_with filePath ''.m3u8'' then ''application/vnd.apple.mpegurl''
      else if ends_with filePath ''.ts'' then ''video/mp2t''
      else ''application/octet-stream'')"

definition FileResponse :: "(string \<Rightarrow> string option) \<Rightarrow> string \<Rightarrow> HttpResponse" where
  "FileResponse fs filePath =
     (case fs filePath of
        None \<Rightarrow> NotFound ''File not found''
      | Some content \<Rightarrow>
          (mk_response 200 ''OK'' content)
            \<lparr>res_headers := smap_set ''Content-Type'' (content_type_of filePath) []\<rparr>)"

lemmas response_defs = mk_response_def Ok_def Created_def NoContent_def BadRequest_def Unauthorized_def
  Forbidden_def NotFound_def Conflict_def UnprocessableEntity_def Json_def InternalServerError_def

end
