(* ===== verification/WsConn.thy ===== *)
theory WsConn
  imports WsFrame HttpTypes
begin

text \<open>
  \<open>WebSocketConnection.h\<close>: the connection after the upgrade. It queues serialised frames, flushes the
  queue with partial writes, and feeds received bytes to the frame parser. Callbacks are functions on the
  connection and the state \<open>'w\<close> of the rest of the program; they cannot reach the read buffer, which
  is therefore kept beside the record. The epoll interest and the bytes the socket took are fields.
\<close>

section \<open>Sending\<close>

datatype WsState = OPEN | CLOSING | CLOSED

record ws_conn =
  ws_state :: WsState
  write_queue :: "byte list list"
  write_offset :: nat
  armed_write :: bool
  ws_sent :: "byte list"
  ws_request :: HttpRequest

definition new_ws :: "HttpRequest \<Rightarrow> ws_conn" where
  "new_ws http_request = \<lparr>ws_state = OPEN, write_queue = [], write_offset = 0, armed_write = False,
     ws_sent = [], ws_request = http_request\<rparr>"

definition QueueFrame :: "WebSocketFrame \<Rightarrow> ws_conn \<Rightarrow> ws_conn" where
  "QueueFrame frame c = c\<lparr>write_queue := write_queue c @ [Serialize frame], armed_write := True\<rparr>"

definition mk_frame :: "WsOpcode \<Rightarrow> byte list \<Rightarrow> WebSocketFrame" where
  "mk_frame opcode payload = default_frame\<lparr>ws_fin := True, ws_opcode := opcode, ws_payload := payload\<rparr>"

definition SendText :: "string \<Rightarrow> ws_conn \<Rightarrow> ws_conn" where
  "SendText message c = QueueFrame (mk_frame TEXT (bytes_of message)) c"

definition SendBinary :: "byte list \<Rightarrow> ws_conn \<Rightarrow> ws_conn" where
  "SendBinary data c = QueueFrame (mk_frame BINARY data) c"

definition SendPing :: "byte list \<Rightarrow> ws_conn \<Rightarrow> ws_conn" where
  "SendPing data c = QueueFrame (mk_frame PING data) c"

definition close_frame :: "u16 \<Rightarrow> string \<Rightarrow> WebSocketFrame" where
  "close_frame code reason =
     mk_frame CLOSE (ucast (drop_bit 8 code AND 0xFF) # ucast (code AND 0xFF) # bytes_of reason)"

definition CloseWs :: "u16 \<Rightarrow> string \<Rightarrow> ws_conn \<Rightarrow> ws_conn" where
  "CloseWs code reason c =
     (if ws_state c \<noteq> OPEN then c
      else QueueFrame (close_frame code reason) (c\<lparr>ws_state := CLOSING\<rparr>))"

section \<open>Receiving\<close>

record 'w ws_callbacks =
  on_message :: "(byte list \<Rightarrow> WsOpcode \<Rightarrow> ws_conn \<times> 'w \<Rightarrow> (ws_conn \<times> 'w) \<times> exn option) option"
  on_close :: "(u16 \<Rightarrow> string \<Rightarrow> ws_conn \<times> 'w \<Rightarrow> (ws_conn \<times> 'w) \<times> exn option) option"

text \<open>The status code and reason of a close frame; \<open>1005\<close> stands for none.\<close>

definition close_code :: "byte list \<Rightarrow> u16" where
  "close_code payload =
     (if 2 \<le> length payload then push_bit 8 (ucast (payload ! 0)) OR ucast (payload ! 1) else 1005)"

definition close_reason :: "byte list \<Rightarrow> string" where
  "close_reason payload = (if 2 < length payload then string_of (drop 2 payload) else [])"

definition handle_frame ::
    "'w ws_callbacks \<Rightarrow> WebSocketFrame \<Rightarrow> ws_conn \<times> 'w \<Rightarrow> (ws_conn \<times> 'w) \<times> exn option" where
  "handle_frame cb frame s =
     (case ws_opcode frame of
        TEXT \<Rightarrow> (case on_message cb of None \<Rightarrow> (s, None) | Some f \<Rightarrow> f (ws_payload frame) TEXT s)
      | BINARY \<Rightarrow> (case on_message cb of None \<Rightarrow> (s, None) | Some f \<Rightarrow> f (ws_payload frame) BINARY s)
      | PING \<Rightarrow> (case s of (c, w) \<Rightarrow> ((QueueFrame (mk_frame PONG (ws_payload frame)) c, w), None))
      | PONG \<Rightarrow> (s, None)
      | CLOSE \<Rightarrow>
          (case s of (c, w) \<Rightarrow>
            let code = close_code (ws_payload frame);
                reason = close_reason (ws_payload frame);
                c1 = (if ws_state c = OPEN then CloseWs code reason c else c);
                s1 = (c1\<lparr>ws_state := CLOSED\<rparr>, w)
            in case on_close cb of None \<Rightarrow> (s1, None) | Some f \<Rightarrow> f code reason s1)
      | _ \<Rightarrow> (s, None))"

text \<open>
  The loop over the complete frames of the buffer. A frame is removed after it was handled, so an
  exception of a callback leaves it in the buffer.
\<close>

function ws_loop ::
    "'w ws_callbacks \<Rightarrow> byte list \<Rightarrow> ws_conn \<times> 'w \<Rightarrow> byte list \<times> (ws_conn \<times> 'w) \<times> exn option" where
  "ws_loop cb buf s =
     (if buf = [] then (buf, s, None)
      else case ParseFrame buf of
          Inl e \<Rightarrow> (buf, s, Some e)
        | Inr None \<Rightarrow> (buf, s, None)
        | Inr (Some (frame, consumed)) \<Rightarrow>
            (case handle_frame cb frame s of
               (s', Some e) \<Rightarrow> (buf, s', Some e)
             | (s', None) \<Rightarrow> ws_loop cb (drop consumed buf) s'))"
  by pat_completeness auto
termination
proof (relation "measure (\<lambda>(cb, buf, s). length buf)")
  fix cb :: "'w ws_callbacks" and buf s y fn frame consumed x s' and e :: "exn option"
  assume "buf \<noteq> []" and "ParseFrame buf = Inr y" and "y = Some fn" and "(frame, consumed) = fn"
  then have "ParseFrame buf = Inr (Some (frame, consumed))" by simp
  then have "2 \<le> consumed \<and> consumed \<le> length buf" by (rule ParseFrame_SomeD) simp
  with \<open>buf \<noteq> []\<close> show "((cb, drop consumed buf, s'), cb, buf, s) \<in> measure (\<lambda>(cb, buf, s). length buf)"
    by simp
qed simp

declare ws_loop.simps [simp del]

datatype ws_recv = WsData "byte list" | WsAgain | WsPeerClosed | WsRecvError

text \<open>The loop over \<open>recv\<close>: the buffer and what ended it.\<close>

fun ws_drain_socket :: "ws_recv list \<Rightarrow> byte list \<Rightarrow> byte list \<times> ws_recv" where
  "ws_drain_socket [] buf = (buf, WsAgain)"
| "ws_drain_socket (WsData d # rs) buf = ws_drain_socket rs (buf @ d)"
| "ws_drain_socket (r # rs) buf = (buf, r)"

definition arm_if_pending :: "ws_conn \<Rightarrow> ws_conn" where
  "arm_if_pending c = (if write_queue c \<noteq> [] then c\<lparr>armed_write := True\<rparr> else c)"

definition WsOnReadable ::
    "'w ws_callbacks \<Rightarrow> ws_recv list \<Rightarrow> byte list \<Rightarrow> ws_conn \<times> 'w \<Rightarrow> byte list \<times> (ws_conn \<times> 'w) \<times> exn option" where
  "WsOnReadable cb rs read_buffer s =
     (case ws_drain_socket rs read_buffer of
        (buf, WsPeerClosed) \<Rightarrow> (buf, ((fst s)\<lparr>ws_state := CLOSED\<rparr>, snd s), None)
      | (buf, WsRecvError) \<Rightarrow> (buf, s, None)
      | (buf, _) \<Rightarrow>
          (case ws_loop cb buf s of
             (buf', s', Some e) \<Rightarrow> (buf', s', Some e)
           | (buf', (c, w), None) \<Rightarrow> (buf', (arm_if_pending c, w), None)))"

section \<open>Flushing\<close>

datatype ws_send = WsTook nat | WsSendAgain | WsSendError

text \<open>
  \<open>OnWritable\<close> with the results of its calls to \<open>send\<close>; when they are used up the socket buffer
  is full. A call takes at most the bytes it was given.
\<close>

fun WsOnWritable :: "ws_send list \<Rightarrow> ws_conn \<Rightarrow> ws_conn" where
  "WsOnWritable rs c =
     (case write_queue c of
        [] \<Rightarrow> c\<lparr>armed_write := False\<rparr>
      | data # queue \<Rightarrow>
          (case rs of
             [] \<Rightarrow> c
           | WsSendAgain # rs' \<Rightarrow> c
           | WsSendError # rs' \<Rightarrow> c\<lparr>ws_state := CLOSED\<rparr>
           | WsTook n # rs' \<Rightarrow>
               let sent = min n (length data - write_offset c);
                   c1 = c\<lparr>ws_sent := ws_sent c @ take sent (drop (write_offset c) data),
                          write_offset := write_offset c + sent\<rparr>
               in WsOnWritable rs'
                    (if length data \<le> write_offset c1
                     then c1\<lparr>write_queue := queue, write_offset := 0\<rparr> else c1)))"

declare WsOnWritable.simps [simp del]

section \<open>Reading in pieces\<close>

lemma ws_loop_Nil [simp]: "ws_loop cb [] s = ([], s, None)"
  by (simp add: ws_loop.simps)

lemma ws_loop_wait: "ParseFrame buf = Inr None \<Longrightarrow> ws_loop cb buf s = (buf, s, None)"
  by (subst ws_loop.simps) simp

lemma ws_loop_frame:
  assumes "ParseFrame buf = Inr (Some (f, n))"
  shows "ws_loop cb buf s =
    (case handle_frame cb f s of (s', Some e) \<Rightarrow> (buf, s', Some e) | (s', None) \<Rightarrow> ws_loop cb (drop n buf) s')"
proof -
  have "buf \<noteq> []" using assms by (auto simp: ParseFrame_def)
  then show ?thesis using assms by (subst ws_loop.simps) simp
qed

text \<open>What was read so far determines the outcome: later bytes are handled as if they came alone.\<close>

lemma ws_loop_append:
  "ws_loop cb a s = (rest, s', e) \<Longrightarrow>
    ws_loop cb (a @ c) s = (case e of None \<Rightarrow> ws_loop cb (rest @ c) s' | Some x \<Rightarrow> (rest @ c, s', Some x))"
proof (induction cb a s rule: ws_loop.induct)
  case (1 cb a s)
  show ?case
  proof (cases "a = []")
    case True
    with "1.prems" show ?thesis by simp
  next
    case ne: False
    show ?thesis
    proof (cases "ParseFrame a")
      case (Inl x)
      then have "ParseFrame (a @ c) = Inl x" using ParseFrame_append [of a c] by simp
      then have "ws_loop cb (a @ c) s = (a @ c, s, Some x)" using ne by (subst ws_loop.simps) simp
      moreover have "ws_loop cb a s = (a, s, Some x)" using Inl ne by (subst ws_loop.simps) simp
      ultimately show ?thesis using "1.prems" by auto
    next
      case (Inr y)
      show ?thesis
      proof (cases y)
        case None
        with Inr "1.prems" show ?thesis by (auto simp: ws_loop_wait)
      next
        case (Some fn)
        obtain f n where fn: "fn = (f, n)" by (cases fn)
        have p: "ParseFrame a = Inr (Some (f, n))" using Inr Some fn by simp
        then have pc: "ParseFrame (a @ c) = Inr (Some (f, n))" using ParseFrame_append [of a c] by simp
        have "n \<le> length a" using p by (rule ParseFrame_SomeD)
        then have dr: "drop n (a @ c) = drop n a @ c" by simp
        obtain t x where h: "handle_frame cb f s = (t, x)" by (cases "handle_frame cb f s")
        show ?thesis
        proof (cases x)
          case (Some z)
          with h have "ws_loop cb a s = (a, t, Some z)" "ws_loop cb (a @ c) s = (a @ c, t, Some z)"
            by (simp_all add: ws_loop_frame [OF p] ws_loop_frame [OF pc])
          with "1.prems" show ?thesis by auto
        next
          case n: None
          with "1.prems" h have "ws_loop cb (drop n a) t = (rest, s', e)" by (simp add: ws_loop_frame [OF p])
          from "1.IH" [OF ne Inr Some fn [symmetric] h [symmetric] n this] h n dr show ?thesis
            by (simp add: ws_loop_frame [OF pc])
        qed
      qed
    qed
  qed
qed

text \<open>A pending queue is always armed, and so is the queue a callback leaves.\<close>

definition armed_ok :: "ws_conn \<Rightarrow> bool" where
  "armed_ok c \<longleftrightarrow> (write_queue c \<noteq> [] \<longrightarrow> armed_write c)"

definition callbacks_ok :: "'w ws_callbacks \<Rightarrow> bool" where
  "callbacks_ok cb \<longleftrightarrow>
     (\<forall>f p op c w. on_message cb = Some f \<longrightarrow> armed_ok c \<longrightarrow> armed_ok (fst (fst (f p op (c, w))))) \<and>
     (\<forall>f code r c w. on_close cb = Some f \<longrightarrow> armed_ok c \<longrightarrow> armed_ok (fst (fst (f code r (c, w)))))"

lemma armed_ok_simps [simp]:
  "armed_ok (QueueFrame f c)" "armed_ok (c\<lparr>ws_state := st\<rparr>) = armed_ok c" "armed_ok (CloseWs code r c) \<longleftrightarrow> ws_state c = OPEN \<or> armed_ok c"
  by (auto simp: armed_ok_def QueueFrame_def CloseWs_def)

lemma arm_if_pending_id: "armed_ok c \<Longrightarrow> arm_if_pending c = c"
  by (cases c) (auto simp: arm_if_pending_def armed_ok_def)

lemma handle_frame_armed:
  "callbacks_ok cb \<Longrightarrow> armed_ok (fst s) \<Longrightarrow> armed_ok (fst (fst (handle_frame cb f s)))"
  by (cases s; cases "ws_opcode f")
    (auto simp: handle_frame_def callbacks_ok_def Let_def split: option.splits)

lemma ws_loop_armed:
  "callbacks_ok cb \<Longrightarrow> armed_ok (fst s) \<Longrightarrow> armed_ok (fst (fst (snd (ws_loop cb a s))))"
proof (induction cb a s rule: ws_loop.induct)
  case (1 cb a s)
  show ?case
  proof (cases "\<exists>f n. ParseFrame a = Inr (Some (f, n))")
    case False
    then have "ParseFrame a = Inr None \<or> (\<exists>e. ParseFrame a = Inl e)"
      by (cases "ParseFrame a") (auto, metis not_None_eq surj_pair)
    with "1.prems" show ?thesis by (subst ws_loop.simps) auto
  next
    case True
    then obtain f n where p: "ParseFrame a = Inr (Some (f, n))" by blast
    then have ne: "a \<noteq> []" by (auto simp: ParseFrame_def)
    obtain t x where h: "handle_frame cb f s = (t, x)" by (cases "handle_frame cb f s")
    have "armed_ok (fst t)" using handle_frame_armed [OF "1.prems", of f] h by simp
    with "1.IH" [OF ne p refl refl h [symmetric] _ "1.prems"(1)] h show ?thesis
      by (auto simp: ws_loop_frame [OF p] split: option.splits)
  qed
qed

text \<open>A run of calls, one for each piece the socket delivers.\<close>

fun ws_pieces ::
    "'w ws_callbacks \<Rightarrow> byte list list \<Rightarrow> byte list \<Rightarrow> ws_conn \<times> 'w \<Rightarrow> byte list \<times> (ws_conn \<times> 'w) \<times> exn option" where
  "ws_pieces cb [] buf s = (buf, s, None)"
| "ws_pieces cb (p # ps) buf s =
     (case WsOnReadable cb [WsData p] buf s of
        (buf', s', Some e) \<Rightarrow> (buf', s', Some e)
      | (buf', s', None) \<Rightarrow> ws_pieces cb ps buf' s')"

lemma WsOnReadable_data:
  assumes "callbacks_ok cb" and "armed_ok (fst s)"
  shows "WsOnReadable cb [WsData d] buf s = ws_loop cb (buf @ d) s"
proof -
  obtain b' c w e where l: "ws_loop cb (buf @ d) s = (b', (c, w), e)" by (metis prod.collapse)
  with ws_loop_armed [OF assms, of "buf @ d"] have "armed_ok c" by simp
  with l show ?thesis by (simp add: WsOnReadable_def arm_if_pending_id split: option.split)
qed

lemma ws_pieces_loop:
  assumes "callbacks_ok cb"
  shows "armed_ok (fst s) \<Longrightarrow> ws_loop cb buf s = (buf, s, None) \<Longrightarrow>
    ws_loop cb (buf @ concat ps) s = (rest, s', None) \<Longrightarrow> ws_pieces cb ps buf s = (rest, s', None)"
proof (induction ps arbitrary: buf s)
  case (Cons p ps)
  obtain b1 s1 e1 where l: "ws_loop cb (buf @ p) s = (b1, s1, e1)" by (metis prod_cases3)
  have "ws_loop cb (buf @ p @ concat ps) s = (rest, s', None)" using Cons.prems(3) by simp
  with ws_loop_append [OF l, of "concat ps"] have e: "e1 = None" "ws_loop cb (b1 @ concat ps) s1 = (rest, s', None)"
    by (auto split: option.splits)
  have "ws_loop cb b1 s1 = (b1, s1, None)" using ws_loop_append [OF l, of "[]"] l e(1) by simp
  moreover have "armed_ok (fst s1)" using ws_loop_armed [OF assms Cons.prems(1), of "buf @ p"] l by simp
  ultimately have "ws_pieces cb ps b1 s1 = (rest, s', None)" using e(2) by (intro Cons.IH)
  then show ?case
    using WsOnReadable_data [OF assms Cons.prems(1), of p buf] l e(1) by simp
qed simp

fun run_frames :: "'w ws_callbacks \<Rightarrow> WebSocketFrame list \<Rightarrow> ws_conn \<times> 'w \<Rightarrow> (ws_conn \<times> 'w) \<times> exn option" where
  "run_frames cb [] s = (s, None)"
| "run_frames cb (f # fs) s =
     (case handle_frame cb f s of (s', Some e) \<Rightarrow> (s', Some e) | (s', None) \<Rightarrow> run_frames cb fs s')"

lemma ws_loop_encoded:
  "list_all encodes fs \<Longrightarrow> run_frames cb fs s = (s', None) \<Longrightarrow>
    ws_loop cb (concat (map encode_frame fs)) s = ([], s', None)"
proof (induction fs arbitrary: s)
  case (Cons f fs)
  have p: "ParseFrame (encode_frame f @ concat (map encode_frame fs)) = Inr (Some (f, length (encode_frame f)))"
    using Cons.prems(1) by (simp add: encodes_def ParseFrame_encode)
  with Cons show ?case
    by (auto simp: ws_loop_frame [OF p] split: prod.splits option.splits)
qed simp

section \<open>Writing in pieces\<close>

text \<open>Everything the connection has sent or will send, in order.\<close>

definition outgoing :: "ws_conn \<Rightarrow> byte list" where
  "outgoing c = ws_sent c @ drop (write_offset c) (concat (write_queue c))"

definition offset_ok :: "ws_conn \<Rightarrow> bool" where
  "offset_ok c \<longleftrightarrow> (case write_queue c of [] \<Rightarrow> write_offset c = 0 | d # _ \<Rightarrow> write_offset c < length d) \<and>
     [] \<notin> set (write_queue c)"

lemma Serialize_nonempty [simp]: "Serialize f \<noteq> []" "[] \<noteq> Serialize f"
  by (simp_all add: Serialize_def)

lemma QueueFrame_outgoing:
  assumes "offset_ok c"
  shows "outgoing (QueueFrame f c) = outgoing c @ Serialize f" and "offset_ok (QueueFrame f c)"
  using assms by (auto simp: outgoing_def offset_ok_def QueueFrame_def split: list.splits)

lemma set_state_outgoing [simp]:
  "outgoing (c\<lparr>ws_state := st\<rparr>) = outgoing c" "offset_ok (c\<lparr>ws_state := st\<rparr>) = offset_ok c"
  "outgoing (c\<lparr>armed_write := b\<rparr>) = outgoing c" "offset_ok (c\<lparr>armed_write := b\<rparr>) = offset_ok c"
  by (simp_all add: outgoing_def offset_ok_def split: list.splits)

text \<open>However the socket takes the bytes, none is lost, repeated or reordered.\<close>

lemma WsOnWritable_outgoing:
  "offset_ok c \<Longrightarrow> outgoing (WsOnWritable rs c) = outgoing c \<and> offset_ok (WsOnWritable rs c) \<and>
    (ws_state (WsOnWritable rs c) = ws_state c \<or> ws_state (WsOnWritable rs c) = CLOSED)"
proof (induction rs arbitrary: c)
  case Nil
  then show ?case by (simp add: WsOnWritable.simps split: list.splits)
next
  case (Cons r rs)
  show ?case
  proof (cases "write_queue c")
    case Nil
    with Cons.prems show ?thesis by (simp add: WsOnWritable.simps)
  next
    case q: (Cons data queue)
    show ?thesis
    proof (cases r)
      case (WsTook n)
      define sent where "sent = min n (length data - write_offset c)"
      define c1 where "c1 = c\<lparr>ws_sent := ws_sent c @ take sent (drop (write_offset c) data), write_offset := write_offset c + sent\<rparr>"
      define c2 where "c2 = (if length data \<le> write_offset c1 then c1\<lparr>write_queue := queue, write_offset := 0\<rparr> else c1)"
      have off: "write_offset c < length data" using Cons.prems q by (simp add: offset_ok_def)
      have le: "write_offset c + sent \<le> length data" using off by (simp add: sent_def)
      have "outgoing c2 = outgoing c \<and> offset_ok c2 \<and> ws_state c2 = ws_state c"
      proof (cases "length data \<le> write_offset c + sent")
        case True
        with le have e: "write_offset c + sent = length data" by simp
        then have "take sent (drop (write_offset c) data) = drop (write_offset c) data" by simp
        with e off q Cons.prems show ?thesis
          by (auto simp: c2_def c1_def outgoing_def offset_ok_def split: list.splits)
      next
        case False
        have "drop (write_offset c) data = take sent (drop (write_offset c) data) @ drop (write_offset c + sent) data"
          by (metis add.commute append_take_drop_id drop_drop)
        with False off q Cons.prems show ?thesis
          by (auto simp: c2_def c1_def outgoing_def offset_ok_def)
      qed
      moreover have "WsOnWritable (r # rs) c = WsOnWritable rs c2"
        by (subst WsOnWritable.simps) (simp add: q WsTook c2_def c1_def sent_def Let_def)
      ultimately show ?thesis using Cons.IH [of c2] by auto
    next
      case WsSendAgain
      then have "WsOnWritable (r # rs) c = c" by (subst WsOnWritable.simps) (simp add: q)
      with Cons.prems show ?thesis by simp
    next
      case WsSendError
      then have "WsOnWritable (r # rs) c = c\<lparr>ws_state := CLOSED\<rparr>" by (subst WsOnWritable.simps) (simp add: q)
      with Cons.prems show ?thesis by simp
    qed
  qed
qed

section \<open>Every run of a connection\<close>

text \<open>
  The states a connection can be in, with the frames queued so far: any interleaving of sends, closes,
  received control frames, flushes and the peer's disconnect. Message and close callbacks act
  through these same operations.
\<close>

inductive ws_reach :: "ws_conn \<Rightarrow> WebSocketFrame list \<Rightarrow> bool" where
  start: "ws_reach (new_ws r) []"
| send_text: "ws_reach c fs \<Longrightarrow> ws_reach (SendText m c) (fs @ [mk_frame TEXT (bytes_of m)])"
| send_binary: "ws_reach c fs \<Longrightarrow> ws_reach (SendBinary d c) (fs @ [mk_frame BINARY d])"
| send_ping: "ws_reach c fs \<Longrightarrow> ws_reach (SendPing d c) (fs @ [mk_frame PING d])"
| closing: "ws_reach c fs \<Longrightarrow>
    ws_reach (CloseWs code reason c) (if ws_state c = OPEN then fs @ [close_frame code reason] else fs)"
| receive: "ws_reach c fs \<Longrightarrow> on_message cb = None \<Longrightarrow> on_close cb = None \<Longrightarrow>
    ws_reach (fst (fst (handle_frame cb f (c, ()))))
      (if ws_opcode f = PING then fs @ [mk_frame PONG (ws_payload f)]
       else if ws_opcode f = CLOSE \<and> ws_state c = OPEN
       then fs @ [close_frame (close_code (ws_payload f)) (close_reason (ws_payload f))] else fs)"
| flush: "ws_reach c fs \<Longrightarrow> ws_reach (WsOnWritable rs c) fs"
| peer_closed: "ws_reach c fs \<Longrightarrow> ws_reach (c\<lparr>ws_state := CLOSED\<rparr>) fs"

definition closes :: "WebSocketFrame list \<Rightarrow> nat" where
  "closes fs = length (filter (\<lambda>f. ws_opcode f = CLOSE) fs)"

lemma closes_simps [simp]:
  "closes [] = 0" "closes (fs @ [f]) = closes fs + (if ws_opcode f = CLOSE then 1 else 0)"
  by (simp_all add: closes_def)

lemma mk_frame_opcode [simp]: "ws_opcode (mk_frame op p) = op" "ws_opcode (close_frame code r) = CLOSE"
  by (simp_all add: mk_frame_def close_frame_def)

definition ws_inv :: "ws_conn \<Rightarrow> WebSocketFrame list \<Rightarrow> bool" where
  "ws_inv c fs \<longleftrightarrow> offset_ok c \<and> outgoing c = concat (map Serialize fs) \<and>
     (if ws_state c = OPEN then closes fs = 0 else closes fs \<le> 1)"

lemma ws_inv_queue:
  "ws_inv c fs \<Longrightarrow> ws_opcode f \<noteq> CLOSE \<Longrightarrow> ws_inv (QueueFrame f c) (fs @ [f])"
  using QueueFrame_outgoing [of c f] by (auto simp: ws_inv_def) (simp_all add: QueueFrame_def)

lemma ws_inv_close:
  "ws_inv c fs \<Longrightarrow> ws_inv (CloseWs code r c) (if ws_state c = OPEN then fs @ [close_frame code r] else fs)"
  using QueueFrame_outgoing [of "c\<lparr>ws_state := CLOSING\<rparr>" "close_frame code r"]
  by (auto simp: ws_inv_def CloseWs_def) (simp_all add: QueueFrame_def)

lemma ws_inv_state: "ws_inv c fs \<Longrightarrow> ws_inv (c\<lparr>ws_state := CLOSED\<rparr>) fs"
  by (auto simp: ws_inv_def split: if_splits)

lemma ws_reach_inv: "ws_reach c fs \<Longrightarrow> ws_inv c fs"
proof (induction rule: ws_reach.induct)
  case (start r)
  then show ?case by (simp add: ws_inv_def new_ws_def offset_ok_def outgoing_def)
next
  case (receive c fs cb f)
  then show ?case
    using ws_inv_queue [of c fs "mk_frame PONG (ws_payload f)"]
      ws_inv_state [OF ws_inv_close [of c fs "close_code (ws_payload f)" "close_reason (ws_payload f)"]]
      ws_inv_state [of c fs]
    by (cases "ws_opcode f") (auto simp: handle_frame_def Let_def)
next
  case (closing c fs code reason)
  then show ?case by (intro ws_inv_close)
next
  case (flush c fs rs)
  then show ?case
    using WsOnWritable_outgoing [of c rs] by (auto simp: ws_inv_def split: if_splits)
qed (auto intro: ws_inv_queue ws_inv_state simp: SendText_def SendBinary_def SendPing_def)

section \<open>Closing\<close>

lemma close_code_bytes:
  "ucast (drop_bit 8 (push_bit 8 (ucast a) OR ucast b :: u16) AND 0xFF) = (a :: byte)"
  "ucast ((push_bit 8 (ucast a) OR ucast b :: u16) AND 0xFF) = (b :: byte)"
proof -
  have m: "(w :: u16) AND 0xFF = take_bit 8 w" for w by (simp add: take_bit_eq_mask mask_numeral)
  have h: "\<not> bit (x :: byte) i" if "8 \<le> i" for x i using that bit_imp_le_length [of x i] by auto
  show "ucast (drop_bit 8 (push_bit 8 (ucast a) OR ucast b :: u16) AND 0xFF) = (a :: byte)"
    by (rule bit_word_eqI) (auto simp: m bit_simps h)
  show "ucast ((push_bit 8 (ucast a) OR ucast b :: u16) AND 0xFF) = (b :: byte)"
    by (rule bit_word_eqI) (auto simp: m bit_simps)
qed

lemma close_echo:
  "ws_payload (close_frame (close_code p) (close_reason p)) = (if 2 \<le> length p then p else [0x03, 0xED])"
proof (cases "2 \<le> length p")
  case True
  then obtain a b r where p: "p = a # b # r" by (cases p; cases "tl p") auto
  have "bytes_of (close_reason p) = r" by (cases r) (simp_all add: p close_reason_def comp_def)
  moreover have "close_code p = push_bit 8 (ucast a) OR ucast b" by (simp add: p close_code_def)
  ultimately have "ws_payload (close_frame (close_code p) (close_reason p)) = a # b # r"
    unfolding close_frame_def mk_frame_def by (simp only: close_code_bytes) simp
  with p show ?thesis by simp
qed (simp add: close_frame_def mk_frame_def close_code_def close_reason_def)

section \<open>Properties\<close>

text \<open>
  Frames are handled one by one, however TCP cuts them. When the bytes of a sequence of frames
  arrive in pieces of any sizes, each in its own readiness event, the connection handles exactly these
  frames, in order, as if each had come alone, and its buffer is empty at the end. The callbacks do not
  throw and leave a pending queue armed.
\<close>

theorem ws_read_any_pieces:
  assumes "callbacks_ok cb" and "armed_ok c" and "list_all encodes fs"
    and "concat pieces = concat (map encode_frame fs)" and "run_frames cb fs (c, w) = (s', None)"
  shows "ws_pieces cb pieces [] (c, w) = ([], s', None)"
  using assms ws_loop_encoded [OF assms(3,5)] by (intro ws_pieces_loop) simp_all

definition echo_callbacks :: "nat ws_callbacks" where
  "echo_callbacks = \<lparr>on_message = Some (\<lambda>p op (c, n). ((SendBinary p c, n + 1), None)), on_close = None\<rparr>"

definition hello_frame :: WebSocketFrame where
  "hello_frame = \<lparr>ws_fin = True, ws_opcode = TEXT, ws_masked = True, ws_mask_key = [1, 2, 3, 4],
     ws_payload = [0x48, 0x69]\<rparr>"

theorem ws_read_any_pieces_witness:
  "ws_pieces echo_callbacks [[0x81], [0x82, 1, 2, 3, 4, 0x49, 0x6B, 0x81, 0x82], [1, 2, 3, 4, 0x49, 0x6B]] []
      (new_ws empty_request, 0) =
    ([], (SendBinary [0x48, 0x69] (SendBinary [0x48, 0x69] (new_ws empty_request)), 2), None)"
proof -
  have e: "encode_frame hello_frame = [0x81, 0x82, 1, 2, 3, 4, 0x49, 0x6B]"
    by (simp add: encode_frame_def length_bytes_def unmask_def hello_frame_def)
  show ?thesis
  proof (rule ws_read_any_pieces [where fs = "[hello_frame, hello_frame]"])
    show "callbacks_ok echo_callbacks"
      by (auto simp: callbacks_ok_def echo_callbacks_def SendBinary_def)
    show "armed_ok (new_ws empty_request)" by (simp add: armed_ok_def new_ws_def)
    show "list_all encodes [hello_frame, hello_frame]"
      by (simp add: encodes_def e) (simp add: frame_ok_def hello_frame_def to_opcode_def)
    show "run_frames echo_callbacks [hello_frame, hello_frame] (new_ws empty_request, 0) =
        ((SendBinary [0x48, 0x69] (SendBinary [0x48, 0x69] (new_ws empty_request)), 2), None)"
      by (simp add: handle_frame_def echo_callbacks_def hello_frame_def numeral_2_eq_2)
  qed (simp add: e)
qed

text \<open>
  C11: what goes out is what was queued. In every reachable state the bytes the socket has taken followed
  by the bytes still pending are the serialised frames queued so far, in order, whatever partial
  writes, full socket buffers or errors happened in between; at most one of them is a close frame, and
  none while the connection is open. Once the queue is empty the peer's parser gets exactly these frames.
\<close>

theorem ws_outgoing_frames:
  assumes "ws_reach c fs"
  shows "outgoing c = concat (map Serialize fs) \<and> closes fs \<le> 1 \<and> (ws_state c = OPEN \<longrightarrow> closes fs = 0) \<and>
    (write_queue c = [] \<and> list_all (\<lambda>f. encodes (f\<lparr>ws_masked := False\<rparr>)) fs \<longrightarrow>
      ws.drain (ws_sent c) = (map Serialize fs, [], None))"
proof -
  have i: "ws_inv c fs" by (rule ws_reach_inv [OF assms])
  have "ws.drain (ws_sent c) = (map Serialize fs, [], None)"
    if "write_queue c = []" "list_all (\<lambda>f. encodes (f\<lparr>ws_masked := False\<rparr>)) fs"
  proof -
    have "ws_sent c = concat (map encode_frame (map (\<lambda>f. f\<lparr>ws_masked := False\<rparr>) fs))"
      using i that(1) by (simp add: ws_inv_def outgoing_def Serialize_encode [abs_def] comp_def)
    moreover have "list_all encodes (map (\<lambda>f. f\<lparr>ws_masked := False\<rparr>) fs)"
      using that(2) by (simp add: list_all_iff)
    ultimately have "ws.drain (ws_sent c) = (map encode_frame (map (\<lambda>f. f\<lparr>ws_masked := False\<rparr>) fs), [], None)"
      using drain_encoded by metis
    then show ?thesis by (simp add: Serialize_encode [abs_def] comp_def)
  qed
  with i show ?thesis by (auto simp: ws_inv_def split: if_splits)
qed

theorem ws_outgoing_frames_witness:
  "outgoing (WsOnWritable [WsTook 1, WsSendAgain] (SendText ''a'' (new_ws empty_request))) =
    Serialize (mk_frame TEXT [0x61])"
  using ws_outgoing_frames [OF flush [OF send_text [OF start]], of "[WsTook 1, WsSendAgain]" "''a''" empty_request]
  by (simp add: byte_of_char_def)

text \<open>
  The closing handshake. A close frame received while open is echoed, with exactly its payload when
  it holds a status code; when it holds none the reserved code 1005 is put on the wire, which RFC 6455
  forbids. Received later, it is not answered. Either way the connection is closed and the close callback
  runs once, with the code and the reason.
\<close>

theorem ws_close_handshake:
  assumes "ws_opcode f = CLOSE"
  shows "handle_frame cb f (c, w) =
    (let s1 = (if ws_state c = OPEN
               then (QueueFrame (mk_frame CLOSE (if 2 \<le> length (ws_payload f) then ws_payload f else [0x03, 0xED]))
                  (c\<lparr>ws_state := CLOSING\<rparr>))\<lparr>ws_state := CLOSED\<rparr>
               else c\<lparr>ws_state := CLOSED\<rparr>, w)
     in case on_close cb of None \<Rightarrow> (s1, None)
        | Some g \<Rightarrow> g (close_code (ws_payload f)) (close_reason (ws_payload f)) s1)"
proof -
  have "close_frame (close_code p) (close_reason p) =
      mk_frame CLOSE (ws_payload (close_frame (close_code p) (close_reason p)))" for p
    by (simp add: close_frame_def mk_frame_def)
  then have "close_frame (close_code p) (close_reason p) = mk_frame CLOSE (if 2 \<le> length p then p else [0x03, 0xED])" for p
    unfolding close_echo .
  from this [of "ws_payload f"] assms show ?thesis
    by (simp only: handle_frame_def CloseWs_def Let_def WsOpcode.case prod.case) (simp split: option.split)
qed

theorem ws_close_handshake_witness:
  "write_queue (fst (fst (handle_frame echo_callbacks (mk_frame CLOSE [3, 0xE8]) (new_ws empty_request, 0)))) =
    [[0x88, 2, 3, 0xE8]]"
  using ws_close_handshake [of "mk_frame CLOSE [3, 0xE8]" echo_callbacks "new_ws empty_request" 0]
  by (simp add: echo_callbacks_def new_ws_def mk_frame_def QueueFrame_def Serialize_def length_bytes_def default_frame_def)

end
