(* ===== verification/RadixTree.thy ===== *)
theory RadixTree
  imports Prelude
begin

text \<open>
  \<open>include/PhamPhiLong_Radix-Tree\<close>: the path-compressed tree that holds the exact routes. A node
  owns a key/value pair, its depth and its children, keyed by the part of the key between the
  parent's depth and its own. The parent pointer is the node's position in the tree, so
  \<open>get_search_key\<close> takes the parent's depth. The children's hash table is an association list in
  iteration order; a default-constructed \<open>mapped_type\<close> (a null \<open>shared_ptr\<close>) is \<^const>\<open>None\<close>.
\<close>

section \<open>Nodes\<close>

datatype 'v rnode =
  RNode (node_key: string) (node_value: "'v option") (node_depth: nat)
    (node_children: "(string \<times> 'v rnode) list")

definition is_leaf :: "'v rnode \<Rightarrow> bool" where
  "is_leaf n \<longleftrightarrow> node_children n = []"

definition get_search_key :: "nat \<Rightarrow> 'v rnode \<Rightarrow> string" where
  "get_search_key parent_depth n = slice (node_key n) parent_depth (node_depth n)"

text \<open>\<open>unordered_map::insert\<close> leaves an existing entry alone; \<open>erase\<close> drops the entry.\<close>

definition umap_insert :: "string \<Rightarrow> 'a \<Rightarrow> (string \<times> 'a) list \<Rightarrow> (string \<times> 'a) list" where
  "umap_insert k x m = (if k \<in> fst ` set m then m else (k, x) # m)"

section \<open>Finding\<close>

fun find_node :: "string \<Rightarrow> nat \<Rightarrow> 'v rnode \<Rightarrow> 'v rnode option"
  and find_children :: "string \<Rightarrow> nat \<Rightarrow> (string \<times> 'v rnode) list \<Rightarrow> 'v rnode option" where
  "find_node key cur_key_depth (RNode k v d cs) =
     (if cs = [] then
        if cur_key_depth = length key \<and> k = key then Some (RNode k v d cs) else None
      else find_children key cur_key_depth cs)"
| "find_children key cur_key_depth [] = None"
| "find_children key cur_key_depth ((e, ch) # cs) =
     (if 0 < length e \<and> e = slice key cur_key_depth (length e)
      then find_node key (cur_key_depth + length e) ch
      else if length e = 0 \<and> is_leaf ch \<and> node_depth ch = length key \<and> node_key ch = key
      then Some ch
      else find_children key cur_key_depth cs)"

section \<open>Inserting\<close>

fun common_prefix :: "string \<Rightarrow> string \<Rightarrow> nat" where
  "common_prefix (x # xs) (y # ys) = (if x = y then Suc (common_prefix xs ys) else 0)"
| "common_prefix _ _ = 0"

text \<open>Steps 1 to 5 on a child that shares \<open>i > 0\<close> characters with the new key's rest.\<close>

definition split_child :: "nat \<Rightarrow> string \<Rightarrow> 'v \<Rightarrow> nat \<Rightarrow> 'v rnode \<Rightarrow> string \<times> 'v rnode" where
  "split_child parent_depth key v i found =
     (let sub_key = drop parent_depth key;
          new_parent_search_key = slice (get_search_key parent_depth found) 0 i;
          new_parent_key = slice (node_key found) 0 (parent_depth + i);
          new_depth = length new_parent_key;
          new_children = umap_insert (drop i sub_key) (RNode key (Some v) (length key) [])
            (umap_insert (get_search_key new_depth found) found [])
      in (new_parent_search_key, RNode new_parent_key None new_depth new_children))"

text \<open>The loop over the parent's children: the first that shares a character is split.\<close>

fun split_children ::
    "nat \<Rightarrow> string \<Rightarrow> 'v \<Rightarrow> (string \<times> 'v rnode) list \<Rightarrow> (string \<times> 'v rnode) list option" where
  "split_children parent_depth key v [] = None"
| "split_children parent_depth key v ((e, ch) # cs) =
     (let i = common_prefix e (drop parent_depth key) in
      if 0 < i then
        case split_child parent_depth key v i ch of (k, n) \<Rightarrow> Some (umap_insert k n cs)
      else map_option ((#) (e, ch)) (split_children parent_depth key v cs))"

text \<open>The part of \<open>insert\<close> after \<open>find_parent_node\<close>, on the parent it returned.\<close>

definition insert_here :: "bool \<Rightarrow> string \<Rightarrow> 'v \<Rightarrow> 'v rnode \<Rightarrow> 'v rnode \<times> bool" where
  "insert_here is_root key v p =
     (case split_children (node_depth p) key v (node_children p) of
        Some cs \<Rightarrow> (RNode (node_key p) (node_value p) (node_depth p) cs, True)
      | None \<Rightarrow>
          let p1 = (if \<not> is_root \<and> is_leaf p
                    then RNode (node_key p) None (node_depth p)
                      (umap_insert [] (RNode (node_key p) (node_value p) (node_depth p) [])
                        (node_children p))
                    else p);
              sub_key = drop (node_depth p) key
          in (RNode (node_key p1) (node_value p1) (node_depth p1)
                (umap_insert sub_key (RNode key (Some v) (length key) []) (node_children p1)),
              sub_key \<notin> fst ` set (node_children p1)))"

text \<open>\<open>find_parent_node\<close> descends along the edges that match; the update happens where it stops.\<close>

fun insert_node :: "bool \<Rightarrow> string \<Rightarrow> 'v \<Rightarrow> nat \<Rightarrow> 'v rnode \<Rightarrow> 'v rnode \<times> bool"
  and insert_children ::
    "string \<Rightarrow> 'v \<Rightarrow> nat \<Rightarrow> (string \<times> 'v rnode) list \<Rightarrow> ((string \<times> 'v rnode) list \<times> bool) option" where
  "insert_node is_root key v cur_key_depth (RNode k w d cs) =
     (case insert_children key v cur_key_depth cs of
        Some (cs', b) \<Rightarrow> (RNode k w d cs', b)
      | None \<Rightarrow> insert_here is_root key v (RNode k w d cs))"
| "insert_children key v cur_key_depth [] = None"
| "insert_children key v cur_key_depth ((e, ch) # cs) =
     (if 0 < length e \<and> e = slice key cur_key_depth (length e)
      then case insert_node False key v (cur_key_depth + length e) ch of
          (ch', b) \<Rightarrow> Some ((e, ch') # cs, b)
      else map_option (\<lambda>(cs', b). ((e, ch) # cs', b)) (insert_children key v cur_key_depth cs))"

record 'v radix_tree =
  root_node :: "'v rnode option"
  tree_size :: nat

definition empty_tree :: "'v radix_tree" where
  "empty_tree = \<lparr>root_node = None, tree_size = 0\<rparr>"

definition tree_find :: "string \<Rightarrow> 'v radix_tree \<Rightarrow> 'v option option" where
  "tree_find key t =
     (case root_node t of None \<Rightarrow> None | Some r \<Rightarrow> map_option node_value (find_node key 0 r))"

definition tree_insert :: "string \<Rightarrow> 'v \<Rightarrow> 'v radix_tree \<Rightarrow> 'v radix_tree \<times> bool" where
  "tree_insert key v t =
     (let r = (case root_node t of None \<Rightarrow> RNode [] None 0 [] | Some r \<Rightarrow> r)
      in case insert_node True key v 0 r of
          (r', b) \<Rightarrow> (\<lparr>root_node = Some r', tree_size = (if b then tree_size t + 1 else tree_size t)\<rparr>, b))"

section \<open>Shape of a tree\<close>

text \<open>
  Every node's key is its parent's key followed by its edge, and its depth is the key's length. The
  edges out of a node differ in their first character; an empty edge leads to a leaf. Leaves carry a
  value, inner nodes carry none.
\<close>

fun head1 :: "string \<Rightarrow> char option" where
  "head1 [] = None"
| "head1 (c # _) = Some c"

lemma head1_append [simp]: "a \<noteq> [] \<Longrightarrow> head1 (a @ b) = head1 a"
  by (cases a) simp_all

lemma head1_eq_None [simp]: "head1 a = None \<longleftrightarrow> a = []"
  by (cases a) simp_all

definition heads_distinct :: "(string \<times> 'a) list \<Rightarrow> bool" where
  "heads_distinct cs \<longleftrightarrow> distinct (map (\<lambda>(e, _). head1 e) cs)"

fun wf_node :: "'v rnode \<Rightarrow> bool" where
  "wf_node (RNode k v d cs) \<longleftrightarrow>
     d = length k \<and> (cs = [] \<longleftrightarrow> v \<noteq> None) \<and> heads_distinct cs \<and>
     (\<forall>(e, ch) \<in> set cs. node_key ch = k @ e \<and> (e = [] \<longrightarrow> is_leaf ch) \<and> wf_node ch)"

definition wf_children :: "string \<Rightarrow> (string \<times> 'v rnode) list \<Rightarrow> bool" where
  "wf_children k cs \<longleftrightarrow> heads_distinct cs \<and>
     (\<forall>(e, ch) \<in> set cs. node_key ch = k @ e \<and> (e = [] \<longrightarrow> is_leaf ch) \<and> wf_node ch)"

definition wf_tree :: "'v radix_tree \<Rightarrow> bool" where
  "wf_tree t \<longleftrightarrow> (case root_node t of None \<Rightarrow> True
     | Some (RNode k v d cs) \<Rightarrow> k = [] \<and> d = 0 \<and> v = None \<and> cs \<noteq> [] \<and> wf_children [] cs)"

declare wf_node.simps [simp del]

lemma wf_node_iff:
  "wf_node (RNode k v d cs) \<longleftrightarrow> d = length k \<and> (cs = [] \<longleftrightarrow> v \<noteq> None) \<and> wf_children k cs"
  by (simp add: wf_node.simps wf_children_def)

lemma heads_distinct_Cons [simp]:
  "heads_distinct ((e, ch) # cs) \<longleftrightarrow> (\<forall>(f, _) \<in> set cs. head1 f \<noteq> head1 e) \<and> heads_distinct cs"
  unfolding heads_distinct_def by (auto simp: image_iff)

lemma heads_distinct_middle:
  "heads_distinct (xs @ (e, ch) # ys) \<longleftrightarrow>
    (\<forall>(f, _) \<in> set (xs @ ys). head1 f \<noteq> head1 e) \<and> heads_distinct (xs @ ys)"
  by (induction xs) (auto)

lemma wf_children_middle:
  "wf_children k (xs @ (e, ch) # ys) \<longleftrightarrow>
    (\<forall>(f, _) \<in> set (xs @ ys). head1 f \<noteq> head1 e) \<and> wf_children k (xs @ ys) \<and>
    node_key ch = k @ e \<and> (e = [] \<longrightarrow> is_leaf ch) \<and> wf_node ch"
  by (auto simp: wf_children_def heads_distinct_middle)

lemmas wf_children_Cons = wf_children_middle [of _ "[]", simplified]

lemma wf_children_Nil [simp]: "wf_children k []"
  by (simp add: wf_children_def heads_distinct_def)

section \<open>What a node maps\<close>

text \<open>
  The value a node finds for the rest \<open>s\<close> of a key below it. Of its edges at most one fits
  the rest: the empty edge the empty rest, another edge the rests that start with it.
\<close>

definition fits :: "string \<Rightarrow> string \<Rightarrow> bool" where
  "fits e s \<longleftrightarrow> (if e = [] then s = [] else take (length e) s = e)"

definition below :: "'v rnode \<Rightarrow> string \<Rightarrow> 'v option option" where
  "below n s = map_option node_value (find_node (node_key n @ s) (length (node_key n)) n)"

definition below_children :: "string \<Rightarrow> (string \<times> 'v rnode) list \<Rightarrow> string \<Rightarrow> 'v option option" where
  "below_children k cs s = map_option node_value (find_children (k @ s) (length k) cs)"

lemma fits_take1: "fits e s \<Longrightarrow> head1 s = head1 e"
  by (cases e; cases s) (auto simp: fits_def)

lemma fits_self [simp]: "fits s s"
  by (simp add: fits_def)

lemma fits_whole: "fits s r \<Longrightarrow> length r \<le> length s \<Longrightarrow> r = s"
  by (auto simp: fits_def split: if_splits)

lemma below_leaf: "wf_node n \<Longrightarrow> is_leaf n \<Longrightarrow> below n s = (if s = [] then Some (node_value n) else None)"
  by (cases n) (auto simp: below_def is_leaf_def)

lemma below_inner: "cs \<noteq> [] \<Longrightarrow> below (RNode k v d cs) s = below_children k cs s"
  by (simp add: below_def below_children_def)

lemma below_children_Nil [simp]: "below_children k [] s = None"
  by (simp add: below_children_def)

lemma below_children_Cons:
  assumes "wf_children k ((e, ch) # cs)"
  shows "below_children k ((e, ch) # cs) s =
    (if fits e s then below ch (drop (length e) s) else below_children k cs s)"
proof (cases "e = []")
  case True
  with assms have c: "node_key ch = k" "is_leaf ch" "wf_node ch" by (auto simp: wf_children_Cons)
  then have "node_depth ch = length k" by (cases ch) (simp add: wf_node_iff)
  with True c show ?thesis
    by (auto simp: below_children_def fits_def below_leaf)
next
  case False
  from assms have c: "node_key ch = k @ e" by (simp add: wf_children_Cons)
  show ?thesis
  proof (cases "fits e s")
    case True
    with False obtain t where s: "s = e @ t"
      by (metis append_take_drop_id fits_def)
    with False c show ?thesis
      by (simp add: below_children_def fits_def below_def slice_def)
  next
    case F: False
    with False have "e \<noteq> slice (k @ s) (length k) (length e)" by (auto simp: fits_def slice_def)
    with F False show ?thesis by (simp add: below_children_def)
  qed
qed

lemma below_children_unfit:
  "wf_children k cs \<Longrightarrow> \<forall>(e, _) \<in> set cs. \<not> fits e s \<Longrightarrow> below_children k cs s = None"
proof (induction cs)
  case (Cons c cs)
  then show ?case by (cases c) (auto simp: below_children_Cons wf_children_Cons)
qed simp

lemma below_children_middle:
  "wf_children k (xs @ (e, ch) # ys) \<Longrightarrow>
    below_children k (xs @ (e, ch) # ys) s =
      (if head1 s = head1 e then if fits e s then below ch (drop (length e) s) else None
       else below_children k (xs @ ys) s)"
proof (induction xs)
  case Nil
  then have "\<forall>(f, _) \<in> set ys. \<not> fits f s" if "head1 s = head1 e"
    using that by (fastforce simp: wf_children_Cons dest: fits_take1)
  moreover from Nil have "wf_children k ys" by (simp add: wf_children_Cons)
  ultimately show ?case
    using Nil below_children_unfit [of k ys s] fits_take1 [of e s] by (auto simp: below_children_Cons)
next
  case (Cons x xs)
  obtain f n where x: "x = (f, n)" by (cases x)
  have w: "wf_children k ((f, n) # xs @ (e, ch) # ys)" "wf_children k ((f, n) # xs @ ys)"
    "wf_children k (xs @ (e, ch) # ys)" "head1 f \<noteq> head1 e"
    using Cons.prems by (auto simp: x wf_children_Cons wf_children_middle)
  show ?case
    using w Cons.IH fits_take1 [of f s] by (auto simp: x below_children_Cons)
qed

section \<open>Insertion adds one key\<close>

definition adds :: "string \<Rightarrow> (string \<times> 'v rnode) list \<Rightarrow> string \<Rightarrow> 'v \<Rightarrow> (string \<times> 'v rnode) list \<Rightarrow> bool \<Rightarrow> bool" where
  "adds k cs s v cs' b \<longleftrightarrow> wf_children k cs' \<and> cs' \<noteq> [] \<and> (b \<longleftrightarrow> below_children k cs s = None) \<and>
     (\<forall>r. below_children k cs' r =
       (if r = s \<and> below_children k cs s = None then Some (Some v) else below_children k cs r))"

lemma common_prefix_eq_0: "common_prefix e s = 0 \<longleftrightarrow> e = [] \<or> s = [] \<or> hd e \<noteq> hd s"
  by (cases "(e, s)" rule: common_prefix.cases) auto

lemma common_prefix_split:
  "\<exists>c e' s'. e = c @ e' \<and> s = c @ s' \<and> length c = common_prefix e s \<and> (e' = [] \<or> head1 e' \<noteq> head1 s')"
proof (induction e s rule: common_prefix.induct)
  case (1 x xs y ys)
  show ?case
  proof (cases "x = y")
    case True
    with 1 obtain c e' s' where "xs = c @ e'" "ys = c @ s'" "length c = common_prefix xs ys"
      "e' = [] \<or> head1 e' \<noteq> head1 s'" by blast
    with True show ?thesis
      by (intro exI [of _ "x # c"] exI [of _ e'] exI [of _ s']) simp
  qed (intro exI [of _ "[]"] exI [of _ "x # xs"] exI [of _ "y # ys"], simp)
qed (auto intro: exI [of _ "[]"])

lemma insert_children_SomeD:
  "insert_children key v d cs = Some (cs', b) \<Longrightarrow>
    \<exists>xs e ch ys ch'. cs = xs @ (e, ch) # ys \<and> e \<noteq> [] \<and> e = slice key d (length e) \<and>
      insert_node False key v (d + length e) ch = (ch', b) \<and> cs' = xs @ (e, ch') # ys"
proof (induction cs arbitrary: cs')
  case (Cons c cs)
  obtain e ch where c: "c = (e, ch)" by (cases c)
  show ?case
  proof (cases "e \<noteq> [] \<and> e = slice key d (length e)")
    case True
    with Cons.prems obtain ch' where "insert_node False key v (d + length e) ch = (ch', b)" "cs' = (e, ch') # cs"
      by (cases "insert_node False key v (d + length e) ch") (auto simp: c)
    with True show ?thesis unfolding c by (metis append_Nil)
  next
    case False
    with Cons.prems obtain cs2 where "insert_children key v d cs = Some (cs2, b)" "cs' = (e, ch) # cs2"
      by (auto simp: c)
    with Cons.IH c show ?thesis by (metis append_Cons)
  qed
qed simp

lemma insert_children_NoneD:
  "insert_children key v d cs = None \<Longrightarrow> (e, ch) \<in> set cs \<Longrightarrow> e \<noteq> [] \<Longrightarrow> e \<noteq> slice key d (length e)"
  by (induction cs) (auto split: if_splits prod.splits)

lemma split_children_SomeD:
  "split_children d key v cs = Some cs' \<Longrightarrow>
    \<exists>xs e ch ys. cs = xs @ (e, ch) # ys \<and> 0 < common_prefix e (drop d key) \<and>
      cs' = xs @ (case split_child d key v (common_prefix e (drop d key)) ch of (k, n) \<Rightarrow> umap_insert k n ys)"
proof (induction cs arbitrary: cs')
  case (Cons c cs)
  obtain e ch where c: "c = (e, ch)" by (cases c)
  show ?case
  proof (cases "0 < common_prefix e (drop d key)")
    case True
    with Cons.prems have "cs' = (case split_child d key v (common_prefix e (drop d key)) ch of (k, n) \<Rightarrow> umap_insert k n cs)"
      by (simp add: c Let_def split: prod.splits)
    with True show ?thesis unfolding c by (metis append_Nil)
  next
    case False
    with Cons.prems obtain cs2 where "split_children d key v cs = Some cs2" "cs' = (e, ch) # cs2"
      by (auto simp: c Let_def)
    with Cons.IH c show ?thesis by (metis append_Cons)
  qed
qed simp

lemma split_children_NoneD:
  "split_children d key v cs = None \<Longrightarrow> (e, ch) \<in> set cs \<Longrightarrow> common_prefix e (drop d key) = 0"
  by (induction cs) (auto simp: Let_def split: if_splits prod.splits)

lemma wf_new_leaf: "wf_node (RNode key (Some v) (length key) [])"
  by (simp add: wf_node_iff)

lemma below_new_leaf: "below (RNode key (Some v) d []) r = (if r = [] then Some (Some v) else None)"
  by (simp add: below_def)

text \<open>Descending into the child whose edge fits.\<close>

lemma adds_descend:
  assumes "wf_children k (xs @ (e, ch) # ys)" and "e \<noteq> []" and "s = e @ t"
    and "wf_node ch'" and "node_key ch' = node_key ch" and "b \<longleftrightarrow> below ch t = None"
    and "\<And>r. below ch' r = (if r = t \<and> below ch t = None then Some (Some v) else below ch r)"
  shows "adds k (xs @ (e, ch) # ys) s v (xs @ (e, ch') # ys) b"
proof -
  have w: "wf_children k (xs @ (e, ch') # ys)"
    using assms by (auto simp: wf_children_middle)
  have f: "fits e r \<longleftrightarrow> (\<exists>r'. r = e @ r')" for r
    using assms(2) by (auto simp: fits_def) (metis append_take_drop_id)
  show ?thesis
    unfolding adds_def below_children_middle [OF w] below_children_middle [OF assms(1)]
    using w assms f by auto
qed

text \<open>Splitting the edge that shares a proper prefix with the rest.\<close>

lemma adds_split:
  assumes "wf_children k (xs @ (c @ e, ch) # ys)" and "c \<noteq> []" and "e \<noteq> []" and "head1 e \<noteq> head1 s"
  shows "adds k (xs @ (c @ e, ch) # ys) (c @ s) v
    (xs @ (c, RNode (k @ c) None (length (k @ c)) [(s, RNode (k @ c @ s) (Some v) (length (k @ c @ s)) []), (e, ch)]) # ys)
    True"
proof -
  let ?l = "RNode (k @ c @ s) (Some v) (length (k @ c @ s)) []"
  let ?n = "RNode (k @ c) None (length (k @ c)) [(s, ?l), (e, ch)]"
  have h: "head1 (c @ r) = head1 c" for r using assms(2) by (cases c) auto
  have ch: "wf_node ch" "node_key ch = k @ c @ e" using assms(1) by (auto simp: wf_children_middle)
  have wn: "wf_children (k @ c) [(s, ?l), (e, ch)]"
    using assms(3,4) ch wf_new_leaf [of "k @ c @ s" v] by (auto simp: wf_children_Cons is_leaf_def)
  then have "wf_node ?n" by (simp add: wf_node_iff)
  with assms h have w: "wf_children k (xs @ (c, ?n) # ys)"
    by (auto simp: wf_children_middle)
  have bn: "below ?n r = (if r = s then Some (Some v) else if fits e r then below ch (drop (length e) r) else None)" for r
  proof -
    have "\<not> (fits s r \<and> fits e r)" using assms(4) fits_take1 by metis
    moreover have "wf_children (k @ c) [(e, ch)]" using wn by (simp add: wf_children_Cons)
    ultimately show ?thesis
      using wn fits_whole [of s r] by (auto simp: below_inner below_children_Cons below_new_leaf)
  qed
  have fc: "fits (c @ e) r \<longleftrightarrow> (\<exists>r'. r = c @ r' \<and> fits e r')" for r
  proof
    assume "fits (c @ e) r"
    then obtain t where "r = c @ e @ t" using assms(3) by (metis append.assoc append_is_Nil_conv append_take_drop_id fits_def)
    with assms(3) show "\<exists>r'. r = c @ r' \<and> fits e r'" by (intro exI [of _ "e @ t"]) (simp add: fits_def)
  next
    assume "\<exists>r'. r = c @ r' \<and> fits e r'"
    with assms(2,3) show "fits (c @ e) r" by (auto simp: fits_def)
  qed
  have f1: "fits c r \<longleftrightarrow> (\<exists>r'. r = c @ r')" for r
    using assms(2) by (auto simp: fits_def) (metis append_take_drop_id)
  have ns: "below_children k (xs @ (c @ e, ch) # ys) (c @ s) = None"
    using assms(4) fits_take1 [of e s] by (auto simp: below_children_middle [OF assms(1)] fc h)
  have dr: "drop (length (c @ e)) (c @ r) = drop (length e) r" "drop (length c) (c @ r) = r"
    "drop (length e + length c) (c @ r) = drop (length e) r" for r by simp_all
  have "below_children k (xs @ (c, ?n) # ys) r =
      (if r = c @ s then Some (Some v) else below_children k (xs @ (c @ e, ch) # ys) r)" for r
    unfolding below_children_middle [OF w] below_children_middle [OF assms(1)]
    using h dr by (auto simp: f1 fc bn simp del: length_append drop_append)
  with w ns show ?thesis by (simp add: adds_def)
qed

text \<open>A new edge next to edges that start differently, or a key that is there already.\<close>

lemma adds_edge:
  assumes "wf_children k cs" and "\<And>e ch. (e, ch) \<in> set cs \<Longrightarrow> head1 e = head1 s \<Longrightarrow> e = [] \<and> s = []"
  shows "adds k cs s v (umap_insert s (RNode (k @ s) (Some v) (length (k @ s)) []) cs) (s \<notin> fst ` set cs)"
proof (cases "s \<in> fst ` set cs")
  case True
  then obtain ch where c: "(s, ch) \<in> set cs" by auto
  with assms(2) have "s = []" by blast
  obtain xs ys where cs: "cs = xs @ (s, ch) # ys" using c by (metis split_list)
  have "wf_node ch" "is_leaf ch" using assms(1) \<open>s = []\<close> by (auto simp: cs wf_children_middle)
  then have "below_children k cs s \<noteq> None"
    using assms(1) \<open>s = []\<close> unfolding cs by (simp add: below_children_middle fits_def below_leaf)
  with True assms(1) show ?thesis by (auto simp: adds_def umap_insert_def cs)
next
  case False
  have nf: "head1 e \<noteq> head1 s" if "(e, ch) \<in> set cs" for e ch
    using assms(2) [OF that] that False by (metis fst_conv image_eqI)
  let ?l = "RNode (k @ s) (Some v) (length (k @ s)) []"
  have w: "wf_children k ((s, ?l) # cs)"
    using assms(1) nf wf_new_leaf [of "k @ s" v] by (auto simp: wf_children_Cons is_leaf_def)
  have "\<not> fits e s" if "(e, ch) \<in> set cs" for e ch using nf [OF that] fits_take1 by metis
  then have "below_children k cs s = None" by (intro below_children_unfit [OF assms(1)]) auto
  moreover have "below_children k ((s, ?l) # cs) r = (if r = s then Some (Some v) else below_children k cs r)" for r
  proof (cases "fits s r")
    case True
    have "\<not> fits e r" if "(e, ch) \<in> set cs" for e ch
      using nf [OF that] fits_take1 [OF True] fits_take1 [of e r] by metis
    then have "below_children k cs r = None" by (intro below_children_unfit [OF assms(1)]) auto
    with True fits_whole [OF True] show ?thesis
      by (auto simp: below_children_Cons [OF w] below_new_leaf simp del: length_append)
  next
    case False
    then show ?thesis by (auto simp: below_children_Cons [OF w] simp del: length_append)
  qed
  ultimately show ?thesis using False w by (simp add: adds_def umap_insert_def)
qed

text \<open>\<open>insert_here\<close> on the node where the descent stopped.\<close>

lemma split_child_parts:
  assumes "node_key ch = k @ c @ e" and "node_depth ch = length (node_key ch)" and "e \<noteq> s"
  shows "split_child (length k) (k @ c @ s) v (length c) ch =
    (c, RNode (k @ c) None (length (k @ c))
       [(s, RNode (k @ c @ s) (Some v) (length (k @ c @ s)) []), (e, ch)])"
proof -
  have "get_search_key (length k) ch = c @ e" "get_search_key (length k + length c) ch = e"
    using assms(1,2) by (simp_all add: get_search_key_def slice_def)
  then show ?thesis
    using assms by (simp add: split_child_def Let_def slice_def umap_insert_def)
qed

lemma split_children_result:
  assumes wf: "wf_children k cs" and nofit: "\<And>e ch. (e, ch) \<in> set cs \<Longrightarrow> e \<noteq> [] \<Longrightarrow> \<not> fits e s"
    and "split_children (length k) (k @ s) v cs = Some cs'"
  obtains xs c e ch ys t where "cs = xs @ (c @ e, ch) # ys" "s = c @ t" "c \<noteq> []" "e \<noteq> []" "head1 e \<noteq> head1 t"
    "cs' = xs @ (c, RNode (k @ c) None (length (k @ c))
      [(t, RNode (k @ c @ t) (Some v) (length (k @ c @ t)) []), (e, ch)]) # ys"
proof -
  obtain xs f ch ys where cs: "cs = xs @ (f, ch) # ys" and i: "0 < common_prefix f s"
    and cs': "cs' = xs @ (case split_child (length k) (k @ s) v (common_prefix f s) ch of (k, n) \<Rightarrow> umap_insert k n ys)"
    using assms(3) by (auto dest: split_children_SomeD)
  obtain c e t where fs: "f = c @ e" "s = c @ t" "length c = common_prefix f s" "e = [] \<or> head1 e \<noteq> head1 t"
    using common_prefix_split by blast
  from i fs have "c \<noteq> []" by auto
  have "\<not> fits f s" using nofit [of f ch] \<open>c \<noteq> []\<close> fs by (auto simp: cs)
  with fs \<open>c \<noteq> []\<close> have e: "e \<noteq> []" "head1 e \<noteq> head1 t" by (auto simp: fits_def)
  have ch: "node_key ch = k @ c @ e" "wf_node ch" using wf fs by (auto simp: cs wf_children_middle)
  then have "node_depth ch = length (node_key ch)" by (cases ch) (simp add: wf_node_iff)
  with ch e(2) have sp: "split_child (length k) (k @ c @ t) v (length c) ch =
      (c, RNode (k @ c) None (length (k @ c)) [(t, RNode (k @ c @ t) (Some v) (length (k @ c @ t)) []), (e, ch)])"
    by (intro split_child_parts) auto
  have "c \<notin> fst ` set ys" using wf \<open>c \<noteq> []\<close> fs(1) by (force simp: cs wf_children_middle)
  then have "cs' = xs @ (c, RNode (k @ c) None (length (k @ c))
      [(t, RNode (k @ c @ t) (Some v) (length (k @ c @ t)) []), (e, ch)]) # ys"
    using cs' [folded fs(3)] sp by (simp add: fs(2) umap_insert_def)
  with that [of xs c e ch ys t] cs fs(1,2) \<open>c \<noteq> []\<close> e show thesis by blast
qed

lemma insert_here_inner:
  assumes "wf_children k cs" and "\<And>e ch. (e, ch) \<in> set cs \<Longrightarrow> e \<noteq> [] \<Longrightarrow> \<not> fits e s"
    and "is_root \<or> cs \<noteq> []"
  obtains cs' b where "insert_here is_root (k @ s) v (RNode k w (length k) cs) = (RNode k w (length k) cs', b)"
    and "adds k cs s v cs' b"
proof (cases "split_children (length k) (k @ s) v cs")
  case (Some cs')
  then obtain xs c e ch ys t where r: "cs = xs @ (c @ e, ch) # ys" "s = c @ t" "c \<noteq> []" "e \<noteq> []" "head1 e \<noteq> head1 t"
    "cs' = xs @ (c, RNode (k @ c) None (length (k @ c))
      [(t, RNode (k @ c @ t) (Some v) (length (k @ c @ t)) []), (e, ch)]) # ys"
    using split_children_result [OF assms(1) _ Some] assms(2) by metis
  have "adds k cs s v cs' True" using assms(1) r(3-5) unfolding r(1,2,6) by (rule adds_split)
  then show thesis using that [of cs' True] Some by (simp add: insert_here_def)
next
  case None
  have "e = [] \<and> s = []" if "(e, ch) \<in> set cs" "head1 e = head1 s" for e ch
    using split_children_NoneD [OF None that(1)] that(2) by (cases e; cases s) (auto split: if_splits)
  then have "adds k cs s v (umap_insert s (RNode (k @ s) (Some v) (length (k @ s)) []) cs) (s \<notin> fst ` set cs)"
    by (rule adds_edge [OF assms(1)])
  moreover have "insert_here is_root (k @ s) v (RNode k w (length k) cs) =
      (RNode k w (length k) (umap_insert s (RNode (k @ s) (Some v) (length (k @ s)) []) cs), s \<notin> fst ` set cs)"
    using assms(3) None by (auto simp: insert_here_def is_leaf_def Let_def)
  ultimately show thesis using that by blast
qed

lemma insert_here_leaf:
  "insert_here False (k @ s) v (RNode k (Some w) (length k) []) =
    (case insert_here False (k @ s) v (RNode k None (length k) [([], RNode k (Some w) (length k) [])]) of
       (RNode k' v' d' cs, b) \<Rightarrow> (RNode k' v' d' cs, b))"
  by (simp add: insert_here_def is_leaf_def umap_insert_def Let_def)

lemma wf_leaf_moved: "wf_children k [([], RNode k (Some w) (length k) [])]"
  by (simp add: wf_children_Cons is_leaf_def wf_new_leaf)

lemma insert_node_correct:
  "wf_node n \<Longrightarrow> insert_node False (node_key n @ s) v (length (node_key n)) n = (n', b) \<Longrightarrow>
    wf_node n' \<and> node_key n' = node_key n \<and> (b \<longleftrightarrow> below n s = None) \<and>
    (\<forall>r. below n' r = (if r = s \<and> below n s = None then Some (Some v) else below n r))"
proof (induction s arbitrary: n n' b rule: length_induct)
  case (1 s)
  obtain k w d cs where n: "n = RNode k w d cs" by (cases n)
  with "1.prems"(1) have wf: "d = length k" "cs = [] \<longleftrightarrow> w \<noteq> None" "wf_children k cs"
    by (simp_all add: wf_node_iff)
  have wf_new: "wf_node (RNode k None (length k) cs')" "below (RNode k None (length k) cs') = below_children k cs'"
    if "adds k cs0 s v cs' b" for cs0 cs' b
    using that by (auto simp: adds_def wf_node_iff below_inner fun_eq_iff)
  show ?case
  proof (cases "insert_children (k @ s) v (length k) cs")
    case (Some a)
    then obtain cs' b' where a: "insert_children (k @ s) v (length k) cs = Some (cs', b')" by (cases a) simp
    then obtain xs e ch ys ch' where cs: "cs = xs @ (e, ch) # ys" "e \<noteq> []" "e = slice (k @ s) (length k) (length e)"
      "insert_node False (k @ s) v (length k + length e) ch = (ch', b')" "cs' = xs @ (e, ch') # ys"
      by (auto dest: insert_children_SomeD)
    then obtain t where s: "s = e @ t" by (metis append_eq_conv_conj append_take_drop_id slice_def)
    have ch: "wf_node ch" "node_key ch = k @ e" using wf(3) by (auto simp: cs(1) wf_children_middle)
    then have i: "insert_node False (node_key ch @ t) v (length (node_key ch)) ch = (ch', b')"
      using cs(4) s by simp
    have "length t < length s" using s cs(2) by simp
    from "1.IH" [rule_format, OF this ch(1) i] have ih: "wf_node ch'" "node_key ch' = node_key ch" "b' \<longleftrightarrow> below ch t = None"
      "\<And>r. below ch' r = (if r = t \<and> below ch t = None then Some (Some v) else below ch r)"
      by auto
    have ad: "adds k cs s v cs' b'"
      unfolding cs(1,5) using wf(3) [unfolded cs(1)] cs(2) s ih by (rule adds_descend)
    have "n' = RNode k w d cs'" "b = b'" using "1.prems"(2) a wf(1) by (simp_all add: n)
    moreover have "w = None" "cs \<noteq> []" using wf(2) cs(1) by auto
    ultimately show ?thesis
      using wf_new [OF ad] ad wf(1) by (simp add: n below_inner adds_def)
  next
    case None
    have nofit: "\<not> fits e s" if "(e, ch) \<in> set cs" "e \<noteq> []" for e ch
      using insert_children_NoneD [OF None that] that(2) by (simp add: fits_def slice_def)
    have ins: "insert_here False (k @ s) v n = (n', b)"
      using "1.prems"(2) None wf(1) by (simp add: n)
    show ?thesis
    proof (cases "cs = []")
      case False
      with wf nofit obtain cs' b' where "insert_here False (k @ s) v n = (RNode k w (length k) cs', b')"
        and ad: "adds k cs s v cs' b'"
        unfolding n by (metis insert_here_inner)
      with ins have "n' = RNode k w (length k) cs'" "b = b'" by simp_all
      with False wf wf_new [OF ad] ad show ?thesis by (simp add: n below_inner adds_def)
    next
      case True
      with wf obtain x where x: "w = Some x" by auto
      let ?cs = "[([], RNode k (Some x) (length k) [])]"
      obtain cs' b' where h: "insert_here False (k @ s) v (RNode k None (length k) ?cs) = (RNode k None (length k) cs', b')"
        and ad: "adds k ?cs s v cs' b'"
        by (rule insert_here_inner [OF wf_leaf_moved, where s = s and is_root = False and v = v and w = None]) auto
      with ins insert_here_leaf [of k s v x] have "n' = RNode k None (length k) cs'" "b = b'"
        by (simp_all add: n True x wf(1))
      moreover have "below_children k ?cs r = below n r" for r
        using below_children_Cons [OF wf_leaf_moved, of k x r]
        by (auto simp: n True x fits_def below_new_leaf)
      ultimately show ?thesis using wf_new [OF ad] ad by (simp add: n adds_def)
    qed
  qed
qed

lemma insert_root_correct:
  assumes "wf_children [] cs"
  obtains cs' b where "insert_node True s v 0 (RNode [] None 0 cs) = (RNode [] None 0 cs', b)"
    and "adds [] cs s v cs' b"
proof (cases "insert_children s v 0 cs")
  case (Some a)
  then obtain cs' b where a: "insert_children s v 0 cs = Some (cs', b)" by (cases a) simp
  then obtain xs e ch ys ch' where cs: "cs = xs @ (e, ch) # ys" "e \<noteq> []" "e = slice s 0 (length e)"
    "insert_node False s v (length e) ch = (ch', b)" "cs' = xs @ (e, ch') # ys"
    by (auto dest: insert_children_SomeD)
  then obtain t where s: "s = e @ t" by (metis append_take_drop_id drop0 slice_def)
  have ch: "wf_node ch" "node_key ch = e" using assms by (auto simp: cs(1) wf_children_middle)
  from insert_node_correct [OF ch(1), of t v ch' b] cs(4) s ch(2)
  have "adds [] cs s v cs' b"
    unfolding cs(1,5) by (intro adds_descend [OF assms [unfolded cs(1)] cs(2) s]) auto
  with a that show thesis by simp
next
  case None
  have "\<not> fits e s" if "(e, ch) \<in> set cs" "e \<noteq> []" for e ch
    using insert_children_NoneD [OF None that] that(2) by (simp add: fits_def slice_def)
  with None that show thesis
    using insert_here_inner [OF assms, where s = s and is_root = True and v = v and w = None]
    by (metis (no_types, lifting) append_Nil insert_node.simps list.size(3) option.case(1))
qed

lemma below_value:
  "wf_node n \<Longrightarrow> below n s \<noteq> Some None"
proof (induction s arbitrary: n rule: length_induct)
  case (1 s)
  obtain k w d cs where n: "n = RNode k w d cs" by (cases n)
  have "below_children k cs s \<noteq> Some None" if "wf_children k cs" for cs :: "(string \<times> 'a rnode) list"
    using that
  proof (induction cs)
    case (Cons c cs)
    obtain e ch where c: "c = (e, ch)" by (cases c)
    have w: "wf_node ch" "wf_children k cs" "e = [] \<Longrightarrow> is_leaf ch"
      using Cons.prems by (auto simp: c wf_children_Cons)
    have "below ch (drop (length e) s) \<noteq> Some None" if "fits e s"
    proof (cases "e = []")
      case True
      with w that show ?thesis by (cases ch) (auto simp: below_leaf is_leaf_def wf_node_iff)
    next
      case False
      with that have "length (drop (length e) s) < length s" by (cases s) (auto simp: fits_def)
      with "1.IH" w show ?thesis by blast
    qed
    with Cons w show ?case by (simp add: c below_children_Cons)
  qed simp
  with "1.prems" show ?case
    by (cases "cs = []") (auto simp: n wf_node_iff below_inner below_new_leaf split: if_splits)
qed

section \<open>The tree as a table\<close>

lemma tree_find_below:
  "root_node t = Some (RNode [] None 0 cs) \<Longrightarrow> cs \<noteq> [] \<Longrightarrow> tree_find key t = below_children [] cs key"
  by (simp add: tree_find_def below_children_def)

lemma tree_find_empty [simp]: "tree_find key empty_tree = None"
  by (simp add: tree_find_def empty_tree_def)

lemma wf_empty_tree [simp]: "wf_tree empty_tree"
  by (simp add: wf_tree_def empty_tree_def)

lemma wf_tree_cases:
  assumes "wf_tree t"
  obtains "root_node t = None" "\<And>key. tree_find key t = None"
  | cs where "root_node t = Some (RNode [] None 0 cs)" "wf_children [] cs" "cs \<noteq> []"
    "\<And>key. tree_find key t = below_children [] cs key"
proof (cases "root_node t")
  case None
  then show thesis using that(1) by (simp add: tree_find_def)
next
  case (Some r)
  with assms that(2) tree_find_below show thesis by (cases r) (auto simp: wf_tree_def)
qed

lemma tree_insert_correct:
  assumes "wf_tree t"
  shows "wf_tree (fst (tree_insert key v t)) \<and> (snd (tree_insert key v t) \<longleftrightarrow> tree_find key t = None) \<and>
    tree_find k (fst (tree_insert key v t)) =
      (if k = key \<and> tree_find key t = None then Some (Some v) else tree_find k t)"
proof -
  obtain cs where cs: "wf_children [] cs" "(case root_node t of None \<Rightarrow> RNode [] None 0 [] | Some r \<Rightarrow> r) = RNode [] None 0 cs"
    "\<And>key. tree_find key t = below_children [] cs key"
    using assms
  proof (cases rule: wf_tree_cases)
    case 1
    then show thesis using that [of "[]"] by simp
  qed (use that in auto)
  obtain cs' b where i: "insert_node True key v 0 (RNode [] None 0 cs) = (RNode [] None 0 cs', b)"
    and ad: "adds [] cs key v cs' b"
    using insert_root_correct [OF cs(1)] by metis
  have t: "tree_insert key v t = (\<lparr>root_node = Some (RNode [] None 0 cs'),
      tree_size = (if b then tree_size t + 1 else tree_size t)\<rparr>, b)"
    by (simp add: tree_insert_def cs(2) i del: insert_node.simps)
  with ad cs(3) show ?thesis
    by (simp add: adds_def wf_tree_def tree_find_below)
qed

lemma tree_find_value:
  assumes "wf_tree t"
  shows "tree_find key t \<noteq> Some None"
  using assms
proof (cases rule: wf_tree_cases)
  case (2 cs)
  then have "wf_node (RNode [] None 0 cs)" by (simp add: wf_node_iff)
  from below_value [OF this, of key] 2 show ?thesis by (simp add: below_inner)
qed auto

text \<open>The mapped value behind the iterator that \<open>find\<close> returns.\<close>

definition tree_get :: "string \<Rightarrow> 'v radix_tree \<Rightarrow> 'v option" where
  "tree_get key t = (case tree_find key t of Some w \<Rightarrow> w | None \<Rightarrow> None)"

lemma tree_find_get: "wf_tree t \<Longrightarrow> tree_find key t = map_option Some (tree_get key t)"
  using tree_find_value [of t key] by (auto simp: tree_get_def split: option.splits)

subsection \<open>The interface of a route table\<close>

text \<open>
  What the server relies on: a table from paths to handlers where the first registration of a
  path stays.
\<close>

locale route_table =
  fixes empty :: 't
    and lookup :: "string \<Rightarrow> 't \<Rightarrow> 'v option"
    and add :: "string \<Rightarrow> 'v \<Rightarrow> 't \<Rightarrow> 't \<times> bool"
    and count :: "'t \<Rightarrow> nat"
    and inv :: "'t \<Rightarrow> bool"
  assumes inv_empty: "inv empty"
    and lookup_empty: "lookup k empty = None"
    and count_empty: "count empty = 0"
    and inv_add: "inv t \<Longrightarrow> inv (fst (add k v t))"
    and add_fresh: "inv t \<Longrightarrow> snd (add k v t) \<longleftrightarrow> lookup k t = None"
    and lookup_add: "inv t \<Longrightarrow>
      lookup k' (fst (add k v t)) = (if k' = k \<and> lookup k t = None then Some v else lookup k' t)"
    and count_add: "inv t \<Longrightarrow> count (fst (add k v t)) = count t + of_bool (snd (add k v t))"
begin

definition add_all :: "(string \<times> 'v) list \<Rightarrow> 't \<Rightarrow> 't" where
  "add_all kvs t = foldl (\<lambda>t (k, v). fst (add k v t)) t kvs"

lemma inv_add_all: "inv t \<Longrightarrow> inv (add_all kvs t)"
  by (induction kvs arbitrary: t) (auto simp: add_all_def inv_add)

lemma lookup_add_all:
  "inv t \<Longrightarrow> lookup k (add_all kvs t) = (case lookup k t of Some v \<Rightarrow> Some v | None \<Rightarrow> map_of kvs k)"
proof (induction kvs arbitrary: t)
  case (Cons kv kvs)
  obtain j v where kv: "kv = (j, v)" by (cases kv)
  have "add_all (kv # kvs) t = add_all kvs (fst (add j v t))" by (simp add: add_all_def kv)
  with Cons.IH [OF inv_add [OF Cons.prems], of j v] Cons.prems show ?case
    by (auto simp: kv lookup_add split: option.splits)
qed (auto simp: add_all_def split: option.splits)

lemma count_add_all:
  "inv t \<Longrightarrow> count (add_all kvs t) = count t + card (fst ` set kvs - {k. lookup k t \<noteq> None})"
proof (induction kvs arbitrary: t)
  case (Cons kv kvs)
  obtain j v where kv: "kv = (j, v)" by (cases kv)
  let ?S = "fst ` set kvs - {k. lookup k (fst (add j v t)) \<noteq> None}"
  have "fst ` set (kv # kvs) - {k. lookup k t \<noteq> None} = (if lookup j t = None then insert j ?S else ?S)"
    using Cons.prems by (auto simp: kv lookup_add split: if_splits)
  moreover have "j \<notin> ?S" using Cons.prems by (auto simp: lookup_add)
  ultimately have "card (fst ` set (kv # kvs) - {k. lookup k t \<noteq> None}) = card ?S + of_bool (lookup j t = None)"
    by simp
  moreover have "add_all (kv # kvs) t = add_all kvs (fst (add j v t))" by (simp add: add_all_def kv)
  ultimately show ?case
    using Cons.IH [OF inv_add [OF Cons.prems], of j v] Cons.prems by (simp add: count_add add_fresh)
qed (simp add: add_all_def)

end

interpretation radix: route_table empty_tree tree_get tree_insert tree_size wf_tree
proof
  fix t :: "'a radix_tree" and k k' v
  assume t: "wf_tree t"
  show "wf_tree (fst (tree_insert k v t))" using tree_insert_correct [OF t] by blast
  have f: "tree_find k t = None \<longleftrightarrow> tree_get k t = None" by (simp add: tree_find_get [OF t])
  from tree_insert_correct [OF t, of k v] show "snd (tree_insert k v t) \<longleftrightarrow> tree_get k t = None"
    unfolding f by blast
  show "tree_get k' (fst (tree_insert k v t)) = (if k' = k \<and> tree_get k t = None then Some v else tree_get k' t)"
    using tree_insert_correct [OF t, of k v k'] unfolding f by (simp add: tree_get_def)
  show "tree_size (fst (tree_insert k v t)) = tree_size t + of_bool (snd (tree_insert k v t))"
    by (simp add: tree_insert_def split: prod.splits del: insert_node.simps)
qed (simp_all add: tree_get_def, simp add: empty_tree_def)

section \<open>Property\<close>

text \<open>
  C5: the radix tree is a table in which the first registration of a key stays. After any sequence of
  insertions into an empty tree, \<open>find\<close> returns for every key the value it was first inserted with
  and \<open>end()\<close> for a key never inserted, it never returns a node without a value, and
  \<open>size()\<close> is the number of distinct keys; however the keys share prefixes.
\<close>

theorem radix_tree_refines_map:
  "let t = foldl (\<lambda>t (k, v). fst (tree_insert k v t)) empty_tree kvs in
    tree_find key t = map_option Some (map_of kvs key) \<and> tree_size t = card (fst ` set kvs)"
proof -
  let ?t = "radix.add_all kvs empty_tree"
  have "tree_get key ?t = map_of kvs key"
    using radix.lookup_add_all [OF radix.inv_empty, of key kvs] by (simp add: radix.lookup_empty)
  moreover have "tree_size ?t = card (fst ` set kvs)"
    using radix.count_add_all [OF radix.inv_empty, of kvs] by (simp add: radix.lookup_empty radix.count_empty)
  ultimately show ?thesis
    using tree_find_get [OF radix.inv_add_all [OF radix.inv_empty, of kvs]]
    by (simp add: radix.add_all_def Let_def)
qed

end
