(* ===== verification/Routing.thy ===== *)
theory Routing
  imports RadixTree HttpTypes
begin

text \<open>
  \<open>RouteNode.h\<close>, the registration functions and \<open>MatchPattern\<close> of \<open>ZvejysServer\<close>, and the
  dispatch of a request in \<open>HttpConnection::HandleRead\<close>. A handler is a function on the request and
  the state \<open>'w\<close> of everything it can reach (database, cache, files); it returns a response or
  throws. Exact paths live in the radix tree, paths with a \<open>{\<close> in a list that is tried in order.
\<close>

section \<open>Handlers\<close>

type_synonym 'w handler = "HttpRequest \<Rightarrow> 'w \<Rightarrow> HttpResponse res \<times> 'w"
type_synonym 'w auth_handler = "HttpRequest \<Rightarrow> AuthenticatedUser \<Rightarrow> 'w \<Rightarrow> HttpResponse res \<times> 'w"
type_synonym 'w auth_func = "HttpRequest \<Rightarrow> 'w \<Rightarrow> AuthenticatedUser option res \<times> 'w"

text \<open>A \<open>std::function\<close> may be empty.\<close>

datatype 'w PathTreeNode =
    RouteNode HttpMethod "'w handler option"
  | AuthenticatedRouteNode HttpMethod "'w auth_handler option"

fun GetRouteMethod :: "'w PathTreeNode \<Rightarrow> HttpMethod" where
  "GetRouteMethod (RouteNode m h) = m"
| "GetRouteMethod (AuthenticatedRouteNode m h) = m"

fun HandleRequest :: "'w auth_func \<Rightarrow> 'w PathTreeNode \<Rightarrow> HttpRequest \<Rightarrow> 'w \<Rightarrow> HttpResponse res \<times> 'w" where
  "HandleRequest auth (RouteNode m handler) request w =
     (case handler of
        Some h \<Rightarrow> h request w
      | None \<Rightarrow> (Inr (InternalServerError ''Handler not implemented''), w))"
| "HandleRequest auth (AuthenticatedRouteNode m handler) request w =
     (case handler of
        None \<Rightarrow> (Inr (InternalServerError ''Handler not implemented''), w)
      | Some h \<Rightarrow>
          (case auth request w of
             (Inl e, w') \<Rightarrow> (Inl e, w')
           | (Inr None, w') \<Rightarrow> (Inr (Unauthorized ''Invalid or missing token''), w')
           | (Inr (Some user), w') \<Rightarrow> h request user w'))"

section \<open>Patterns\<close>

definition path_parts :: "string \<Rightarrow> string list" where
  "path_parts s = filter (\<lambda>seg. seg \<noteq> []) (getlines CHR ''/'' s)"

definition is_param :: "string \<Rightarrow> bool" where
  "is_param p \<longleftrightarrow> hd p = CHR ''{'' \<and> last p = CHR ''}''"

definition param_name :: "string \<Rightarrow> string" where
  "param_name p = slice p 1 (length p - 2)"

text \<open>The loop over both lists of parts; \<open>params\<close> keeps what was bound when it stops.\<close>

fun match_parts :: "string list \<Rightarrow> string list \<Rightarrow> smap \<Rightarrow> bool \<times> smap" where
  "match_parts (p # ps) (s # ss) params =
     (if is_param p then match_parts ps ss (smap_set (param_name p) s params)
      else if p \<noteq> s then (False, params)
      else match_parts ps ss params)"
| "match_parts _ _ params = (True, params)"

definition MatchPattern :: "string \<Rightarrow> string \<Rightarrow> smap \<Rightarrow> bool \<times> smap" where
  "MatchPattern pattern path params =
     (let patternParts = path_parts pattern; pathParts = path_parts path in
      if length patternParts \<noteq> length pathParts then (False, params)
      else match_parts patternParts pathParts params)"

section \<open>Registration and dispatch\<close>

record 'w routes =
  route_map :: "'w PathTreeNode radix_tree"
  pattern_routes :: "(string \<times> 'w PathTreeNode) list"

definition no_routes :: "'w routes" where
  "no_routes = \<lparr>route_map = empty_tree, pattern_routes = []\<rparr>"

definition register_node :: "string \<Rightarrow> 'w PathTreeNode \<Rightarrow> 'w routes \<Rightarrow> 'w routes" where
  "register_node path node srv =
     (if find_sub ''{'' path \<noteq> None
      then srv\<lparr>pattern_routes := pattern_routes srv @ [(path, node)]\<rparr>
      else srv\<lparr>route_map := fst (tree_insert path node (route_map srv))\<rparr>)"

definition RegisterRoute :: "HttpMethod \<Rightarrow> string \<Rightarrow> 'w handler \<Rightarrow> 'w routes \<Rightarrow> 'w routes" where
  "RegisterRoute m path handler srv = register_node path (RouteNode m (Some handler)) srv"

definition RegisterAuthenticatedRoute ::
    "HttpMethod \<Rightarrow> string \<Rightarrow> 'w auth_handler \<Rightarrow> 'w routes \<Rightarrow> 'w routes" where
  "RegisterAuthenticatedRoute m path handler srv =
     register_node path (AuthenticatedRouteNode m (Some handler)) srv"

text \<open>
  The loop over the pattern routes: the first whose pattern and method fit, with the parameters it
  bound. A comparison with an uninitialised request method never matches here.
\<close>

fun find_pattern :: "(string \<times> 'w PathTreeNode) list \<Rightarrow> HttpRequest \<Rightarrow> ('w PathTreeNode \<times> smap) option" where
  "find_pattern [] request = None"
| "find_pattern ((pattern, node) # rs) request =
     (case MatchPattern pattern (req_path request) [] of
        (matched, params) \<Rightarrow>
          if matched \<and> Some (GetRouteMethod node) = req_method request then Some (node, params)
          else find_pattern rs request)"

text \<open>
  The two \<open>catch\<close> clauses; undefined behaviour in a handler is not an exception and not caught.
\<close>

definition catch_all :: "HttpResponse res \<times> 'w \<Rightarrow> (HttpResponse \<times> 'w) res" where
  "catch_all r =
     (case r of
        (Inr response, w) \<Rightarrow> Inr (response, w)
      | (Inl e, w) \<Rightarrow>
          if e = UndefinedBehaviour then Inl UndefinedBehaviour
          else Inr (InternalServerError ''Internal server error'', w))"

text \<open>
  The try block of \<open>HandleRead\<close>: the response, the request (whose path parameters may have been set)
  and the state. A null node in the tree would be dereferenced.
\<close>

definition run_node ::
    "'w auth_func \<Rightarrow> 'w PathTreeNode \<Rightarrow> HttpRequest \<Rightarrow> 'w \<Rightarrow> (HttpResponse \<times> HttpRequest \<times> 'w) res" where
  "run_node auth node request w =
     bind_res (catch_all (HandleRequest auth node request w)) (\<lambda>(r, w'). Inr (r, request, w'))"

definition dispatch ::
    "'w auth_func \<Rightarrow> 'w routes \<Rightarrow> HttpRequest \<Rightarrow> 'w \<Rightarrow> (HttpResponse \<times> HttpRequest \<times> 'w) res" where
  "dispatch auth srv request w =
     (case tree_find (req_path request) (route_map srv) of
        Some None \<Rightarrow> Inl UndefinedBehaviour
      | Some (Some node) \<Rightarrow> run_node auth node request w
      | None \<Rightarrow>
          (case find_pattern (pattern_routes srv) request of
             Some (node, params) \<Rightarrow> run_node auth node (request\<lparr>req_path_params := params\<rparr>) w
           | None \<Rightarrow> Inr (NotFound ''Route not found'', request, w)))"

section \<open>Matching\<close>

lemma path_parts_slash: "p \<in> set (path_parts s) \<Longrightarrow> p \<noteq> [] \<and> CHR ''/'' \<notin> set p"
  using getlines_no_delim_in [of p "CHR ''/''" s] by (auto simp: path_parts_def)

definition bindings :: "string list \<Rightarrow> string list \<Rightarrow> smap" where
  "bindings ps ss = map (\<lambda>(p, s). (param_name p, s)) (filter (\<lambda>(p, s). is_param p) (zip ps ss))"

lemma match_parts_iff:
  "length ps = length ss \<Longrightarrow>
    fst (match_parts ps ss params) \<longleftrightarrow> list_all2 (\<lambda>p s. is_param p \<or> p = s) ps ss"
  by (induction ps ss params rule: match_parts.induct) auto

lemma match_parts_params:
  "length ps = length ss \<Longrightarrow> fst (match_parts ps ss params) \<Longrightarrow>
    map_of (snd (match_parts ps ss params)) = map_of params ++ map_of (rev (bindings ps ss))"
proof (induction ps ss params rule: match_parts.induct)
  case (1 p ps s ss params)
  then show ?case
    by (cases "is_param p")
      (simp_all add: bindings_def update_conv' map_add_upd_left del: fun_upd_apply split: if_splits)
qed (auto simp: bindings_def)

lemma MatchPattern_iff:
  "fst (MatchPattern pattern path params) \<longleftrightarrow>
    list_all2 (\<lambda>p s. is_param p \<or> p = s) (path_parts pattern) (path_parts path)"
  by (auto simp: MatchPattern_def Let_def match_parts_iff list_all2_lengthD)

lemma MatchPattern_params:
  assumes "fst (MatchPattern pattern path params)"
  shows "map_of (snd (MatchPattern pattern path params)) =
    map_of params ++ map_of (rev (bindings (path_parts pattern) (path_parts path)))"
  using assms by (auto simp: MatchPattern_def Let_def match_parts_params split: if_splits)

lemma MatchPattern_value_safe:
  assumes "fst (MatchPattern pattern path [])" and "map_of (snd (MatchPattern pattern path [])) k = Some v"
  shows "v \<noteq> [] \<and> CHR ''/'' \<notin> set v"
proof -
  from assms have "map_of (rev (bindings (path_parts pattern) (path_parts path))) k = Some v"
    by (simp add: MatchPattern_params)
  then have "(k, v) \<in> set (bindings (path_parts pattern) (path_parts path))"
    by (auto dest: map_of_SomeD)
  then have "v \<in> set (path_parts path)" by (auto simp: bindings_def dest: set_zip_rightD)
  then show ?thesis by (rule path_parts_slash)
qed

section \<open>Dispatch over registrations\<close>

definition register_all :: "(string \<times> 'w PathTreeNode) list \<Rightarrow> 'w routes" where
  "register_all regs = foldl (\<lambda>srv (path, node). register_node path node srv) no_routes regs"

definition is_pattern :: "string \<Rightarrow> bool" where
  "is_pattern path \<longleftrightarrow> CHR ''{'' \<in> set path"

lemma register_all_split:
  "route_map (foldl (\<lambda>srv (path, node). register_node path node srv) srv regs) =
     radix.add_all (filter (\<lambda>(p, _). \<not> is_pattern p) regs) (route_map srv) \<and>
   pattern_routes (foldl (\<lambda>srv (path, node). register_node path node srv) srv regs) =
     pattern_routes srv @ filter (\<lambda>(p, _). is_pattern p) regs"
proof (induction regs arbitrary: srv)
  case (Cons r regs)
  obtain path node where r: "r = (path, node)" by (cases r)
  show ?case
    using Cons.IH [of "register_node path node srv"] find_char_None_iff [of "CHR ''{''" path]
    by (auto simp: r register_node_def is_pattern_def radix.add_all_def)
qed (simp add: radix.add_all_def)

lemma map_of_filter_fst: "map_of (filter (\<lambda>(k, _). P k) xs) k = (if P k then map_of xs k else None)"
  by (induction xs) auto

lemma register_all_tree:
  "wf_tree (route_map (register_all regs)) \<and>
   tree_get path (route_map (register_all regs)) = (if is_pattern path then None else map_of regs path)"
proof -
  have "route_map (register_all regs) = radix.add_all (filter (\<lambda>(p, _). \<not> is_pattern p) regs) empty_tree"
    using register_all_split [of no_routes regs] by (simp add: register_all_def no_routes_def)
  then show ?thesis
    by (simp add: radix.lookup_add_all [OF radix.inv_empty] radix.inv_add_all [OF radix.inv_empty]
      radix.lookup_empty map_of_filter_fst [of "\<lambda>p. \<not> is_pattern p"])
qed

lemma find_pattern_find:
  "find_pattern rs request =
    map_option (\<lambda>(pattern, node). (node, snd (MatchPattern pattern (req_path request) [])))
      (List.find (\<lambda>(pattern, node). fst (MatchPattern pattern (req_path request) []) \<and>
        Some (GetRouteMethod node) = req_method request) rs)"
  by (induction rs) (auto split: prod.splits)

lemma find_filter: "List.find P (filter Q xs) = List.find (\<lambda>x. Q x \<and> P x) xs"
  by (induction xs) auto

lemma dispatch_register_all:
  "dispatch auth (register_all regs) request w =
    (case (if is_pattern (req_path request) then None else map_of regs (req_path request)) of
       Some node \<Rightarrow> run_node auth node request w
     | None \<Rightarrow>
         (case List.find (\<lambda>(pattern, node). is_pattern pattern \<and>
              fst (MatchPattern pattern (req_path request) []) \<and>
              Some (GetRouteMethod node) = req_method request) regs of
            None \<Rightarrow> Inr (NotFound ''Route not found'', request, w)
          | Some (pattern, node) \<Rightarrow>
              run_node auth node
                (request\<lparr>req_path_params := snd (MatchPattern pattern (req_path request) [])\<rparr>) w))"
proof -
  let ?srv = "register_all regs"
  have t: "tree_find (req_path request) (route_map ?srv) =
      map_option Some (if is_pattern (req_path request) then None else map_of regs (req_path request))"
    using register_all_tree [of regs "req_path request"] by (simp add: tree_find_get)
  have p: "find_pattern (pattern_routes ?srv) request =
    map_option (\<lambda>(pattern, node). (node, snd (MatchPattern pattern (req_path request) [])))
      (List.find (\<lambda>(pattern, node). is_pattern pattern \<and> fst (MatchPattern pattern (req_path request) []) \<and>
        Some (GetRouteMethod node) = req_method request) regs)"
    using register_all_split [of no_routes regs]
    by (simp add: register_all_def no_routes_def find_pattern_find find_filter case_prod_unfold)
  show ?thesis
    unfolding dispatch_def t p by (auto split: option.splits prod.splits)
qed

section \<open>Properties\<close>

text \<open>
  Pattern matching. A path matches a pattern exactly when both have the same number of non-empty
  parts and each part of the pattern is a \<open>{name}\<close> or equal to the path's part; the parameters are
  then the path's parts under those names (the later one when a name repeats), and no parameter
  is empty or holds a slash.
\<close>

theorem match_pattern:
  "(fst (MatchPattern pattern path []) \<longleftrightarrow>
      list_all2 (\<lambda>p s. is_param p \<or> p = s) (path_parts pattern) (path_parts path)) \<and>
   (\<not> fst (MatchPattern pattern path []) \<or>
      map_of (snd (MatchPattern pattern path [])) = map_of (rev (bindings (path_parts pattern) (path_parts path))) \<and>
      ran (map_of (snd (MatchPattern pattern path []))) \<subseteq> {v. v \<noteq> [] \<and> CHR ''/'' \<notin> set v})"
  using MatchPattern_value_safe [of pattern path]
  by (auto simp: MatchPattern_iff MatchPattern_params ran_def)

theorem match_pattern_witness:
  "map_of (snd (MatchPattern ''/streams/{id}/hls'' ''/streams/42//hls/'' [])) ''id'' = Some ''42''"
proof -
  have parts: "path_parts ''/streams/{id}/hls'' = [''streams'', ''{id}'', ''hls'']"
    "path_parts ''/streams/42//hls/'' = [''streams'', ''42'', ''hls'']"
    by code_simp+
  show ?thesis
    using match_pattern [of "''/streams/{id}/hls''" "''/streams/42//hls/''"]
    by (simp add: parts is_param_def bindings_def param_name_def slice_def)
qed

text \<open>
  C6: which handler answers. After any sequence of registrations, a request for a path registered
  without braces is answered by the first node registered under exactly that path, whatever its method;
  any other request by the first pattern route whose pattern and method fit, with its parameters set;
  and by 404 otherwise. No null node is ever reached, and the request that comes back differs only
  in its path parameters.
\<close>

theorem dispatch_spec:
  "dispatch auth (register_all regs) request w =
    (case (if is_pattern (req_path request) then None else map_of regs (req_path request)) of
       Some node \<Rightarrow> run_node auth node request w
     | None \<Rightarrow>
         (case List.find (\<lambda>(pattern, node). is_pattern pattern \<and>
              fst (MatchPattern pattern (req_path request) []) \<and>
              Some (GetRouteMethod node) = req_method request) regs of
            None \<Rightarrow> Inr (NotFound ''Route not found'', request, w)
          | Some (pattern, node) \<Rightarrow>
              run_node auth node
                (request\<lparr>req_path_params := snd (MatchPattern pattern (req_path request) [])\<rparr>) w))"
  by (rule dispatch_register_all)

text \<open>
  C7: an authenticated route runs its handler only for an authenticated user. When the
  authentication function finds no user the answer is 401 and the state is the one it left; when it
  or the handler throws the answer is 500 and nothing escapes; otherwise the handler gets exactly the
  user it returned.
\<close>

theorem authenticated_route:
  assumes "map_of regs (req_path request) = Some (AuthenticatedRouteNode m (Some h))"
    and "\<not> is_pattern (req_path request)"
  shows "dispatch auth (register_all regs) request w =
    (case auth request w of
       (Inl e, w') \<Rightarrow>
         if e = UndefinedBehaviour then Inl UndefinedBehaviour
         else Inr (InternalServerError ''Internal server error'', request, w')
     | (Inr None, w') \<Rightarrow> Inr (Unauthorized ''Invalid or missing token'', request, w')
     | (Inr (Some user), w') \<Rightarrow>
         (case h request user w' of
            (Inl e, w'') \<Rightarrow>
              if e = UndefinedBehaviour then Inl UndefinedBehaviour
              else Inr (InternalServerError ''Internal server error'', request, w'')
          | (Inr r, w'') \<Rightarrow> Inr (r, request, w'')))"
  using assms
  by (auto simp: dispatch_register_all run_node_def catch_all_def split: sum.splits prod.splits option.splits)

definition count_calls :: "nat auth_handler" where
  "count_calls request user n = (Inr (Ok (au_username user)), n + 1)"

theorem authenticated_route_witness:
  "dispatch (\<lambda>_ n. (Inr None, n)) (register_all [(''/me'', AuthenticatedRouteNode GET (Some count_calls))])
     (empty_request\<lparr>req_path := ''/me''\<rparr>) 0 =
     Inr (Unauthorized ''Invalid or missing token'', empty_request\<lparr>req_path := ''/me''\<rparr>, 0) \<and>
   dispatch (\<lambda>_ n. (Inr (Some \<lparr>au_id = 1, au_username = ''bob''\<rparr>), n))
     (register_all [(''/me'', AuthenticatedRouteNode GET (Some count_calls))])
     (empty_request\<lparr>req_path := ''/me''\<rparr>) 0 =
     Inr (Ok ''bob'', empty_request\<lparr>req_path := ''/me''\<rparr>, 1)"
  using authenticated_route [of "[(''/me'', AuthenticatedRouteNode GET (Some count_calls))]"
      "empty_request\<lparr>req_path := ''/me''\<rparr>" GET count_calls "\<lambda>_ n. (Inr None, n)" 0]
    authenticated_route [of "[(''/me'', AuthenticatedRouteNode GET (Some count_calls))]"
      "empty_request\<lparr>req_path := ''/me''\<rparr>" GET count_calls
      "\<lambda>_ n. (Inr (Some \<lparr>au_id = 1, au_username = ''bob''\<rparr>), n)" 0]
  by (simp add: is_pattern_def count_calls_def)

end
