(* ===== verification/Viewers.thy ===== *)
theory Viewers
  imports WsConn Redis Routing
begin

text \<open>
  Watching a stream: \<open>services/ViewerRegistry.h\<close>, \<open>services/ChatRelay.h\<close>, \<open>services/StreamCleanup.h\<close>,
  \<open>ChatRepository.h\<close> and \<open>routes/viewer-route/VIewerRoutes.cpp\<close>. WebSocket connections are shared
  objects: a connection has a number, the node maps numbers to connections, and the registry holds
  numbers. What the Redis server and PostgreSQL do to their state \<open>'d\<close>, and the JSON texts, are
  parameters.
\<close>

section \<open>The registry\<close>

type_synonym wid = nat
type_synonym registry = "string \<Rightarrow> wid list option"

record 'd node =
  viewers :: registry
  sockets :: "wid \<Rightarrow> ws_conn"
  store :: 'd

definition AddViewer :: "string \<Rightarrow> wid \<Rightarrow> registry \<Rightarrow> registry" where
  "AddViewer streamId ws reg =
     reg(streamId \<mapsto> List.insert ws (case reg streamId of None \<Rightarrow> [] | Some l \<Rightarrow> l))"

definition RemoveViewer :: "string \<Rightarrow> wid \<Rightarrow> registry \<Rightarrow> registry" where
  "RemoveViewer streamId ws reg =
     (case reg streamId of
        None \<Rightarrow> reg
      | Some l \<Rightarrow> let l' = removeAll ws l in if l' = [] then reg(streamId := None) else reg(streamId \<mapsto> l'))"

definition send_if_open :: "string \<Rightarrow> wid \<Rightarrow> (wid \<Rightarrow> ws_conn) \<Rightarrow> wid \<Rightarrow> ws_conn" where
  "send_if_open message ws cs = (if ws_state (cs ws) = OPEN then cs(ws := SendText message (cs ws)) else cs)"

definition Broadcast :: "string \<Rightarrow> string \<Rightarrow> registry \<Rightarrow> (wid \<Rightarrow> ws_conn) \<Rightarrow> wid \<Rightarrow> ws_conn" where
  "Broadcast streamId message reg cs =
     (case reg streamId of None \<Rightarrow> cs | Some snapshot \<Rightarrow> fold (send_if_open message) snapshot cs)"

definition CloseAll :: "string \<Rightarrow> u16 \<Rightarrow> string \<Rightarrow> registry \<Rightarrow> (wid \<Rightarrow> ws_conn) \<Rightarrow> registry \<times> (wid \<Rightarrow> ws_conn)" where
  "CloseAll streamId code reason reg cs =
     (case reg streamId of
        None \<Rightarrow> (reg, cs)
      | Some snapshot \<Rightarrow> (reg(streamId := None), fold (\<lambda>ws cs. cs(ws := CloseWs code reason (cs ws))) snapshot cs))"

definition CountViewers :: "string \<Rightarrow> registry \<Rightarrow> nat" where
  "CountViewers streamId reg = (case reg streamId of None \<Rightarrow> 0 | Some l \<Rightarrow> length l)"

definition broadcast_node :: "string \<Rightarrow> string \<Rightarrow> 'd node \<Rightarrow> 'd node" where
  "broadcast_node streamId message n = n\<lparr>sockets := Broadcast streamId message (viewers n) (sockets n)\<rparr>"

section \<open>Chat messages\<close>

record ChatMessage =
  chat_id :: int
  chat_stream_id :: string
  chat_user_id :: int
  chat_username :: string
  chat_message :: string
  chat_created_at :: string

text \<open>
  The two statements of the repository; \<open>SELECT\<close> gives the newest rows first. The Redis commands, as the
  client's methods see them.
\<close>

record 'd backends =
  exec_insert_chat :: "string \<Rightarrow> string \<Rightarrow> string \<Rightarrow> string \<Rightarrow> 'd \<Rightarrow> ChatMessage res \<times> 'd"
  exec_select_chat :: "string \<Rightarrow> int \<Rightarrow> 'd \<Rightarrow> ChatMessage list res"
  api_incr :: "string \<Rightarrow> 'd \<Rightarrow> int res \<times> 'd"
  api_decr :: "string \<Rightarrow> 'd \<Rightarrow> int res \<times> 'd"
  api_set :: "string \<Rightarrow> string \<Rightarrow> 'd \<Rightarrow> bool \<times> 'd"
  api_publish :: "string \<Rightarrow> string \<Rightarrow> 'd \<Rightarrow> int res \<times> 'd"

text \<open>
  The texts that the JSON library makes and takes apart: \<open>dump\<close> throws on a string that is not
  UTF-8; a text that \<open>parse\<close> or \<open>value\<close> rejects has no fields. \<open>JsonApps\<close> gives the
  library's own.
\<close>

record json_texts =
  dump_count :: "int \<Rightarrow> string"
  dump_chat :: "ChatMessage \<Rightarrow> string res"
  dump_history :: "(int \<times> string \<times> string \<times> string) list \<Rightarrow> string res"
  parse_chat :: "string \<Rightarrow> (string \<times> string) option"

definition ChatInsert :: "'d backends \<Rightarrow> string \<Rightarrow> string \<Rightarrow> string \<Rightarrow> string \<Rightarrow> 'd \<Rightarrow> ChatMessage res \<times> 'd" where
  "ChatInsert be streamId userID username message d = exec_insert_chat be streamId userID username message d"

definition GetRecent :: "'d backends \<Rightarrow> string \<Rightarrow> int \<Rightarrow> 'd \<Rightarrow> ChatMessage list res" where
  "GetRecent be streamId limit d = bind_res (exec_select_chat be streamId limit d) (\<lambda>messages. Inr (rev messages))"

section \<open>The viewer socket\<close>

definition viewers_key :: "string \<Rightarrow> string" where
  "viewers_key streamId = ''viewers:'' @ streamId"

text \<open>The setup function of \<open>/ws/view\<close>: \<open>Some streamId\<close> when the callbacks were installed.\<close>

definition viewer_join ::
    "'d backends \<Rightarrow> json_texts \<Rightarrow> wid \<Rightarrow> 'd node \<Rightarrow> string option res \<times> 'd node" where
  "viewer_join be js ws n =
     (let req = ws_request (sockets n ws) in
      case map_of (req_query_params req) ''streamId'' of
        None \<Rightarrow> (Inr None, n\<lparr>sockets := (sockets n)(ws := CloseWs 1008 ''Missing streamId'' (sockets n ws))\<rparr>)
      | Some streamId \<Rightarrow>
          if streamId = [] then
            (Inr None, n\<lparr>sockets := (sockets n)(ws := CloseWs 1008 ''Missing streamId'' (sockets n ws))\<rparr>)
          else
            let n1 = n\<lparr>viewers := AddViewer streamId ws (viewers n)\<rparr> in
            case api_incr be (viewers_key streamId) (store n1) of
              (Inl e, d) \<Rightarrow> (Inl e, n1\<lparr>store := d\<rparr>)
            | (Inr count, d) \<Rightarrow>
                (Inr (Some streamId), broadcast_node streamId (dump_count js count) (n1\<lparr>store := d\<rparr>)))"

definition viewer_message ::
    "'d backends \<Rightarrow> json_texts \<Rightarrow> string \<Rightarrow> AuthenticatedUser \<Rightarrow> byte list \<Rightarrow> WsOpcode \<Rightarrow> 'd node \<Rightarrow> 'd node" where
  "viewer_message be js streamId user data opcode n =
     (if opcode \<noteq> TEXT then n
      else case parse_chat js (string_of data) of
          None \<Rightarrow> n
        | Some (type, txt) \<Rightarrow>
            if type \<noteq> ''chat'' then n
            else if txt = [] \<or> 500 < length txt then n
            else case ChatInsert be streamId (int_to_string (au_id user)) (au_username user) txt (store n) of
                (Inl e, d) \<Rightarrow> n\<lparr>store := d\<rparr>
              | (Inr saved, d) \<Rightarrow>
                  (case dump_chat js saved of
                     Inl e \<Rightarrow> n\<lparr>store := d\<rparr>
                   | Inr broadcast \<Rightarrow>
                       n\<lparr>store := snd (api_publish be (''chat:'' @ streamId) broadcast d)\<rparr>))"

definition viewer_close :: "'d backends \<Rightarrow> json_texts \<Rightarrow> string \<Rightarrow> wid \<Rightarrow> 'd node \<Rightarrow> exn option \<times> 'd node" where
  "viewer_close be js streamId ws n =
     (let n1 = n\<lparr>viewers := RemoveViewer streamId ws (viewers n)\<rparr> in
      case api_decr be (viewers_key streamId) (store n1) of
        (Inl e, d) \<Rightarrow> (Some e, n1\<lparr>store := d\<rparr>)
      | (Inr count, d) \<Rightarrow>
          (case (if count < 0 then (0, snd (api_set be (viewers_key streamId) ''0'' d)) else (count, d)) of
             (shown, d') \<Rightarrow> (None, broadcast_node streamId (dump_count js shown) (n1\<lparr>store := d'\<rparr>))))"

text \<open>
  The callbacks as the connection runs them: the connection they get is the node's connection of that
  number, and their changes to it are the node's.
\<close>

definition viewer_callbacks ::
    "'d backends \<Rightarrow> json_texts \<Rightarrow> string \<Rightarrow> AuthenticatedUser \<Rightarrow> wid \<Rightarrow> 'd node ws_callbacks" where
  "viewer_callbacks be js streamId user ws = \<lparr>
     on_message = Some (\<lambda>data opcode (c, n).
       let n' = viewer_message be js streamId user data opcode (n\<lparr>sockets := (sockets n)(ws := c)\<rparr>)
       in ((sockets n' ws, n'), None)),
     on_close = Some (\<lambda>code reason (c, n).
       case viewer_close be js streamId ws (n\<lparr>sockets := (sockets n)(ws := c)\<rparr>) of
         (e, n') \<Rightarrow> ((sockets n' ws, n'), e))\<rparr>"

section \<open>History\<close>

definition history_limit :: "HttpRequest \<Rightarrow> int" where
  "history_limit req =
     (case QueryParam req ''limit'' of
        None \<Rightarrow> 50
      | Some s \<Rightarrow>
          (case stoi s of
             Inl e \<Rightarrow> 50
           | Inr limit \<Rightarrow> if limit < 1 then 1 else if 200 < limit then 200 else limit))"

definition chat_history_handler :: "'d backends \<Rightarrow> json_texts \<Rightarrow> 'd handler" where
  "chat_history_handler be js req d =
     (case PathParam req ''streamId'' of
        None \<Rightarrow> (Inr (BadRequest ''Missing streamId''), d)
      | Some streamId \<Rightarrow>
          (case GetRecent be streamId (history_limit req) d of
             Inl e \<Rightarrow> (Inl e, d)
           | Inr messages \<Rightarrow>
               (bind_res (dump_history js
                  (map (\<lambda>m. (chat_id m, chat_username m, chat_message m, chat_created_at m)) messages))
                  (\<lambda>arr. Inr (Json arr)), d)))"

section \<open>Relay and clean-up\<close>

definition relay_message :: "string \<Rightarrow> string \<Rightarrow> 'd node \<Rightarrow> 'd node" where
  "relay_message channel message n =
     (if length channel \<le> 5 then n else broadcast_node (drop 5 channel) message n)"

definition relay_thread :: "redis \<Rightarrow> 'd node \<Rightarrow> exn option \<times> redis \<times> 'd node" where
  "relay_thread sub n = psubscribe ''chat:*'' relay_message sub n"

definition relay_start :: "(string list \<times> nat list) option \<Rightarrow> redis \<Rightarrow> bool \<times> redis" where
  "relay_start socket sub = connect_redis socket sub"

definition relay_stop :: "redis \<Rightarrow> redis" where
  "relay_stop sub = disconnect sub"

definition CleanupStream :: "'d backends \<Rightarrow> string \<Rightarrow> 'd node \<Rightarrow> 'd node" where
  "CleanupStream be channel n =
     (case CloseAll channel 1001 ''Stream ended'' (viewers n) (sockets n) of
        (reg, cs) \<Rightarrow>
          n\<lparr>viewers := reg, sockets := cs, store := snd (api_set be (viewers_key channel) ''0'' (store n))\<rparr>)"
section \<open>The registry as sets\<close>

definition members :: "registry \<Rightarrow> string \<Rightarrow> wid set" where
  "members reg streamId = (case reg streamId of None \<Rightarrow> {} | Some l \<Rightarrow> set l)"

definition registry_ok :: "registry \<Rightarrow> bool" where
  "registry_ok reg \<longleftrightarrow> (\<forall>streamId l. reg streamId = Some l \<longrightarrow> l \<noteq> [] \<and> distinct l)"

lemma registry_ok_empty: "registry_ok (\<lambda>_. None)"
  by (simp add: registry_ok_def)

lemma registry_ok_AddViewer: "registry_ok reg \<Longrightarrow> registry_ok (AddViewer s w reg)"
  by (auto simp: registry_ok_def AddViewer_def List.insert_def split: option.splits)

lemma registry_ok_RemoveViewer: "registry_ok reg \<Longrightarrow> registry_ok (RemoveViewer s w reg)"
  by (auto simp: registry_ok_def RemoveViewer_def Let_def distinct_removeAll split: option.splits if_splits)

lemma members_AddViewer: "members (AddViewer s w reg) = (members reg)(s := insert w (members reg s))"
  by (auto simp: members_def AddViewer_def fun_eq_iff split: option.splits)

lemma removeAll_Nil_iff: "removeAll w l = [] \<longleftrightarrow> set l \<subseteq> {w}"
  using set_removeAll [of w l] by (metis Diff_eq_empty_iff set_empty)

lemma members_RemoveViewer: "members (RemoveViewer s w reg) = (members reg)(s := members reg s - {w})"
  by (auto simp: members_def RemoveViewer_def Let_def fun_eq_iff removeAll_Nil_iff split: option.splits if_splits)

lemma CountViewers_card: "registry_ok reg \<Longrightarrow> CountViewers s reg = card (members reg s)"
  by (auto simp: registry_ok_def CountViewers_def members_def distinct_card split: option.splits)

lemma fold_pointwise:
  assumes "distinct ws" and "\<And>w cs. step w cs = cs(w := upd (cs w))"
  shows "fold step ws cs v = (if v \<in> set ws then upd (cs v) else cs v)"
  using assms(1) by (induction ws arbitrary: cs) (auto simp: assms(2))

lemma Broadcast_at:
  assumes "registry_ok reg"
  shows "Broadcast s m reg cs w =
    (if w \<in> members reg s \<and> ws_state (cs w) = OPEN then SendText m (cs w) else cs w)"
proof (cases "reg s")
  case (Some l)
  with assms have "distinct l" by (simp add: registry_ok_def)
  then have "fold (send_if_open m) l cs w =
      (if w \<in> set l then if ws_state (cs w) = OPEN then SendText m (cs w) else cs w else cs w)"
    by (rule fold_pointwise) (auto simp: send_if_open_def)
  with Some show ?thesis by (simp add: Broadcast_def members_def)
qed (simp add: Broadcast_def members_def)

lemma CloseAll_at:
  assumes "registry_ok reg" and "CloseAll s code reason reg cs = (reg', cs')"
  shows "registry_ok reg'" and "members reg' = (members reg)(s := {})"
    and "cs' w = (if w \<in> members reg s then CloseWs code reason (cs w) else cs w)"
proof -
  have "reg' = reg(s := None)" using assms(2) by (auto simp: CloseAll_def split: option.splits)
  then show "registry_ok reg'" "members reg' = (members reg)(s := {})"
    using assms(1) by (auto simp: registry_ok_def members_def fun_eq_iff)
  show "cs' w = (if w \<in> members reg s then CloseWs code reason (cs w) else cs w)"
  proof (cases "reg s")
    case (Some l)
    with assms(1) have "distinct l" by (simp add: registry_ok_def)
    from fold_pointwise [OF this, of "\<lambda>ws cs. cs(ws := CloseWs code reason (cs ws))" "CloseWs code reason" cs w]
    show ?thesis using Some assms(2) by (auto simp: CloseAll_def members_def)
  qed (use assms(2) in \<open>auto simp: CloseAll_def members_def\<close>)
qed

section \<open>Counting\<close>

text \<open>
  What Redis documents of its counters: \<open>cnt d key\<close> is the number stored under a key, 0 when there is
  none. \<open>INCR\<close> and \<open>DECR\<close> change it by one and reply the new value, as long as it fits the client's
  \<open>int\<close>; \<open>SET\<close> to 0 makes it 0; publishing and the database do not touch it.
\<close>

definition redis_counters :: "'d backends \<Rightarrow> ('d \<Rightarrow> string \<Rightarrow> int) \<Rightarrow> bool" where
  "redis_counters be cnt \<longleftrightarrow>
     (\<forall>key d. in_int_range 32 (cnt d key + 1) \<longrightarrow>
        (\<exists>d'. api_incr be key d = (Inr (cnt d key + 1), d') \<and> cnt d' = (cnt d)(key := cnt d key + 1))) \<and>
     (\<forall>key d. in_int_range 32 (cnt d key - 1) \<longrightarrow>
        (\<exists>d'. api_decr be key d = (Inr (cnt d key - 1), d') \<and> cnt d' = (cnt d)(key := cnt d key - 1))) \<and>
     (\<forall>key d. cnt (snd (api_set be key ''0'' d)) = (cnt d)(key := 0)) \<and>
     (\<forall>ch m d. cnt (snd (api_publish be ch m d)) = cnt d) \<and>
     (\<forall>s u n m d. cnt (snd (exec_insert_chat be s u n m d)) = cnt d)"

lemma viewers_key_inj [simp]: "viewers_key a = viewers_key b \<longleftrightarrow> a = b"
  by (simp add: viewers_key_def)

lemma broadcast_node_simps [simp]:
  "viewers (broadcast_node s m n) = viewers n" "store (broadcast_node s m n) = store n"
  by (simp_all add: broadcast_node_def)

lemma viewer_join_effect:
  fixes js :: json_texts
  assumes "redis_counters be cnt" and "map_of (req_query_params (ws_request (sockets n w))) ''streamId'' = Some s"
    and "s \<noteq> []" and "in_int_range 32 (cnt (store n) (viewers_key s) + 1)"
  defines "n' \<equiv> snd (viewer_join be js w n)"
  shows "viewer_join be js w n = (Inr (Some s), n')"
    and "viewers n' = AddViewer s w (viewers n)"
    and "cnt (store n') = (cnt (store n))(viewers_key s := cnt (store n) (viewers_key s) + 1)"
    and "sockets n' = Broadcast s (dump_count js (cnt (store n) (viewers_key s) + 1)) (viewers n') (sockets n)"
proof -
  from assms(1,4) obtain d where d: "api_incr be (viewers_key s) (store n) = (Inr (cnt (store n) (viewers_key s) + 1), d)"
    "cnt d = (cnt (store n))(viewers_key s := cnt (store n) (viewers_key s) + 1)"
    unfolding redis_counters_def by blast
  have j: "viewer_join be js w n = (Inr (Some s), broadcast_node s (dump_count js (cnt (store n) (viewers_key s) + 1))
      (n\<lparr>viewers := AddViewer s w (viewers n), store := d\<rparr>))"
    using assms(2,3) d(1) by (simp add: viewer_join_def)
  show "viewer_join be js w n = (Inr (Some s), n')" by (simp add: n'_def j)
  show "viewers n' = AddViewer s w (viewers n)"
    "cnt (store n') = (cnt (store n))(viewers_key s := cnt (store n) (viewers_key s) + 1)"
    "sockets n' = Broadcast s (dump_count js (cnt (store n) (viewers_key s) + 1)) (viewers n') (sockets n)"
    by (simp_all add: n'_def j d(2)) (simp add: broadcast_node_def)
qed

lemma viewer_close_effect:
  fixes js :: json_texts and w :: wid
  assumes "redis_counters be cnt" and "in_int_range 32 (cnt (store n) (viewers_key s) - 1)"
  defines "n' \<equiv> snd (viewer_close be js s w n)"
  shows "viewer_close be js s w n = (None, n')"
    and "viewers n' = RemoveViewer s w (viewers n)"
    and "cnt (store n') = (cnt (store n))(viewers_key s := max 0 (cnt (store n) (viewers_key s) - 1))"
    and "sockets n' = Broadcast s (dump_count js (max 0 (cnt (store n) (viewers_key s) - 1))) (viewers n') (sockets n)"
proof -
  let ?k = "cnt (store n) (viewers_key s) - 1"
  from assms obtain d where d: "api_decr be (viewers_key s) (store n) = (Inr ?k, d)"
    "cnt d = (cnt (store n))(viewers_key s := ?k)"
    unfolding redis_counters_def by blast
  define d' where "d' = (if ?k < 0 then snd (api_set be (viewers_key s) ''0'' d) else d)"
  have "cnt (snd (api_set be (viewers_key s) ''0'' d)) = (cnt d)(viewers_key s := 0)"
    using assms(1) unfolding redis_counters_def by blast
  then have c: "cnt d' = (cnt (store n))(viewers_key s := max 0 ?k)"
    using d(2) by (auto simp: d'_def max_def)
  have j: "viewer_close be js s w n = (None, broadcast_node s (dump_count js (max 0 ?k))
      (n\<lparr>viewers := RemoveViewer s w (viewers n), store := d'\<rparr>))"
    using d(1) by (simp add: viewer_close_def d'_def)
  show "viewer_close be js s w n = (None, n')" by (simp add: n'_def j)
  show "viewers n' = RemoveViewer s w (viewers n)"
    "cnt (store n') = (cnt (store n))(viewers_key s := max 0 ?k)"
    "sockets n' = Broadcast s (dump_count js (max 0 ?k)) (viewers n') (sockets n)"
    by (simp_all add: n'_def j c) (simp add: broadcast_node_def)
qed

lemma viewer_message_counts:
  assumes "redis_counters be cnt"
  shows "viewers (viewer_message be js s u data op n) = viewers n \<and>
    sockets (viewer_message be js s u data op n) = sockets n \<and>
    cnt (store (viewer_message be js s u data op n)) = cnt (store n)"
proof -
  have p: "cnt (snd (api_publish be ch m d)) = cnt d" for ch m d
    using assms unfolding redis_counters_def by blast
  have i: "cnt (snd (exec_insert_chat be a b c e d)) = cnt d" for a b c e d
    using assms unfolding redis_counters_def by blast
  obtain r d where c: "exec_insert_chat be s (int_to_string (au_id u)) (au_username u)
      (snd (the (parse_chat js (string_of data)))) (store n) = (r, d)" by fastforce
  with i [of s "int_to_string (au_id u)" "au_username u" _ "store n"] have "cnt d = cnt (store n)" by (metis snd_conv)
  with c p show ?thesis
    by (auto simp: viewer_message_def ChatInsert_def split: option.splits sum.splits)
qed
section \<open>A node at work\<close>

text \<open>
  The steps of a node: viewers join (a connection joins once), are refused, chat and leave (each one
  that joined closes once); the relay broadcasts; connections read, write and close.
  \<open>watching\<close> lists who is watching what.
\<close>

inductive viewers_reach ::
    "'d backends \<Rightarrow> json_texts \<Rightarrow> ('d \<Rightarrow> string \<Rightarrow> int) \<Rightarrow> 'd node \<Rightarrow> (wid \<times> string) list \<Rightarrow> bool"
  for be js cnt where
  vr_start: "viewers n = (\<lambda>_. None) \<Longrightarrow> (\<And>s. cnt (store n) (viewers_key s) = 0) \<Longrightarrow> viewers_reach be js cnt n []"
| vr_join: "viewers_reach be js cnt n watching \<Longrightarrow> w \<notin> fst ` set watching \<Longrightarrow> length watching < 2 ^ 31 - 1 \<Longrightarrow>
    map_of (req_query_params (ws_request (sockets n w))) ''streamId'' = Some s \<Longrightarrow> s \<noteq> [] \<Longrightarrow>
    viewers_reach be js cnt (snd (viewer_join be js w n)) ((w, s) # watching)"
| vr_refused: "viewers_reach be js cnt n watching \<Longrightarrow>
    map_of (req_query_params (ws_request (sockets n w))) ''streamId'' \<in> {None, Some []} \<Longrightarrow>
    viewers_reach be js cnt (snd (viewer_join be js w n)) watching"
| vr_message: "viewers_reach be js cnt n watching \<Longrightarrow>
    viewers_reach be js cnt (viewer_message be js s user data opcode n) watching"
| vr_leave: "viewers_reach be js cnt n watching \<Longrightarrow> (w, s) \<in> set watching \<Longrightarrow>
    viewers_reach be js cnt (snd (viewer_close be js s w n)) (remove1 (w, s) watching)"
| vr_relay: "viewers_reach be js cnt n watching \<Longrightarrow> viewers_reach be js cnt (relay_message ch m n) watching"
| vr_sockets: "viewers_reach be js cnt n watching \<Longrightarrow> viewers_reach be js cnt (n\<lparr>sockets := cs\<rparr>) watching"

definition counts_ok :: "('d \<Rightarrow> string \<Rightarrow> int) \<Rightarrow> 'd node \<Rightarrow> (wid \<times> string) list \<Rightarrow> bool" where
  "counts_ok cnt n watching \<longleftrightarrow>
     registry_ok (viewers n) \<and> distinct (map fst watching) \<and>
     (\<forall>s. members (viewers n) s = {w. (w, s) \<in> set watching}) \<and>
     (\<forall>s. cnt (store n) (viewers_key s) = int (card {w. (w, s) \<in> set watching})) \<and>
     length watching \<le> 2 ^ 31 - 1"

lemma finite_watching: "finite {w. (w, s) \<in> set watching}"
  by (rule finite_subset [of _ "fst ` set watching"]) force+

lemma card_watching_le: "card {w. (w, s) \<in> set watching} \<le> length watching"
proof -
  have "{w. (w, s) \<in> set watching} \<subseteq> set (map fst watching)" by force
  then have "card {w. (w, s) \<in> set watching} \<le> card (set (map fst watching))" by (rule card_mono [OF finite_set])
  also have "\<dots> \<le> length watching" using card_length [of "map fst watching"] by simp
  finally show ?thesis .
qed

lemma counts_ok_join:
  assumes "redis_counters be cnt" and "counts_ok cnt n watching" and "w \<notin> fst ` set watching"
    and "length watching < 2 ^ 31 - 1"
    and "map_of (req_query_params (ws_request (sockets n w))) ''streamId'' = Some s" and "s \<noteq> []"
  shows "counts_ok cnt (snd (viewer_join be js w n)) ((w, s) # watching) \<and>
    sockets (snd (viewer_join be js w n)) =
      Broadcast s (dump_count js (int (CountViewers s (viewers (snd (viewer_join be js w n))))))
        (viewers (snd (viewer_join be js w n))) (sockets n)"
proof -
  let ?n = "snd (viewer_join be js w n)"
  have c: "cnt (store n) (viewers_key s) = int (card {w. (w, s) \<in> set watching})"
    using assms(2) by (simp add: counts_ok_def)
  then have r: "in_int_range 32 (cnt (store n) (viewers_key s) + 1)"
    using card_watching_le [of s watching] assms(4) by (simp add: in_int_range_def)
  note e = viewer_join_effect [OF assms(1,5,6) r, of js]
  have mem: "members (viewers ?n) t = {v. (v, t) \<in> set ((w, s) # watching)}" for t
    using assms(2) by (auto simp: e(2) members_AddViewer counts_ok_def)
  have ok: "registry_ok (viewers ?n)"
    using assms(2) by (simp add: e(2) registry_ok_AddViewer counts_ok_def)
  have fresh: "w \<notin> {v. (v, s) \<in> set watching}" using assms(3) by force
  have card: "card {v. (v, t) \<in> set ((w, s) # watching)} = card {v. (v, t) \<in> set watching} + (if t = s then 1 else 0)" for t
  proof (cases "t = s")
    case True
    have "{v. (v, t) \<in> set ((w, s) # watching)} = insert w {v. (v, s) \<in> set watching}" using True by auto
    with fresh True finite_watching [of s watching] show ?thesis by simp
  qed (auto intro: arg_cong [where f = card])
  have "cnt (store ?n) (viewers_key t) = int (card {v. (v, t) \<in> set ((w, s) # watching)})" for t
    using assms(2) by (simp only: e(3) card) (simp add: counts_ok_def)
  moreover have "int (CountViewers s (viewers ?n)) = cnt (store n) (viewers_key s) + 1"
    by (simp only: CountViewers_card [OF ok] mem card c) simp
  ultimately show ?thesis
    using assms(2,3,4) ok mem e(4) by (auto simp: counts_ok_def)
qed

lemma counts_ok_leave:
  assumes "redis_counters be cnt" and "counts_ok cnt n watching" and "(w, s) \<in> set watching"
  shows "counts_ok cnt (snd (viewer_close be js s w n)) (remove1 (w, s) watching) \<and>
    sockets (snd (viewer_close be js s w n)) =
      Broadcast s (dump_count js (int (CountViewers s (viewers (snd (viewer_close be js s w n))))))
        (viewers (snd (viewer_close be js s w n))) (sockets n)"
proof -
  let ?n = "snd (viewer_close be js s w n)"
  let ?rest = "remove1 (w, s) watching"
  have d: "distinct (map fst watching)" using assms(2) by (simp add: counts_ok_def)
  then have set: "set ?rest = set watching - {(w, s)}"
    by (simp add: distinct_map set_remove1_eq)
  have c: "cnt (store n) (viewers_key t) = int (card {v. (v, t) \<in> set watching})" for t
    using assms(2) by (simp add: counts_ok_def)
  have r: "in_int_range 32 (cnt (store n) (viewers_key s) - 1)"
    using card_watching_le [of s watching] assms(2) by (simp add: c counts_ok_def in_int_range_def)
  note e = viewer_close_effect [OF assms(1) r, of js w]
  have mem: "members (viewers ?n) t = {v. (v, t) \<in> set ?rest}" for t
    using assms(2) by (auto simp: e(2) members_RemoveViewer counts_ok_def set)
  have ok: "registry_ok (viewers ?n)"
    using assms(2) by (simp add: e(2) registry_ok_RemoveViewer counts_ok_def)
  have pos: "0 < card {v. (v, s) \<in> set watching}"
    using assms(3) finite_watching [of s watching] by (auto simp: card_gt_0_iff)
  have card: "card {v. (v, t) \<in> set ?rest} = card {v. (v, t) \<in> set watching} - (if t = s then 1 else 0)" for t
  proof (cases "t = s")
    case True
    have "{v. (v, t) \<in> set ?rest} = {v. (v, s) \<in> set watching} - {w}" using True by (auto simp: set)
    with assms(3) True show ?thesis by simp
  qed (auto simp: set intro: arg_cong [where f = card])
  have "cnt (store ?n) (viewers_key t) = int (card {v. (v, t) \<in> set ?rest})" for t
    using pos by (simp only: e(3) card) (simp add: c of_nat_diff max_def)
  moreover have "int (CountViewers s (viewers ?n)) = max 0 (cnt (store n) (viewers_key s) - 1)"
    using pos by (simp only: CountViewers_card [OF ok] mem card c) (simp add: of_nat_diff max_def)
  moreover have "distinct (map fst ?rest)" "length ?rest \<le> length watching"
    using d by (auto simp: distinct_map distinct_remove1 inj_on_def set length_remove1)
  ultimately show ?thesis
    using assms(2) ok mem e(4) by (auto simp: counts_ok_def)
qed

lemma viewers_reach_counts_ok:
  "viewers_reach be js cnt n watching \<Longrightarrow> redis_counters be cnt \<Longrightarrow> counts_ok cnt n watching"
proof (induction rule: viewers_reach.induct)
  case (vr_start n)
  then show ?case by (simp add: counts_ok_def registry_ok_empty members_def)
next
  case (vr_join n watching w s)
  then show ?case using counts_ok_join by blast
next
  case (vr_refused n watching w)
  then show ?case by (auto simp: viewer_join_def counts_ok_def)
next
  case (vr_message n watching s user data opcode)
  then show ?case using viewer_message_counts [of be cnt] by (simp add: counts_ok_def)
next
  case (vr_leave n watching w s)
  then show ?case using counts_ok_leave by blast
next
  case (vr_relay n watching ch m)
  then show ?case by (simp add: relay_message_def counts_ok_def)
next
  case (vr_sockets n watching cs)
  then show ?case by (simp add: counts_ok_def)
qed
section \<open>Properties\<close>

text \<open>
  C14: the viewer count is right. On a node whose viewers each close once, after any interleaving of
  joins, refusals, chat, relayed messages, socket activity and leaves, the counter that Redis holds for
  a stream is the number of connections the registry holds for it, which are exactly those that are
  watching; and a viewer that leaves shows the new number to every remaining viewer whose
  connection is open, and to nobody else.
\<close>

theorem viewer_count:
  assumes "redis_counters be cnt" and "viewers_reach be js cnt n watching"
  shows "members (viewers n) s = {w. (w, s) \<in> set watching} \<and>
    cnt (store n) (viewers_key s) = int (CountViewers s (viewers n)) \<and>
    (\<forall>w. (w, s) \<in> set watching \<longrightarrow>
      (let n' = snd (viewer_close be js s w n) in
       CountViewers s (viewers n) = Suc (CountViewers s (viewers n')) \<and>
       (\<forall>v. sockets n' v =
         (if v \<in> members (viewers n') s \<and> ws_state (sockets n v) = OPEN
          then SendText (dump_count js (int (CountViewers s (viewers n')))) (sockets n v) else sockets n v))))"
proof -
  have counts: "members (viewers m) s = {w. (w, s) \<in> set ws}" "registry_ok (viewers m)"
    "cnt (store m) (viewers_key s) = int (CountViewers s (viewers m))"
    if "counts_ok cnt m ws" for m :: "'a node" and ws
    using that CountViewers_card [of "viewers m" s] by (simp_all add: counts_ok_def)
  have ok: "counts_ok cnt n watching" by (rule viewers_reach_counts_ok [OF assms(2,1)])
  have "CountViewers s (viewers n) = Suc (CountViewers s (viewers (snd (viewer_close be js s w n)))) \<and>
      (\<forall>v. sockets (snd (viewer_close be js s w n)) v =
        (if v \<in> members (viewers (snd (viewer_close be js s w n))) s \<and> ws_state (sockets n v) = OPEN
         then SendText (dump_count js (int (CountViewers s (viewers (snd (viewer_close be js s w n)))))) (sockets n v)
         else sockets n v))" if w: "(w, s) \<in> set watching" for w
  proof -
    let ?n = "snd (viewer_close be js s w n)"
    have l: "counts_ok cnt ?n (remove1 (w, s) watching)"
      "sockets ?n = Broadcast s (dump_count js (int (CountViewers s (viewers ?n)))) (viewers ?n) (sockets n)"
      using counts_ok_leave [OF assms(1) ok w] by auto
    have "distinct watching" using ok by (auto simp: counts_ok_def distinct_map)
    then have "members (viewers n) s = insert w (members (viewers ?n) s)" "w \<notin> members (viewers ?n) s"
      using counts(1) [OF ok] counts(1) [OF l(1)] w by auto
    then have "CountViewers s (viewers n) = Suc (CountViewers s (viewers ?n))"
      using counts(1,2) [OF ok] counts(1,2) [OF l(1)] finite_watching [of s "remove1 (w, s) watching"]
      by (simp add: CountViewers_card)
    then show ?thesis using l(2) Broadcast_at [OF counts(2) [OF l(1)]] by simp
  qed
  with counts [OF ok] show ?thesis by (simp add: Let_def)
qed

text \<open>
  A stream's end reaches its viewers. Cleaning up a channel takes all its viewers out of the
  registry, queues the close frame 1001 on exactly those of their connections that are open, leaves every
  other connection and channel alone, and sets the counter to 0.
\<close>

theorem stream_cleanup:
  assumes "redis_counters be cnt" and "registry_ok (viewers n)"
  shows "let n' = CleanupStream be s n in
    members (viewers n') = (members (viewers n))(s := {}) \<and> registry_ok (viewers n') \<and>
    cnt (store n') = (cnt (store n))(viewers_key s := 0) \<and>
    (\<forall>w. sockets n' w =
      (if w \<in> members (viewers n) s \<and> ws_state (sockets n w) = OPEN
       then QueueFrame (close_frame 1001 ''Stream ended'') ((sockets n w)\<lparr>ws_state := CLOSING\<rparr>)
       else sockets n w))"
proof -
  obtain reg cs where c: "CloseAll s 1001 ''Stream ended'' (viewers n) (sockets n) = (reg, cs)" by fastforce
  have "cnt (snd (api_set be (viewers_key s) ''0'' (store n))) = (cnt (store n))(viewers_key s := 0)"
    using assms(1) unfolding redis_counters_def by blast
  with c CloseAll_at [OF assms(2) c] show ?thesis by (simp add: CleanupStream_def CloseWs_def)
qed

text \<open>
  C13: chat reaches every viewer of the stream, on every node. A viewer's chat text of 1 to 500 bytes is
  stored and what the database returned is published under the stream's channel. On any node whose relay
  connection carries that publication, the relay queues exactly that text, once, on exactly the open
  connections that watch the stream.
\<close>

theorem chat_delivery:
  assumes "parse_chat js (string_of data) = Some (''chat'', txt)" and "txt \<noteq> []" and "length txt \<le> 500"
    and "exec_insert_chat be s (int_to_string (au_id user)) (au_username user) txt (store n) = (Inr saved, d)"
    and "dump_chat js saved = Inr sent"
    and "registry_ok (viewers m)" and "s \<noteq> []"
    and "redis_open c" and "list_all (\<lambda>k. 0 < k) (redis_sends c)"
    and "length (encode_command [''PSUBSCRIBE'', ''chat:*'']) \<le> length (redis_sends c)"
    and "feeds (redis_in c) (psub_confirmation ''chat:*'' k @
      pmessage_text (''chat:*'', ''chat:'' @ s, sent))"
    and "in_int_range 32 k" and "length s < 2 ^ 30" and "length sent < 2 ^ 31"
  shows "store (viewer_message be js s user data TEXT n) =
      snd (api_publish be (''chat:'' @ s) sent d) \<and>
    (\<exists>c'. relay_thread c m = (None, c', m\<lparr>sockets := (\<lambda>w.
      if w \<in> members (viewers m) s \<and> ws_state (sockets m w) = OPEN
      then SendText sent (sockets m w) else sockets m w)\<rparr>))"
proof
  show "store (viewer_message be js s user data TEXT n) = snd (api_publish be (''chat:'' @ s) sent d)"
    using assms(1-5) by (simp add: viewer_message_def ChatInsert_def)
  let ?msgs = "[(''chat:*'', ''chat:'' @ s, sent)]"
  have "list_all pmessage_ok ?msgs" using assms(13,14) by (simp add: pmessage_ok_def)
  with psubscribe_messages [OF assms(8-10), of k ?msgs "relay_message" m] assms(11,12)
  obtain c' where "relay_thread c m = (None, c', relay_message (''chat:'' @ s) sent m)"
    by (auto simp: relay_thread_def)
  moreover have "relay_message (''chat:'' @ s) sent m = m\<lparr>sockets := (\<lambda>w.
      if w \<in> members (viewers m) s \<and> ws_state (sockets m w) = OPEN
      then SendText sent (sockets m w) else sockets m w)\<rparr>"
    using assms(7) Broadcast_at [OF assms(6), of s "sent" "sockets m"]
    by (auto simp: relay_message_def broadcast_node_def fun_eq_iff intro!: arg_cong [where f = "\<lambda>x. m\<lparr>sockets := x\<rparr>"])
  ultimately show "\<exists>c'. relay_thread c m = (None, c', m\<lparr>sockets := (\<lambda>w.
      if w \<in> members (viewers m) s \<and> ws_state (sockets m w) = OPEN
      then SendText sent (sockets m w) else sockets m w)\<rparr>)" by auto
qed
lemma handle_close_viewer:
  assumes "redis_counters be cnt" and "ws_opcode f = CLOSE"
    and "in_int_range 32 (cnt (store n) (viewers_key s) - 1)"
  shows "\<exists>c' n'. handle_frame (viewer_callbacks be js s user w) f (c, n) = ((c', n'), None) \<and>
    viewers n' = RemoveViewer s w (viewers n) \<and>
    cnt (store n') (viewers_key s) = max 0 (cnt (store n) (viewers_key s) - 1)"
proof -
  let ?c = "(if ws_state c = OPEN then CloseWs (close_code (ws_payload f)) (close_reason (ws_payload f)) c else c)
    \<lparr>ws_state := CLOSED\<rparr>"
  let ?n = "n\<lparr>sockets := (sockets n)(w := ?c)\<rparr>"
  have r: "in_int_range 32 (cnt (store ?n) (viewers_key s) - 1)" using assms(3) by simp
  note e = viewer_close_effect [OF assms(1) r, of js w]
  define n' where "n' = snd (viewer_close be js s w ?n)"
  have "viewer_close be js s w ?n = (None, n')" using e(1) by (simp add: n'_def)
  then have "handle_frame (viewer_callbacks be js s user w) f (c, n) = ((sockets n' w, n'), None)"
    using assms(2) by (simp add: handle_frame_def viewer_callbacks_def Let_def split del: if_split)
  with e(2,3) show ?thesis by (simp add: n'_def)
qed

text \<open>
  Where the viewer count drifts. A connection whose peer goes away without a close frame runs no
  callback: it stays in the registry and in the count. A client that sends two close frames is
  taken out once but counted out twice, so the count shown falls below the number of viewers.
\<close>

theorem viewer_count_drift:
  assumes "redis_counters be cnt" and "viewers_reach be js cnt n watching" and "(w, s) \<in> set watching"
    and "ws_opcode f = CLOSE" and "2 \<le> CountViewers s (viewers n)"
  shows "WsOnReadable (viewer_callbacks be js s user w) [WsPeerClosed] buf (c, n) =
      (buf, (c\<lparr>ws_state := CLOSED\<rparr>, n), None) \<and>
    (\<exists>c' n'. run_frames (viewer_callbacks be js s user w) [f, f] (c, n) = ((c', n'), None) \<and>
      CountViewers s (viewers n') = CountViewers s (viewers n) - 1 \<and>
      cnt (store n') (viewers_key s) = int (CountViewers s (viewers n)) - 2)"
proof
  show "WsOnReadable (viewer_callbacks be js s user w) [WsPeerClosed] buf (c, n) = (buf, (c\<lparr>ws_state := CLOSED\<rparr>, n), None)"
    by (simp add: WsOnReadable_def)
  have ok: "counts_ok cnt n watching" by (rule viewers_reach_counts_ok [OF assms(2,1)])
  then have reg: "registry_ok (viewers n)" and mem: "w \<in> members (viewers n) s"
    and cnt: "cnt (store n) (viewers_key s) = int (CountViewers s (viewers n))"
    and le: "cnt (store n) (viewers_key s) \<le> 2 ^ 31 - 1"
    using assms(3) card_watching_le [of s watching] CountViewers_card [of "viewers n" s]
    by (simp_all add: counts_ok_def)
  have r: "in_int_range 32 (cnt (store n) (viewers_key s) - 1)"
    using le assms(5) by (simp add: cnt in_int_range_def)
  from handle_close_viewer [OF assms(1,4) r, of js user w c] obtain c1 n1
    where s1: "handle_frame (viewer_callbacks be js s user w) f (c, n) = ((c1, n1), None)"
      "viewers n1 = RemoveViewer s w (viewers n)" "cnt (store n1) (viewers_key s) = cnt (store n) (viewers_key s) - 1"
    using assms(5) by (auto simp: cnt max_def)
  have "in_int_range 32 (cnt (store n1) (viewers_key s) - 1)"
    using le assms(5) by (simp add: s1(3) cnt in_int_range_def)
  from handle_close_viewer [OF assms(1,4) this, of js user w c1] obtain c2 n2
    where s2: "handle_frame (viewer_callbacks be js s user w) f (c1, n1) = ((c2, n2), None)"
      "viewers n2 = RemoveViewer s w (viewers n1)" "cnt (store n2) (viewers_key s) = cnt (store n) (viewers_key s) - 2"
    using assms(5) by (auto simp: cnt s1(3) max_def)
  have "registry_ok (viewers n2)" "members (viewers n2) s = members (viewers n) s - {w}"
    using reg by (auto simp: s1(2) s2(2) registry_ok_RemoveViewer members_RemoveViewer)
  then have "CountViewers s (viewers n2) = CountViewers s (viewers n) - 1"
    using reg mem by (simp add: CountViewers_card)
  with s1(1) s2(1,3) cnt show "\<exists>c' n'. run_frames (viewer_callbacks be js s user w) [f, f] (c, n) = ((c', n'), None) \<and>
      CountViewers s (viewers n') = CountViewers s (viewers n) - 1 \<and>
      cnt (store n') (viewers_key s) = int (CountViewers s (viewers n)) - 2" by simp
qed

section \<open>Witnesses\<close>

text \<open>Counters in memory, a chat table that only numbers its messages, and readable texts.\<close>

definition memory_backends :: "(string \<Rightarrow> int) backends" where
  "memory_backends = \<lparr>
     exec_insert_chat = (\<lambda>s u name m d. (Inr \<lparr>chat_id = 1, chat_stream_id = s, chat_user_id = 7,
       chat_username = name, chat_message = m, chat_created_at = ''now''\<rparr>, d)),
     exec_select_chat = (\<lambda>s limit d. Inr []),
     api_incr = (\<lambda>key d. (Inr (d key + 1), d(key := d key + 1))),
     api_decr = (\<lambda>key d. (Inr (d key - 1), d(key := d key - 1))),
     api_set = (\<lambda>key v d. (True, d(key := 0))),
     api_publish = (\<lambda>ch m d. (Inr 1, d))\<rparr>"

definition plain_texts :: json_texts where
  "plain_texts = \<lparr>dump_count = int_to_string, dump_chat = (\<lambda>m. Inr (chat_message m)), dump_history = (\<lambda>_. Inr []),
     parse_chat = (\<lambda>raw. Some (''chat'', raw))\<rparr>"

definition watcher :: ws_conn where
  "watcher = new_ws (empty_request\<lparr>req_query_params := [(''streamId'', ''ann'')]\<rparr>)"

definition idle_node :: "(string \<Rightarrow> int) node" where
  "idle_node = \<lparr>viewers = (\<lambda>_. None), sockets = (\<lambda>_. watcher), store = (\<lambda>_. 0)\<rparr>"

lemma redis_counters_memory: "redis_counters memory_backends (\<lambda>d. d)"
  by (simp add: redis_counters_def memory_backends_def)

definition two_viewers :: "(string \<Rightarrow> int) node" where
  "two_viewers = snd (viewer_join memory_backends plain_texts 2 (snd (viewer_join memory_backends plain_texts 1 idle_node)))"

lemma two_viewers_simps:
  "viewers two_viewers ''ann'' = Some [2, 1]" "ws_state (sockets two_viewers w) = OPEN"
  by (auto simp: two_viewers_def viewer_join_def idle_node_def watcher_def new_ws_def memory_backends_def
    plain_texts_def broadcast_node_def Broadcast_def AddViewer_def send_if_open_def SendText_def QueueFrame_def)

lemma two_viewers_reach:
  "viewers_reach memory_backends plain_texts (\<lambda>d. d) two_viewers [(2, ''ann''), (1, ''ann'')]"
proof -
  have 0: "viewers_reach memory_backends plain_texts (\<lambda>d. d) idle_node []"
    by (rule vr_start) (simp_all add: idle_node_def)
  have 1: "viewers_reach memory_backends plain_texts (\<lambda>d. d) (snd (viewer_join memory_backends plain_texts 1 idle_node))
      [(1, ''ann'')]"
    by (rule vr_join [OF 0]) (simp_all add: idle_node_def watcher_def new_ws_def)
  show ?thesis
    unfolding two_viewers_def
    by (rule vr_join [OF 1]) (auto simp: viewer_join_def idle_node_def watcher_def new_ws_def memory_backends_def
      plain_texts_def broadcast_node_def Broadcast_def AddViewer_def send_if_open_def SendText_def QueueFrame_def)
qed

theorem viewer_count_witness:
  "store two_viewers (viewers_key ''ann'') = 2 \<and>
   CountViewers ''ann'' (viewers (snd (viewer_close memory_backends plain_texts ''ann'' 1 two_viewers))) = 1"
proof -
  have two: "CountViewers ''ann'' (viewers two_viewers) = 2" by (simp add: CountViewers_def two_viewers_simps)
  have one: "(1, ''ann'') \<in> set [(2 :: wid, ''ann''), (1, ''ann'')]" by simp
  note v = viewer_count [OF redis_counters_memory two_viewers_reach, of "''ann''", unfolded Let_def two]
  from v one have "2 = Suc (CountViewers ''ann''
      (viewers (snd (viewer_close memory_backends plain_texts ''ann'' 1 two_viewers))))" by blast
  moreover from v have "store two_viewers (viewers_key ''ann'') = 2" by simp
  ultimately show ?thesis by simp
qed

theorem stream_cleanup_witness:
  "store (CleanupStream memory_backends ''ann'' two_viewers) (viewers_key ''ann'') = 0 \<and>
   sockets (CleanupStream memory_backends ''ann'' two_viewers) 1 =
     QueueFrame (close_frame 1001 ''Stream ended'') ((sockets two_viewers 1)\<lparr>ws_state := CLOSING\<rparr>)"
proof -
  have "registry_ok (viewers two_viewers)"
    using viewers_reach_counts_ok [OF two_viewers_reach redis_counters_memory] by (simp add: counts_ok_def)
  from stream_cleanup [OF redis_counters_memory this, of "''ann''"] show ?thesis
    by (auto simp: Let_def members_def two_viewers_simps)
qed

theorem chat_delivery_witness:
  "\<exists>c' m. relay_thread (demo_redis [psub_confirmation ''chat:*'' 1, pmessage_text (''chat:*'', ''chat:ann'', ''hi'')])
      two_viewers = (None, c', m) \<and> sockets m 1 = SendText ''hi'' (sockets two_viewers 1)"
proof -
  let ?c = "demo_redis [psub_confirmation ''chat:*'' 1, pmessage_text (''chat:*'', ''chat:ann'', ''hi'')]"
  have c: "redis_open ?c" "list_all (\<lambda>k. 0 < k) (redis_sends ?c)"
    "length (encode_command [''PSUBSCRIBE'', ''chat:*'']) \<le> length (redis_sends ?c)"
    "feeds (redis_in ?c) (psub_confirmation ''chat:*'' 1 @ pmessage_text (''chat:*'', ''chat:ann'', ''hi''))"
    by code_simp+
  let ?saved = "\<lparr>chat_id = 1, chat_stream_id = ''ann'', chat_user_id = 7, chat_username = ''bob'',
    chat_message = ''hi'', chat_created_at = ''now''\<rparr>"
  have p: "parse_chat plain_texts (string_of (bytes_of ''hi'')) = Some (''chat'', ''hi'')"
    "exec_insert_chat memory_backends ''ann'' (int_to_string (au_id \<lparr>au_id = 7, au_username = ''bob''\<rparr>))
      (au_username \<lparr>au_id = 7, au_username = ''bob''\<rparr>) ''hi'' (store idle_node) = (Inr ?saved, store idle_node)"
    "dump_chat plain_texts ?saved = Inr ''hi''"
    by (simp_all add: plain_texts_def memory_backends_def del: map_map)
  have ok: "registry_ok (viewers two_viewers)"
    using viewers_reach_counts_ok [OF two_viewers_reach redis_counters_memory] by (simp add: counts_ok_def)
  from chat_delivery [OF p(1) _ _ p(2,3) ok _ c(1-3), of 1] c(4) show ?thesis
    by (auto simp: in_int_range_def members_def two_viewers_simps)
qed

theorem viewer_count_drift_witness:
  "\<exists>c' n'. run_frames (viewer_callbacks memory_backends plain_texts ''ann'' \<lparr>au_id = 7, au_username = ''bob''\<rparr> 1)
      [mk_frame CLOSE [], mk_frame CLOSE []] (watcher, two_viewers) = ((c', n'), None) \<and>
    CountViewers ''ann'' (viewers n') = 1 \<and> store n' (viewers_key ''ann'') = 0"
  using viewer_count_drift [OF redis_counters_memory two_viewers_reach, of 1 "''ann''" "mk_frame CLOSE []"
      "\<lparr>au_id = 7, au_username = ''bob''\<rparr>" "[]" watcher]
  by (auto simp: mk_frame_def CountViewers_def two_viewers_simps)

end
