(* ===== verification/Base64.thy ===== *)
theory Base64
  imports Prelude
begin

text \<open>
  Base64 as the sources write it three times: \<open>ws_crypto::Base64Encode\<close> (padded, for the
  WebSocket handshake), \<open>jwt::Base64URLEncode\<close> and \<open>jwt::Base64URLDecode\<close> (unpadded, for
  tokens). The encoders pack three bytes into a \<open>uint32_t\<close> and read four six-bit
  groups from it; the decoder goes through a table of 128 \<open>int\<close>s indexed by the character.
\<close>

section \<open>Encoding\<close>

definition b64_table :: string where
  "b64_table = ''ABCDEFGHIJKLMNOPQRSTUVWXYZabcdefghijklmnopqrstuvwxyz0123456789+/''"

definition b64_sym :: "u32 \<Rightarrow> char" where
  "b64_sym n = b64_table ! unat (n AND 0x3F)"

text \<open>The \<open>uint32_t\<close> built from the bytes at \<open>i\<close>, \<open>i + 1\<close>, \<open>i + 2\<close>; a byte past
  the end contributes nothing.\<close>

definition pack1 :: "byte \<Rightarrow> u32" where
  "pack1 a = push_bit 16 (ucast a)"

definition pack2 :: "byte \<Rightarrow> byte \<Rightarrow> u32" where
  "pack2 a b = pack1 a OR push_bit 8 (ucast b)"

definition pack3 :: "byte \<Rightarrow> byte \<Rightarrow> byte \<Rightarrow> u32" where
  "pack3 a b c = pack2 a b OR ucast c"

fun Base64Encode :: "byte list \<Rightarrow> string" where
  "Base64Encode [] = []"
| "Base64Encode [a] =
     (let n = pack1 a in [b64_sym (drop_bit 18 n), b64_sym (drop_bit 12 n), CHR ''='', CHR ''=''])"
| "Base64Encode [a, b] =
     (let n = pack2 a b in
      [b64_sym (drop_bit 18 n), b64_sym (drop_bit 12 n), b64_sym (drop_bit 6 n), CHR ''=''])"
| "Base64Encode (a # b # c # data) =
     (let n = pack3 a b c in
      b64_sym (drop_bit 18 n) # b64_sym (drop_bit 12 n) # b64_sym (drop_bit 6 n) # b64_sym n
        # Base64Encode data)"

text \<open>The packing loop of \<open>Base64URLEncode\<close>, before \<open>+\<close> and \<open>/\<close> are replaced.\<close>

fun b64url_groups :: "byte list \<Rightarrow> string" where
  "b64url_groups [] = []"
| "b64url_groups [a] =
     (let n = pack1 a in [b64_sym (drop_bit 18 n), b64_sym (drop_bit 12 n)])"
| "b64url_groups [a, b] =
     (let n = pack2 a b in [b64_sym (drop_bit 18 n), b64_sym (drop_bit 12 n), b64_sym (drop_bit 6 n)])"
| "b64url_groups (a # b # c # data) =
     (let n = pack3 a b c in
      b64_sym (drop_bit 18 n) # b64_sym (drop_bit 12 n) # b64_sym (drop_bit 6 n) # b64_sym n
        # b64url_groups data)"

definition to_url_char :: "char \<Rightarrow> char" where
  "to_url_char c = (if c = CHR ''+'' then CHR ''-'' else if c = CHR ''/'' then CHR ''_'' else c)"

definition Base64URLEncode :: "byte list \<Rightarrow> string" where
  "Base64URLEncode data = map to_url_char (b64url_groups data)"

section \<open>Decoding\<close>

definition from_url_char :: "char \<Rightarrow> char" where
  "from_url_char c = (if c = CHR ''-'' then CHR ''+'' else if c = CHR ''_'' then CHR ''/'' else c)"

definition b64_lookup_table :: "int list" where
  "b64_lookup_table =
    [-1,-1,-1,-1,-1,-1,-1,-1,-1,-1,-1,-1,-1,-1,-1,-1,
     -1,-1,-1,-1,-1,-1,-1,-1,-1,-1,-1,-1,-1,-1,-1,-1,
     -1,-1,-1,-1,-1,-1,-1,-1,-1,-1,-1,62,-1,-1,-1,63,
     52,53,54,55,56,57,58,59,60,61,-1,-1,-1, 0,-1,-1,
     -1, 0, 1, 2, 3, 4, 5, 6, 7, 8, 9,10,11,12,13,14,
     15,16,17,18,19,20,21,22,23,24,25,-1,-1,-1,-1,-1,
     -1,26,27,28,29,30,31,32,33,34,35,36,37,38,39,40,
     41,42,43,44,45,46,47,48,49,50,51,-1,-1,-1,-1,-1]"

text \<open>
  \<open>lookup[(int)c]\<close>. A \<open>char\<close> from 128 on is negative as a signed index and reads outside
  the table: undefined behaviour, \<^const>\<open>None\<close> here.
\<close>

definition b64_lookup :: "char \<Rightarrow> u32 option" where
  "b64_lookup c =
     (let i = (of_char c :: nat) in
      if i < 128 then Some (word_of_int (b64_lookup_table ! i)) else None)"

text \<open>One round of the decoding loop on four characters.\<close>

definition b64_quad :: "char \<Rightarrow> char \<Rightarrow> char \<Rightarrow> char \<Rightarrow> string option" where
  "b64_quad p q r s =
     (case (b64_lookup p, b64_lookup q, b64_lookup r, b64_lookup s) of
        (Some w, Some x, Some y, Some z) \<Rightarrow>
          let n = push_bit 18 w OR push_bit 12 x OR push_bit 6 y OR z in
          Some (char_of_byte (ucast (drop_bit 16 n))
            # (if r \<noteq> CHR ''='' then [char_of_byte (ucast (drop_bit 8 n))] else [])
            @ (if s \<noteq> CHR ''='' then [char_of_byte (ucast n)] else []))
      | _ \<Rightarrow> None)"

fun b64_quads :: "string \<Rightarrow> string option" where
  "b64_quads (p # q # r # s # cs) =
     (case b64_quad p q r s of None \<Rightarrow> None
      | Some out \<Rightarrow> map_option ((@) out) (b64_quads cs))"
| "b64_quads _ = Some []"

definition b64_pad :: "string \<Rightarrow> string" where
  "b64_pad s = s @ replicate ((4 - length s mod 4) mod 4) CHR ''=''"

definition Base64URLDecode :: "string \<Rightarrow> string option" where
  "Base64URLDecode input = b64_quads (b64_pad (map from_url_char input))"

section \<open>Symbols\<close>

lemma length_b64_table [simp]: "length b64_table = 64"
  by (simp add: b64_table_def)

lemma and_63_less: "unat (n AND 0x3F :: u32) < 64"
proof -
  have "n AND 0x3F \<le> (0x3F :: u32)" by (rule word_and_le1)
  then have "unat (n AND 0x3F) \<le> unat (0x3F :: u32)" by (rule word_le_nat_alt [THEN iffD1])
  then show ?thesis by simp
qed

lemma b64_table_values:
  "map (\<lambda>c. b64_lookup_table ! of_char c) b64_table = map int [0..<64]"
  by (simp add: b64_table_def b64_lookup_table_def upt_rec)

lemma b64_table_ascii: "list_all (\<lambda>c. of_char c < (128 :: nat)) b64_table"
  by (simp add: b64_table_def)

lemma b64_table_chars:
  "list_all (\<lambda>c. c \<noteq> CHR ''='' \<and> c \<noteq> CHR ''-'' \<and> c \<noteq> CHR ''_'' \<and> c \<noteq> CHR ''.'' \<and> c \<noteq> CHR '';'') b64_table"
  by (simp add: b64_table_def)

lemma b64_table_lookup:
  assumes "k < 64"
  shows "b64_lookup (b64_table ! k) = Some (word_of_nat k)"
proof -
  have "map (\<lambda>c. b64_lookup_table ! of_char c) b64_table ! k = map int [0..<64] ! k"
    by (simp only: b64_table_values)
  with assms have "b64_lookup_table ! of_char (b64_table ! k) = int k" by simp
  moreover have "of_char (b64_table ! k) < (128 :: nat)"
    using b64_table_ascii assms by (simp add: list_all_length)
  ultimately show ?thesis by (simp add: b64_lookup_def)
qed

lemma b64_lookup_sym [simp]: "b64_lookup (b64_sym n) = Some (n AND 0x3F)"
  using b64_table_lookup [OF and_63_less [of n]] by (simp add: b64_sym_def)

lemma b64_sym_not [simp]:
  "b64_sym n \<noteq> CHR ''=''" "b64_sym n \<noteq> CHR ''-''" "b64_sym n \<noteq> CHR ''_''"
  "b64_sym n \<noteq> CHR ''.''" "b64_sym n \<noteq> CHR '';''"
  using b64_table_chars and_63_less [of n] by (auto simp: list_all_length b64_sym_def)

lemma b64_lookup_eq [simp]: "b64_lookup CHR ''='' = Some 0"
  by (simp add: b64_lookup_def b64_lookup_table_def)

lemma from_url_to_url [simp]: "c \<noteq> CHR ''-'' \<Longrightarrow> c \<noteq> CHR ''_'' \<Longrightarrow> from_url_char (to_url_char c) = c"
  by (simp add: to_url_char_def from_url_char_def)

section \<open>Four symbols carry three bytes\<close>

lemma and_63: "(n :: u32) AND 0x3F = take_bit 6 n"
  by (simp add: take_bit_eq_mask mask_numeral)

lemmas pack_defs = pack1_def pack2_def pack3_def

lemma quad_join:
  fixes n :: u32
  assumes "take_bit 24 n = n"
  shows "push_bit 18 (take_bit 6 (drop_bit 18 n)) OR push_bit 12 (take_bit 6 (drop_bit 12 n))
    OR push_bit 6 (take_bit 6 (drop_bit 6 n)) OR take_bit 6 n = n"
proof (rule bit_word_eqI)
  fix i
  assume "i < LENGTH(32)"
  have n: "\<not> bit n i" if "24 \<le> i" using assms that by (metis bit_take_bit_iff not_less)
  consider "i < 6" | "6 \<le> i \<and> i < 12" | "12 \<le> i \<and> i < 18" | "18 \<le> i \<and> i < 24" | "24 \<le> i"
    by linarith
  then show "bit (push_bit 18 (take_bit 6 (drop_bit 18 n)) OR push_bit 12 (take_bit 6 (drop_bit 12 n))
    OR push_bit 6 (take_bit 6 (drop_bit 6 n)) OR take_bit 6 n) i = bit n i"
    using \<open>i < LENGTH(32)\<close> n by cases (auto simp: bit_simps)
qed

lemma byte_bit_less: "bit (a :: byte) i \<Longrightarrow> i < 8"
  using bit_imp_le_length [of a i] by auto

lemma byte_bit_high: "8 \<le> i \<Longrightarrow> \<not> bit (a :: byte) i"
  using bit_imp_le_length [of a i] by auto

lemma pack_24 [simp]:
  "take_bit 24 (pack1 a) = pack1 a" "take_bit 24 (pack2 a b) = pack2 a b"
  "take_bit 24 (pack3 a b c) = pack3 a b c"
  by (rule bit_word_eqI; force simp: pack_defs bit_simps dest: byte_bit_less)+

lemma pack_low [simp]:
  "take_bit 6 (pack1 a) = 0" "take_bit 6 (drop_bit 6 (pack1 a)) = 0" "take_bit 6 (pack2 a b) = 0"
  by (rule bit_word_eqI; auto simp: pack_defs bit_simps byte_bit_high)+

lemma pack_bytes [simp]:
  "ucast (drop_bit 16 (pack1 a)) = a" "ucast (drop_bit 16 (pack2 a b)) = a"
  "ucast (drop_bit 8 (pack2 a b)) = b" "ucast (drop_bit 16 (pack3 a b c)) = a"
  "ucast (drop_bit 8 (pack3 a b c)) = b" "ucast (pack3 a b c) = c"
  by (rule bit_word_eqI; auto simp: pack_defs bit_simps byte_bit_high)+

lemma b64_quad3 [simp]:
  "b64_quad (b64_sym (drop_bit 18 n)) (b64_sym (drop_bit 12 n)) (b64_sym (drop_bit 6 n)) (b64_sym n) =
     Some (string_of [a, b, c])" if "n = pack3 a b c"
  using quad_join [of n] that by (simp add: b64_quad_def and_63 Let_def)

lemma b64_quad2 [simp]:
  "b64_quad (b64_sym (drop_bit 18 n)) (b64_sym (drop_bit 12 n)) (b64_sym (drop_bit 6 n)) CHR ''='' =
     Some (string_of [a, b])" if "n = pack2 a b"
  using quad_join [of n] that by (simp add: b64_quad_def and_63 Let_def)

lemma b64_quad1 [simp]:
  "b64_quad (b64_sym (drop_bit 18 n)) (b64_sym (drop_bit 12 n)) CHR ''='' CHR ''='' =
     Some (string_of [a])" if "n = pack1 a"
  using quad_join [of n] that by (simp add: b64_quad_def and_63 Let_def)

section \<open>Round trips\<close>

lemma b64_quads_Base64Encode: "b64_quads (Base64Encode data) = Some (string_of data)"
  by (induction data rule: Base64Encode.induct) (simp_all add: Let_def)

lemma length_Base64Encode: "length (Base64Encode data) = 4 * ((length data + 2) div 3)"
proof (induction data rule: Base64Encode.induct)
  case (4 a b c data)
  have "(length (a # b # c # data) + 2) div 3 = Suc ((length data + 2) div 3)" by simp
  with 4 show ?case by (simp add: Let_def)
qed (simp_all add: Let_def)

lemma b64_pad_append4: "length xs = 4 \<Longrightarrow> b64_pad (xs @ ys) = xs @ b64_pad ys"
  by (simp add: b64_pad_def)

lemma b64_pad_groups: "b64_pad (b64url_groups data) = Base64Encode data"
proof (induction data rule: Base64Encode.induct)
  case (4 a b c data)
  then show ?case
    using b64_pad_append4 [of "take 4 (b64url_groups (a # b # c # data))" "b64url_groups data"]
    by (simp add: Let_def)
qed (simp_all add: b64_pad_def Let_def numeral_2_eq_2)

lemma b64url_groups_chars:
  "c \<in> set (b64url_groups data) \<Longrightarrow> c \<noteq> CHR ''-'' \<and> c \<noteq> CHR ''_'' \<and> c \<noteq> CHR ''='' \<and> c \<noteq> CHR ''.'' \<and> c \<noteq> CHR '';''"
  by (induction data rule: b64url_groups.induct) (auto simp: Let_def)

lemma from_url_groups: "map from_url_char (Base64URLEncode data) = b64url_groups data"
proof -
  have "map (from_url_char \<circ> to_url_char) (b64url_groups data) = map (\<lambda>c. c) (b64url_groups data)"
    by (rule map_cong) (auto dest: b64url_groups_chars)
  then show ?thesis by (simp add: Base64URLEncode_def)
qed

lemma Base64URLDecode_Encode: "Base64URLDecode (Base64URLEncode data) = Some (string_of data)"
  by (simp add: Base64URLDecode_def from_url_groups b64_pad_groups b64_quads_Base64Encode)

lemma Base64URLEncode_chars:
  assumes "c \<in> set (Base64URLEncode data)"
  shows "c \<noteq> CHR ''.'' \<and> c \<noteq> CHR '';'' \<and> c \<noteq> CHR ''='' \<and> c \<noteq> CHR ''+'' \<and> c \<noteq> CHR ''/''"
  using assms b64url_groups_chars by (auto simp: Base64URLEncode_def to_url_char_def)

lemma length_Base64URLEncode: "length (Base64URLEncode data) = (4 * length data + 2) div 3"
proof -
  have "length (b64url_groups data) = (4 * length data + 2) div 3"
    by (induction data rule: b64url_groups.induct) (simp_all add: Let_def)
  then show ?thesis by (simp add: Base64URLEncode_def)
qed

text \<open>The padded encoding is a string the URL decoder accepts as well.\<close>

lemma Base64Encode_chars: "c \<in> set (Base64Encode data) \<Longrightarrow> c \<noteq> CHR ''-'' \<and> c \<noteq> CHR ''_''"
  by (induction data rule: Base64Encode.induct) (auto simp: Let_def)

lemma Base64URLDecode_Base64Encode: "Base64URLDecode (Base64Encode data) = Some (string_of data)"
proof -
  have "map from_url_char (Base64Encode data) = map (\<lambda>c. c) (Base64Encode data)"
    by (rule map_cong) (auto dest: Base64Encode_chars simp: from_url_char_def)
  moreover have "b64_pad (Base64Encode data) = Base64Encode data"
    by (simp add: b64_pad_def length_Base64Encode)
  ultimately show ?thesis by (simp add: Base64URLDecode_def b64_quads_Base64Encode)
qed

lemma b64_sym_alphabet: "b64_sym n \<in> set b64_table"
  using and_63_less [of n] by (simp add: b64_sym_def)

lemma b64url_groups_alphabet: "c \<in> set (b64url_groups data) \<Longrightarrow> c \<in> set b64_table"
  by (induction data rule: b64url_groups.induct) (auto simp: Let_def b64_sym_alphabet)

lemma b64_table_class: "list_all (\<lambda>c. is_alnum c \<or> c = CHR ''+'' \<or> c = CHR ''/'') b64_table"
  by (simp add: b64_table_def is_alnum_def is_digit_def is_upper_def is_lower_def)

section \<open>Property\<close>

text \<open>
  The Base64 coders are lossless. Decoding what either encoder wrote gives back every byte, for
  every length, and never reads outside the 128-entry lookup table; the URL encoding has no padding, is
  as long as the bit count demands and uses only alphanumerics, dash and underscore, so it is
  safe inside a token, a cookie or a URL.
\<close>

theorem base64_roundtrip:
  "Base64URLDecode (Base64URLEncode data) = Some (string_of data) \<and>
   Base64URLDecode (Base64Encode data) = Some (string_of data) \<and>
   length (Base64URLEncode data) = (4 * length data + 2) div 3 \<and>
   length (Base64Encode data) = 4 * ((length data + 2) div 3) \<and>
   list_all (\<lambda>c. is_alnum c \<or> c = CHR ''-'' \<or> c = CHR ''_'') (Base64URLEncode data)"
proof -
  have "is_alnum (to_url_char c) \<or> to_url_char c = CHR ''-'' \<or> to_url_char c = CHR ''_''"
    if "c \<in> set (b64url_groups data)" for c
    using b64url_groups_alphabet [OF that] b64_table_class by (auto simp: list_all_iff to_url_char_def)
  then have "list_all (\<lambda>c. is_alnum c \<or> c = CHR ''-'' \<or> c = CHR ''_'') (Base64URLEncode data)"
    by (auto simp: Base64URLEncode_def list_all_iff)
  then show ?thesis
    by (intro conjI Base64URLDecode_Encode Base64URLDecode_Base64Encode length_Base64URLEncode
      length_Base64Encode)
qed

end
