(* ===== verification/Sha_Fips.thy ===== *)
theory Sha_Fips
  imports Complex_Main Sha
begin

text \<open>
  The reference functions: the hash computations of FIPS 180-4 over message schedules
  \<open>W\<^sub>t\<close> given by their recurrences, padding given by its length equation, and the keyed
  hash of RFC 2104; and the proofs that the code of \<^verbatim>\<open>Crypto.h\<close> and
  \<^verbatim>\<open>WebSocketUtils.h\<close> computes them.
\<close>

section \<open>The standard's functions\<close>

definition Ch :: "u32 \<Rightarrow> u32 \<Rightarrow> u32 \<Rightarrow> u32" where
  "Ch x y z = (x AND y) XOR (NOT x AND z)"

definition Parity :: "u32 \<Rightarrow> u32 \<Rightarrow> u32 \<Rightarrow> u32" where
  "Parity x y z = x XOR y XOR z"

definition Maj :: "u32 \<Rightarrow> u32 \<Rightarrow> u32 \<Rightarrow> u32" where
  "Maj x y z = (x AND y) XOR (x AND z) XOR (y AND z)"

definition bsig0 :: "u32 \<Rightarrow> u32" where
  "bsig0 x = word_rotr 2 x XOR word_rotr 13 x XOR word_rotr 22 x"

definition bsig1 :: "u32 \<Rightarrow> u32" where
  "bsig1 x = word_rotr 6 x XOR word_rotr 11 x XOR word_rotr 25 x"

definition ssig0 :: "u32 \<Rightarrow> u32" where
  "ssig0 x = word_rotr 7 x XOR word_rotr 18 x XOR drop_bit 3 x"

definition ssig1 :: "u32 \<Rightarrow> u32" where
  "ssig1 x = word_rotr 17 x XOR word_rotr 19 x XOR drop_bit 10 x"

text \<open>Padding: one bit, then the least number of zero bits, then the length in 64 bits.\<close>

definition fips_pad :: "byte list \<Rightarrow> byte list" where
  "fips_pad m =
     m @ [0x80] @ replicate ((119 - length m mod 64) mod 64) 0
       @ map (\<lambda>j. word_of_nat (8 * length m div 256 ^ (7 - j))) [0..<8]"

definition fips_blocks :: "byte list \<Rightarrow> byte list list" where
  "fips_blocks m = map (\<lambda>i. slice m (64 * i) 64) [0..<length m div 64]"

definition fips_word :: "byte list \<Rightarrow> nat \<Rightarrow> u32" where
  "fips_word blk i =
     word_of_nat (unat (blk ! (4 * i)) * 2 ^ 24 + unat (blk ! (4 * i + 1)) * 2 ^ 16
       + unat (blk ! (4 * i + 2)) * 2 ^ 8 + unat (blk ! (4 * i + 3)))"

fun W256 :: "byte list \<Rightarrow> nat \<Rightarrow> u32" where
  "W256 blk t =
     (if t < 16 then fips_word blk t
      else ssig1 (W256 blk (t - 2)) + W256 blk (t - 7) + ssig0 (W256 blk (t - 15)) + W256 blk (t - 16))"

declare W256.simps [simp del]

fun fips256_round :: "u32 \<Rightarrow> u32 \<Rightarrow> sha256_vars \<Rightarrow> sha256_vars" where
  "fips256_round Kt Wt (a, b, c, d, e, f, g, h) =
     (let T1 = h + bsig1 e + Ch e f g + Kt + Wt; T2 = bsig0 a + Maj a b c
      in (T1 + T2, a, b, c, d + T1, e, f, g))"

definition fips256_compress :: "u32 list \<Rightarrow> byte list \<Rightarrow> u32 list" where
  "fips256_compress H blk =
     (case foldl (\<lambda>st t. fips256_round (sha256_k ! t) (W256 blk t) st)
        (H ! 0, H ! 1, H ! 2, H ! 3, H ! 4, H ! 5, H ! 6, H ! 7) [0..<64] of
        (a, b, c, d, e, f, g, h) \<Rightarrow>
          [a + H ! 0, b + H ! 1, c + H ! 2, d + H ! 3, e + H ! 4, f + H ! 5, g + H ! 6, h + H ! 7])"

definition fips_digest :: "u32 list \<Rightarrow> byte list" where
  "fips_digest H = concat (map (\<lambda>h. map (\<lambda>s. word_of_nat (unat h div 2 ^ s)) [24, 16, 8, 0]) H)"

definition fips_sha256 :: "byte list \<Rightarrow> byte list" where
  "fips_sha256 m = fips_digest (foldl fips256_compress sha256_h (fips_blocks (fips_pad m)))"

fun W1 :: "byte list \<Rightarrow> nat \<Rightarrow> u32" where
  "W1 blk t =
     (if t < 16 then fips_word blk t
      else word_rotl 1 (W1 blk (t - 3) XOR W1 blk (t - 8) XOR W1 blk (t - 14) XOR W1 blk (t - 16)))"

declare W1.simps [simp del]

definition sha1_f :: "nat \<Rightarrow> u32 \<Rightarrow> u32 \<Rightarrow> u32 \<Rightarrow> u32" where
  "sha1_f t x y z =
     (if t \<le> 19 then Ch x y z else if t \<le> 39 then Parity x y z
      else if t \<le> 59 then Maj x y z else Parity x y z)"

definition sha1_K :: "nat \<Rightarrow> u32" where
  "sha1_K t =
     (if t \<le> 19 then 0x5a827999 else if t \<le> 39 then 0x6ed9eba1
      else if t \<le> 59 then 0x8f1bbcdc else 0xca62c1d6)"

fun fips1_round :: "nat \<Rightarrow> u32 \<Rightarrow> sha1_vars \<Rightarrow> sha1_vars" where
  "fips1_round t Wt (a, b, c, d, e) =
     (word_rotl 5 a + sha1_f t b c d + e + sha1_K t + Wt, a, word_rotl 30 b, c, d)"

definition fips1_compress :: "u32 list \<Rightarrow> byte list \<Rightarrow> u32 list" where
  "fips1_compress H blk =
     (case foldl (\<lambda>st t. fips1_round t (W1 blk t) st) (H ! 0, H ! 1, H ! 2, H ! 3, H ! 4) [0..<80] of
        (a, b, c, d, e) \<Rightarrow> [a + H ! 0, b + H ! 1, c + H ! 2, d + H ! 3, e + H ! 4])"

definition fips_sha1 :: "byte list \<Rightarrow> byte list" where
  "fips_sha1 m = fips_digest (foldl fips1_compress sha1_h (fips_blocks (fips_pad m)))"

section \<open>Bit-level agreement\<close>

lemma right_rotate_eq:
  assumes "0 < n" "n < 32"
  shows "right_rotate x n = word_rotr n x"
proof (rule bit_word_eqI)
  fix i
  assume i: "i < LENGTH(32)"
  show "bit (right_rotate x n) i = bit (word_rotr n x) i"
  proof (cases "i + n < 32")
    case True
    with assms i show ?thesis by (auto simp: right_rotate_def bit_simps add.commute)
  next
    case False
    with assms i have m: "(i + n) mod 32 = i + n - 32" by (simp add: le_mod_geq)
    have "\<not> bit x (i + n)" using False by (auto dest: bit_imp_le_length)
    with False assms i m show ?thesis by (auto simp: right_rotate_def bit_simps add.commute)
  qed
qed

lemma left_rotate_eq:
  assumes "0 < n" "n < 32"
  shows "left_rotate x n = word_rotl n x"
proof (rule bit_word_eqI)
  fix i
  assume i: "i < LENGTH(32)"
  show "bit (left_rotate x n) i = bit (word_rotl n x) i"
  proof (cases "i < n")
    case True
    with assms i have "(i + (LENGTH(32) - n mod LENGTH(32))) mod LENGTH(32) = 32 - n + i" by simp
    with True assms i show ?thesis
      by (simp only: left_rotate_def bit_or_iff bit_push_bit_iff bit_drop_bit_eq bit_word_rotl_iff comp_def) simp
  next
    case False
    with assms have "i + (LENGTH(32) - n mod LENGTH(32)) = (i - n) + LENGTH(32)" by simp
    then have "(i + (LENGTH(32) - n mod LENGTH(32))) mod LENGTH(32) = i - n" using i by simp
    moreover have "\<not> bit x (32 - n + i)" using False by (auto dest: bit_imp_le_length)
    ultimately show ?thesis
      using False assms i
      by (simp only: left_rotate_def bit_or_iff bit_push_bit_iff bit_drop_bit_eq bit_word_rotl_iff comp_def) simp
  qed
qed

lemma Ch_or: "(b AND c) OR (NOT b AND d) = Ch b c d"
  by (rule bit_word_eqI) (auto simp: Ch_def bit_simps)

lemma Maj_or: "(b AND c) OR (b AND d) OR (c AND d) = Maj b c d"
  by (rule bit_word_eqI) (auto simp: Maj_def bit_simps)

lemma be32_eq:
  "be32 a b c d = word_of_nat (unat a * 2 ^ 24 + unat b * 2 ^ 16 + unat c * 2 ^ 8 + unat d)"
proof -
  have 1: "push_bit 8 (ucast c :: u32) + ucast d = push_bit 8 (ucast c) OR ucast d"
    by (rule disjunctive_add_eq_or, rule bit_word_eqI) (auto simp: bit_simps dest: bit_imp_le_length)
  have 2: "push_bit 16 (ucast b :: u32) + (push_bit 8 (ucast c) OR ucast d)
      = push_bit 16 (ucast b) OR (push_bit 8 (ucast c) OR ucast d)"
    by (rule disjunctive_add_eq_or, rule bit_word_eqI) (auto simp: bit_simps dest: bit_imp_le_length)
  have 3: "push_bit 24 (ucast a :: u32) + (push_bit 16 (ucast b) OR (push_bit 8 (ucast c) OR ucast d))
      = push_bit 24 (ucast a) OR (push_bit 16 (ucast b) OR (push_bit 8 (ucast c) OR ucast d))"
    by (rule disjunctive_add_eq_or, rule bit_word_eqI) (auto simp: bit_simps dest: bit_imp_le_length)
  have "be32 a b c d = push_bit 24 (ucast a) + (push_bit 16 (ucast b) + (push_bit 8 (ucast c) + ucast d))"
    unfolding be32_def 1 2 3 by (simp add: ac_simps)
  then show ?thesis by (simp add: push_bit_eq_mult ac_simps)
qed

lemma byte_of_shift: "ucast (drop_bit s h AND 0xFF) = (word_of_nat (unat h div 2 ^ s) :: byte)"
  for h :: "'a :: len word"
proof -
  have "drop_bit s h AND 0xFF = take_bit 8 (drop_bit s h)"
    by (simp add: take_bit_eq_mask mask_numeral)
  then have "ucast (drop_bit s h AND 0xFF) = (ucast (drop_bit s h) :: byte)"
    by (auto intro!: bit_word_eqI simp: bit_simps)
  also have "\<dots> = word_of_nat (unat (drop_bit s h))" by simp
  also have "unat (drop_bit s h) = unat h div 2 ^ s"
    by (subst unat_drop_bit_eq) (rule drop_bit_eq_div)
  finally show ?thesis .
qed

section \<open>Padding, blocks and digests\<close>

lemma pad_count: "(l :: nat) < 64 \<Longrightarrow> (120 - l) mod 64 = (if l \<le> 56 then 56 - l else 120 - l)"
proof (cases "l \<le> 56")
  case True
  then have "120 - l = (56 - l) + 64" by simp
  with True show ?thesis by (simp only: mod_add_self2) simp
qed simp

lemma pad_zeros_eq:
  "pad_zeros msg = msg @ replicate ((120 - length msg mod 64) mod 64) 0"
proof (induction msg rule: pad_zeros.induct)
  case (1 msg)
  show ?case
  proof (cases "length msg mod 64 = 56")
    case True
    then show ?thesis by (subst pad_zeros.simps) simp
  next
    case False
    define l where "l = length msg mod 64"
    have l: "l < 64" "l \<noteq> 56" using False by (auto simp: l_def)
    have "Suc (length msg) mod 64 = (if l = 63 then 0 else Suc l)" by (simp add: mod_Suc l_def)
    with l pad_count [of l] pad_count [of "Suc l"]
    have "(120 - l) mod 64 = Suc ((120 - Suc (length msg) mod 64) mod 64)" by (auto split: if_splits)
    then have "(120 - length msg mod 64) mod 64 = Suc ((120 - Suc (length msg) mod 64) mod 64)"
      by (simp only: l_def)
    with False "1.IH" show ?thesis by (subst pad_zeros.simps) simp
  qed
qed

lemma be64_bytes_eq:
  "be64_bytes (word_of_nat n) = map (\<lambda>j. word_of_nat (n div 256 ^ (7 - j))) [0..<8]"
proof -
  have b: "(word_of_nat (unat (word_of_nat n :: u64) div 2 ^ s) :: byte) = word_of_nat (n div 2 ^ s)"
    if "s \<le> 56" for s
  proof -
    have "unat (word_of_nat n :: u64) = take_bit 64 n" by (simp add: unsigned_of_nat)
    moreover have "(word_of_nat (take_bit 64 n div 2 ^ s) :: byte) = word_of_nat (n div 2 ^ s)"
    proof -
      have "take_bit 8 (drop_bit s (take_bit 64 n)) = take_bit 8 (drop_bit s n)"
        using that by (auto intro!: bit_eqI simp: bit_simps)
      then have "(word_of_nat (drop_bit s (take_bit 64 n)) :: byte) = word_of_nat (drop_bit s n)"
        by (simp add: word_of_nat_eq_iff)
      then show ?thesis by (simp add: drop_bit_eq_div)
    qed
    ultimately show ?thesis by simp
  qed
  have u: "[0..<8] = [0, 1, 2, 3, 4, 5, 6, 7 :: nat]" by (simp add: upt_rec)
  show ?thesis
    unfolding be64_bytes_def byte_of_shift u
    using b [of 56] b [of 48] b [of 40] b [of 32] b [of 24] b [of 16] b [of 8] b [of 0]
    by simp
qed

lemma pad_count_Suc: "(120 - Suc n mod 64) mod 64 = (119 - n mod 64) mod (64 :: nat)"
proof (cases "n mod 64 = 63")
  case False
  then have "Suc n mod 64 = Suc (n mod 64)" by (simp add: mod_Suc)
  then show ?thesis by simp
qed (simp add: mod_Suc)

lemma sha_pad_eq: "sha_pad m = fips_pad m"
  unfolding sha_pad_def fips_pad_def be64_bytes_eq
  by (simp add: pad_zeros_eq mult.commute pad_count_Suc)

lemma length_fips_pad: "64 dvd length (fips_pad m)"
proof -
  define n where "n = Suc (length m)"
  define l where "l = n mod 64"
  have l: "l < 64" by (simp add: l_def)
  have n: "n = 64 * (n div 64) + l" by (simp add: l_def)
  have "length (fips_pad m) = n + (120 - l) mod 64 + 8"
    by (simp add: fips_pad_def n_def l_def pad_count_Suc)
  also have "\<dots> = 64 * (n div 64) + (if l \<le> 56 then 64 else 128)"
    using n pad_count [OF l] by (auto split: if_splits)
  also have "64 dvd \<dots>" by auto
  finally show ?thesis .
qed

lemma chunk_loop_blocks:
  assumes "64 dvd length msg" and "length msg = 64 * n"
  shows "i \<le> n \<Longrightarrow>
    chunk_loop f st msg (64 * i) = foldl f st (map (\<lambda>i. slice msg (64 * i) 64) [i..<n])"
proof (induction "n - i" arbitrary: i st)
  case 0
  with assms show ?case by (subst chunk_loop.simps) simp
next
  case (Suc k)
  then have "i < n" by simp
  with Suc assms have "chunk_loop f (f st (slice msg (64 * i) 64)) msg (64 * Suc i) =
      foldl f (f st (slice msg (64 * i) 64)) (map (\<lambda>i. slice msg (64 * i) 64) [Suc i..<n])"
    by (intro Suc.hyps(1)) auto
  with \<open>i < n\<close> assms(2) show ?case
    by (subst chunk_loop.simps) (simp add: upt_conv_Cons add.commute)
qed

lemma chunk_loop_fips: "chunk_loop f st (sha_pad m) 0 = foldl f st (fips_blocks (fips_pad m))"
proof -
  obtain n where n: "length (fips_pad m) = 64 * n" using length_fips_pad by (auto simp: dvd_def)
  have "chunk_loop f st (fips_pad m) (64 * 0) = foldl f st (map (\<lambda>i. slice (fips_pad m) (64 * i) 64) [0..<n])"
    using n by (intro chunk_loop_blocks) (auto simp: length_fips_pad)
  with n show ?thesis by (simp add: fips_blocks_def sha_pad_eq)
qed

lemma digest_eq: "concat (map word_bytes H) = fips_digest H"
proof -
  have "word_bytes = (\<lambda>h. map (\<lambda>s. word_of_nat (unat h div 2 ^ s)) [24, 16, 8, 0])"
    unfolding word_bytes_def byte_of_shift ..
  then show ?thesis by (simp add: fips_digest_def)
qed

lemma chunk_words_eq: "chunk_words blk = map (fips_word blk) [0..<16]"
  by (simp add: chunk_words_def fips_word_def be32_eq mult.commute)

section \<open>Schedules and rounds\<close>

definition follows :: "(nat \<Rightarrow> u32) \<Rightarrow> u32 list \<Rightarrow> bool" where
  "follows W w \<longleftrightarrow> 16 \<le> length w \<and> (\<forall>t < length w. w ! t = W t)"

lemma follows_eq: "follows W w \<Longrightarrow> w = map W [0..<length w]"
  by (auto simp: follows_def intro: nth_equalityI)

lemma follows_snoc: "follows W w \<Longrightarrow> x = W (length w) \<Longrightarrow> follows W (w @ [x])"
  by (auto simp: follows_def nth_append less_Suc_eq)

lemma follows_chunk_words: "follows (W256 blk) (chunk_words blk)" "follows (W1 blk) (chunk_words blk)"
  by (auto simp: follows_def chunk_words_eq W256.simps W1.simps)

lemma follows_nth:
  "follows W w \<Longrightarrow> 0 < k \<Longrightarrow> k \<le> 16 \<Longrightarrow> w ! (length w - k) = W (length w - k)"
  unfolding follows_def by auto

lemma sha256_next_w_eq: "follows (W256 blk) w \<Longrightarrow> sha256_next_w w = W256 blk (length w)"
  by (subst W256.simps)
    (simp add: follows_nth sha256_next_w_def ssig0_def ssig1_def right_rotate_eq Let_def ac_simps, simp add: follows_def)

lemma sha1_next_w_eq: "follows (W1 blk) w \<Longrightarrow> sha1_next_w w = W1 blk (length w)"
  by (subst W1.simps) (simp add: follows_nth sha1_next_w_def left_rotate_eq Let_def, simp add: follows_def)

lemma sha256_extend_eq:
  "follows (W256 blk) w \<Longrightarrow> sha256_extend n w = map (W256 blk) [0..<length w + n]"
proof (induction n arbitrary: w)
  case 0
  then show ?case by (simp add: follows_eq [symmetric])
next
  case (Suc n)
  then have "follows (W256 blk) (w @ [sha256_next_w w])"
    by (intro follows_snoc sha256_next_w_eq)
  with Suc.IH [of "w @ [sha256_next_w w]"] show ?case by simp
qed

lemma sha1_extend_eq:
  "follows (W1 blk) w \<Longrightarrow> sha1_extend n w = map (W1 blk) [0..<length w + n]"
proof (induction n arbitrary: w)
  case 0
  then show ?case by (simp add: follows_eq [symmetric])
next
  case (Suc n)
  then have "follows (W1 blk) (w @ [sha1_next_w w])"
    by (intro follows_snoc sha1_next_w_eq)
  with Suc.IH [of "w @ [sha1_next_w w]"] show ?case by simp
qed

lemma sha256_round_eq: "sha256_round k w st = fips256_round k w st"
  by (cases "(k, w, st)" rule: sha256_round.cases)
    (simp add: bsig0_def bsig1_def Ch_def Maj_def right_rotate_eq Let_def)

lemma sha1_round_eq: "sha1_round t w st = fips1_round t w st"
  by (cases st) (auto simp: sha1_f_def sha1_K_def Ch_or Maj_or Parity_def left_rotate_eq Let_def)

lemma upt_add_Cons: "[i..<i + Suc n] = i # [Suc i..<Suc i + n]"
  by (simp add: upt_conv_Cons del: upt_Suc)

lemma sha256_rounds_eq:
  "sha256_rounds (map K [i..<i + n]) (map W [i..<i + n]) st =
    foldl (\<lambda>st t. fips256_round (K t) (W t) st) st [i..<i + n]"
proof (induction n arbitrary: i st)
  case (Suc n)
  show ?case unfolding upt_add_Cons using Suc.IH [of "Suc i"] by (simp add: sha256_round_eq)
qed simp

lemma sha1_rounds_eq:
  "sha1_rounds i (map W [i..<i + n]) st = foldl (\<lambda>st t. fips1_round t (W t) st) st [i..<i + n]"
proof (induction n arbitrary: i st)
  case (Suc n)
  show ?case unfolding upt_add_Cons using Suc.IH [of "Suc i"] by (simp add: sha1_round_eq)
qed simp

lemma length_sha256_k [simp]: "length sha256_k = 64"
  by (simp add: sha256_k_def)

lemma sha256_chunk_eq: "sha256_chunk = fips256_compress"
proof (intro ext)
  fix h blk
  have w: "sha256_extend 48 (chunk_words blk) = map (W256 blk) [0..<64]"
    using sha256_extend_eq [OF follows_chunk_words(1), of 48 blk] by (simp add: chunk_words_def)
  have k: "sha256_k = map ((!) sha256_k) [0..<64]"
    by (rule nth_equalityI) simp_all
  have "sha256_rounds sha256_k (map (W256 blk) [0..<64]) st =
      foldl (\<lambda>st t. fips256_round (sha256_k ! t) (W256 blk t) st) st [0..<64]" for st
    using sha256_rounds_eq [of "(!) sha256_k" 0 64 "W256 blk" st] k by simp
  then show "sha256_chunk h blk = fips256_compress h blk"
    by (simp add: sha256_chunk_def fips256_compress_def w add.commute)
qed

lemma sha1_chunk_eq: "sha1_chunk = fips1_compress"
proof (intro ext)
  fix h blk
  have w: "sha1_extend 64 (chunk_words blk) = map (W1 blk) [0..<80]"
    using sha1_extend_eq [OF follows_chunk_words(2), of 64 blk] by (simp add: chunk_words_def)
  then show "sha1_chunk h blk = fips1_compress h blk"
    using sha1_rounds_eq [of 0 "W1 blk" 80] by (simp add: sha1_chunk_def fips1_compress_def add.commute)
qed

lemma SHA256_fips: "SHA256 m = fips_sha256 m"
  by (simp add: SHA256_def fips_sha256_def chunk_loop_fips digest_eq sha256_chunk_eq)

lemma SHA1_fips: "SHA1 m = fips_sha1 m"
  by (simp add: SHA1_def fips_sha1_def chunk_loop_fips digest_eq sha1_chunk_eq)

section \<open>The constants\<close>

text \<open>
  The comments of \<^verbatim>\<open>Crypto.h\<close> say where its tables come from: the first 32 bits of the
  fractional parts of the square roots of the first 8 primes and of the cube roots of the
  first 64.
\<close>

definition first_primes :: "nat list" where
  "first_primes = [2, 3, 5, 7, 11, 13, 17, 19, 23, 29, 31, 37, 41, 43, 47, 53, 59, 61, 67, 71, 73, 79,
     83, 89, 97, 101, 103, 107, 109, 113, 127, 131, 137, 139, 149, 151, 157, 163, 167, 173, 179, 181,
     191, 193, 197, 199, 211, 223, 227, 229, 233, 239, 241, 251, 257, 263, 269, 271, 277, 281, 283,
     293, 307, 311]"

definition frac_bits :: "nat \<Rightarrow> nat \<Rightarrow> int" where
  "frac_bits k p = \<lfloor>2 ^ 32 * frac (root k (real p))\<rfloor>"

lemma frac_bits_eq:
  assumes k: "0 < k" and lo: "(r * 2 ^ 32 + c) ^ k \<le> p * 2 ^ (32 * k)"
    and hi: "p * 2 ^ (32 * k) < (r * 2 ^ 32 + c + 1) ^ k" and c: "c < 2 ^ 32"
  shows "frac_bits k p = int c"
proof -
  let ?x = "2 ^ 32 * root k (real p)"
  have x: "?x ^ k = real p * 2 ^ (32 * k)" and x0: "0 \<le> ?x"
    using k by (simp_all add: power_mult_distrib real_root_pow_pos2 power_mult)
  have "real ((r * 2 ^ 32 + c) ^ k) \<le> real (p * 2 ^ (32 * k))"
    using lo by (simp only: of_nat_le_iff)
  then have "real (r * 2 ^ 32 + c) ^ k \<le> ?x ^ k" unfolding x by simp
  then have 1: "real (r * 2 ^ 32 + c) \<le> ?x"
    using power_mono_iff [of "real (r * 2 ^ 32 + c)" ?x k] k x0 by simp
  have "real (p * 2 ^ (32 * k)) < real ((r * 2 ^ 32 + c + 1) ^ k)"
    using hi by (simp only: of_nat_less_iff)
  then have "?x ^ k < real (r * 2 ^ 32 + c + 1) ^ k" unfolding x by simp
  then have 2: "?x < real (r * 2 ^ 32 + c + 1)" by (rule power_less_imp_less_base) simp
  have r: "\<lfloor>root k (real p)\<rfloor> = int r"
  proof (rule floor_unique)
    show "real_of_int (int r) \<le> root k (real p)" using 1 by simp
    have "2 ^ 32 * root k (real p) < 2 ^ 32 * (real r + 1)" using 2 c by simp
    then show "root k (real p) < real_of_int (int r) + 1" by simp
  qed
  have "2 ^ 32 * frac (root k (real p)) = ?x - real r * 2 ^ 32"
    by (simp add: frac_def r algebra_simps)
  then show ?thesis unfolding frac_bits_def using 1 2 by (intro floor_unique) simp_all
qed

definition root_check :: "nat \<Rightarrow> nat \<times> nat \<times> nat \<Rightarrow> bool" where
  "root_check k = (\<lambda>(p, r, c). (r * 2 ^ 32 + c) ^ k \<le> p * 2 ^ (32 * k)
     \<and> p * 2 ^ (32 * k) < (r * 2 ^ 32 + c + 1) ^ k \<and> c < 2 ^ 32)"

lemma root_checkD: "0 < k \<Longrightarrow> root_check k (p, r, c) \<Longrightarrow> frac_bits k p = int c"
  by (auto simp: root_check_def intro: frac_bits_eq)

text \<open>The integer parts of the roots.\<close>

definition cube_floors :: "nat list" where
  "cube_floors = [1, 1, 1, 1, 2, 2, 2, 2, 2, 3, 3, 3, 3, 3, 3, 3, 3, 3, 4, 4, 4, 4, 4, 4, 4, 4, 4, 4, 4, 4, 5, 5, 5, 5, 5, 5, 5, 5, 5, 5, 5, 5, 5, 5, 5, 5, 5, 6, 6, 6, 6, 6, 6, 6, 6, 6, 6, 6, 6, 6, 6, 6, 6, 6]"

definition square_floors :: "nat list" where
  "square_floors = [1, 1, 2, 2, 3, 3, 4, 4]"

lemma sha256_k_roots:
  "list_all (root_check 3) (zip first_primes (zip cube_floors (map unat sha256_k)))"
  by (simp add: root_check_def first_primes_def cube_floors_def sha256_k_def)

lemma sha256_h_roots:
  "list_all (root_check 2) (zip first_primes (zip square_floors (map unat sha256_h)))"
  by (simp add: root_check_def first_primes_def square_floors_def sha256_h_def)

section \<open>Digest lengths and the keyed hash\<close>

lemma length_fips_digest: "length (fips_digest H) = 4 * length H"
  by (induction H) (simp_all add: fips_digest_def)

lemma length_foldl: "(\<And>st x. length (f st x) = n) \<Longrightarrow> length st = n \<Longrightarrow> length (foldl f st xs) = n"
  by (induction xs arbitrary: st) auto

lemma length_SHA256: "length (SHA256 m) = 32"
proof -
  have "length (foldl fips256_compress sha256_h (fips_blocks (fips_pad m))) = 8"
    by (rule length_foldl) (auto simp: fips256_compress_def sha256_h_def split: prod.split)
  then show ?thesis by (simp add: SHA256_fips fips_sha256_def length_fips_digest)
qed

lemma length_SHA1: "length (SHA1 m) = 20"
proof -
  have "length (foldl fips1_compress sha1_h (fips_blocks (fips_pad m))) = 5"
    by (rule length_foldl) (auto simp: fips1_compress_def sha1_h_def split: prod.split)
  then show ?thesis by (simp add: SHA1_fips fips_sha1_def length_fips_digest)
qed

text \<open>
  RFC 2104 over a hash function with blocks of \<open>B\<close> bytes: a key longer than a block is
  hashed, the key is filled with zeros to a block, and
  \<open>H(K xor opad, H(K xor ipad, text))\<close>.
\<close>

definition rfc2104_key :: "(byte list \<Rightarrow> byte list) \<Rightarrow> nat \<Rightarrow> byte list \<Rightarrow> byte list" where
  "rfc2104_key H B K = (let K' = (if B < length K then H K else K) in K' @ replicate (B - length K') 0)"

definition rfc2104_hmac :: "(byte list \<Rightarrow> byte list) \<Rightarrow> nat \<Rightarrow> byte list \<Rightarrow> byte list \<Rightarrow> byte list" where
  "rfc2104_hmac H B K text =
     (let K0 = rfc2104_key H B K
      in H (map2 (XOR) K0 (replicate B 0x5C) @ H (map2 (XOR) K0 (replicate B 0x36) @ text)))"

text \<open>What the keyed hash needs of a hash function: digests of one length, not above a block.\<close>

locale block_hash =
  fixes H :: "byte list \<Rightarrow> byte list" and B L :: nat
  assumes digest_length: "length (H m) = L"
    and digest_fits: "L \<le> B"
begin

lemma key_length: "length (rfc2104_key H B K) = B"
  using digest_fits by (auto simp: rfc2104_key_def digest_length Let_def)

lemma hmac_length: "length (rfc2104_hmac H B K text) = L"
  by (simp add: rfc2104_hmac_def digest_length Let_def)

lemma key_pad: "map2 (XOR) (rfc2104_key H B K) (replicate B x) = map (\<lambda>b. b XOR x) (rfc2104_key H B K)"
  by (rule nth_equalityI) (simp_all add: key_length)

end

interpretation sha256: block_hash SHA256 64 32
  by unfold_locales (simp_all add: length_SHA256)

lemma hmac_block_rfc: "hmac_block k = rfc2104_key SHA256 64 k"
  by (simp add: hmac_block_def rfc2104_key_def length_SHA256)

lemma HMAC_SHA256_rfc: "HMAC_SHA256 key message = rfc2104_hmac SHA256 64 (bytes_of key) (bytes_of message)"
  by (simp add: HMAC_SHA256_def rfc2104_hmac_def hmac_block_rfc sha256.key_pad Let_def)

lemma length_HMAC_SHA256: "length (HMAC_SHA256 key message) = 32"
  by (simp add: HMAC_SHA256_rfc sha256.hmac_length)

section \<open>Properties\<close>


text \<open>
  \<open>ws_crypto::SHA1\<close> is the SHA-1 of FIPS 180-4, although it computes the choice and
  majority functions with \<open>|\<close> where the standard has exclusive or; its digest has 20 bytes.
\<close>

theorem sha1_conforms: "SHA1 m = fips_sha1 m \<and> length (SHA1 m) = 20"
  using SHA1_fips length_SHA1 by simp

text \<open>
  \<open>crypto::HMAC_SHA256\<close> is the HMAC of RFC 2104 over SHA-256 with blocks of 64 bytes, for
  keys of any length (short, exactly one block, or longer and therefore hashed first), and
  yields 32 bytes.
\<close>

theorem hmac_conforms:
  "HMAC_SHA256 key message = rfc2104_hmac fips_sha256 64 (bytes_of key) (bytes_of message)
     \<and> length (HMAC_SHA256 key message) = 32"
proof -
  have "SHA256 = fips_sha256" by (rule ext) (rule SHA256_fips)
  then show ?thesis using HMAC_SHA256_rfc length_HMAC_SHA256 by simp
qed

text \<open>
  The tables of \<open>crypto::SHA256\<close> are what its comments say: the 64 round constants are
  the first 32 bits of the fractional parts of the cube roots of the first 64 primes, the 8
  initial values those of the square roots of the first 8.
\<close>

theorem sha256_tables:
  "map (frac_bits 3) first_primes = map uint sha256_k
     \<and> map (frac_bits 2) (take 8 first_primes) = map uint sha256_h"
proof
  have k: "frac_bits 3 p = int c"
    if "(p, r, c) \<in> set (zip first_primes (zip cube_floors (map unat sha256_k)))" for p r c
    using sha256_k_roots that by (auto simp: list_all_iff intro: root_checkD)
  then show "map (frac_bits 3) first_primes = map uint sha256_k"
    by (simp add: first_primes_def cube_floors_def sha256_k_def)
  have h: "frac_bits 2 p = int c"
    if "(p, r, c) \<in> set (zip first_primes (zip square_floors (map unat sha256_h)))" for p r c
    using sha256_h_roots that by (auto simp: list_all_iff intro: root_checkD)
  then show "map (frac_bits 2) (take 8 first_primes) = map uint sha256_h"
    by (simp add: first_primes_def square_floors_def sha256_h_def)
qed

end
