(* ===== verification/Jwt.thy ===== *)
theory Jwt
  imports Base64 Sha_Fips
begin

text \<open>
  \<open>utils/JsonWebToken.h\<close>: \<open>jwt::Create\<close> and \<open>jwt::Verify\<close>. A token is
  \<open>header.payload.signature\<close>, each part Base64URL, the signature an HMAC-SHA256 over the
  first two. \<open>Verify\<close> reads the claims back from the decoded payload with plain string
  searches. The current time is an argument of both; a token is signed for the server's secret.
\<close>

section \<open>Tokens\<close>

record claims =
  claim_id :: int
  claim_username :: string
  claim_exp :: int

definition jwt_header_json :: string where
  \<open>jwt_header_json = ''{"alg":"HS256","typ":"JWT"}''\<close>

definition jwt_payload_json :: "int \<Rightarrow> string \<Rightarrow> int \<Rightarrow> string" where
  \<open>jwt_payload_json user_id username expiry =
     ''{"id":'' @ int_to_string user_id @
     '',"username":"'' @ username @ ''"'' @
     '',"exp":'' @ int_to_string expiry @ ''}''\<close>

definition jwt_sign :: "string \<Rightarrow> string \<Rightarrow> string" where
  "jwt_sign secret signing_input = Base64URLEncode (HMAC_SHA256 secret signing_input)"

definition Create :: "int \<Rightarrow> string \<Rightarrow> string \<Rightarrow> int \<Rightarrow> int \<Rightarrow> string" where
  "Create user_id username secret expires_in_seconds now =
     (let header = Base64URLEncode (bytes_of jwt_header_json);
          expiry = now + expires_in_seconds;
          payload = Base64URLEncode (bytes_of (jwt_payload_json user_id username expiry));
          signing_input = header @ ''.'' @ payload
      in signing_input @ ''.'' @ jwt_sign secret signing_input)"

text \<open>The claims read from the decoded payload, the part of \<open>Verify\<close> after the signature check.\<close>

definition read_claims :: "string \<Rightarrow> int \<Rightarrow> claims option res" where
  \<open>read_claims payload_json now =
     (case find_sub ''"id":'' payload_json of None \<Rightarrow> Inr None
      | Some id_pos \<Rightarrow>
        bind_res (stoi (drop (id_pos + 5) payload_json)) (\<lambda>uid.
          case find_sub ''"username":"'' payload_json of None \<Rightarrow> Inr None
          | Some user_pos \<Rightarrow>
            let user_start = user_pos + 12;
                username =
                  (case find_from ''"'' payload_json user_start of
                     Some user_end \<Rightarrow> slice payload_json user_start (user_end - user_start)
                   | None \<Rightarrow> drop user_start payload_json)
            in case find_sub ''"exp":'' payload_json of None \<Rightarrow> Inr None
               | Some exp_pos \<Rightarrow>
                 bind_res (stol (drop (exp_pos + 6) payload_json)) (\<lambda>expiry.
                   if expiry < now then Inr None
                   else Inr (Some \<lparr>claim_id = uid, claim_username = username, claim_exp = expiry\<rparr>))))\<close>

definition Verify :: "string \<Rightarrow> string \<Rightarrow> int \<Rightarrow> claims option res" where
  "Verify token secret now =
     (case find_sub ''.'' token of None \<Rightarrow> Inr None
      | Some dot1 \<Rightarrow>
        (case find_from ''.'' token (dot1 + 1) of None \<Rightarrow> Inr None
         | Some dot2 \<Rightarrow>
           if find_from ''.'' token (dot2 + 1) \<noteq> None then Inr None
           else
             let signing_input = slice token 0 dot2;
                 signature = drop (dot2 + 1) token
             in if signature \<noteq> jwt_sign secret signing_input then Inr None
                else case Base64URLDecode (slice token (dot1 + 1) (dot2 - dot1 - 1)) of
                    None \<Rightarrow> Inl UndefinedBehaviour
                  | Some payload_json \<Rightarrow> read_claims payload_json now))"

section \<open>Reading back what was written\<close>

lemma quote_not_in_number: \<open>CHR 0x22 \<notin> set (int_to_string i)\<close>
  by (auto dest!: int_to_string_chars simp: is_digit_def)

lemma find_id_payload: \<open>find_sub ''"id":'' (jwt_payload_json i u e) = Some 1\<close>
  by (simp add: jwt_payload_json_def)

lemma payload_split_username:
  \<open>jwt_payload_json i u e = (''{"id":'' @ int_to_string i @ '','') @ ''"username":"'' @ u @ ''","exp":'' @ int_to_string e @ ''}''\<close>
  by (simp add: jwt_payload_json_def)

lemma find_username_payload:
  \<open>find_sub ''"username":"'' (jwt_payload_json i u e) = Some (length (''{"id":'' @ int_to_string i @ '',''))\<close>
proof -
  have \<open>find_sub ''"username":"'' (int_to_string i @ '','' @ ''"username":"'' @ s) = Some (length (int_to_string i) + 1)\<close> for s
    using quote_not_in_number [of i]
    by (simp add: find_sub_skip)
  then show ?thesis by (simp add: jwt_payload_json_def)
qed

lemma not_exp_at_username:
  assumes \<open>CHR 0x22 \<notin> set u\<close>
  shows \<open>take 6 (CHR 0x22 # u @ CHR 0x22 # CHR '','' # s) \<noteq> ''"exp":''\<close>
proof -
  consider "u = []" | a where "u = [a]" | a b where "u = [a, b]" | a b c where "u = [a, b, c]"
    | a b c d v where "u = a # b # c # d # v"
    by (metis list.exhaust)
  then show ?thesis using assms by cases (auto simp: take_Cons')
qed

lemma find_exp_payload:
  assumes \<open>CHR 0x22 \<notin> set u\<close>
  shows \<open>find_sub ''"exp":'' (jwt_payload_json i u e) =
    Some (length (''{"id":'' @ int_to_string i @ '',"username":"'' @ u @ ''",''))\<close>
proof -
  have 1: \<open>find_sub ''"exp":'' (u @ ''","exp":'' @ s) = Some (length u + 2)\<close> for s
    using assms by (simp add: find_sub_skip)
  have 2: \<open>find_sub ''"exp":'' (''"'' @ u @ ''","exp":'' @ s) = Some (length u + 3)\<close> for s
  proof -
    have "take (length ''\"exp\":'') (CHR 0x22 # u @ ''\",\"exp\":'' @ s) \<noteq> ''\"exp\":''"
      using not_exp_at_username [OF assms, of \<open>''"exp":'' @ s\<close>] by (simp add: numeral_eq_Suc)
    then show ?thesis using 1 [of s] by (simp only: append_Cons append_Nil find_sub.simps) simp
  qed
  have 3: \<open>find_sub ''"exp":'' (int_to_string i @ '',"username":"'' @ u @ ''","exp":'' @ s) =
      Some (length (int_to_string i @ '',"username":"'') + length u + 2)\<close> for s
    using quote_not_in_number [of i] 2 [of s] by (simp add: find_sub_skip)
  show ?thesis using 3 [of \<open>int_to_string e @ ''}''\<close>] by (simp add: jwt_payload_json_def)
qed

lemma read_claims_payload:
  assumes \<open>CHR 0x22 \<notin> set u\<close> and "in_int_range 32 i" and "in_int_range 64 e"
  shows "read_claims (jwt_payload_json i u e) now =
    Inr (if e < now then None else Some \<lparr>claim_id = i, claim_username = u, claim_exp = e\<rparr>)"
proof -
  let ?p = "jwt_payload_json i u e"
  have id: "stoi (drop 6 ?p) = Inr i"
    using assms(2) stoi_int_to_string [of \<open>'',"username":"'' @ u @ ''","exp":'' @ int_to_string e @ ''}''\<close> i]
    by (simp add: jwt_payload_json_def is_digit_def)
  define k where \<open>k = length (''{"id":'' @ int_to_string i @ '','')\<close>
  have k: \<open>?p = ((''{"id":'' @ int_to_string i @ '','') @ ''"username":"'') @ u @ ''"'' @ '',"exp":'' @ int_to_string e @ ''}''\<close>
    by (simp add: jwt_payload_json_def)
  have len: \<open>length ((''{"id":'' @ int_to_string i @ '','') @ ''"username":"'') = k + 12\<close>
    by (simp add: k_def)
  have ue: \<open>find_from ''"'' ?p (k + 12) = Some (k + 12 + length u)\<close>
    using assms(1) unfolding k by (subst find_from_append [OF len]) (simp add: find_sub_skip)
  have un: "slice ?p (k + 12) (length u) = u"
    unfolding k by (rule slice_append [OF len refl])
  define q where \<open>q = ''{"id":'' @ int_to_string i @ '',"username":"'' @ u @ ''",''\<close>
  have q: \<open>?p = (q @ ''"exp":'') @ int_to_string e @ ''}''\<close>
    by (simp add: jwt_payload_json_def q_def)
  have "drop (length q + 6) ?p = int_to_string e @ ''}''"
    unfolding q by (subst append_eq_conv_conj [THEN iffD1]) simp_all
  then have ex: "stol (drop (length q + 6) ?p) = Inr e"
    using assms(3) stol_int_to_string [of "''}''" e] by (simp add: is_digit_def)
  have fu: \<open>find_sub ''"username":"'' ?p = Some k\<close>
    unfolding k_def by (rule find_username_payload)
  have fe: \<open>find_sub ''"exp":'' ?p = Some (length q)\<close>
    unfolding q_def by (rule find_exp_payload [OF assms(1)])
  show ?thesis
    using id ue un ex by (simp add: read_claims_def find_id_payload fu fe Let_def)
qed

section \<open>Splitting a token at its dots\<close>

lemma find_dot_split:
  assumes "CHR ''.'' \<notin> set h" "CHR ''.'' \<notin> set p"
  shows "find_sub ''.'' (h @ ''.'' @ p @ ''.'' @ s) = Some (length h)"
    and "find_from ''.'' (h @ ''.'' @ p @ ''.'' @ s) (length h + 1) = Some (length h + 1 + length p)"
    and "find_from ''.'' (h @ ''.'' @ p @ ''.'' @ s) (length h + 1 + length p + 1) \<noteq> None \<longleftrightarrow> CHR ''.'' \<in> set s"
proof -
  show "find_sub ''.'' (h @ ''.'' @ p @ ''.'' @ s) = Some (length h)"
    using assms by (simp add: find_sub_skip)
  have "find_from ''.'' ((h @ ''.'') @ p @ ''.'' @ s) (length h + 1) = Some (length h + 1 + length p)"
    using assms by (subst find_from_append) (simp_all add: find_sub_skip)
  then show "find_from ''.'' (h @ ''.'' @ p @ ''.'' @ s) (length h + 1) = Some (length h + 1 + length p)"
    by simp
  have "find_from ''.'' ((h @ ''.'' @ p @ ''.'') @ s) (length h + 1 + length p + 1) \<noteq> None \<longleftrightarrow> CHR ''.'' \<in> set s"
    by (subst find_from_append) (simp_all add: find_char_None_iff del: not_None_eq)
  then show "find_from ''.'' (h @ ''.'' @ p @ ''.'' @ s) (length h + 1 + length p + 1) \<noteq> None \<longleftrightarrow> CHR ''.'' \<in> set s"
    by simp
qed

text \<open>\<open>Verify\<close> on the three parts of a token.\<close>

lemma Verify_parts:
  assumes "CHR ''.'' \<notin> set h" "CHR ''.'' \<notin> set p" "CHR ''.'' \<notin> set s"
  shows "Verify (h @ ''.'' @ p @ ''.'' @ s) secret now =
    (if s \<noteq> jwt_sign secret (h @ ''.'' @ p) then Inr None
     else case Base64URLDecode p of None \<Rightarrow> Inl UndefinedBehaviour
       | Some payload_json \<Rightarrow> read_claims payload_json now)"
proof -
  let ?t = "h @ ''.'' @ p @ ''.'' @ s"
  let ?d = "length h + 1 + length p"
  have s0: "slice ?t 0 ?d = h @ ''.'' @ p"
    using slice_append [of "[]" 0 "h @ ''.'' @ p" ?d "''.'' @ s"] by simp
  have s1: "drop (?d + 1) ?t = s" by simp
  have s2: "slice ?t (length h + 1) (?d - length h - 1) = p"
    using slice_append [of "h @ ''.''" "length h + 1" p "length p" "''.'' @ s"] by simp
  show ?thesis
    unfolding Verify_def find_dot_split(1) [OF assms(1,2)] option.case
      find_dot_split(2) [OF assms(1,2)] Let_def find_dot_split(3) [OF assms(1,2)] s0 s1 s2
    using assms(3) by simp
qed

lemma Verify_rejects_other_shapes:
  assumes "Verify token secret now \<noteq> Inr None"
  obtains h p s where "token = h @ ''.'' @ p @ ''.'' @ s"
    "CHR ''.'' \<notin> set h" "CHR ''.'' \<notin> set p" "CHR ''.'' \<notin> set s"
proof -
  from assms obtain i where i: "find_sub ''.'' token = Some i"
    by (cases "find_sub ''.'' token") (auto simp: Verify_def)
  define h where "h = take i token"
  define r where "r = drop (Suc i) token"
  have t1: "token = h @ ''.'' @ r"
    using find_char_split [OF i] by (simp add: h_def r_def)
  have len: "length (h @ ''.'') = i + 1" and h: "CHR ''.'' \<notin> set h"
    using find_char_SomeD [OF i] by (simp_all add: h_def)
  have f: "find_from ''.'' token (i + 1) = map_option ((+) (i + 1)) (find_sub ''.'' r)"
    using find_from_append [OF len, of "''.''" r] by (simp add: t1)
  from assms i f obtain j where j: "find_sub ''.'' r = Some j"
    by (cases "find_sub ''.'' r") (auto simp: Verify_def)
  define p where "p = take j r"
  define s where "s = drop (Suc j) r"
  have t2: "token = h @ ''.'' @ p @ ''.'' @ s" and p: "CHR ''.'' \<notin> set p"
    using find_char_split [OF j] find_char_SomeD [OF j] by (simp_all add: t1 p_def s_def)
  have "CHR ''.'' \<notin> set s"
    using assms find_dot_split [OF h p, of s] unfolding t2 Verify_def by (auto simp: Let_def)
  with that t2 h p show thesis by blast
qed

lemma no_dot_Base64URLEncode: "CHR ''.'' \<notin> set (Base64URLEncode d)"
  using Base64URLEncode_chars by blast

lemma Verify_Create:
  assumes \<open>CHR 0x22 \<notin> set username\<close> and "in_int_range 32 user_id" and "in_int_range 64 (now + ttl)"
  shows "Verify (Create user_id username secret ttl now) secret later =
    Inr (if now + ttl < later then None
         else Some \<lparr>claim_id = user_id, claim_username = username, claim_exp = now + ttl\<rparr>)"
proof -
  have "CHR ''.'' \<notin> set (jwt_sign secret x)" for x
    by (simp add: jwt_sign_def no_dot_Base64URLEncode)
  then show ?thesis
    using assms by (simp add: Create_def Let_def Verify_parts [simplified] no_dot_Base64URLEncode
      Base64URLDecode_Encode read_claims_payload comp_def)
qed

section \<open>What acceptance means\<close>

lemma read_claims_SomeD:
  assumes "read_claims payload_json now = Inr (Some c)"
  obtains i where \<open>find_sub ''"id":'' payload_json = Some i\<close>
    and "stoi (drop (i + 5) payload_json) = Inr (claim_id c)" and "now \<le> claim_exp c"
proof -
  from assms obtain i where i: \<open>find_sub ''"id":'' payload_json = Some i\<close>
    by (cases \<open>find_sub ''"id":'' payload_json\<close>) (simp_all add: read_claims_def)
  with assms obtain uid where uid: "stoi (drop (i + 5) payload_json) = Inr uid"
    by (cases "stoi (drop (i + 5) payload_json)") (simp_all add: read_claims_def)
  with i assms obtain u where u: \<open>find_sub ''"username":"'' payload_json = Some u\<close>
    by (cases \<open>find_sub ''"username":"'' payload_json\<close>) (simp_all add: read_claims_def)
  with i uid assms obtain x where x: \<open>find_sub ''"exp":'' payload_json = Some x\<close>
    by (cases \<open>find_sub ''"exp":'' payload_json\<close>) (simp_all add: read_claims_def)
  with i uid u assms obtain e where "stol (drop (x + 6) payload_json) = Inr e"
    by (cases "stol (drop (x + 6) payload_json)") (simp_all add: read_claims_def Let_def)
  with i uid u x assms have "claim_id c = uid \<and> now \<le> claim_exp c"
    by (auto simp: read_claims_def Let_def split: if_splits)
  with that i uid show thesis by blast
qed

lemma read_claims_payload_id:
  assumes "read_claims (jwt_payload_json i u e) now = Inr (Some c)" and "in_int_range 32 i"
  shows "claim_id c = i"
proof -
  have "stoi (drop 6 (jwt_payload_json i u e)) = Inr i"
    using assms(2) stoi_int_to_string [of \<open>'',"username":"'' @ u @ ''","exp":'' @ int_to_string e @ ''}''\<close> i]
    by (simp add: jwt_payload_json_def is_digit_def)
  then show ?thesis
    using read_claims_SomeD [OF assms(1)] by (fastforce simp: find_id_payload)
qed

lemma Verify_accepts:
  assumes "Verify token secret now = Inr (Some c)"
  obtains h p payload_json where "token = h @ ''.'' @ p @ ''.'' @ jwt_sign secret (h @ ''.'' @ p)"
    and "CHR ''.'' \<notin> set h" and "CHR ''.'' \<notin> set p"
    and "Base64URLDecode p = Some payload_json" and "read_claims payload_json now = Inr (Some c)"
proof -
  from assms have "Verify token secret now \<noteq> Inr None" by simp
  then obtain h p s where t: "token = h @ ''.'' @ p @ ''.'' @ s"
    and n: "CHR ''.'' \<notin> set h" "CHR ''.'' \<notin> set p" "CHR ''.'' \<notin> set s"
    by (rule Verify_rejects_other_shapes)
  from assms that n show thesis
    unfolding t Verify_parts [OF n] by (auto split: if_splits option.splits)
qed

section \<open>Properties\<close>

text \<open>
  The token round trip. \<open>Verify\<close> on a token that \<open>Create\<close> issued with the same secret
  never throws, and returns the very identifier, name and expiry the token was issued for, until the
  expiry has passed; afterwards it returns \<open>nullopt\<close>. The name must not hold a double
  quote (registration only admits alphanumeric names), the numbers must fit \<open>int\<close> and \<open>long\<close>.
\<close>

theorem jwt_roundtrip:
  assumes \<open>CHR 0x22 \<notin> set username\<close> and "in_int_range 32 user_id" and "in_int_range 64 (now + ttl)"
  shows "Verify (Create user_id username secret ttl now) secret later =
    Inr (if now + ttl < later then None
         else Some \<lparr>claim_id = user_id, claim_username = username, claim_exp = now + ttl\<rparr>)"
  using assms by (rule Verify_Create)

theorem jwt_roundtrip_witness:
  "Verify (Create 7 ''bob'' ''secret'' 86400 1700000000) ''secret'' 1700000001 =
     Inr (Some \<lparr>claim_id = 7, claim_username = ''bob'', claim_exp = 1700086400\<rparr>) \<and>
   Verify (Create 7 ''bob'' ''secret'' 86400 1700000000) ''secret'' 1700086401 = Inr None"
  using jwt_roundtrip [of "''bob''" 7 1700000000 86400 "''secret''"] by (simp add: in_int_range_def)

text \<open>
  C4: soundness of \<open>Verify\<close>. An accepted token has exactly two dots, its third part is the
  HMAC-SHA256 of the first two under the server's secret, its expiry has not passed, and it is the only
  accepted token with its first two parts: the signature part is not malleable.
\<close>

theorem jwt_sound:
  assumes "Verify token secret now = Inr (Some c)"
  shows "now \<le> claim_exp c \<and>
    (\<exists>h p. token = h @ ''.'' @ p @ ''.'' @ Base64URLEncode (HMAC_SHA256 secret (h @ ''.'' @ p)) \<and>
      CHR ''.'' \<notin> set (h @ p) \<and>
      (\<forall>s. CHR ''.'' \<notin> set s \<longrightarrow> h @ ''.'' @ p @ ''.'' @ s \<noteq> token \<longrightarrow>
        Verify (h @ ''.'' @ p @ ''.'' @ s) secret now = Inr None))"
proof -
  obtain h p q where t: "token = h @ ''.'' @ p @ ''.'' @ jwt_sign secret (h @ ''.'' @ p)"
    and n: "CHR ''.'' \<notin> set h" "CHR ''.'' \<notin> set p" and r: "read_claims q now = Inr (Some c)"
    using assms by (rule Verify_accepts)
  have "Verify (h @ ''.'' @ p @ ''.'' @ s) secret now = Inr None"
    if "CHR ''.'' \<notin> set s" and "h @ ''.'' @ p @ ''.'' @ s \<noteq> token" for s
    using that(2) t unfolding Verify_parts [OF n that(1)] by auto
  moreover from r have "now \<le> claim_exp c" by (rule read_claims_SomeD)
  ultimately show ?thesis using t n by (auto simp: jwt_sign_def)
qed

theorem jwt_sound_witness:
  "1700000001 \<le> (1700086400 :: int) \<and>
    (\<exists>h p. Create 7 ''bob'' ''secret'' 86400 1700000000 =
      h @ ''.'' @ p @ ''.'' @ Base64URLEncode (HMAC_SHA256 ''secret'' (h @ ''.'' @ p)))"
  using jwt_sound [of "Create 7 ''bob'' ''secret'' 86400 1700000000" "''secret''" 1700000001
      "\<lparr>claim_id = 7, claim_username = ''bob'', claim_exp = 1700086400\<rparr>"]
    Verify_Create [of "''bob''" 7 1700000000 86400 "''secret''" 1700000001]
  by (auto simp: in_int_range_def)

text \<open>
  No name can forge an identity. Whatever characters the user name holds, a token that
  \<open>Create\<close> issued and \<open>Verify\<close> accepts carries the identifier it was issued for: the
  identifier precedes the name in the payload and the first match is read.
\<close>

theorem jwt_identity:
  assumes "Verify (Create user_id username secret ttl now) secret later = Inr (Some c)"
    and "in_int_range 32 user_id"
  shows "claim_id c = user_id"
proof -
  have "CHR ''.'' \<notin> set (jwt_sign secret x)" for x
    by (simp add: jwt_sign_def no_dot_Base64URLEncode)
  then have "Verify (Create user_id username secret ttl now) secret later =
      read_claims (jwt_payload_json user_id username (now + ttl)) later"
    by (simp add: Create_def Let_def Verify_parts [simplified] no_dot_Base64URLEncode
      Base64URLDecode_Encode comp_def)
  with assms show ?thesis using read_claims_payload_id by metis
qed

theorem jwt_identity_witness:
  "claim_id \<lparr>claim_id = 7, claim_username = ''bob'', claim_exp = 1700086400\<rparr> = 7"
  using jwt_identity [of 7 "''bob''" "''secret''" 86400 1700000000 1700000001
      "\<lparr>claim_id = 7, claim_username = ''bob'', claim_exp = 1700086400\<rparr>"]
    Verify_Create [of "''bob''" 7 1700000000 86400 "''secret''" 1700000001]
  by (auto simp: in_int_range_def)

end
