(* ===== verification/Validation.thy ===== *)
theory Validation
  imports Prelude
begin

text \<open>
  \<open>utils/Validation.h\<close>: the checks the registration route runs on a user name, an e-mail address
  and a password. Each returns the message of the first failed check, \<^const>\<open>None\<close> when the
  value is accepted. The specifications are grammars: what an accepted name, address or
  password looks like.
\<close>

section \<open>Checks\<close>

definition username_char :: "char \<Rightarrow> bool" where
  "username_char c \<longleftrightarrow> is_alnum c \<or> c = CHR ''_'' \<or> c = CHR ''-''"

definition ValidateUsername :: "string \<Rightarrow> string option" where
  "ValidateUsername username =
     (if length username < 3 then Some ''Username must be at least 3 characters''
      else if 50 < length username then Some ''Username must be at most 50 characters''
      else if \<not> list_all username_char username
        then Some ''Username can only contain letters, numbers, _ and -''
      else None)"

definition invalid_email :: string where
  "invalid_email = ''Invalid email''"

definition local_char :: "char \<Rightarrow> bool" where
  "local_char c \<longleftrightarrow> is_alnum c \<or> c = CHR ''.'' \<or> c = CHR ''_'' \<or> c = CHR ''-'' \<or> c = CHR ''+''"

definition domain_char :: "char \<Rightarrow> bool" where
  "domain_char c \<longleftrightarrow> is_alnum c \<or> c = CHR ''-'' \<or> c = CHR ''.''"

text \<open>The loop over the labels of the domain, from position \<open>pos\<close> on.\<close>

function check_labels :: "string \<Rightarrow> nat \<Rightarrow> string option" where
  "check_labels domain pos =
     (if pos < length domain then
        let dot = (case find_from ''.'' domain pos of Some d \<Rightarrow> d | None \<Rightarrow> length domain);
            label = slice domain pos (dot - pos)
        in if label = [] \<or> 63 < length label then Some invalid_email
           else if hd label = CHR ''-'' \<or> last label = CHR ''-'' then Some invalid_email
           else check_labels domain (dot + 1)
      else None)"
  by pat_completeness auto
termination
  by (relation "measure (\<lambda>(domain, pos). length domain - pos)")
    (auto simp: find_from_def split: option.splits)

declare check_labels.simps [simp del]

definition check_local :: "string \<Rightarrow> string option" where
  "check_local loc =
     (if loc = [] \<or> 64 < length loc then Some invalid_email
      else if hd loc = CHR ''.'' \<or> last loc = CHR ''.'' then Some invalid_email
      else if find_sub ''..'' loc \<noteq> None then Some invalid_email
      else if \<not> list_all local_char loc then Some invalid_email
      else None)"

definition check_domain :: "string \<Rightarrow> string option" where
  "check_domain domain =
     (if domain = [] \<or> 253 < length domain then Some invalid_email
      else if hd domain = CHR ''-'' \<or> last domain = CHR ''-'' then Some invalid_email
      else if hd domain = CHR ''.'' \<or> last domain = CHR ''.'' then Some invalid_email
      else if find_sub ''..'' domain \<noteq> None then Some invalid_email
      else case rfind_char CHR ''.'' domain of
          None \<Rightarrow> Some invalid_email
        | Some last_dot \<Rightarrow>
            if length (drop (last_dot + 1) domain) < 2 then Some invalid_email
            else if \<not> list_all domain_char domain then Some invalid_email
            else check_labels domain 0)"

definition ValidateEmail :: "string \<Rightarrow> string option" where
  "ValidateEmail email =
     (if email = [] then Some ''Email is required''
      else if 254 < length email then Some ''Email too long''
      else case find_sub ''@'' email of
          None \<Rightarrow> Some invalid_email
        | Some at \<Rightarrow>
            if find_from ''@'' email (at + 1) \<noteq> None then Some invalid_email
            else let loc = slice email 0 at; domain = drop (at + 1) email
              in case check_local loc of
                  Some e \<Rightarrow> Some e
                | None \<Rightarrow> check_domain domain)"

definition ValidatePassword :: "string \<Rightarrow> string option" where
  "ValidatePassword password =
     (if length password < 8 then Some ''Password must be at least 8 characters''
      else if 128 < length password then Some ''Password too long''
      else let has_upper = list_ex is_upper password;
               has_lower = list_ex is_lower password;
               has_digit = list_ex is_digit password
           in if \<not> has_upper \<or> \<not> has_lower \<or> \<not> has_digit
              then Some ''Password must contain uppercase, lowercase, and a digit''
              else None)"

section \<open>Labels\<close>

text \<open>The reference: an accepted domain is its labels joined by dots.\<close>

abbreviation atom :: "string \<Rightarrow> bool" where
  "atom l \<equiv> l \<noteq> [] \<and> CHR ''.'' \<notin> set l"

definition label_ok :: "string \<Rightarrow> bool" where
  "label_ok l \<longleftrightarrow> l \<noteq> [] \<and> length l \<le> 63 \<and> hd l \<noteq> CHR ''-'' \<and> last l \<noteq> CHR ''-'' \<and>
     list_all (\<lambda>c. is_alnum c \<or> c = CHR ''-'') l"

abbreviation join_labels :: "string list \<Rightarrow> string" where
  "join_labels ls \<equiv> sep_by ''.'' ls"

definition label_shape :: "string \<Rightarrow> bool" where
  "label_shape l \<longleftrightarrow> l \<noteq> [] \<and> length l \<le> 63 \<and> hd l \<noteq> CHR ''-'' \<and> last l \<noteq> CHR ''-''"

lemma find_dot_takeWhile:
  "(case find_sub ''.'' s of Some d \<Rightarrow> d | None \<Rightarrow> length s) = length (takeWhile (\<lambda>c. c \<noteq> CHR ''.'') s)"
  by (induction s) (auto split: option.splits)

lemma dropWhile_takeWhile_drop: "dropWhile P s = drop (length (takeWhile P s)) s"
  by (metis append_eq_conv_conj takeWhile_dropWhile_id)

text \<open>The loop checks exactly the segments that \<open>std::getline\<close> would yield.\<close>

lemma check_labels_getlines:
  "pos \<le> length domain \<Longrightarrow>
    check_labels domain pos = None \<longleftrightarrow> list_all label_shape (getlines CHR ''.'' (drop pos domain))"
proof (induction domain pos rule: check_labels.induct)
  case (1 domain pos)
  show ?case
  proof (cases "pos < length domain")
    case False
    then show ?thesis by (simp add: check_labels.simps)
  next
    case True
    let ?s = "drop pos domain" and ?w = "takeWhile (\<lambda>c. c \<noteq> CHR ''.'') (drop pos domain)"
    let ?dot = "case find_from ''.'' domain pos of Some d \<Rightarrow> d | None \<Rightarrow> length domain"
    have dot: "?dot = pos + length ?w"
      using True find_dot_takeWhile [of ?s] by (auto simp: find_from_def split: option.splits)
    have lab: "slice domain pos (?dot - pos) = ?w"
      unfolding dot slice_def by (simp add: takeWhile_eq_take [symmetric])
    have rest: "drop 1 (dropWhile (\<lambda>c. c \<noteq> CHR ''.'') ?s) = drop (?dot + 1) domain"
      unfolding dot dropWhile_takeWhile_drop by (simp add: add.commute)
    have g: "getlines CHR ''.'' ?s = ?w # getlines CHR ''.'' (drop (?dot + 1) domain)"
      using True rest by (subst getlines.simps) simp
    have IH: "check_labels domain (?dot + 1) = None \<longleftrightarrow>
        list_all label_shape (getlines CHR ''.'' (drop (?dot + 1) domain))" if "label_shape ?w"
    proof (cases "?dot + 1 \<le> length domain")
      case True
      with "1.IH" [OF \<open>pos < length domain\<close> refl refl] that [unfolded label_shape_def] show ?thesis
        unfolding lab by simp
    next
      case False
      then have "check_labels domain (?dot + 1) = None"
        by (subst check_labels.simps) (simp only: not_le not_less split: if_split, simp)
      with False show ?thesis by simp
    qed
    show ?thesis
      unfolding check_labels.simps [of domain pos] Let_def lab g using True IH
      by (auto simp: label_shape_def [of ?w])
  qed
qed

lemma join_getlines:
  "s \<noteq> [] \<Longrightarrow> last s \<noteq> CHR ''.'' \<Longrightarrow> join_labels (getlines CHR ''.'' s) = s"
proof (induction s rule: length_induct)
  case (1 s)
  show ?case
  proof (cases "CHR ''.'' \<in> set s")
    case False
    with "1.prems" show ?thesis by (simp add: getlines_no_delim)
  next
    case True
    then obtain a r where s: "s = a @ CHR ''.'' # r" and a: "CHR ''.'' \<notin> set a"
      by (metis split_list_first)
    from "1.prems"(2) have r: "r \<noteq> []" "last r \<noteq> CHR ''.''" by (auto simp: s split: if_splits)
    then have "getlines CHR ''.'' r \<noteq> []" by (subst getlines.simps) simp
    with 1 r show ?thesis by (simp add: s getlines_delim [OF a] sep_by_Cons)
  qed
qed

lemma getlines_join: "ls \<noteq> [] \<Longrightarrow> list_all atom ls \<Longrightarrow> getlines CHR ''.'' (join_labels ls) = ls"
proof (induction ls)
  case (Cons l ls)
  then show ?case
    by (cases "ls = []") (simp_all add: getlines_no_delim sep_by_Cons getlines_delim)
qed simp

lemma join_labels_eq_Nil: "list_all atom ls \<Longrightarrow> join_labels ls = [] \<longleftrightarrow> ls = []"
  by (cases ls) (auto simp: sep_by_concat)

lemma last_join_labels: "ls \<noteq> [] \<Longrightarrow> list_all atom ls \<Longrightarrow> last (join_labels ls) = last (last ls)"
  by (induction ls rule: induct_list012) (auto simp: join_labels_eq_Nil)

lemma no_double_dot: "list_all atom ls \<Longrightarrow> find_sub ''..'' (join_labels ls) = None"
proof (induction ls rule: induct_list012)
  case (2 l)
  then show ?case using find_sub_skip [of "''..''" l "[]"] by simp
next
  case (3 l k ks)
  let ?r = "join_labels (k # ks)"
  from 3(3) have "hd ?r = hd k" "?r \<noteq> []"
    using hd_sep_by [of "k # ks"] join_labels_eq_Nil [of "k # ks"] by simp_all
  then have "?r = hd k # tl ?r" by (metis list.collapse)
  moreover have "hd k \<noteq> CHR ''.''" using 3(3) by (cases k) auto
  ultimately have "take (Suc (Suc 0)) (CHR ''.'' # ?r) \<noteq> ''..''"
    by (metis list.inject take_Suc_Cons)
  with 3 have "find_sub ''..'' (CHR ''.'' # ?r) = None" by simp
  then show ?case using 3(3) by (simp add: find_sub_skip)
qed simp

lemma atoms_getlines:
  "s \<noteq> [] \<Longrightarrow> hd s \<noteq> CHR ''.'' \<Longrightarrow> last s \<noteq> CHR ''.'' \<Longrightarrow> find_sub ''..'' s = None \<Longrightarrow>
    list_all atom (getlines CHR ''.'' s)"
proof (induction s rule: length_induct)
  case (1 s)
  show ?case
  proof (cases "CHR ''.'' \<in> set s")
    case False
    with "1.prems" show ?thesis by (simp add: getlines_no_delim)
  next
    case True
    then obtain a r where s: "s = a @ CHR ''.'' # r" and a: "CHR ''.'' \<notin> set a"
      by (metis split_list_first)
    from "1.prems"(2) have "a \<noteq> []" by (auto simp: s)
    from "1.prems"(3) have r: "r \<noteq> []" "last r \<noteq> CHR ''.''" by (auto simp: s split: if_splits)
    from "1.prems"(4) a have f: "find_sub ''..'' (CHR ''.'' # r) = None" by (simp add: s find_sub_skip)
    from f r(1) have "hd r \<noteq> CHR ''.''" by (cases r) auto
    moreover from f have "find_sub ''..'' r = None" by (simp split: if_splits)
    ultimately have "list_all atom (getlines CHR ''.'' r)" using 1 r by (simp add: s)
    with a \<open>a \<noteq> []\<close> show ?thesis by (simp add: s getlines_delim)
  qed
qed

lemma rfind_char_append: "c \<notin> set b \<Longrightarrow> rfind_char c (a @ c # b) = Some (length a)"
  by (simp add: rfind_char_def find_sub_skip)

lemma rfind_char_SomeD:
  assumes "rfind_char c s = Some i"
  shows "i < length s" "c \<in> set s" "s = take i s @ c # drop (Suc i) s" "c \<notin> set (drop (Suc i) s)"
proof -
  from assms have "c \<in> set s"
    using find_char_None_iff [of c "rev s"] by (cases "find_sub [c] (rev s)") (auto simp: rfind_char_def)
  then obtain a b where s: "s = a @ c # b" "c \<notin> set b" by (metis split_list_last)
  with assms have "i = length a" by (simp add: rfind_char_append)
  with s show "i < length s" "c \<in> set s" "s = take i s @ c # drop (Suc i) s" "c \<notin> set (drop (Suc i) s)"
    by simp_all
qed

lemma rfind_char_None_iff: "rfind_char c s = None \<longleftrightarrow> c \<notin> set s"
  by (simp add: rfind_char_def find_char_None_iff)

lemma getlines_append_last:
  "c \<notin> set b \<Longrightarrow> b \<noteq> [] \<Longrightarrow> last (getlines c (a @ c # b)) = b \<and> 2 \<le> length (getlines c (a @ c # b))"
proof (induction a rule: length_induct)
  case (1 a)
  show ?case
  proof (cases "c \<in> set a")
    case False
    with 1 show ?thesis by (simp add: getlines_delim getlines_no_delim)
  next
    case True
    then obtain x y where a: "a = x @ c # y" and x: "c \<notin> set x" by (metis split_list_first)
    with 1 have "last (getlines c (y @ c # b)) = b \<and> 2 \<le> length (getlines c (y @ c # b))" by simp
    moreover from this have "getlines c (y @ c # b) \<noteq> []" by auto
    ultimately show ?thesis by (simp add: a getlines_delim [OF x])
  qed
qed

section \<open>The accepted values\<close>

lemma list_all_join_labels:
  "P CHR ''.'' \<Longrightarrow> list_all P (join_labels ls) \<longleftrightarrow> list_all (list_all P) ls"
  by (induction ls rule: induct_list012) auto

lemma label_ok_atom: "label_ok l \<Longrightarrow> atom l"
  by (auto simp: label_ok_def list_all_iff is_alnum_def is_digit_def is_upper_def is_lower_def)

definition local_ok :: "string \<Rightarrow> bool" where
  "local_ok loc \<longleftrightarrow> length loc \<le> 64 \<and>
     (\<exists>atoms. atoms \<noteq> [] \<and> loc = join_labels atoms \<and>
       list_all (\<lambda>a. a \<noteq> [] \<and> list_all (\<lambda>c. is_alnum c \<or> c \<in> set ''_-+'') a) atoms)"

definition domain_ok :: "string \<Rightarrow> bool" where
  "domain_ok domain \<longleftrightarrow> length domain \<le> 253 \<and>
     (\<exists>labels. domain = join_labels labels \<and> list_all label_ok labels \<and>
       2 \<le> length labels \<and> 2 \<le> length (last labels))"

lemma atom_char_atom: "a \<noteq> [] \<and> list_all (\<lambda>c. is_alnum c \<or> c \<in> set ''_-+'') a \<longleftrightarrow> atom a \<and> list_all local_char a"
  by (auto simp: local_char_def list_all_iff is_alnum_def is_digit_def is_upper_def is_lower_def)

lemma check_local_iff: "check_local loc = None \<longleftrightarrow> local_ok loc"
proof
  assume "check_local loc = None"
  then have *: "loc \<noteq> []" "length loc \<le> 64" "hd loc \<noteq> CHR ''.''" "last loc \<noteq> CHR ''.''"
    "find_sub ''..'' loc = None" "list_all local_char loc"
    by (auto simp: check_local_def split: if_splits)
  then have j: "join_labels (getlines CHR ''.'' loc) = loc" by (simp add: join_getlines)
  have "list_all atom (getlines CHR ''.'' loc)" using * by (simp add: atoms_getlines)
  moreover have "list_all (list_all local_char) (getlines CHR ''.'' loc)"
    using *(6) list_all_join_labels [of local_char "getlines CHR ''.'' loc"] j by (simp add: local_char_def)
  moreover have "getlines CHR ''.'' loc \<noteq> []" using j *(1) by auto
  ultimately have "getlines CHR ''.'' loc \<noteq> [] \<and> loc = join_labels (getlines CHR ''.'' loc) \<and>
      list_all (\<lambda>a. atom a \<and> list_all local_char a) (getlines CHR ''.'' loc)"
    using j by (simp add: list_all_iff)
  then show "local_ok loc"
    unfolding local_ok_def atom_char_atom using *(2) by blast
next
  assume "local_ok loc"
  then obtain atoms where a: "atoms \<noteq> []" "loc = join_labels atoms" "length loc \<le> 64"
    "list_all atom atoms" "list_all (list_all local_char) atoms"
    unfolding local_ok_def atom_char_atom by (auto simp: list_all_iff)
  from a(1,4) have e: "atom (hd atoms)" "atom (last atoms)" by (auto simp: list_all_iff)
  have h: "hd loc = hd (hd atoms)" "last loc = last (last atoms)" "loc \<noteq> []"
    using a e by (simp_all add: hd_sep_by last_join_labels join_labels_eq_Nil)
  have "hd (hd atoms) \<noteq> CHR ''.''" "last (last atoms) \<noteq> CHR ''.''"
    using e by (metis hd_in_set last_in_set)+
  then show "check_local loc = None"
    using a h no_double_dot [OF a(4)] list_all_join_labels [of local_char atoms]
    by (simp add: check_local_def local_char_def)
qed

lemma label_ok_iff: "label_ok l \<longleftrightarrow> label_shape l \<and> atom l \<and> list_all domain_char l"
  by (auto simp: label_ok_def label_shape_def domain_char_def list_all_iff is_alnum_def is_digit_def
    is_upper_def is_lower_def)

lemma check_domain_iff: "check_domain domain = None \<longleftrightarrow> domain_ok domain"
proof
  assume "check_domain domain = None"
  then obtain k where *: "domain \<noteq> []" "length domain \<le> 253" "hd domain \<noteq> CHR ''.''" "last domain \<noteq> CHR ''.''"
    "find_sub ''..'' domain = None" "rfind_char CHR ''.'' domain = Some k" "2 \<le> length (drop (k + 1) domain)"
    "list_all domain_char domain" "check_labels domain 0 = None"
    by (cases "rfind_char CHR ''.'' domain") (auto simp: check_domain_def split: if_splits)
  let ?ls = "getlines CHR ''.'' domain"
  have j: "join_labels ?ls = domain" using * by (simp add: join_getlines)
  have "list_all atom ?ls" using * by (simp add: atoms_getlines)
  moreover have "list_all (list_all domain_char) ?ls"
    using *(8) list_all_join_labels [of domain_char ?ls] j by (simp add: domain_char_def)
  moreover have "list_all label_shape ?ls" using *(9) check_labels_getlines [of 0 domain] by simp
  ultimately have "list_all label_ok ?ls" by (simp add: list_all_iff label_ok_iff)
  moreover have "last ?ls = drop (Suc k) domain \<and> 2 \<le> length ?ls"
    using getlines_append_last [of "CHR ''.''" "drop (Suc k) domain" "take k domain"]
      rfind_char_SomeD [OF *(6)] *(7) by auto
  ultimately show "domain_ok domain" unfolding domain_ok_def using *(2,7) j by (metis Suc_eq_plus1)
next
  assume "domain_ok domain"
  then obtain ls where a: "domain = join_labels ls" "length domain \<le> 253" "list_all label_ok ls"
    "2 \<le> length ls" "2 \<le> length (last ls)"
    unfolding domain_ok_def by blast
  then have "ls \<noteq> []" by auto
  have at: "list_all atom ls" "list_all (list_all domain_char) ls" "list_all label_shape ls"
    using a(3) by (auto simp: list_all_iff label_ok_iff)
  have "label_ok (hd ls)" "label_ok (last ls)" using a(3) \<open>ls \<noteq> []\<close> by (simp_all add: list_all_iff)
  have h: "hd domain = hd (hd ls)" "last domain = last (last ls)" "domain \<noteq> []"
    using a(1) \<open>ls \<noteq> []\<close> at(1) label_ok_atom [OF \<open>label_ok (hd ls)\<close>]
    by (simp_all add: hd_sep_by last_join_labels join_labels_eq_Nil)
  from \<open>label_ok (hd ls)\<close> \<open>label_ok (last ls)\<close> have e: "hd (hd ls) \<noteq> CHR ''.''" "last (last ls) \<noteq> CHR ''.''" "hd (hd ls) \<noteq> CHR ''-''" "last (last ls) \<noteq> CHR ''-''"
    using label_ok_atom by (metis hd_in_set last_in_set label_ok_def)+
  have "ls = butlast ls @ [last ls]" "butlast ls \<noteq> []" using a(4) by (cases ls; auto)+
  then have "domain = join_labels (butlast ls) @ CHR ''.'' # last ls"
    using sep_by_snoc [of "butlast ls" "''.''" "last ls"] a(1) by simp
  then have r: "rfind_char CHR ''.'' domain = Some (length (join_labels (butlast ls)))"
    "drop (length (join_labels (butlast ls)) + 1) domain = last ls"
    using label_ok_atom [OF \<open>label_ok (last ls)\<close>] by (simp_all add: rfind_char_append)
  show "check_domain domain = None"
    using a h e r at no_double_dot [OF at(1)] list_all_join_labels [of domain_char ls]
      check_labels_getlines [of 0 domain] getlines_join [OF \<open>ls \<noteq> []\<close> at(1)]
    by (simp add: check_domain_def domain_char_def)
qed

lemma ValidateEmail_at:
  assumes "CHR ''@'' \<notin> set loc"
  shows "ValidateEmail (loc @ ''@'' @ domain) =
    (if 253 < length loc + length domain then Some ''Email too long''
     else if CHR ''@'' \<in> set domain then Some invalid_email
     else case check_local loc of Some e \<Rightarrow> Some e | None \<Rightarrow> check_domain domain)"
proof -
  have "find_sub ''@'' (loc @ ''@'' @ domain) = Some (length loc)"
    using assms by (simp add: find_sub_skip)
  moreover have "find_from ''@'' (loc @ ''@'' @ domain) (length loc + 1) = None \<longleftrightarrow> CHR ''@'' \<notin> set domain"
    using find_from_append [of "loc @ ''@''" "length loc + 1" "''@''" domain] by (simp add: find_char_None_iff)
  moreover have "slice (loc @ ''@'' @ domain) 0 (length loc) = loc" by (simp add: slice_def)
  ultimately show ?thesis by (simp add: ValidateEmail_def Let_def del: not_None_eq)
qed

lemma ValidateEmail_no_at: "CHR ''@'' \<notin> set email \<Longrightarrow> ValidateEmail email \<noteq> None"
  using find_char_None_iff [of "CHR ''@''" email] by (simp add: ValidateEmail_def)

lemma local_ok_no_at: "local_ok loc \<Longrightarrow> CHR ''@'' \<notin> set loc"
  by (auto simp: check_local_iff [symmetric] check_local_def list_all_iff local_char_def is_alnum_def
    is_digit_def is_upper_def is_lower_def split: if_splits)

lemma domain_ok_no_at: "domain_ok domain \<Longrightarrow> CHR ''@'' \<notin> set domain"
  by (auto simp: check_domain_iff [symmetric] check_domain_def list_all_iff domain_char_def is_alnum_def
    is_digit_def is_upper_def is_lower_def split: if_splits option.splits)

section \<open>Properties\<close>

text \<open>
  C39: the e-mail check is a grammar. \<open>ValidateEmail\<close>, a sequence of some fifteen searches
  and a label loop, accepts exactly the addresses of at most 254 characters that are a local part, one
  \<open>@\<close> and a domain, where the local part is at most 64 characters of non-empty atoms joined
  by single dots and the domain is at least two labels joined by dots, each of 1 to 63
  alphanumerics or inner hyphens, the last of at least two characters.
\<close>

theorem ValidateEmail_grammar:
  "ValidateEmail email = None \<longleftrightarrow>
    length email \<le> 254 \<and> (\<exists>loc domain. email = loc @ ''@'' @ domain \<and> local_ok loc \<and> domain_ok domain)"
proof (cases "CHR ''@'' \<in> set email")
  case False
  then show ?thesis using ValidateEmail_no_at [OF False] by auto
next
  case True
  then obtain loc domain where e: "email = loc @ ''@'' @ domain" and l: "CHR ''@'' \<notin> set loc"
    by (metis append_Cons append_Nil split_list_first)
  have w: "takeWhile (\<lambda>c. c \<noteq> CHR ''@'') (a @ ''@'' @ b) = a" if "CHR ''@'' \<notin> set a" for a b
    using that by (induction a) auto
  have u: "loc' = loc \<and> domain' = domain"
    if "email = loc' @ ''@'' @ domain'" "local_ok loc'" for loc' domain'
  proof -
    from that(2) have "CHR ''@'' \<notin> set loc'" by (rule local_ok_no_at)
    from w [OF this, of domain'] w [OF l, of domain] that(1) e have "loc' = loc" by simp
    with that(1) e show ?thesis by simp
  qed
  have v: "ValidateEmail email = None \<longleftrightarrow> length email \<le> 254 \<and> local_ok loc \<and> domain_ok domain"
    unfolding e ValidateEmail_at [OF l] using domain_ok_no_at [of domain]
      check_local_iff [of loc] check_domain_iff [of domain]
    by (cases "check_local loc") auto
  have "(\<exists>loc domain. email = loc @ ''@'' @ domain \<and> local_ok loc \<and> domain_ok domain) \<longleftrightarrow>
      local_ok loc \<and> domain_ok domain"
    using u e by metis
  with v show ?thesis by simp
qed

text \<open>
  The name and password checks. A user name is accepted exactly when it is 3 to 50
  letters, digits, underscores or hyphens, a password exactly when it is 8 to 128 characters with an
  upper-case letter, a lower-case letter and a digit among them.
\<close>

theorem ValidateUsername_Password:
  "(ValidateUsername u = None \<longleftrightarrow>
      length u \<in> {3..50} \<and> set u \<subseteq> {c. is_alnum c \<or> c = CHR ''_'' \<or> c = CHR ''-''}) \<and>
   (ValidatePassword p = None \<longleftrightarrow>
      length p \<in> {8..128} \<and> set p \<inter> {c. is_upper c} \<noteq> {} \<and> set p \<inter> {c. is_lower c} \<noteq> {} \<and>
      set p \<inter> {c. is_digit c} \<noteq> {})"
  by (auto simp: ValidateUsername_def ValidatePassword_def username_char_def list_all_iff list_ex_iff Let_def)

end
