(* ===== verification/Users.thy ===== *)
theory Users
  imports Jwt Validation Env Routing
begin

text \<open>
  Accounts: \<open>utils/PasswordHash.h\<close>, \<open>UserRepository.cpp\<close>, the handlers of \<open>UserRoutes.cpp\<close> and
  \<open>ExtractAuthenticatedUserFromRequest\<close> of \<open>main.cpp\<close>. The C library's \<open>crypt_r\<close>, the random
  indices for the salt, the clock and the PostgreSQL statements are parameters: the statements of the
  repository are fields of a record, each a function on the database state \<open>'d\<close> that returns rows or
  throws.
\<close>

section \<open>Password hashing\<close>

definition salt_charset :: string where
  "salt_charset = ''./ABCDEFGHIJKLMNOPQRSTUVWXYZabcdefghijklmnopqrstuvwxyz0123456789''"

definition c_str :: "string \<Rightarrow> string" where
  "c_str s = takeWhile (\<lambda>c. c \<noteq> CHR 0x00) s"

definition GenerateSalt :: "int \<Rightarrow> (nat \<Rightarrow> nat) \<Rightarrow> string" where
  "GenerateSalt cost rnd =
     ''$2b$'' @ (if cost < 10 then ''0'' else []) @ int_to_string cost @ ''$'' @
     map (\<lambda>i. salt_charset ! (rnd i mod length salt_charset)) [0..<22]"

text \<open>A null result of \<open>crypt_r\<close> is handed to the string constructor.\<close>

definition HashPassword :: "(string \<Rightarrow> string \<Rightarrow> string option) \<Rightarrow> (nat \<Rightarrow> nat) \<Rightarrow> string \<Rightarrow> string res" where
  "HashPassword crypt rnd password =
     (let salt = GenerateSalt 12 rnd in
      case crypt (c_str password) (c_str salt) of None \<Rightarrow> Inl UndefinedBehaviour | Some r \<Rightarrow> Inr r)"

definition VerifyPassword :: "(string \<Rightarrow> string \<Rightarrow> string option) \<Rightarrow> string \<Rightarrow> string \<Rightarrow> bool" where
  "VerifyPassword crypt password hash =
     (case crypt (c_str password) (c_str hash) of None \<Rightarrow> False | Some r \<Rightarrow> hash = r)"

section \<open>Repository\<close>

record User =
  user_id :: int
  user_name :: string
  user_email :: string
  user_password_hash :: string

text \<open>The statements of the repository: what PostgreSQL answers, and the state after the commit.\<close>

record 'd user_db =
  exec_insert_user :: "string \<Rightarrow> string \<Rightarrow> string \<Rightarrow> 'd \<Rightarrow> (int \<times> string \<times> string) res \<times> 'd"
  exec_count_username :: "string \<Rightarrow> 'd \<Rightarrow> int res"
  exec_count_email :: "string \<Rightarrow> 'd \<Rightarrow> int res"
  exec_select_user :: "string \<Rightarrow> 'd \<Rightarrow> (int \<times> string \<times> string \<times> string) list res"

definition UserCreate :: "'d user_db \<Rightarrow> string \<Rightarrow> string \<Rightarrow> string \<Rightarrow> 'd \<Rightarrow> User res \<times> 'd" where
  "UserCreate db username email password_hash d =
     (case exec_insert_user db username email password_hash d of
        (Inl e, d') \<Rightarrow> (Inl e, d')
      | (Inr (i, u, m), d') \<Rightarrow>
          (Inr \<lparr>user_id = i, user_name = u, user_email = m, user_password_hash = []\<rparr>, d'))"

definition IsUsernameTaken :: "'d user_db \<Rightarrow> string \<Rightarrow> 'd \<Rightarrow> bool res" where
  "IsUsernameTaken db username d = bind_res (exec_count_username db username d) (\<lambda>n. Inr (0 < n))"

definition IsEmailTaken :: "'d user_db \<Rightarrow> string \<Rightarrow> 'd \<Rightarrow> bool res" where
  "IsEmailTaken db email d = bind_res (exec_count_email db email d) (\<lambda>n. Inr (0 < n))"

definition FindByUsername :: "'d user_db \<Rightarrow> string \<Rightarrow> 'd \<Rightarrow> User option res" where
  "FindByUsername db username d =
     bind_res (exec_select_user db username d) (\<lambda>rows.
       Inr (case rows of
              [] \<Rightarrow> None
            | (i, u, m, h) # _ \<Rightarrow>
                Some \<lparr>user_id = i, user_name = u, user_email = m, user_password_hash = h\<rparr>))"

section \<open>Routes\<close>

definition SESSION_SECONDS :: int where
  "SESSION_SECONDS = 7 * 24 * 60 * 60"

record 'd user_deps =
  dep_db :: "'d user_db"
  dep_crypt :: "string \<Rightarrow> string \<Rightarrow> string option"
  dep_random :: "nat \<Rightarrow> nat"
  dep_jwt_secret :: "string option"
  dep_now :: int

definition session_cookie :: "string \<Rightarrow> string" where
  "session_cookie token =
     ''token='' @ token @ ''; HttpOnly; Secure; SameSite=None; Path=/; Max-Age='' @ int_to_string SESSION_SECONDS"

definition issue_session :: "'d user_deps \<Rightarrow> User \<Rightarrow> HttpResponse \<Rightarrow> HttpResponse" where
  "issue_session deps user response =
     (case dep_jwt_secret deps of
        None \<Rightarrow> InternalServerError ''JWT secret not configured''
      | Some secret \<Rightarrow>
          let token = Create (user_id user) (user_name user) secret SESSION_SECONDS (dep_now deps)
          in response\<lparr>res_headers := smap_set ''Set-Cookie'' (session_cookie token) (res_headers response)\<rparr>)"

definition create_account :: "'d user_deps \<Rightarrow> string \<Rightarrow> string \<Rightarrow> string \<Rightarrow> 'd \<Rightarrow> HttpResponse res \<times> 'd" where
  "create_account deps username email password d =
     (case IsUsernameTaken (dep_db deps) username d of
        Inl e \<Rightarrow> (Inl e, d)
      | Inr True \<Rightarrow> (Inr (Conflict ''Username is already taken''), d)
      | Inr False \<Rightarrow>
          (case IsEmailTaken (dep_db deps) email d of
             Inl e \<Rightarrow> (Inl e, d)
           | Inr True \<Rightarrow> (Inr (Conflict ''Email is already taken''), d)
           | Inr False \<Rightarrow>
               (case HashPassword (dep_crypt deps) (dep_random deps) password of
                  Inl e \<Rightarrow> (Inl e, d)
                | Inr hashed \<Rightarrow>
                    (case UserCreate (dep_db deps) username email hashed d of
                       (Inl e, d') \<Rightarrow>
                         (if e = UniqueViolation
                          then Inr (Conflict ''Username or email is already taken'') else Inl e, d')
                     | (Inr newUser, d') \<Rightarrow>
                         (Inr (issue_session deps newUser (Created ''User registered successfully'')), d')))))"

definition register_handler :: "'d user_deps \<Rightarrow> 'd handler" where
  "register_handler deps request d =
     (case BodyParam request ''username'' of
        None \<Rightarrow> (Inr (UnprocessableEntity ''Missing username''), d)
      | Some username \<Rightarrow>
          (case BodyParam request ''email'' of
             None \<Rightarrow> (Inr (UnprocessableEntity ''Missing email''), d)
           | Some email \<Rightarrow>
               (case BodyParam request ''password'' of
                  None \<Rightarrow> (Inr (UnprocessableEntity ''Missing password''), d)
                | Some password \<Rightarrow>
                    (case ValidateUsername username of
                       Some err \<Rightarrow> (Inr (UnprocessableEntity err), d)
                     | None \<Rightarrow>
                         (case ValidateEmail email of
                            Some err \<Rightarrow> (Inr (UnprocessableEntity err), d)
                          | None \<Rightarrow>
                              (case ValidatePassword password of
                                 Some err \<Rightarrow> (Inr (UnprocessableEntity err), d)
                               | None \<Rightarrow> create_account deps username email password d))))))"

definition login_handler :: "'d user_deps \<Rightarrow> 'd handler" where
  "login_handler deps request d =
     (case BodyParam request ''username'' of
        None \<Rightarrow> (Inr (UnprocessableEntity ''Missing username''), d)
      | Some username \<Rightarrow>
          (case BodyParam request ''password'' of
             None \<Rightarrow> (Inr (UnprocessableEntity ''Missing password''), d)
           | Some password \<Rightarrow>
               (case FindByUsername (dep_db deps) username d of
                  Inl e \<Rightarrow> (Inl e, d)
                | Inr None \<Rightarrow> (Inr (Unauthorized ''Invalid username or password''), d)
                | Inr (Some loginUser) \<Rightarrow>
                    if \<not> VerifyPassword (dep_crypt deps) password (user_password_hash loginUser)
                    then (Inr (Unauthorized ''Invalid username or password''), d)
                    else (Inr (issue_session deps loginUser (Ok ''Login successful'')), d))))"

definition logout_handler :: "'d handler" where
  "logout_handler request d =
     (Inr ((Ok ''Logged out'')\<lparr>res_headers :=
        smap_set ''Set-Cookie'' ''token=; HttpOnly; SameSite=Lax; Path=/; Max-Age=0'' []\<rparr>), d)"

definition me_handler :: "'d auth_handler" where
  "me_handler request user d =
     (Inr (Json (''{'' @ [CHR 0x22] @ ''id'' @ [CHR 0x22] @ '':'' @ int_to_string (au_id user) @ '', '' @
        [CHR 0x22] @ ''username'' @ [CHR 0x22] @ '':'' @ [CHR 0x22] @ au_username user @ [CHR 0x22] @ ''}'')), d)"

definition RegisterUserRoutes :: "'d user_deps \<Rightarrow> 'd routes \<Rightarrow> 'd routes" where
  "RegisterUserRoutes deps =
     RegisterAuthenticatedRoute GET ''/api/users/me'' me_handler \<circ>
     RegisterRoute POST ''/api/users/logout'' logout_handler \<circ>
     RegisterRoute POST ''/api/users/login'' (login_handler deps) \<circ>
     RegisterRoute POST ''/api/users/register'' (register_handler deps)"

section \<open>Authentication\<close>

definition cookie_token :: "HttpRequest \<Rightarrow> string" where
  "cookie_token request =
     (case map_of (req_headers request) ''Cookie'' of
        None \<Rightarrow> []
      | Some cookie \<Rightarrow>
          (case find_sub ''token='' cookie of
             None \<Rightarrow> []
           | Some pos \<Rightarrow>
               let start = pos + 6
               in case find_from '';'' cookie start of
                   Some e \<Rightarrow> slice cookie start (e - start)
                 | None \<Rightarrow> drop start cookie))"

text \<open>Every exception of \<open>Verify\<close> is caught; undefined behaviour is not one.\<close>

definition ExtractAuthenticatedUser ::
    "string option \<Rightarrow> int \<Rightarrow> HttpRequest \<Rightarrow> AuthenticatedUser option res" where
  "ExtractAuthenticatedUser jwt_secret now request =
     (let token = cookie_token request in
      if token = [] then Inr None
      else case jwt_secret of
          None \<Rightarrow> Inr None
        | Some secret \<Rightarrow>
            (case Verify token secret now of
               Inl e \<Rightarrow> if e = UndefinedBehaviour then Inl UndefinedBehaviour else Inr None
             | Inr None \<Rightarrow> Inr None
             | Inr (Some c) \<Rightarrow> Inr (Some \<lparr>au_id = claim_id c, au_username = claim_username c\<rparr>)))"
section \<open>What PostgreSQL and \<open>crypt_r\<close> promise\<close>

text \<open>
  \<open>sql_users db table\<close>: the statements of the repository work on the table that \<open>table\<close> reads off
  the database state. Each may fail with an exception. A count and a selection that succeed see every
  row; an insertion appends one row with a fresh 32-bit serial number, or leaves the table alone.
\<close>

definition user_row :: "User \<Rightarrow> int \<times> string \<times> string \<times> string" where
  "user_row u = (user_id u, user_name u, user_email u, user_password_hash u)"

definition sql_users :: "'d user_db \<Rightarrow> ('d \<Rightarrow> User list) \<Rightarrow> bool" where
  "sql_users db table \<longleftrightarrow>
     (\<forall>u d n. exec_count_username db u d = Inr n \<longrightarrow> n = int (length (filter (\<lambda>r. user_name r = u) (table d)))) \<and>
     (\<forall>m d n. exec_count_email db m d = Inr n \<longrightarrow> n = int (length (filter (\<lambda>r. user_email r = m) (table d)))) \<and>
     (\<forall>u d rs. exec_select_user db u d = Inr rs \<longrightarrow> rs = map user_row (filter (\<lambda>r. user_name r = u) (table d))) \<and>
     (\<forall>u m h d e d'. exec_insert_user db u m h d = (Inl e, d') \<longrightarrow> table d' = table d) \<and>
     (\<forall>u m h d i u' m' d'. exec_insert_user db u m h d = (Inr (i, u', m'), d') \<longrightarrow>
        u' = u \<and> m' = m \<and> in_int_range 32 i \<and> i \<notin> user_id ` set (table d) \<and>
        table d' = table d @ [\<lparr>user_id = i, user_name = u, user_email = m, user_password_hash = h\<rparr>])"

text \<open>A hash made from a well-formed setting is itself a setting that gives the same hash.\<close>

definition crypt_law :: "(string \<Rightarrow> string \<Rightarrow> string option) \<Rightarrow> bool" where
  "crypt_law crypt \<longleftrightarrow>
     (\<forall>p rnd h. crypt (c_str p) (GenerateSalt 12 rnd) = Some h \<longrightarrow>
        crypt (c_str p) h = Some h \<and> CHR 0x00 \<notin> set h)"

lemma c_str_id: "CHR 0x00 \<notin> set s \<Longrightarrow> c_str s = s"
  by (auto simp: c_str_def takeWhile_eq_all_conv)

lemma GenerateSalt_shape:
  "length (GenerateSalt 12 rnd) = 29 \<and> take 7 (GenerateSalt 12 rnd) = ''$2b$12$'' \<and>
   set (drop 7 (GenerateSalt 12 rnd)) \<subseteq> set salt_charset"
proof -
  have "int_to_string 12 = ''12''" by code_simp
  moreover have "salt_charset ! (n mod length salt_charset) \<in> set salt_charset" for n
    by (rule nth_mem) (simp add: salt_charset_def)
  ultimately show ?thesis by (auto simp: GenerateSalt_def numeral_eq_Suc)
qed

lemma GenerateSalt_no_NUL: "CHR 0x00 \<notin> set (GenerateSalt 12 rnd)"
proof -
  have "CHR 0x00 \<notin> set salt_charset" by (simp add: salt_charset_def)
  moreover have "set (GenerateSalt 12 rnd) \<subseteq> set ''$2b$12$'' \<union> set salt_charset"
    using GenerateSalt_shape [of rnd] set_append [of "take 7 (GenerateSalt 12 rnd)" "drop 7 (GenerateSalt 12 rnd)"]
    unfolding append_take_drop_id by (metis Un_mono order_refl)
  ultimately show ?thesis by auto
qed

lemma HashPassword_Inr:
  "HashPassword crypt rnd p = Inr h \<longleftrightarrow> crypt (c_str p) (GenerateSalt 12 rnd) = Some h"
  by (simp add: HashPassword_def Let_def c_str_id [OF GenerateSalt_no_NUL] split: option.split)

lemma Verify_HashPassword:
  assumes "crypt_law crypt" and "HashPassword crypt rnd p = Inr h"
  shows "VerifyPassword crypt p h"
proof -
  from assms have "crypt (c_str p) h = Some h" "c_str h = h"
    unfolding crypt_law_def HashPassword_Inr by (blast, blast intro: c_str_id)
  then show ?thesis by (simp add: VerifyPassword_def)
qed

section \<open>Registration\<close>

lemma filter_length_pos: "0 < int (length (filter P xs)) \<longleftrightarrow> (\<exists>x \<in> set xs. P x)"
  by (simp add: filter_empty_conv)

lemma not_taken:
  assumes "sql_users db table"
  shows "IsUsernameTaken db u d = Inr b \<Longrightarrow> b \<longleftrightarrow> u \<in> user_name ` set (table d)"
    and "IsEmailTaken db m d = Inr b \<Longrightarrow> b \<longleftrightarrow> m \<in> user_email ` set (table d)"
proof -
  have "IsUsernameTaken db u d = Inr b \<Longrightarrow> b \<longleftrightarrow> (\<exists>r \<in> set (table d). user_name r = u)"
    using assms unfolding sql_users_def IsUsernameTaken_def bind_res_eq_Inr
    by (metis (mono_tags, lifting) filter_length_pos sum.inject(2))
  then show "IsUsernameTaken db u d = Inr b \<Longrightarrow> b \<longleftrightarrow> u \<in> user_name ` set (table d)" by auto
  have "IsEmailTaken db m d = Inr b \<Longrightarrow> b \<longleftrightarrow> (\<exists>r \<in> set (table d). user_email r = m)"
    using assms unfolding sql_users_def IsEmailTaken_def bind_res_eq_Inr
    by (metis (mono_tags, lifting) filter_length_pos sum.inject(2))
  then show "IsEmailTaken db m d = Inr b \<Longrightarrow> b \<longleftrightarrow> m \<in> user_email ` set (table d)" by auto
qed

text \<open>
  The outcome of \<open>create_account\<close>: an account is added only for a free name and e-mail address, with a
  hash of the password; in every other case, exceptions included, the table stays as it was.
\<close>

lemma create_account_outcome:
  assumes "sql_users (dep_db deps) table" and "create_account deps u m p d = (res, d')"
  shows "(table d' = table d \<and> (\<forall>r. res = Inr r \<longrightarrow> res_status_code r = 409)) \<or>
    (\<exists>i h. table d' = table d @ [\<lparr>user_id = i, user_name = u, user_email = m, user_password_hash = h\<rparr>] \<and>
       HashPassword (dep_crypt deps) (dep_random deps) p = Inr h \<and>
       u \<notin> user_name ` set (table d) \<and> m \<notin> user_email ` set (table d) \<and>
       i \<notin> user_id ` set (table d) \<and> in_int_range 32 i \<and>
       res = Inr (issue_session deps \<lparr>user_id = i, user_name = u, user_email = m, user_password_hash = []\<rparr>
         (Created ''User registered successfully'')))"
proof (cases "IsUsernameTaken (dep_db deps) u d = Inr False \<and> IsEmailTaken (dep_db deps) m d = Inr False")
  case False
  then have "d' = d \<and> (\<forall>r. res = Inr r \<longrightarrow> res_status_code r = 409)"
    using assms(2) by (auto simp: create_account_def response_defs split: sum.splits bool.splits)
  then show ?thesis by simp
next
  case free: True
  show ?thesis
  proof (cases "HashPassword (dep_crypt deps) (dep_random deps) p")
    case (Inl e)
    then show ?thesis using assms(2) free by (auto simp: create_account_def)
  next
    case (Inr h)
    obtain ins d1 where i: "exec_insert_user (dep_db deps) u m h d = (ins, d1)" by fastforce
    show ?thesis
    proof (cases ins)
      case (Inl e)
      then have "table d1 = table d" using assms(1) i unfolding sql_users_def by blast
      then show ?thesis using assms(2) free Inr Inl i
        by (auto simp: create_account_def UserCreate_def response_defs split: if_splits)
    next
      case row: (Inr row)
      obtain k u' m' where "row = (k, u', m')" by (cases row)
      with i row have ins: "exec_insert_user (dep_db deps) u m h d = (Inr (k, u', m'), d1)" by simp
      with assms(1) have "u' = u \<and> m' = m \<and> in_int_range 32 k \<and> k \<notin> user_id ` set (table d) \<and>
        table d1 = table d @ [\<lparr>user_id = k, user_name = u, user_email = m, user_password_hash = h\<rparr>]"
        unfolding sql_users_def by blast
      moreover have "u \<notin> user_name ` set (table d)" "m \<notin> user_email ` set (table d)"
        using free not_taken [OF assms(1)] by blast+
      ultimately show ?thesis using assms(2) free Inr ins by (simp add: create_account_def UserCreate_def)
    qed
  qed
qed
text \<open>The guards of the registration handler, as one condition on the form.\<close>

definition register_form :: "HttpRequest \<Rightarrow> string \<Rightarrow> string \<Rightarrow> string \<Rightarrow> bool" where
  "register_form request u m p \<longleftrightarrow>
     BodyParam request ''username'' = Some u \<and> BodyParam request ''email'' = Some m \<and>
     BodyParam request ''password'' = Some p \<and>
     ValidateUsername u = None \<and> ValidateEmail m = None \<and> ValidatePassword p = None"

lemma register_handler_form:
  "register_form request u m p \<Longrightarrow> register_handler deps request d = create_account deps u m p d"
  by (simp add: register_form_def register_handler_def)

lemma register_handler_rejects:
  assumes "\<nexists>u m p. register_form request u m p"
  shows "\<exists>msg. register_handler deps request d = (Inr (UnprocessableEntity msg), d)"
  using assms by (auto simp: register_form_def register_handler_def split: option.split)

lemma login_handler_state: "snd (login_handler deps request d) = d"
  by (simp add: login_handler_def split: option.split sum.split)

text \<open>
  The account routes at work: each step is one request, handled with the same database and hash
  function but its own clock, randomness and signing key.
\<close>

inductive accounts_reach :: "'d user_db \<Rightarrow> (string \<Rightarrow> string \<Rightarrow> string option) \<Rightarrow> 'd \<Rightarrow> 'd \<Rightarrow> bool"
  for db crypt where
  accounts_start: "accounts_reach db crypt d d"
| accounts_register: "accounts_reach db crypt d d' \<Longrightarrow> dep_db deps = db \<Longrightarrow> dep_crypt deps = crypt \<Longrightarrow>
    accounts_reach db crypt d (snd (register_handler deps request d'))"
| accounts_login: "accounts_reach db crypt d d' \<Longrightarrow> dep_db deps = db \<Longrightarrow> dep_crypt deps = crypt \<Longrightarrow>
    accounts_reach db crypt d (snd (login_handler deps request d'))"
| accounts_logout: "accounts_reach db crypt d d' \<Longrightarrow> accounts_reach db crypt d (snd (logout_handler request d'))"
| accounts_me: "accounts_reach db crypt d d' \<Longrightarrow> accounts_reach db crypt d (snd (me_handler request user d'))"

lemma accounts_reach_trans:
  assumes "accounts_reach db crypt d' d''" and "accounts_reach db crypt d d'"
  shows "accounts_reach db crypt d d''"
  using assms by (induction rule: accounts_reach.induct) (blast intro: accounts_reach.intros)+

text \<open>A handler either leaves the table alone or adds one row that passed every check.\<close>

definition new_account :: "(string \<Rightarrow> string \<Rightarrow> string option) \<Rightarrow> User list \<Rightarrow> User \<Rightarrow> bool" where
  "new_account crypt rows r \<longleftrightarrow>
     user_name r \<notin> user_name ` set rows \<and> user_email r \<notin> user_email ` set rows \<and>
     user_id r \<notin> user_id ` set rows \<and> in_int_range 32 (user_id r) \<and>
     ValidateUsername (user_name r) = None \<and> ValidateEmail (user_email r) = None \<and>
     (\<exists>p rnd. ValidatePassword p = None \<and> HashPassword crypt rnd p = Inr (user_password_hash r))"

lemma register_handler_table:
  assumes "sql_users (dep_db deps) table"
  shows "table (snd (register_handler deps request d)) = table d \<or>
    (\<exists>r. new_account (dep_crypt deps) (table d) r \<and>
       table (snd (register_handler deps request d)) = table d @ [r])"
proof (cases "\<exists>u m p. register_form request u m p")
  case False
  then have "snd (register_handler deps request d) = d" by (metis register_handler_rejects snd_conv)
  then show ?thesis by simp
next
  case True
  then obtain u m p where f: "register_form request u m p" by blast
  obtain res d' where c: "create_account deps u m p d = (res, d')" by fastforce
  have "ValidateUsername u = None" "ValidateEmail m = None" "ValidatePassword p = None"
    using f by (simp_all add: register_form_def)
  then have "new_account (dep_crypt deps) (table d) \<lparr>user_id = i, user_name = u, user_email = m, user_password_hash = h\<rparr>"
    if "HashPassword (dep_crypt deps) (dep_random deps) p = Inr h" "u \<notin> user_name ` set (table d)"
      "m \<notin> user_email ` set (table d)" "i \<notin> user_id ` set (table d)" "in_int_range 32 i" for i h
    using that by (auto simp: new_account_def)
  with create_account_outcome [OF assms c] show ?thesis
    unfolding register_handler_form [OF f] c snd_conv by blast
qed

definition accounts_ok :: "(string \<Rightarrow> string \<Rightarrow> string option) \<Rightarrow> User list \<Rightarrow> bool" where
  "accounts_ok crypt rows \<longleftrightarrow>
     distinct (map user_name rows) \<and> distinct (map user_email rows) \<and> distinct (map user_id rows) \<and>
     (\<forall>r \<in> set rows. in_int_range 32 (user_id r) \<and> ValidateUsername (user_name r) = None \<and>
        ValidateEmail (user_email r) = None \<and>
        (\<exists>p rnd. ValidatePassword p = None \<and> HashPassword crypt rnd p = Inr (user_password_hash r)))"

lemma accounts_ok_snoc: "accounts_ok crypt rows \<Longrightarrow> new_account crypt rows r \<Longrightarrow> accounts_ok crypt (rows @ [r])"
  unfolding accounts_ok_def new_account_def by auto

lemma accounts_reach_rows:
  assumes "accounts_reach db crypt d d'" and "sql_users db table" and "accounts_ok crypt (table d)"
  shows "accounts_ok crypt (table d') \<and> (\<exists>rs. table d' = table d @ rs)"
  using assms
proof (induction rule: accounts_reach.induct)
  case (accounts_register d d' deps request)
  then show ?case
    using register_handler_table [of deps table request d'] accounts_ok_snoc [of crypt "table d'"] by auto
qed (auto simp: login_handler_state logout_handler_def me_handler_def)
section \<open>Sessions\<close>

lemma Create_no_semicolon: "CHR '';'' \<notin> set (Create i u secret ttl now)"
  using Base64URLEncode_chars by (fastforce simp: Create_def Let_def jwt_sign_def)

lemma Create_nonempty: "Create i u secret ttl now \<noteq> []"
  by (simp add: Create_def Let_def)

lemma cookie_token_first:
  assumes "map_of (req_headers request) ''Cookie'' = Some (''token='' @ tok @ rest)"
    and "CHR '';'' \<notin> set tok" and "rest = [] \<or> hd rest = CHR '';''"
  shows "cookie_token request = tok"
proof -
  have f: "find_sub ''token='' (''token='' @ tok @ rest) = Some 0" by (rule find_sub_prefix)
  have g: "find_from '';'' (''token='' @ tok @ rest) (0 + 6) = map_option ((+) 6) (find_sub '';'' (tok @ rest))"
    using find_from_append [of "''token=''" 6 "'';''" "tok @ rest"] by simp
  have n: "find_sub '';'' (tok @ rest) = (if rest = [] then None else Some (length tok))"
    using assms(2,3) by (cases rest) (simp_all add: find_sub_skip find_char_None_iff)
  have s: "slice (''token='' @ tok @ rest) 6 (length tok) = tok"
    by (rule slice_append) simp_all
  show ?thesis
    unfolding cookie_token_def assms(1) option.case f Let_def g n using s by simp
qed

text \<open>What a browser sends back of a \<open>Set-Cookie\<close> header: the part before the attributes.\<close>

definition cookie_pair :: "string \<Rightarrow> string" where
  "cookie_pair set_cookie = takeWhile (\<lambda>c. c \<noteq> CHR '';'') set_cookie"

lemma cookie_pair_session:
  assumes "CHR '';'' \<notin> set tok"
  shows "cookie_pair (session_cookie tok) = ''token='' @ tok"
proof -
  have "takeWhile (\<lambda>c. c \<noteq> CHR '';'') ((''token='' @ tok) @ s) = (''token='' @ tok) @ takeWhile (\<lambda>c. c \<noteq> CHR '';'') s" for s
    using assms by (intro takeWhile_append2) auto
  then show ?thesis by (simp add: cookie_pair_def session_cookie_def)
qed

lemma issue_session_cookie:
  assumes "dep_jwt_secret deps = Some secret"
  shows "map_of (res_headers (issue_session deps user response)) ''Set-Cookie'' =
    Some (session_cookie (Create (user_id user) (user_name user) secret SESSION_SECONDS (dep_now deps)))"
  using assms by (simp add: issue_session_def Let_def update_conv')

lemma ExtractAuthenticatedUser_session:
  assumes "map_of (req_headers request) ''Cookie'' =
      Some (cookie_pair (session_cookie (Create i u secret ttl now)) @ rest)"
    and "rest = [] \<or> hd rest = CHR '';''" and \<open>CHR 0x22 \<notin> set u\<close> and "in_int_range 32 i" and "in_int_range 64 (now + ttl)"
  shows "ExtractAuthenticatedUser (Some secret) later request =
    Inr (if now + ttl < later then None else Some \<lparr>au_id = i, au_username = u\<rparr>)"
proof -
  have "cookie_token request = Create i u secret ttl now"
    using assms(1,2) Create_no_semicolon
    by (intro cookie_token_first) (simp_all add: cookie_pair_session)
  then show ?thesis
    using Verify_Create [OF assms(3-5)] by (simp add: ExtractAuthenticatedUser_def Create_nonempty)
qed

lemma ValidateUsername_no_quote: "ValidateUsername u = None \<Longrightarrow> CHR 0x22 \<notin> set u"
  by (auto simp: ValidateUsername_def list_all_iff username_char_def is_alnum_def is_digit_def
    is_upper_def is_lower_def split: if_splits)

section \<open>A table of users\<close>

text \<open>The statements on an in-memory table, with the schema's unique columns and serial numbers.\<close>

definition list_db :: "User list user_db" where
  "list_db = \<lparr>
     exec_insert_user = (\<lambda>u m h rows.
       if u \<in> user_name ` set rows \<or> m \<in> user_email ` set rows then (Inl UniqueViolation, rows)
       else let i = 1 + foldr max (map user_id rows) 0 in
         if in_int_range 32 i
         then (Inr (i, u, m), rows @ [\<lparr>user_id = i, user_name = u, user_email = m, user_password_hash = h\<rparr>])
         else (Inl UnknownException, rows)),
     exec_count_username = (\<lambda>u rows. Inr (int (length (filter (\<lambda>r. user_name r = u) rows)))),
     exec_count_email = (\<lambda>m rows. Inr (int (length (filter (\<lambda>r. user_email r = m) rows)))),
     exec_select_user = (\<lambda>u rows. Inr (map user_row (filter (\<lambda>r. user_name r = u) rows)))\<rparr>"

lemma foldr_max_ge: "x \<in> set xs \<Longrightarrow> x \<le> foldr max xs (a :: int)"
  by (induction xs) (auto simp: le_max_iff_disj)

lemma sql_users_list_db: "sql_users list_db (\<lambda>rows. rows)"
proof -
  have "1 + foldr max (map user_id rows) 0 \<notin> user_id ` set rows" for rows
    using foldr_max_ge [of "1 + foldr max (map user_id rows) 0" "map user_id rows" 0] by auto
  then show ?thesis by (auto simp: sql_users_def list_db_def Let_def split: if_splits)
qed

definition echo_crypt :: "string \<Rightarrow> string \<Rightarrow> string option" where
  "echo_crypt p s = (if length s < 29 then None else Some (take 29 s @ p))"

lemma crypt_law_echo: "crypt_law echo_crypt"
proof -
  have "CHR 0x00 \<notin> set (c_str p)" for p by (auto simp: c_str_def dest: set_takeWhileD)
  then show ?thesis
    using GenerateSalt_shape GenerateSalt_no_NUL by (auto simp: crypt_law_def echo_crypt_def)
qed
section \<open>Properties\<close>

lemma filter_distinct_map: "distinct (map f xs) \<Longrightarrow> x \<in> set xs \<Longrightarrow> filter (\<lambda>y. f y = f x) xs = [x]"
proof (induction xs)
  case (Cons a xs)
  show ?case
  proof (cases "x = a")
    case True
    with Cons.prems(1) have "f x \<notin> f ` set xs" by simp
    then have "filter (\<lambda>y. f y = f x) xs = []" by (metis (mono_tags, lifting) filter_False image_eqI)
    with True show ?thesis by simp
  next
    case False
    with Cons.prems have "x \<in> set xs" "f a \<noteq> f x" by auto
    with Cons show ?thesis by simp
  qed
qed simp

lemma FindByUsername_unique:
  assumes "sql_users db table" and "distinct (map user_name (table d))" and "r \<in> set (table d)"
    and "exec_select_user db (user_name r) d = Inr rs"
  shows "FindByUsername db (user_name r) d = Inr (Some r)"
proof -
  from assms(2,3) have "filter (\<lambda>x. user_name x = user_name r) (table d) = [r]"
    by (rule filter_distinct_map)
  moreover have "rs = map user_row (filter (\<lambda>x. user_name x = user_name r) (table d))"
    using assms(1,4) unfolding sql_users_def by blast
  ultimately have "rs = [user_row r]" by simp
  with assms(4) show ?thesis by (simp add: FindByUsername_def user_row_def)
qed

lemma issue_session_code:
  "res_status_code (issue_session deps user (Created b)) = (if dep_jwt_secret deps = None then 500 else 201)"
  by (auto simp: issue_session_def response_defs Let_def split: option.split)

text \<open>
  Every outcome of a registration. A form with a missing or invalid field is answered 422 and
  touches nothing. With a valid form, either the table stays as it was and the answer, if the handler
  does not throw, is 409; or exactly one row is appended, with a fresh name, e-mail address and
  number, the hash of the password, and a session for the new user.
\<close>

theorem register_outcome:
  assumes "sql_users (dep_db deps) table" and "register_handler deps request d = (res, d')"
  shows "((\<nexists>u m p. register_form request u m p) \<and> d' = d \<and> (\<exists>msg. res = Inr (UnprocessableEntity msg))) \<or>
    (\<exists>u m p. register_form request u m p \<and>
      ((table d' = table d \<and> (\<forall>r. res = Inr r \<longrightarrow> res_status_code r = 409)) \<or>
       (\<exists>i h. table d' = table d @ [\<lparr>user_id = i, user_name = u, user_email = m, user_password_hash = h\<rparr>] \<and>
          HashPassword (dep_crypt deps) (dep_random deps) p = Inr h \<and>
          u \<notin> user_name ` set (table d) \<and> m \<notin> user_email ` set (table d) \<and>
          i \<notin> user_id ` set (table d) \<and> in_int_range 32 i \<and>
          res = Inr (issue_session deps \<lparr>user_id = i, user_name = u, user_email = m, user_password_hash = []\<rparr>
            (Created ''User registered successfully'')))))"
proof (cases "\<exists>u m p. register_form request u m p")
  case True
  then obtain u m p where f: "register_form request u m p" by blast
  with assms(2) have "create_account deps u m p d = (res, d')" by (simp add: register_handler_form)
  from create_account_outcome [OF assms(1) this] f show ?thesis by blast
next
  case False
  with register_handler_rejects [OF False, of deps d] assms(2) show ?thesis by auto
qed

text \<open>
  C12: the table of accounts stays sound. Starting from an empty table, after any sequence of account
  requests no two accounts share a name, an e-mail address or a number, and every account has a name
  and an address that pass the checks and the hash of a password that does.
\<close>

theorem accounts_invariant:
  assumes "sql_users db table" and "table d0 = []" and "accounts_reach db crypt d0 d"
  shows "distinct (map user_name (table d)) \<and> distinct (map user_email (table d)) \<and>
    distinct (map user_id (table d)) \<and>
    (\<forall>r \<in> set (table d). in_int_range 32 (user_id r) \<and> ValidateUsername (user_name r) = None \<and>
      ValidateEmail (user_email r) = None \<and>
      (\<exists>p rnd. ValidatePassword p = None \<and> HashPassword crypt rnd p = Inr (user_password_hash r)))"
  using accounts_reach_rows [OF assms(3,1)] assms(2) by (simp add: accounts_ok_def)

text \<open>
  C2: who registered can log in. After a registration that was answered 201, and any later account
  requests, a login with the same name finds that account: the registered password is accepted, any
  other exactly when \<open>crypt_r\<close> gives the same hash, and the session is for the number that the
  registration issued.
\<close>

theorem register_then_login:
  assumes "sql_users db table" and "crypt_law crypt" and "table d0 = []" and "accounts_reach db crypt d0 d"
    and "dep_db deps = db" and "dep_crypt deps = crypt" and "register_form reg u m p"
    and "register_handler deps reg d = (Inr r, d1)" and "res_status_code r = 201"
    and "accounts_reach db crypt d1 d2" and "exec_select_user db u d2 = Inr rs"
    and "dep_db deps' = db" and "dep_crypt deps' = crypt"
    and "BodyParam req ''username'' = Some u" and "BodyParam req ''password'' = Some q"
  shows "\<exists>i h. HashPassword crypt (dep_random deps) p = Inr h \<and> VerifyPassword crypt p h \<and>
    r = issue_session deps \<lparr>user_id = i, user_name = u, user_email = m, user_password_hash = []\<rparr>
      (Created ''User registered successfully'') \<and>
    login_handler deps' req d2 =
      (Inr (if VerifyPassword crypt q h
        then issue_session deps' \<lparr>user_id = i, user_name = u, user_email = m, user_password_hash = h\<rparr>
          (Ok ''Login successful'')
        else Unauthorized ''Invalid username or password''), d2)"
proof -
  have c: "create_account deps u m p d = (Inr r, d1)"
    using assms(7,8) by (simp add: register_handler_form)
  from assms(1,5) have sql: "sql_users (dep_db deps) table" by simp
  from create_account_outcome [OF sql c] assms(9) obtain i h
    where t: "table d1 = table d @ [\<lparr>user_id = i, user_name = u, user_email = m, user_password_hash = h\<rparr>]"
      and h: "HashPassword crypt (dep_random deps) p = Inr h"
      and r: "r = issue_session deps \<lparr>user_id = i, user_name = u, user_email = m, user_password_hash = []\<rparr>
        (Created ''User registered successfully'')"
    using assms(6) by auto
  let ?row = "\<lparr>user_id = i, user_name = u, user_email = m, user_password_hash = h\<rparr>"
  have "accounts_reach db crypt d0 d1"
    using accounts_register [OF assms(4-6), of reg] assms(8) by simp
  then have reach: "accounts_reach db crypt d0 d2" "accounts_ok crypt (table d1)"
    using accounts_reach_trans [OF assms(10)] accounts_reach_rows [of db crypt d0 d1 table] assms(1,3)
    by (auto simp: accounts_ok_def)
  then have "accounts_ok crypt (table d2)" "?row \<in> set (table d2)"
    using accounts_reach_rows [OF assms(10,1)] t by auto
  with assms(1,11) have "FindByUsername db u d2 = Inr (Some ?row)"
    using FindByUsername_unique [of db table d2 ?row rs] by (simp add: accounts_ok_def)
  then have "login_handler deps' req d2 = (Inr (if VerifyPassword crypt q h
      then issue_session deps' ?row (Ok ''Login successful'')
      else Unauthorized ''Invalid username or password''), d2)"
    using assms(12-15) by (simp add: login_handler_def)
  with h r Verify_HashPassword [OF assms(2) h] show ?thesis by blast
qed

section \<open>Witnesses\<close>

definition demo_deps :: "User list user_deps" where
  "demo_deps = \<lparr>dep_db = list_db, dep_crypt = echo_crypt, dep_random = (\<lambda>_. 0),
     dep_jwt_secret = Some ''secret'', dep_now = 1000\<rparr>"

definition demo_register :: HttpRequest where
  "demo_register = empty_request\<lparr>req_body_params :=
     [(''username'', ''alice''), (''email'', ''alice@example.com''), (''password'', ''Passw0rd'')]\<rparr>"

definition demo_login :: "string \<Rightarrow> HttpRequest" where
  "demo_login q = empty_request\<lparr>req_body_params := [(''username'', ''alice''), (''password'', q)]\<rparr>"

definition demo_hash :: string where
  "demo_hash = ''$2b$12$......................Passw0rd''"

definition demo_user :: User where
  "demo_user = \<lparr>user_id = 1, user_name = ''alice'', user_email = ''alice@example.com'',
     user_password_hash = demo_hash\<rparr>"

lemma demo_form: "register_form demo_register ''alice'' ''alice@example.com'' ''Passw0rd''"
proof -
  have "ValidateUsername ''alice'' = None" "ValidateEmail ''alice@example.com'' = None"
    "ValidatePassword ''Passw0rd'' = None" by code_simp+
  then show ?thesis by (simp add: register_form_def demo_register_def BodyParam_def)
qed

lemma demo_HashPassword: "HashPassword echo_crypt (\<lambda>_. 0) ''Passw0rd'' = Inr demo_hash"
  by code_simp

lemma demo_create:
  "register_handler demo_deps demo_register [] =
    (Inr (issue_session demo_deps (demo_user\<lparr>user_password_hash := []\<rparr>) (Created ''User registered successfully'')),
     [demo_user])"
  using demo_HashPassword unfolding register_handler_form [OF demo_form]
  by (simp add: create_account_def IsUsernameTaken_def IsEmailTaken_def UserCreate_def demo_deps_def list_db_def
    demo_user_def in_int_range_def)

lemma demo_reach: "accounts_reach list_db echo_crypt [] [demo_user]"
  using accounts_register [OF accounts_start, of demo_deps list_db echo_crypt "[]" demo_register]
  by (simp add: demo_create) (simp add: demo_deps_def)

theorem register_outcome_witness:
  "res_status_code (projr (fst (register_handler demo_deps demo_register []))) = 201 \<and>
   snd (register_handler demo_deps empty_request []) = []"
proof -
  have none: "\<nexists>u m p. register_form empty_request u m p"
    by (simp add: register_form_def empty_request_def BodyParam_def)
  have "sql_users (dep_db demo_deps) (\<lambda>rows. rows)"
    by (simp add: demo_deps_def sql_users_list_db)
  from register_outcome [OF this demo_create] register_outcome [OF this, of empty_request "[]"] none
  show ?thesis by (auto simp: demo_create issue_session_code) (simp add: demo_deps_def, metis prod.collapse)
qed

theorem accounts_invariant_witness:
  "distinct (map user_name [demo_user]) \<and> ValidateEmail (user_email demo_user) = None"
  using accounts_invariant [OF sql_users_list_db refl demo_reach] by simp

theorem register_then_login_witness:
  "login_handler demo_deps (demo_login ''Passw0rd'') [demo_user] =
     (Inr (issue_session demo_deps demo_user (Ok ''Login successful'')), [demo_user]) \<and>
   login_handler demo_deps (demo_login ''passw0rd'') [demo_user] =
     (Inr (Unauthorized ''Invalid username or password''), [demo_user])"
proof -
  let ?r = "issue_session demo_deps (demo_user\<lparr>user_password_hash := []\<rparr>) (Created ''User registered successfully'')"
  have code: "res_status_code ?r = 201" by (simp add: issue_session_code demo_deps_def)
  have deps: "dep_db demo_deps = list_db" "dep_crypt demo_deps = echo_crypt" "dep_random demo_deps = (\<lambda>_. 0)"
    by (simp_all add: demo_deps_def)
  have sel: "exec_select_user list_db ''alice'' [demo_user] = Inr [user_row demo_user]"
    by (simp add: list_db_def demo_user_def)
  have params: "BodyParam (demo_login q) ''username'' = Some ''alice''" "BodyParam (demo_login q) ''password'' = Some q" for q
    by (simp_all add: demo_login_def BodyParam_def)
  have id: "\<exists>i. ?r = issue_session demo_deps \<lparr>user_id = i, user_name = ''alice'', user_email = ''alice@example.com'',
      user_password_hash = []\<rparr> (Created ''User registered successfully'') \<and>
    login_handler demo_deps (demo_login q) [demo_user] =
      (Inr (if VerifyPassword echo_crypt q demo_hash
        then issue_session demo_deps \<lparr>user_id = i, user_name = ''alice'', user_email = ''alice@example.com'',
          user_password_hash = demo_hash\<rparr> (Ok ''Login successful'')
        else Unauthorized ''Invalid username or password''), [demo_user])" for q
    using register_then_login [OF sql_users_list_db crypt_law_echo refl accounts_start deps(1,2) demo_form demo_create
      code accounts_start sel deps(1,2) params] demo_HashPassword by (simp add: deps)
  have v: "VerifyPassword echo_crypt ''Passw0rd'' demo_hash" "\<not> VerifyPassword echo_crypt ''passw0rd'' demo_hash"
    by code_simp+
  have f: "FindByUsername list_db ''alice'' [demo_user] = Inr (Some demo_user)"
    using FindByUsername_unique [OF sql_users_list_db, of "[demo_user]" demo_user "[user_row demo_user]"] sel
    by (simp add: demo_user_def)
  show ?thesis using id [of "''Passw0rd''"] id [of "''passw0rd''"] v f
    by (auto simp: login_handler_def params deps demo_user_def)
qed


end
