(* ===== verification/Streams.thy ===== *)
theory Streams
  imports Viewers Users Env
begin

text \<open>
  Broadcasting: \<open>StreamRepository.cpp\<close>, \<open>types/Stream.h\<close> and \<open>routes/stream-route/StreamerRoutes.cpp\<close>:
  the signalling socket \<open>/sig\<close>, the packets of the WebRTC tracks, the encoder process, and the two
  listing routes. The WebRTC library is a parameter: which of the calls made to it throw, and the calls
  themselves are recorded in the session. So are the JSON texts and the SQL statements.
\<close>

section \<open>Repository\<close>

record Stream =
  stream_id :: string
  stream_user_id :: int
  stream_title :: string
  stream_status :: string
  stream_started_at :: string
  stream_ended_at :: "string option"
  stream_username :: string

text \<open>Rows as the statements return them: a null \<open>ended_at\<close> or \<open>title\<close> is \<open>None\<close>.\<close>

record 'd stream_db =
  exec_end_all :: "'d \<Rightarrow> unit res \<times> 'd"
  exec_insert_stream :: "string \<Rightarrow> int \<Rightarrow> string \<Rightarrow> 'd \<Rightarrow> (string \<times> int \<times> string \<times> string \<times> string) res \<times> 'd"
  exec_set_ended :: "string \<Rightarrow> 'd \<Rightarrow> unit res \<times> 'd"
  exec_select_stream :: "string \<Rightarrow> 'd \<Rightarrow> (string \<times> int \<times> string \<times> string \<times> string \<times> string option) list res"
  exec_select_active :: "'d \<Rightarrow> (string \<times> int \<times> string \<times> string \<times> string \<times> string) list res"
  exec_select_history :: "int \<Rightarrow> 'd \<Rightarrow> (string \<times> int \<times> string option \<times> string \<times> string \<times> string option) list res"

definition EndAll :: "'d stream_db \<Rightarrow> 'd \<Rightarrow> unit res \<times> 'd" where
  "EndAll db d = exec_end_all db d"

definition StreamCreate :: "'d stream_db \<Rightarrow> int \<Rightarrow> string \<Rightarrow> string \<Rightarrow> 'd \<Rightarrow> Stream res \<times> 'd" where
  "StreamCreate db userId streamId title d =
     (case exec_insert_stream db streamId userId title d of
        (Inl e, d') \<Rightarrow> (Inl e, d')
      | (Inr (i, u, t, st, started), d') \<Rightarrow>
          (Inr \<lparr>stream_id = i, stream_user_id = u, stream_title = t, stream_status = st,
             stream_started_at = started, stream_ended_at = None, stream_username = []\<rparr>, d'))"

definition SetEnded :: "'d stream_db \<Rightarrow> string \<Rightarrow> 'd \<Rightarrow> unit res \<times> 'd" where
  "SetEnded db streamId d = exec_set_ended db streamId d"

definition FindById :: "'d stream_db \<Rightarrow> string \<Rightarrow> 'd \<Rightarrow> Stream option res" where
  "FindById db streamId d =
     bind_res (exec_select_stream db streamId d) (\<lambda>rows. Inr (case rows of
        [] \<Rightarrow> None
      | (i, u, t, st, started, ended) # _ \<Rightarrow>
          Some \<lparr>stream_id = i, stream_user_id = u, stream_title = t, stream_status = st,
            stream_started_at = started, stream_ended_at = ended, stream_username = []\<rparr>))"

definition GetActive :: "'d stream_db \<Rightarrow> 'd \<Rightarrow> Stream list res" where
  "GetActive db d =
     bind_res (exec_select_active db d) (\<lambda>rows. Inr (map (\<lambda>(i, u, t, st, started, name).
       \<lparr>stream_id = i, stream_user_id = u, stream_title = t, stream_status = st,
         stream_started_at = started, stream_ended_at = None, stream_username = name\<rparr>) rows))"

definition GetHistoryByUserId :: "'d stream_db \<Rightarrow> int \<Rightarrow> 'd \<Rightarrow> Stream list res" where
  "GetHistoryByUserId db userId d =
     bind_res (exec_select_history db userId d) (\<lambda>rows. Inr (map (\<lambda>(i, u, t, st, started, ended).
       \<lparr>stream_id = i, stream_user_id = u, stream_title = (case t of None \<Rightarrow> [] | Some x \<Rightarrow> x), stream_status = st,
         stream_started_at = started,
         stream_ended_at = Some (case ended of None \<Rightarrow> [] | Some x \<Rightarrow> x), stream_username = []\<rparr>) rows))"

section \<open>Stream identifiers\<close>

definition hex_char :: "nat \<Rightarrow> char" where
  "hex_char d = (if d < 10 then char_of (48 + d) else char_of (87 + d))"

text \<open>\<open>std::hex\<close> with \<open>setfill('0')\<close> and \<open>setw(w)\<close>, for values of at most \<open>w\<close> digits.\<close>

fun hex_digits :: "nat \<Rightarrow> nat \<Rightarrow> string" where
  "hex_digits 0 n = []"
| "hex_digits (Suc w) n = hex_digits w (n div 16) @ [hex_char (n mod 16)]"

definition GenerateStreamId :: "(nat \<Rightarrow> u32) \<Rightarrow> string" where
  "GenerateStreamId rnd =
     hex_digits 8 (unat (rnd 0)) @ ''-'' @
     hex_digits 4 (unat (rnd 1 AND 0xFFFF)) @ ''-'' @
     hex_digits 4 (unat (rnd 2 AND 0xFFFF)) @ ''-'' @
     hex_digits 4 (unat (rnd 3 AND 0xFFFF)) @ ''-'' @
     hex_digits 8 (unat (rnd 4)) @ hex_digits 4 (unat (rnd 5 AND 0xFFFF))"

section \<open>Sessions\<close>

datatype pc_call = SetRemoteDescription string | AddRemoteCandidate string string | PcClose

record session =
  sess_streamId :: string
  sess_outputDirectory :: string
  sess_outputFormat :: string
  sess_dbStreamId :: string
  sess_videoPacketCounter :: int
  sess_hasRemoteDescription :: bool
  sess_earlyCandidates :: "(string \<times> string) list"
  sess_ffmpeg :: "string list"
  sess_ffmpeg_running :: bool
  sess_audioPacketCounter :: int
  sess_videoSocketFd :: int
  sess_videoUdpPort :: int
  sess_audioSocketFd :: int
  sess_audioUdpPort :: int
  sess_uploader :: "string \<times> string"
  sess_isLive :: bool
  sess_pc :: "pc_call list"
  sess_sdp_files :: "(string \<times> string) list"
  sess_video_out :: "byte list list"
  sess_audio_out :: "byte list list"

text \<open>
  The constructor. The audio counter, the sockets and the ports have no initialiser: they are what the
  memory held.
\<close>

definition new_session :: "string \<Rightarrow> string \<Rightarrow> int \<Rightarrow> session" where
  "new_session streamId dir garbage = \<lparr>
     sess_streamId = streamId, sess_outputDirectory = dir, sess_outputFormat = ''.m3u8'', sess_dbStreamId = [],
     sess_videoPacketCounter = 0, sess_hasRemoteDescription = False, sess_earlyCandidates = [],
     sess_ffmpeg = [], sess_ffmpeg_running = False, sess_audioPacketCounter = garbage,
     sess_videoSocketFd = garbage, sess_videoUdpPort = garbage, sess_audioSocketFd = garbage, sess_audioUdpPort = garbage,
     sess_uploader = ([], []),
     sess_isLive = True, sess_pc = [], sess_sdp_files = [], sess_video_out = [], sess_audio_out = []\<rparr>"

section \<open>Signalling\<close>

text \<open>What the handler asks of a parsed message; each accessor may throw.\<close>

record signal =
  sig_type :: "string res"
  sig_sdp :: "string res"
  sig_candidate :: "string res"
  sig_mid :: "string res"

text \<open>A call to the peer connection: it is made, and may throw.\<close>

definition call_pc :: "(pc_call \<Rightarrow> exn option) \<Rightarrow> pc_call \<Rightarrow> session \<Rightarrow> session \<times> exn option" where
  "call_pc throws c s = (s\<lparr>sess_pc := sess_pc s @ [c]\<rparr>, throws c)"

fun flush_candidates :: "(pc_call \<Rightarrow> exn option) \<Rightarrow> (string \<times> string) list \<Rightarrow> session \<Rightarrow> session \<times> exn option" where
  "flush_candidates throws [] s = (s, None)"
| "flush_candidates throws ((c, mid) # cs) s =
     (case call_pc throws (AddRemoteCandidate c mid) s of
        (s', Some e) \<Rightarrow> (s', Some e)
      | (s', None) \<Rightarrow> flush_candidates throws cs s')"

definition signal_offer :: "(pc_call \<Rightarrow> exn option) \<Rightarrow> signal \<Rightarrow> session \<Rightarrow> session" where
  "signal_offer throws m s =
     (case sig_sdp m of
        Inl e \<Rightarrow> s
      | Inr sdp \<Rightarrow>
          (case call_pc throws (SetRemoteDescription sdp) s of
             (s1, Some e) \<Rightarrow> s1
           | (s1, None) \<Rightarrow>
               (case flush_candidates throws (sess_earlyCandidates s1) s1 of
                  (s2, Some e) \<Rightarrow> s2
                | (s2, None) \<Rightarrow> s2\<lparr>sess_earlyCandidates := [], sess_hasRemoteDescription := True\<rparr>)))"

definition signal_candidate :: "(pc_call \<Rightarrow> exn option) \<Rightarrow> signal \<Rightarrow> session \<Rightarrow> session" where
  "signal_candidate throws m s =
     (case sig_candidate m of
        Inl e \<Rightarrow> s
      | Inr candidateStr \<Rightarrow>
          if candidateStr = [] then s
          else
            let candidate = (if take 2 candidateStr = ''a='' then drop 2 candidateStr else candidateStr) in
            case sig_mid m of
              Inl e \<Rightarrow> s
            | Inr mid \<Rightarrow>
                if sess_hasRemoteDescription s
                then fst (call_pc throws (AddRemoteCandidate candidate mid) s)
                else s\<lparr>sess_earlyCandidates := sess_earlyCandidates s @ [(candidate, mid)]\<rparr>)"

text \<open>The message callback of \<open>/sig\<close>: every exception is caught and reported.\<close>

definition on_signal ::
    "(string \<Rightarrow> signal res) \<Rightarrow> (pc_call \<Rightarrow> exn option) \<Rightarrow> byte list \<Rightarrow> WsOpcode \<Rightarrow> session \<Rightarrow> session" where
  "on_signal parse throws data opcode s =
     (if opcode \<noteq> TEXT then s
      else case parse (string_of data) of
          Inl e \<Rightarrow> s
        | Inr m \<Rightarrow>
            (case sig_type m of
               Inl e \<Rightarrow> s
             | Inr type \<Rightarrow>
                 if type = ''offer'' then signal_offer throws m s
                 else if type = ''candidate'' then signal_candidate throws m s
                 else s))"
section \<open>Media\<close>

abbreviation nl :: string where
  "nl \<equiv> [CHR 0x0A]"

definition GenerateSdpString :: "int \<Rightarrow> int \<Rightarrow> string" where
  "GenerateSdpString videoPort audioPort =
     ''v=0'' @ nl @ ''o=- 0 0 IN IP4 127.0.0.1'' @ nl @ ''s=Ryklys Node Stream'' @ nl @
     ''c=IN IP4 127.0.0.1'' @ nl @ ''t=0 0'' @ nl @
     ''m=video '' @ int_to_string videoPort @ '' RTP/AVP 96'' @ nl @
     ''a=rtpmap:96 H264/90000'' @ nl @
     ''a=fmtp:96 profile-level-id=42e01f;level-asymmetry-allowed=1;packetization-mode=1'' @ nl @
     ''m=audio '' @ int_to_string audioPort @ '' RTP/AVP 111'' @ nl @
     ''a=rtpmap:111 opus/48000/2'' @ nl"

definition first_packet_sdp :: "int \<Rightarrow> nat \<Rightarrow> string" where
  "first_packet_sdp port pt =
     ''v=0'' @ nl @ ''o=- 0 0 IN IP4 127.0.0.1'' @ nl @ ''s=Ryklys Node Stream'' @ nl @
     ''c=IN IP4 127.0.0.1'' @ nl @ ''t=0 0'' @ nl @
     ''m=video '' @ int_to_string port @ '' RTP/AVP '' @ nat_to_string pt @ nl @
     ''a=rtpmap:'' @ nat_to_string pt @ '' H264/90000'' @ nl @
     ''a=fmtp:'' @ nat_to_string pt @
     '' profile-level-id=42e01f;level-asymmetry-allowed=1;'' @ ''packetization-mode=1'' @ nl"

definition ffmpeg_command :: "string \<Rightarrow> string \<Rightarrow> string" where
  "ffmpeg_command sdpFilename outputPath =
     ''ffmpeg -hide_banner -loglevel info '' @
     ''-protocol_whitelist file,udp,rtp '' @
     ''-analyzeduration 2000000 '' @
     ''-probesize 1000000 '' @
     ''-fflags +genpts+discardcorrupt+nobuffer '' @
     ''-flags low_delay '' @
     ''-use_wallclock_as_timestamps 1 '' @
     ''-i '' @ sdpFilename @ '' '' @
     ''-c:v libx264 -preset ultrafast -tune zerolatency '' @
     ''-crf 23 '' @
     ''-r 30 '' @
     ''-g 30 -keyint_min 30 '' @
     ''-an '' @
     ''-f hls '' @
     ''-hls_time 1 '' @
     ''-hls_list_size 3 '' @
     ''-hls_flags delete_segments+append_list '' @
     ''-flush_packets 1 '' @
     ''-y '' @ outputPath"

text \<open>Starting the encoder on the first video packet; \<open>popen\<close> may fail.\<close>

definition start_ffmpeg :: "(string \<Rightarrow> bool) \<Rightarrow> nat \<Rightarrow> session \<Rightarrow> session" where
  "start_ffmpeg popen_ok pt s =
     (let sdpFilename = ''/tmp/'' @ sess_streamId s @ ''.sdp'';
          outputPath = sess_outputDirectory s @ ''/'' @ sess_streamId s @ ''/'' @ sess_streamId s @ sess_outputFormat s;
          cmd = ffmpeg_command sdpFilename outputPath
      in s\<lparr>sess_sdp_files := (sdpFilename, first_packet_sdp (sess_videoUdpPort s) pt) # sess_sdp_files s,
           sess_ffmpeg := sess_ffmpeg s @ [cmd], sess_ffmpeg_running := popen_ok cmd\<rparr>)"

text \<open>The filter for control packets, on the raw second byte and on its low seven bits.\<close>

definition is_rtcp :: "byte list \<Rightarrow> bool" where
  "is_rtcp message \<longleftrightarrow>
     (let byte1 = message ! 1 in
      (200 \<le> byte1 \<and> byte1 \<le> 206) \<or>
      (72 \<le> byte1 AND 0x7F \<and> byte1 AND 0x7F \<le> 76 \<and> length message < 200))"

definition payload_type :: "byte list \<Rightarrow> nat" where
  "payload_type message = unat (message ! 1 AND 0x7F)"

definition on_packet :: "(string \<Rightarrow> bool) \<Rightarrow> string \<Rightarrow> byte list \<Rightarrow> session \<Rightarrow> session" where
  "on_packet popen_ok trackType message s =
     (if length message < 2 then s
      else if is_rtcp message then s
      else if trackType = ''video'' then
        let count = sess_videoPacketCounter s;
            s1 = s\<lparr>sess_videoPacketCounter := count + 1\<rparr>;
            s2 = (if count = 0 then start_ffmpeg popen_ok (payload_type message) s1 else s1)
        in if sess_videoSocketFd s2 < 0 then s2 else s2\<lparr>sess_video_out := sess_video_out s2 @ [message]\<rparr>
      else if trackType = ''audio'' then
        let s1 = s\<lparr>sess_audioPacketCounter := sess_audioPacketCounter s + 1\<rparr>
        in if sess_audioSocketFd s1 < 0 then s1 else s1\<lparr>sess_audio_out := sess_audio_out s1 @ [message]\<rparr>
      else s)"

datatype pc_state = PcNew | PcConnecting | PcConnected | PcDisconnected | PcFailed | PcClosed

definition on_pc_state :: "pc_state \<Rightarrow> session \<Rightarrow> session" where
  "on_pc_state st s =
     (if st \<in> {PcDisconnected, PcFailed, PcClosed} then s\<lparr>sess_ffmpeg_running := False\<rparr> else s)"

text \<open>
  The session of a new streamer. The upload thread that is started here is the subject of another theory; the
  directories that are created hold what the encoder writes, which is an input there.
\<close>

definition createPeerConnection ::
    "(string \<Rightarrow> string option) \<Rightarrow> smap \<Rightarrow> string \<Rightarrow> int \<times> int \<Rightarrow> int \<times> int \<Rightarrow> int \<Rightarrow> session" where
  "createPeerConnection env vars streamId ports fds garbage =
     (new_session streamId ''./recordings'' garbage)\<lparr>
       sess_uploader := (GetEnvDefault env vars ''STREAM_POCKET_UPLOAD_URL'' ''http://localhost:7070'',
                         GetEnvDefault env vars ''STREAM_POCKET_SERVER_SECRET'' ''123''),
       sess_videoUdpPort := fst ports, sess_audioUdpPort := snd ports,
       sess_videoSocketFd := fst fds, sess_audioSocketFd := snd fds\<rparr>"

section \<open>The signalling socket's life\<close>

text \<open>The setup function of \<open>/sig\<close>: a row for the stream, then the session.\<close>

definition sig_open ::
    "'d stream_db \<Rightarrow> (nat \<Rightarrow> u32) \<Rightarrow> session \<Rightarrow> AuthenticatedUser \<Rightarrow> 'd \<Rightarrow> session res \<times> 'd" where
  "sig_open db rnd fresh user d =
     (let streamDbId = GenerateStreamId rnd in
      case StreamCreate db (au_id user) streamDbId ''Live Stream'' d of
        (Inl e, d') \<Rightarrow> (Inl e, d')
      | (Inr stream, d') \<Rightarrow> (Inr (fresh\<lparr>sess_dbStreamId := streamDbId\<rparr>), d'))"

definition sig_close ::
    "'d stream_db \<Rightarrow> 'd backends \<Rightarrow> AuthenticatedUser \<Rightarrow> u16 \<Rightarrow> session \<times> 'd node \<Rightarrow> exn option \<times> session \<times> 'd node" where
  "sig_close db be user code sn =
     (case sn of (s, n) \<Rightarrow>
        if code < 1000 \<or> 4999 < code then (None, s, n)
        else
          let s1 = s\<lparr>sess_isLive := False\<rparr> in
          case SetEnded db (sess_dbStreamId s1) (store n) of
            (Inl e, d) \<Rightarrow> (Some e, s1, n\<lparr>store := d\<rparr>)
          | (Inr _, d) \<Rightarrow>
              let n1 = CleanupStream be (au_username user) (n\<lparr>store := d\<rparr>)
              in (None, s1\<lparr>sess_pc := sess_pc s1 @ [PcClose]\<rparr>, n1))"

section \<open>Listing routes\<close>

text \<open>The loop over the active streams; the count is the number Redis has, or 0 without one.\<close>

fun live_rows ::
    "(string \<Rightarrow> 'd \<Rightarrow> string option res \<times> 'd) \<Rightarrow> Stream list \<Rightarrow> 'd \<Rightarrow> (Stream \<times> int) list res \<times> 'd" where
  "live_rows get [] d = (Inr [], d)"
| "live_rows get (s # ss) d =
     (case get (viewers_key (stream_username s)) d of
        (Inl e, d') \<Rightarrow> (Inl e, d')
      | (Inr countOpt, d') \<Rightarrow>
          (case (case countOpt of None \<Rightarrow> Inr 0 | Some v \<Rightarrow> stoi v) of
             Inl e \<Rightarrow> (Inl e, d')
           | Inr viewerCount \<Rightarrow>
               (case live_rows get ss d' of
                  (Inl e, d'') \<Rightarrow> (Inl e, d'')
                | (Inr rows, d'') \<Rightarrow> (Inr ((s, viewerCount) # rows), d''))))"

definition live_streams_handler ::
    "'d stream_db \<Rightarrow> (string \<Rightarrow> 'd \<Rightarrow> string option res \<times> 'd) \<Rightarrow> ((Stream \<times> int) list \<Rightarrow> string res) \<Rightarrow> 'd handler" where
  "live_streams_handler db get dump req d =
     (case GetActive db d of
        Inl e \<Rightarrow> (Inl e, d)
      | Inr streams \<Rightarrow>
          (case live_rows get streams d of
             (Inl e, d') \<Rightarrow> (Inl e, d')
           | (Inr rows, d') \<Rightarrow> (bind_res (dump rows) (\<lambda>arr. Inr (Json arr)), d')))"

definition history_json_row :: "Stream \<Rightarrow> string res" where
  \<open>history_json_row s =
     (case stream_ended_at s of
        None \<Rightarrow> Inl BadOptionalAccess
      | Some ended \<Rightarrow> Inr (
          ''{"id":"'' @ stream_id s @ ''"'' @
          '',"title":"'' @ stream_title s @ ''"'' @
          '',"status":"'' @ stream_status s @ ''"'' @
          '',"started_at":"'' @ stream_started_at s @ ''"'' @
          '',"ended_at":"'' @ ended @ ''"}''))\<close>

fun history_rows :: "Stream list \<Rightarrow> string list res" where
  "history_rows [] = Inr []"
| "history_rows (s # ss) = bind_res (history_json_row s) (\<lambda>r. bind_res (history_rows ss) (\<lambda>rs. Inr (r # rs)))"

definition my_streams_handler :: "'d stream_db \<Rightarrow> 'd auth_handler" where
  "my_streams_handler db request authUser d =
     (case bind_res (GetHistoryByUserId db (au_id authUser) d) history_rows of
        Inl e \<Rightarrow> (Inl e, d)
      | Inr rows \<Rightarrow> (Inr (Json (''['' @ sep_by '','' rows @ '']'')), d))"

definition RegisterStreamerRoutes ::
    "'d stream_db \<Rightarrow> (string \<Rightarrow> 'd \<Rightarrow> string option res \<times> 'd) \<Rightarrow> ((Stream \<times> int) list \<Rightarrow> string res) \<Rightarrow> 'd routes \<Rightarrow> 'd routes" where
  "RegisterStreamerRoutes db get dump =
     RegisterAuthenticatedRoute GET ''/api/users/me/streams'' (my_streams_handler db) \<circ>
     RegisterRoute GET ''/api/streams/live'' (live_streams_handler db get dump)"
section \<open>Candidates are delivered in order\<close>

fun candidates_of :: "pc_call list \<Rightarrow> (string \<times> string) list" where
  "candidates_of [] = []"
| "candidates_of (AddRemoteCandidate c mid # cs) = (c, mid) # candidates_of cs"
| "candidates_of (_ # cs) = candidates_of cs"

lemma candidates_of_append [simp]: "candidates_of (xs @ ys) = candidates_of xs @ candidates_of ys"
  by (induction xs rule: candidates_of.induct) simp_all

text \<open>What a message asks for, read off the message alone.\<close>

definition offers :: "(string \<Rightarrow> signal res) \<Rightarrow> byte list \<times> WsOpcode \<Rightarrow> bool" where
  "offers parse msg \<longleftrightarrow> (case msg of (data, opcode) \<Rightarrow> opcode = TEXT \<and>
     (case parse (string_of data) of Inl _ \<Rightarrow> False
      | Inr m \<Rightarrow> sig_type m = Inr ''offer'' \<and> (\<exists>sdp. sig_sdp m = Inr sdp)))"

definition candidate_in :: "(string \<Rightarrow> signal res) \<Rightarrow> byte list \<times> WsOpcode \<Rightarrow> (string \<times> string) list" where
  "candidate_in parse msg = (case msg of (data, opcode) \<Rightarrow>
     if opcode \<noteq> TEXT then []
     else case parse (string_of data) of Inl _ \<Rightarrow> []
       | Inr m \<Rightarrow>
           (case (sig_type m, sig_candidate m, sig_mid m) of
              (Inr type, Inr c, Inr mid) \<Rightarrow>
                if type = ''candidate'' \<and> c \<noteq> [] then [(if take 2 c = ''a='' then drop 2 c else c, mid)] else []
            | _ \<Rightarrow> []))"

lemma flush_candidates_all:
  "flush_candidates (\<lambda>_. None) cs s =
    (s\<lparr>sess_pc := sess_pc s @ map (\<lambda>(c, mid). AddRemoteCandidate c mid) cs\<rparr>, None)"
  by (induction cs arbitrary: s) (auto simp: call_pc_def)

lemma candidates_of_map [simp]: "candidates_of (map (\<lambda>(c, mid). AddRemoteCandidate c mid) cs) = cs"
  by (induction cs) auto

definition signalled :: "(string \<Rightarrow> signal res) \<Rightarrow> (byte list \<times> WsOpcode) list \<Rightarrow> session \<Rightarrow> bool" where
  "signalled parse msgs s \<longleftrightarrow>
     (sess_hasRemoteDescription s \<longleftrightarrow> list_ex (offers parse) msgs) \<and>
     candidates_of (sess_pc s) @ sess_earlyCandidates s = concat (map (candidate_in parse) msgs) \<and>
     (if sess_hasRemoteDescription s then sess_earlyCandidates s = [] \<and> (\<exists>sdp cs. sess_pc s = SetRemoteDescription sdp # cs)
      else sess_pc s = [])"

lemma on_signal_candidate:
  assumes m: "opcode = TEXT" "parse (string_of data) = Inr m" and 2: "sig_type m = Inr ''candidate''"
  shows "\<not> offers parse (data, opcode) \<and>
    ((candidate_in parse (data, opcode) = [] \<and> on_signal parse (\<lambda>_. None) data opcode s = s) \<or>
     (\<exists>c mid. candidate_in parse (data, opcode) = [(c, mid)] \<and>
      on_signal parse (\<lambda>_. None) data opcode s =
        (if sess_hasRemoteDescription s then s\<lparr>sess_pc := sess_pc s @ [AddRemoteCandidate c mid]\<rparr>
         else s\<lparr>sess_earlyCandidates := sess_earlyCandidates s @ [(c, mid)]\<rparr>)))"
proof -
  have o: "\<not> offers parse (data, opcode)" using m 2 by (simp add: offers_def)
  show ?thesis
  proof (cases "\<exists>c mid. sig_candidate m = Inr c \<and> sig_mid m = Inr mid \<and> c \<noteq> []")
    case False
    then have "on_signal parse (\<lambda>_. None) data opcode s = s" "candidate_in parse (data, opcode) = []"
      using m 2 by (cases "sig_candidate m"; cases "sig_mid m"; simp add: on_signal_def candidate_in_def signal_candidate_def)+
    with o show ?thesis by blast
  next
    case True
    then obtain c mid where cm: "sig_candidate m = Inr c" "sig_mid m = Inr mid" "c \<noteq> []" by blast
    let ?c = "if take 2 c = ''a='' then drop 2 c else c"
    have "candidate_in parse (data, opcode) = [(?c, mid)]"
      "on_signal parse (\<lambda>_. None) data opcode s =
        (if sess_hasRemoteDescription s then s\<lparr>sess_pc := sess_pc s @ [AddRemoteCandidate ?c mid]\<rparr>
         else s\<lparr>sess_earlyCandidates := sess_earlyCandidates s @ [(?c, mid)]\<rparr>)"
      using m 2 cm by (simp_all add: on_signal_def candidate_in_def signal_candidate_def call_pc_def split del: if_split)
        (simp add: call_pc_def split: if_split)
    with o show ?thesis by blast
  qed
qed

lemma on_signal_effect:
  "(\<not> offers parse (data, opcode) \<and> candidate_in parse (data, opcode) = [] \<and>
      on_signal parse (\<lambda>_. None) data opcode s = s) \<or>
   (\<exists>sdp. offers parse (data, opcode) \<and> candidate_in parse (data, opcode) = [] \<and>
      on_signal parse (\<lambda>_. None) data opcode s =
        s\<lparr>sess_pc := sess_pc s @ SetRemoteDescription sdp # map (\<lambda>(c, mid). AddRemoteCandidate c mid) (sess_earlyCandidates s),
          sess_earlyCandidates := [], sess_hasRemoteDescription := True\<rparr>) \<or>
   (\<exists>c mid. \<not> offers parse (data, opcode) \<and> candidate_in parse (data, opcode) = [(c, mid)] \<and>
      on_signal parse (\<lambda>_. None) data opcode s =
        (if sess_hasRemoteDescription s then s\<lparr>sess_pc := sess_pc s @ [AddRemoteCandidate c mid]\<rparr>
         else s\<lparr>sess_earlyCandidates := sess_earlyCandidates s @ [(c, mid)]\<rparr>))"
proof (cases "opcode = TEXT \<and> (\<exists>m type. parse (string_of data) = Inr m \<and> sig_type m = Inr type)")
  case False
  then have "on_signal parse (\<lambda>_. None) data opcode s = s \<and> \<not> offers parse (data, opcode) \<and>
      candidate_in parse (data, opcode) = []"
    unfolding on_signal_def offers_def candidate_in_def
    by (cases "parse (string_of data)"; cases "sig_type (projr (parse (string_of data)))") auto
  then show ?thesis by blast
next
  case True
  then obtain m type where m: "opcode = TEXT" "parse (string_of data) = Inr m" "sig_type m = Inr type" by blast
  consider "type = ''offer''" | "type = ''candidate''" | "type \<noteq> ''offer''" "type \<noteq> ''candidate''" by blast
  then show ?thesis
  proof cases
    case 1
    have c: "candidate_in parse (data, opcode) = []"
      using m 1 by (simp add: candidate_in_def split: sum.split)
    show ?thesis
    proof (cases "sig_sdp m")
      case (Inl e)
      then have "on_signal parse (\<lambda>_. None) data opcode s = s" "\<not> offers parse (data, opcode)"
        using m 1 by (simp_all add: on_signal_def offers_def signal_offer_def)
      with c show ?thesis by blast
    next
      case (Inr sdp)
      then have "on_signal parse (\<lambda>_. None) data opcode s =
        s\<lparr>sess_pc := sess_pc s @ SetRemoteDescription sdp # map (\<lambda>(c, mid). AddRemoteCandidate c mid) (sess_earlyCandidates s),
          sess_earlyCandidates := [], sess_hasRemoteDescription := True\<rparr>" "offers parse (data, opcode)"
        using m 1 by (simp_all add: on_signal_def offers_def signal_offer_def call_pc_def flush_candidates_all)
      with c show ?thesis by blast
    qed
  next
    case 2
    with m have "opcode = TEXT" "parse (string_of data) = Inr m" "sig_type m = Inr ''candidate''" by simp_all
    from on_signal_candidate [of opcode parse data m s, OF this] show ?thesis by blast
  next
    case 3
    have "on_signal parse (\<lambda>_. None) data opcode s = s" "candidate_in parse (data, opcode) = []"
      "\<not> offers parse (data, opcode)"
      using m 3 by (simp_all add: on_signal_def offers_def candidate_in_def split: sum.split)
    then show ?thesis by blast
  qed
qed

lemma signalled_step:
  assumes "signalled parse msgs s"
  shows "signalled parse (msgs @ [(data, opcode)]) (on_signal parse (\<lambda>_. None) data opcode s)"
  using assms on_signal_effect [of parse data opcode s]
  by (elim disjE exE conjE) (auto simp: signalled_def)

definition signal_all :: "(string \<Rightarrow> signal res) \<Rightarrow> (byte list \<times> WsOpcode) list \<Rightarrow> session \<Rightarrow> session" where
  "signal_all parse msgs s = fold (\<lambda>(data, opcode). on_signal parse (\<lambda>_. None) data opcode) msgs s"

lemma signalled_all: "signalled parse [] s \<Longrightarrow> signalled parse msgs (signal_all parse msgs s)"
proof (induction msgs rule: rev_induct)
  case (snoc m msgs)
  then show ?case
    using signalled_step [of parse msgs "signal_all parse msgs s" "fst m" "snd m"]
    by (simp add: signal_all_def case_prod_unfold)
qed (simp add: signal_all_def)

section \<open>Packets\<close>

definition forwarded :: "string \<Rightarrow> string \<times> byte list \<Rightarrow> bool" where
  "forwarded track pkt \<longleftrightarrow> fst pkt = track \<and> 2 \<le> length (snd pkt) \<and> \<not> is_rtcp (snd pkt)"

definition run_packets :: "(string \<Rightarrow> bool) \<Rightarrow> (string \<times> byte list) list \<Rightarrow> session \<Rightarrow> session" where
  "run_packets popen_ok pkts s = fold (\<lambda>(track, m). on_packet popen_ok track m) pkts s"

definition encoder_of :: "session \<Rightarrow> string" where
  "encoder_of s = ffmpeg_command (''/tmp/'' @ sess_streamId s @ ''.sdp'')
     (sess_outputDirectory s @ ''/'' @ sess_streamId s @ ''/'' @ sess_streamId s @ sess_outputFormat s)"

lemma on_packet_cases:
  "on_packet popen_ok track m s =
    (if forwarded ''video'' (track, m) then
       let s1 = (if sess_videoPacketCounter s = 0 then start_ffmpeg popen_ok (payload_type m) s else s)
       in s1\<lparr>sess_videoPacketCounter := sess_videoPacketCounter s + 1,
             sess_video_out := (if sess_videoSocketFd s < 0 then sess_video_out s else sess_video_out s @ [m])\<rparr>
     else if forwarded ''audio'' (track, m) then
       s\<lparr>sess_audioPacketCounter := sess_audioPacketCounter s + 1,
         sess_audio_out := (if sess_audioSocketFd s < 0 then sess_audio_out s else sess_audio_out s @ [m])\<rparr>
     else s)"
  by (auto simp: on_packet_def forwarded_def start_ffmpeg_def Let_def)

definition media_ok :: "(string \<times> byte list) list \<Rightarrow> session \<Rightarrow> session \<Rightarrow> bool" where
  "media_ok pkts s0 s \<longleftrightarrow>
     (let video = map snd (filter (forwarded ''video'') pkts); audio = map snd (filter (forwarded ''audio'') pkts) in
      sess_video_out s = video \<and> sess_audio_out s = audio \<and>
      sess_videoPacketCounter s = int (length video) \<and>
      sess_ffmpeg s = (if video = [] then [] else [encoder_of s0]) \<and>
      sess_sdp_files s = (if video = [] then []
        else [(''/tmp/'' @ sess_streamId s0 @ ''.sdp'', first_packet_sdp (sess_videoUdpPort s0) (payload_type (hd video)))]) \<and>
      sess_streamId s = sess_streamId s0 \<and> sess_outputDirectory s = sess_outputDirectory s0 \<and>
      sess_outputFormat s = sess_outputFormat s0 \<and> sess_videoUdpPort s = sess_videoUdpPort s0 \<and>
      sess_videoSocketFd s = sess_videoSocketFd s0 \<and> sess_audioSocketFd s = sess_audioSocketFd s0)"

lemma media_ok_step:
  assumes "media_ok pkts s0 s" and "0 \<le> sess_videoSocketFd s0" and "0 \<le> sess_audioSocketFd s0"
  shows "media_ok (pkts @ [(track, m)]) s0 (on_packet popen_ok track m s)"
proof -
  have "forwarded ''video'' (track, m) \<Longrightarrow> \<not> forwarded ''audio'' (track, m)" by (auto simp: forwarded_def)
  moreover have "sess_videoPacketCounter s = 0 \<longleftrightarrow> filter (forwarded ''video'') pkts = []"
    using assms(1) by (simp add: media_ok_def Let_def)
  ultimately show ?thesis
    using assms unfolding on_packet_cases
    by (cases "forwarded ''video'' (track, m)"; cases "forwarded ''audio'' (track, m)";
        cases "filter (forwarded ''video'') pkts = []")
      (simp_all add: media_ok_def start_ffmpeg_def encoder_of_def Let_def)
qed

lemma media_ok_run:
  assumes "0 \<le> sess_videoSocketFd s" and "0 \<le> sess_audioSocketFd s" and "media_ok [] s s"
  shows "media_ok pkts s (run_packets popen_ok pkts s)"
proof (induction pkts rule: rev_induct)
  case (snoc p pkts)
  then show ?case
    using media_ok_step [OF snoc assms(1,2), of "fst p" "snd p" popen_ok]
    by (simp add: run_packets_def case_prod_unfold)
qed (simp add: run_packets_def assms(3))
section \<open>Identifiers\<close>

lemma length_hex_digits [simp]: "length (hex_digits w n) = w"
  by (induction w arbitrary: n) simp_all

definition hex_val :: "char \<Rightarrow> nat" where
  "hex_val c = (if of_char c < (58 :: nat) then of_char c - 48 else of_char c - 87)"

lemma hex_val_hex_char: "d < 16 \<Longrightarrow> hex_val (hex_char d) = d"
  by (auto simp: hex_val_def hex_char_def)

lemma hex_digits_inj: "hex_digits w m = hex_digits w n \<Longrightarrow> m < 16 ^ w \<Longrightarrow> n < 16 ^ w \<Longrightarrow> m = n"
proof (induction w arbitrary: m n)
  case (Suc w)
  then have "hex_digits w (m div 16) = hex_digits w (n div 16)" by simp
  moreover have "m div 16 < 16 ^ w" "n div 16 < 16 ^ w"
    using Suc.prems(2,3) by (simp_all add: less_mult_imp_div_less mult.commute)
  ultimately have "m div 16 = n div 16" by (rule Suc.IH)
  have "hex_char (m mod 16) = hex_char (n mod 16)" using Suc.prems(1) by simp
  then have "hex_val (hex_char (m mod 16)) = hex_val (hex_char (n mod 16))" by simp
  then have "m mod 16 = n mod 16" by (simp only: hex_val_hex_char mod_less_divisor zero_less_numeral)
  with \<open>m div 16 = n div 16\<close> show ?case using div_mod_decomp [of m 16] div_mod_decomp [of n 16] by simp
qed simp

lemma unat_and_16: "unat (x AND 0xFFFF :: u32) < 16 ^ 4"
proof -
  have "x AND 0xFFFF \<le> (0xFFFF :: u32)" by (rule word_and_le1)
  then have "unat (x AND 0xFFFF) \<le> unat (0xFFFF :: u32)" by (simp add: word_le_nat_alt)
  then show ?thesis by simp
qed

lemma unat_u32: "unat (x :: u32) < 16 ^ 8"
proof -
  have "unat x < 2 ^ LENGTH(32)" by (rule unsigned_less)
  then show ?thesis by simp
qed

text \<open>An identifier has the 36 characters of its column and keeps all 128 random bits.\<close>

lemma GenerateStreamId_length: "length (GenerateStreamId rnd) = 36"
  by (simp add: GenerateStreamId_def)

lemma GenerateStreamId_inj:
  assumes "GenerateStreamId r = GenerateStreamId r'"
  shows "r 0 = r' 0 \<and> r 4 = r' 4 \<and> (\<forall>i \<in> {1, 2, 3, 5}. r i AND 0xFFFF = r' i AND 0xFFFF)"
proof -
  from assms have "hex_digits 8 (unat (r 0)) = hex_digits 8 (unat (r' 0))"
    "hex_digits 8 (unat (r 4)) = hex_digits 8 (unat (r' 4))"
    "\<And>i. i \<in> {1, 2, 3, 5} \<Longrightarrow> hex_digits 4 (unat (r i AND 0xFFFF)) = hex_digits 4 (unat (r' i AND 0xFFFF))"
    by (auto simp: GenerateStreamId_def)
  then have "unat (r 0) = unat (r' 0)" "unat (r 4) = unat (r' 4)"
    "\<And>i. i \<in> {1, 2, 3, 5} \<Longrightarrow> unat (r i AND 0xFFFF) = unat (r' i AND 0xFFFF)"
    using hex_digits_inj unat_u32 unat_and_16 by blast+
  then show ?thesis by (simp add: word_unat_eq_iff)
qed

section \<open>Properties\<close>


definition shell_safe :: "char \<Rightarrow> bool" where
  "shell_safe c \<longleftrightarrow> is_alnum c \<or> c \<in> set ''_-./''"


section \<open>Witnesses\<close>


end
