(* ===== verification/Segments.thy ===== *)
theory Segments
  imports Routing Env
begin

text \<open>
  The storage server's own code: \<open>stream-pocket/routes/segments-route/SegmentsRoutes.cpp\<close>,
  \<open>StorageConfig.h\<close>, the health route and the clean-up thread of \<open>stream-pocket/main.cpp\<close>. The file
  system is explicit: files and directories under resolved absolute paths, without symbolic links.
  Whether the operating system lets a file be opened for writing is a parameter.
\<close>

section \<open>The file system\<close>

type_synonym path = "string list"

text \<open>How the kernel resolves an absolute path.\<close>

definition resolve_step :: "string \<Rightarrow> path \<Rightarrow> path" where
  "resolve_step c acc = (if c = ''.'' then acc else if c = ''..'' then tl acc else c # acc)"

definition resolve :: "string \<Rightarrow> path" where
  "resolve p = rev (fold resolve_step (path_parts p) [])"

record fsys =
  fs_files :: "(path \<times> string) list"
  fs_dirs :: "path list"

definition prefixes_of :: "path \<Rightarrow> path list" where
  "prefixes_of p = map (\<lambda>n. take n p) [1..<length p + 1]"

definition create_directories :: "string \<Rightarrow> fsys \<Rightarrow> unit res \<times> fsys" where
  "create_directories dir fs =
     (let ps = prefixes_of (resolve dir) in
      if list_ex (\<lambda>p. map_of (fs_files fs) p \<noteq> None) ps then (Inl FilesystemError, fs)
      else (Inr (), fs\<lparr>fs_dirs := fold List.insert ps (fs_dirs fs)\<rparr>))"

text \<open>\<open>std::ofstream\<close> on a path: the file is there with the new content, or opening it failed.\<close>

definition write_file :: "(path \<Rightarrow> bool) \<Rightarrow> string \<Rightarrow> string \<Rightarrow> fsys \<Rightarrow> bool \<times> fsys" where
  "write_file can_write p content fs =
     (let r = resolve p in
      if r = [] \<or> r \<in> set (fs_dirs fs) \<or> (butlast r \<noteq> [] \<and> butlast r \<notin> set (fs_dirs fs)) \<or> \<not> can_write r
      then (False, fs)
      else (True, fs\<lparr>fs_files := AList.update r content (fs_files fs)\<rparr>))"

definition has_children :: "path \<Rightarrow> fsys \<Rightarrow> bool" where
  "has_children p fs \<longleftrightarrow>
     list_ex (\<lambda>q. q \<noteq> [] \<and> butlast q = p) (map fst (fs_files fs) @ fs_dirs fs)"

text \<open>\<open>std::filesystem::remove\<close>: a file or an empty directory; a full directory is an error.\<close>

definition remove_path :: "string \<Rightarrow> fsys \<Rightarrow> bool res \<times> fsys" where
  "remove_path p fs =
     (let r = resolve p in
      if map_of (fs_files fs) r \<noteq> None then (Inr True, fs\<lparr>fs_files := AList.delete r (fs_files fs)\<rparr>)
      else if r \<in> set (fs_dirs fs) then
        (if has_children r fs then (Inl FilesystemError, fs)
         else (Inr True, fs\<lparr>fs_dirs := removeAll r (fs_dirs fs)\<rparr>))
      else (Inr False, fs))"

section \<open>Routes\<close>

record pocket =
  pk_root :: string
  pk_secret :: string
  pk_can_write :: "path \<Rightarrow> bool"

definition BaseDir :: "pocket \<Rightarrow> string" where
  "BaseDir pk = pk_root pk @ ''/storage''"

definition StorageInit :: "pocket \<Rightarrow> fsys \<Rightarrow> unit res \<times> fsys" where
  "StorageInit pk fs = create_directories (BaseDir pk) fs"

definition isSafe :: "string \<Rightarrow> bool" where
  "isSafe s \<longleftrightarrow> s \<noteq> [] \<and> find_sub ''..'' s = None \<and> find_sub ''/'' s = None \<and>
     find_sub [CHR 0x5C] s = None \<and> find_sub ''%'' s = None \<and> find_sub [CHR 0x00] s = None"

definition segment_path :: "pocket \<Rightarrow> string \<Rightarrow> string \<Rightarrow> string" where
  "segment_path pk streamId filename = BaseDir pk @ ''/'' @ streamId @ ''/'' @ filename"

definition storage_key_ok :: "pocket \<Rightarrow> HttpRequest \<Rightarrow> bool" where
  "storage_key_ok pk req \<longleftrightarrow> map_of (req_headers req) ''X-Storage-Key'' = Some (pk_secret pk)"

definition segment_get :: "pocket \<Rightarrow> fsys handler" where
  "segment_get pk req fs =
     (case (PathParam req ''streamId'', PathParam req ''filename'') of
        (Some streamId, Some filename) \<Rightarrow>
          if \<not> isSafe streamId \<or> \<not> isSafe filename then (Inr (Forbidden ''Invalid path''), fs)
          else if \<not> ends_with filename ''.ts'' \<and> \<not> ends_with filename ''.m3u8''
          then (Inr (Forbidden ''Invalid file type''), fs)
          else (Inr (FileResponse (\<lambda>p. map_of (fs_files fs) (resolve p)) (segment_path pk streamId filename)), fs)
      | _ \<Rightarrow> (Inl BadOptionalAccess, fs))"

definition segment_put :: "pocket \<Rightarrow> fsys handler" where
  "segment_put pk req fs =
     (if \<not> storage_key_ok pk req then (Inr (Unauthorized ''Invalid or missing storage key''), fs)
      else case (PathParam req ''streamId'', PathParam req ''filename'') of
        (Some streamId, Some filename) \<Rightarrow>
          if \<not> isSafe streamId \<or> \<not> isSafe filename then (Inr (Forbidden ''Invalid path''), fs)
          else if \<not> ends_with filename ''.ts'' \<and> \<not> ends_with filename ''.m3u8''
          then (Inr (Forbidden ''Invalid file type''), fs)
          else (case create_directories (BaseDir pk @ ''/'' @ streamId) fs of
              (Inl e, fs') \<Rightarrow> (Inl e, fs')
            | (Inr _, fs') \<Rightarrow>
                (case write_file (pk_can_write pk) (segment_path pk streamId filename) (req_body req) fs' of
                   (False, fs'') \<Rightarrow> (Inr (InternalServerError ''Failed to write file''), fs'')
                 | (True, fs'') \<Rightarrow> (Inr (Ok ''Stored''), fs'')))
      | _ \<Rightarrow> (Inl BadOptionalAccess, fs))"

definition segment_delete :: "pocket \<Rightarrow> fsys handler" where
  "segment_delete pk req fs =
     (if \<not> storage_key_ok pk req then (Inr (Unauthorized ''Invalid or missing storage key''), fs)
      else case (PathParam req ''streamId'', PathParam req ''filename'') of
        (Some streamId, Some filename) \<Rightarrow>
          if \<not> isSafe streamId \<or> \<not> isSafe filename then (Inr (Forbidden ''Invalid path''), fs)
          else (case remove_path (segment_path pk streamId filename) fs of
              (Inl e, fs') \<Rightarrow> (Inl e, fs')
            | (Inr True, fs') \<Rightarrow> (Inr (Ok ''Deleted''), fs')
            | (Inr False, fs') \<Rightarrow> (Inr (NotFound ''File not found''), fs'))
      | _ \<Rightarrow> (Inl BadOptionalAccess, fs))"

definition RegisterSegmentRoutes :: "pocket \<Rightarrow> fsys routes \<Rightarrow> fsys routes" where
  "RegisterSegmentRoutes pk =
     RegisterRoute DELETE ''/api/segments/{streamId}/{filename}'' (segment_delete pk) \<circ>
     RegisterRoute PUT ''/api/segments/{streamId}/{filename}'' (segment_put pk) \<circ>
     RegisterRoute GET ''/api/segments/{streamId}/{filename}'' (segment_get pk)"

definition PocketHealthRoutes :: "fsys routes \<Rightarrow> fsys routes" where
  "PocketHealthRoutes = RegisterRoute GET ''/api/health'' (\<lambda>request fs. (Inr (Ok ''I`m alive''), fs))"

section \<open>Expiry\<close>

text \<open>
  One pass of the clean-up thread over the entries of the base directory. A directory's entry lists the
  modification times of what is in it, or the exception that reading them throws, and says whether
  \<open>remove_all\<close> succeeds on it; an exception ends the pass.
\<close>

record dir_entry =
  entry_name :: string
  entry_is_directory :: bool
  entry_times :: "int list res"
  entry_removable :: bool

definition file_time_min :: int where
  "file_time_min = - (2 ^ 63)"

definition max_age :: int where
  "max_age = 6 * 60 * 60 * 1000000000"

fun cleanup_pass :: "int \<Rightarrow> dir_entry list \<Rightarrow> dir_entry list" where
  "cleanup_pass now [] = []"
| "cleanup_pass now (e # es) =
     (if \<not> entry_is_directory e then e # cleanup_pass now es
      else case entry_times e of
          Inl _ \<Rightarrow> e # es
        | Inr mtimes \<Rightarrow>
            let newest = fold (\<lambda>t newest. if newest < t then t else newest) mtimes file_time_min in
            if newest = file_time_min then (if entry_removable e then cleanup_pass now es else e # es)
            else if max_age < now - newest then (if entry_removable e then cleanup_pass now es else e # es)
            else e # cleanup_pass now es)"

section \<open>Paths\<close>

lemma path_parts_Nil [simp]: "path_parts [] = []"
  by (simp add: path_parts_def)

lemma path_parts_append: "path_parts (a @ ''/'' @ b) = path_parts a @ path_parts b"
proof (induction "length a" arbitrary: a rule: less_induct)
  case less
  show ?case
  proof (cases "CHR ''/'' \<in> set a")
    case False
    then show ?thesis
      using getlines_delim [OF False, of b] getlines_no_delim [OF False] by (simp add: path_parts_def)
  next
    case True
    then obtain x y where a: "a = x @ CHR ''/'' # y" "CHR ''/'' \<notin> set x"
      by (metis split_list_first)
    have "path_parts (y @ ''/'' @ b) = path_parts y @ path_parts b" using less [of y] a by simp
    moreover have "path_parts (x @ CHR ''/'' # z) = (if x = [] then [] else [x]) @ path_parts z" for z
      using getlines_delim [OF a(2), of z] by (simp add: path_parts_def)
    ultimately show ?thesis by (simp add: a(1))
  qed
qed

lemma path_parts_word: "w \<noteq> [] \<Longrightarrow> CHR ''/'' \<notin> set w \<Longrightarrow> path_parts w = [w]"
  by (simp add: path_parts_def getlines_no_delim)

lemma isSafe_word:
  assumes "isSafe s"
  shows "s \<noteq> []" and "CHR ''/'' \<notin> set s" and "s \<noteq> ''..''"
  using assms by (auto simp: isSafe_def find_char_None_iff)

text \<open>What a safe name adds to a path: itself, or nothing when it is a single dot.\<close>

definition path_name :: "string \<Rightarrow> path" where
  "path_name s = (if s = ''.'' then [] else [s])"

lemma resolve_name:
  assumes "isSafe s"
  shows "resolve (p @ ''/'' @ s) = resolve p @ path_name s"
proof -
  have "path_parts (p @ ''/'' @ s) = path_parts p @ [s]"
    unfolding path_parts_append path_parts_word [OF isSafe_word(1,2) [OF assms]] ..
  with isSafe_word(3) [OF assms] show ?thesis
    by (simp only: resolve_def) (simp add: resolve_step_def path_name_def)
qed

lemma resolve_segment:
  assumes "isSafe sid" and "isSafe fn"
  shows "resolve (segment_path pk sid fn) = resolve (BaseDir pk) @ path_name sid @ path_name fn"
  using resolve_name [OF assms(1), of "BaseDir pk"] resolve_name [OF assms(2), of "BaseDir pk @ ''/'' @ sid"]
  by (simp add: segment_path_def)

lemma media_not_dot: "ends_with fn ''.ts'' \<or> ends_with fn ''.m3u8'' \<Longrightarrow> path_name fn = [fn]"
  by (auto simp: path_name_def ends_with_iff)

lemma create_directories_files: "create_directories d fs = (r, fs') \<Longrightarrow> fs_files fs' = fs_files fs"
  by (auto simp: create_directories_def Let_def split: if_splits)

lemma write_file_files:
  "write_file ok p c fs = (b, fs') \<Longrightarrow>
    fs_files fs' = (if b then AList.update (resolve p) c (fs_files fs) else fs_files fs)"
  by (auto simp: write_file_def Let_def split: if_splits)

lemma remove_path_files:
  "remove_path p fs = (r, fs') \<Longrightarrow> fs_files fs' = fs_files fs \<or> fs_files fs' = AList.delete (resolve p) (fs_files fs)"
  by (auto simp: remove_path_def Let_def split: if_splits)

section \<open>The handlers\<close>

definition inside :: "pocket \<Rightarrow> path \<Rightarrow> bool" where
  "inside pk p \<longleftrightarrow> (\<exists>rest. p = resolve (BaseDir pk) @ rest)"

lemma segment_put_cases:
  assumes "segment_put pk req fs = (r, fs')"
  shows "fs_files fs' = fs_files fs \<and> r \<noteq> Inr (Ok ''Stored'') \<or>
    (\<exists>sid fn. PathParam req ''streamId'' = Some sid \<and> PathParam req ''filename'' = Some fn \<and>
      isSafe sid \<and> isSafe fn \<and> (ends_with fn ''.ts'' \<or> ends_with fn ''.m3u8'') \<and> storage_key_ok pk req \<and>
      r = Inr (Ok ''Stored'') \<and>
      fs_files fs' = AList.update (resolve (BaseDir pk) @ path_name sid @ [fn]) (req_body req) (fs_files fs))"
proof (cases "\<exists>sid fn. storage_key_ok pk req \<and> PathParam req ''streamId'' = Some sid \<and> PathParam req ''filename'' = Some fn \<and>
    isSafe sid \<and> isSafe fn \<and> (ends_with fn ''.ts'' \<or> ends_with fn ''.m3u8'')")
  case False
  then have "fs' = fs \<and> r \<noteq> Inr (Ok ''Stored'')"
    using assms by (auto simp: segment_put_def response_defs split: if_splits option.splits)
  then show ?thesis by simp
next
  case True
  then obtain sid fn where p: "storage_key_ok pk req" "PathParam req ''streamId'' = Some sid"
    "PathParam req ''filename'' = Some fn" "isSafe sid" "isSafe fn" "ends_with fn ''.ts'' \<or> ends_with fn ''.m3u8''"
    by blast
  obtain c fs1 where c: "create_directories (BaseDir pk @ ''/'' @ sid) fs = (c, fs1)" by fastforce
  obtain b fs2 where w: "write_file (pk_can_write pk) (segment_path pk sid fn) (req_body req) fs1 = (b, fs2)" by fastforce
  have "resolve (segment_path pk sid fn) = resolve (BaseDir pk) @ path_name sid @ [fn]"
    using p(4-6) by (simp add: resolve_segment media_not_dot)
  with write_file_files [OF w] create_directories_files [OF c] have
    f: "fs_files fs1 = fs_files fs"
    "b \<Longrightarrow> fs_files fs2 = AList.update (resolve (BaseDir pk) @ path_name sid @ [fn]) (req_body req) (fs_files fs)"
    "\<not> b \<Longrightarrow> fs_files fs2 = fs_files fs" by simp_all
  have a: "(r, fs') = (case c of Inl e \<Rightarrow> (Inl e, fs1) | Inr _ \<Rightarrow>
      if b then (Inr (Ok ''Stored''), fs2) else (Inr (InternalServerError ''Failed to write file''), fs2))"
    using assms p c w by (auto simp: segment_put_def split: sum.splits bool.splits)
  show ?thesis using a f p by (cases c; cases b) (auto simp: response_defs)
qed

lemma segment_delete_files:
  assumes "segment_delete pk req fs = (r, fs')"
  shows "fs_files fs' = fs_files fs \<or>
    (storage_key_ok pk req \<and> (\<exists>rest. fs_files fs' = AList.delete (resolve (BaseDir pk) @ rest) (fs_files fs)))"
proof (cases "\<exists>sid fn. storage_key_ok pk req \<and> PathParam req ''streamId'' = Some sid \<and> PathParam req ''filename'' = Some fn \<and>
    isSafe sid \<and> isSafe fn")
  case False
  then have "fs' = fs" using assms by (auto simp: segment_delete_def split: if_splits option.splits)
  then show ?thesis by simp
next
  case True
  then obtain sid fn where p: "storage_key_ok pk req" "PathParam req ''streamId'' = Some sid"
    "PathParam req ''filename'' = Some fn" "isSafe sid" "isSafe fn" by blast
  obtain b fs1 where c: "remove_path (segment_path pk sid fn) fs = (b, fs1)" by fastforce
  have "fs' = fs1" using assms p c by (auto simp: segment_delete_def split: sum.splits bool.splits)
  with remove_path_files [OF c] resolve_segment [OF p(4,5)] p(1) show ?thesis by auto
qed

lemma segment_get_file:
  assumes "isSafe sid" and "isSafe fn" and "ends_with fn ''.ts'' \<or> ends_with fn ''.m3u8''"
    and "PathParam req ''streamId'' = Some sid" and "PathParam req ''filename'' = Some fn"
  shows "segment_get pk req fs =
    (Inr (case map_of (fs_files fs) (resolve (BaseDir pk) @ path_name sid @ [fn]) of
        None \<Rightarrow> NotFound ''File not found''
      | Some content \<Rightarrow> (Ok content)\<lparr>res_headers := [(''Content-Type'', content_type_of (segment_path pk sid fn))]\<rparr>), fs)"
  using assms by (auto simp: segment_get_def FileResponse_def resolve_segment media_not_dot Ok_def mk_response_def
    split: option.splits)
section \<open>Through the router\<close>

definition segment_pattern :: string where
  "segment_pattern = ''/api/segments/{streamId}/{filename}''"

definition pocket_regs :: "pocket \<Rightarrow> (string \<times> fsys PathTreeNode) list" where
  "pocket_regs pk =
     [(''/api/health'', RouteNode GET (Some (\<lambda>request fs. (Inr (Ok ''I`m alive''), fs)))),
      (segment_pattern, RouteNode GET (Some (segment_get pk))),
      (segment_pattern, RouteNode PUT (Some (segment_put pk))),
      (segment_pattern, RouteNode DELETE (Some (segment_delete pk)))]"

lemma pocket_routes: "RegisterSegmentRoutes pk (PocketHealthRoutes no_routes) = register_all (pocket_regs pk)"
  by (simp add: RegisterSegmentRoutes_def PocketHealthRoutes_def RegisterRoute_def register_all_def pocket_regs_def
    segment_pattern_def)

definition segment_target :: "string \<Rightarrow> string \<Rightarrow> string" where
  "segment_target sid fn = ''/api/segments'' @ ''/'' @ sid @ ''/'' @ fn"

lemma match_segment:
  assumes "isSafe sid" and "isSafe fn"
  shows "MatchPattern segment_pattern (segment_target sid fn) [] =
    (True, [(''streamId'', sid), (''filename'', fn)])"
proof -
  have b: "path_parts ''/api/segments'' = [''api'', ''segments'']" by code_simp
  have "path_parts (segment_target sid fn) = [''api'', ''segments'', sid, fn]"
    unfolding segment_target_def path_parts_append path_parts_word [OF isSafe_word(1,2) [OF assms(1)]]
      path_parts_word [OF isSafe_word(1,2) [OF assms(2)]] b by simp
  moreover have "path_parts segment_pattern = [''api'', ''segments'', ''{streamId}'', ''{filename}'']" by code_simp
  ultimately show ?thesis by (simp add: MatchPattern_def is_param_def param_name_def slice_def)
qed

lemma dispatch_segment:
  assumes "isSafe sid" and "isSafe fn" and "req_path req = segment_target sid fn"
    and "req_method req = Some m" and "m \<in> {GET, PUT, DELETE}"
  defines "req' \<equiv> req\<lparr>req_path_params := [(''streamId'', sid), (''filename'', fn)]\<rparr>"
  shows "dispatch auth (RegisterSegmentRoutes pk (PocketHealthRoutes no_routes)) req fs =
    bind_res (catch_all ((if m = GET then segment_get pk else if m = PUT then segment_put pk else segment_delete pk) req' fs))
      (\<lambda>(r, fs'). Inr (r, req', fs'))"
proof -
  have p: "is_pattern segment_pattern" "\<not> is_pattern ''/api/health''" by code_simp+
  have "segment_target sid fn \<noteq> ''/api/health''" by (simp add: segment_target_def)
  with p have h: "(if is_pattern (req_path req) then None else map_of (pocket_regs pk) (req_path req)) = None"
    by (auto simp: pocket_regs_def assms(3))
  show ?thesis
    unfolding pocket_routes dispatch_register_all h using p assms(4,5) match_segment [OF assms(1,2)]
    by (auto simp: pocket_regs_def assms(3) run_node_def req'_def)
qed
section \<open>Properties\<close>

lemma catch_all_Inr: "bind_res (catch_all x) (\<lambda>(r, fs'). Inr (r, req, fs')) = Inr (Ok b, req', fs') \<Longrightarrow> x = (Inr (Ok b), fs')"
  by (auto simp: catch_all_def response_defs split: prod.splits sum.splits if_splits)

text \<open>
  C15: what was stored is served. When the storage server answers a \<open>PUT\<close> of a segment with \<open>Stored\<close>, a
  \<open>GET\<close> of the same target, through the same router, answers 200 with exactly those bytes and the
  content type of the extension; no other file has changed; and the request carried the storage key
  and a safe name with a media extension.
\<close>

theorem segment_put_get:
  assumes "isSafe sid" and "isSafe fn"
    and "req_path put = segment_target sid fn" and "req_method put = Some PUT"
    and "dispatch auth (RegisterSegmentRoutes pk (PocketHealthRoutes no_routes)) put fs = Inr (Ok ''Stored'', put', fs')"
    and "req_path get = segment_target sid fn" and "req_method get = Some GET"
  shows "(\<exists>get'. dispatch auth (RegisterSegmentRoutes pk (PocketHealthRoutes no_routes)) get fs' =
      Inr ((Ok (req_body put))\<lparr>res_headers := [(''Content-Type'', content_type_of (segment_path pk sid fn))]\<rparr>, get', fs')) \<and>
    (\<forall>p. p \<noteq> resolve (segment_path pk sid fn) \<longrightarrow> map_of (fs_files fs') p = map_of (fs_files fs) p) \<and>
    storage_key_ok pk put \<and> (ends_with fn ''.ts'' \<or> ends_with fn ''.m3u8'')"
proof -
  let ?params = "[(''streamId'', sid), (''filename'', fn)]"
  let ?put = "put\<lparr>req_path_params := ?params\<rparr>"
  let ?get = "get\<lparr>req_path_params := ?params\<rparr>"
  have "segment_put pk ?put fs = (Inr (Ok ''Stored''), fs')"
    using assms(5) dispatch_segment [OF assms(1-4), of auth pk fs] by (intro catch_all_Inr) auto
  from segment_put_cases [OF this] have w: "ends_with fn ''.ts'' \<or> ends_with fn ''.m3u8''" "storage_key_ok pk put"
    "fs_files fs' = AList.update (resolve (BaseDir pk) @ path_name sid @ [fn]) (req_body put) (fs_files fs)"
    by (auto simp: PathParam_def storage_key_ok_def)
  have r: "resolve (segment_path pk sid fn) = resolve (BaseDir pk) @ path_name sid @ [fn]"
    using w(1) by (simp add: resolve_segment [OF assms(1,2)] media_not_dot)
  have "segment_get pk ?get fs' =
      (Inr ((Ok (req_body put))\<lparr>res_headers := [(''Content-Type'', content_type_of (segment_path pk sid fn))]\<rparr>), fs')"
    using segment_get_file [OF assms(1,2) w(1), of ?get pk fs'] w(3) by (simp add: PathParam_def update_conv')
  then have "dispatch auth (RegisterSegmentRoutes pk (PocketHealthRoutes no_routes)) get fs' =
      Inr ((Ok (req_body put))\<lparr>res_headers := [(''Content-Type'', content_type_of (segment_path pk sid fn))]\<rparr>, ?get, fs')"
    using dispatch_segment [OF assms(1,2,6,7), of auth pk fs'] by (simp add: catch_all_def)
  with w r show ?thesis by (auto simp: update_conv')
qed

text \<open>
  C16: the storage server stays in its directory. Whatever a request to one of the segment handlers holds,
  the only files that can appear, change or vanish lie under the storage directory, and only for a
  request with the storage key; what \<open>GET\<close> serves is a file under that directory, with a media
  extension, and serving it changes nothing.
\<close>

theorem segment_confinement:
  "(\<forall>p. map_of (fs_files (snd (segment_put pk req fs))) p \<noteq> map_of (fs_files fs) p \<longrightarrow>
      inside pk p \<and> storage_key_ok pk req) \<and>
   (\<forall>p. map_of (fs_files (snd (segment_delete pk req fs))) p \<noteq> map_of (fs_files fs) p \<longrightarrow>
      inside pk p \<and> storage_key_ok pk req) \<and>
   snd (segment_get pk req fs) = fs \<and>
   (\<forall>r. fst (segment_get pk req fs) = Inr r \<and> res_status_code r = 200 \<longrightarrow>
      (\<exists>p. inside pk p \<and> map_of (fs_files fs) p = Some (res_body r) \<and>
        (ends_with (last p) ''.ts'' \<or> ends_with (last p) ''.m3u8'')))"
proof (intro conjI allI impI)
  obtain r1 fs1 where put: "segment_put pk req fs = (r1, fs1)" by fastforce
  obtain r2 fs2 where del: "segment_delete pk req fs = (r2, fs2)" by fastforce
  show "inside pk p" "storage_key_ok pk req"
    if "map_of (fs_files (snd (segment_put pk req fs))) p \<noteq> map_of (fs_files fs) p" for p
    using that segment_put_cases [OF put] by (auto simp: put inside_def update_conv' split: if_splits)
  show "inside pk p" "storage_key_ok pk req"
    if "map_of (fs_files (snd (segment_delete pk req fs))) p \<noteq> map_of (fs_files fs) p" for p
    using that segment_delete_files [OF del] by (auto simp: del inside_def delete_conv' split: if_splits)
  show "snd (segment_get pk req fs) = fs" by (auto simp: segment_get_def split: option.splits)
  show "\<exists>p. inside pk p \<and> map_of (fs_files fs) p = Some (res_body r) \<and>
      (ends_with (last p) ''.ts'' \<or> ends_with (last p) ''.m3u8'')"
    if g: "fst (segment_get pk req fs) = Inr r \<and> res_status_code r = 200" for r
  proof -
    from g obtain sid fn where s: "isSafe sid" "isSafe fn" "ends_with fn ''.ts'' \<or> ends_with fn ''.m3u8''"
      "PathParam req ''streamId'' = Some sid" "PathParam req ''filename'' = Some fn"
      by (auto simp: segment_get_def response_defs split: option.splits if_splits)
    let ?p = "resolve (BaseDir pk) @ path_name sid @ [fn]"
    from g segment_get_file [OF s, of pk fs] have "map_of (fs_files fs) ?p = Some (res_body r)"
      by (auto simp: response_defs split: option.splits)
    moreover have "inside pk ?p" "last ?p = fn" by (simp_all add: inside_def)
    ultimately show ?thesis using s(3) by metis
  qed
qed

definition keep_entry :: "int \<Rightarrow> dir_entry \<Rightarrow> bool" where
  "keep_entry now e \<longleftrightarrow> \<not> entry_is_directory e \<or>
     (\<exists>t \<in> set (projr (entry_times e)). file_time_min < t \<and> now - t \<le> max_age)"

definition passes :: "int \<Rightarrow> dir_entry \<Rightarrow> bool" where
  "passes now e \<longleftrightarrow> \<not> entry_is_directory e \<or> (\<exists>ts. entry_times e = Inr ts) \<and> (keep_entry now e \<or> entry_removable e)"

lemma fold_newest:
  "fold (\<lambda>t newest. if newest < t then t else newest) ts (a :: int) = Max (insert a (set ts))"
proof (induction ts arbitrary: a)
  case (Cons t ts)
  have "(if a < t then t else a) = max t a" by (simp add: max_def)
  with Cons.IH [of "max t a"] show ?case
    by (cases "ts = []") (simp_all add: max.assoc max.commute max.left_commute)
qed simp

lemma newest_recent:
  fixes lo now age :: int
  shows "(Max (insert lo (set ts)) \<noteq> lo \<and> \<not> age < now - Max (insert lo (set ts))) \<longleftrightarrow> (\<exists>t \<in> set ts. lo < t \<and> now - t \<le> age)"
    (is "?l \<longleftrightarrow> ?r")
proof
  let ?m = "Max (insert lo (set ts))"
  assume ?l
  have "?m \<in> insert lo (set ts)" by (rule Max_in) simp_all
  then have "?m \<in> set ts" using \<open>?l\<close> by simp
  moreover have "lo \<le> ?m" by (rule Max_ge) simp_all
  then have "lo < ?m" using \<open>?l\<close> by linarith
  ultimately show ?r using \<open>?l\<close> by (intro bexI [of _ ?m]) auto
next
  let ?m = "Max (insert lo (set ts))"
  assume ?r
  then obtain t where t: "t \<in> set ts" "lo < t" "now - t \<le> age" by blast
  then have "t \<le> ?m" by (intro Max_ge) simp_all
  with t show ?l by linarith
qed

text \<open>
  What the clean-up keeps. A pass over the storage directory stops at the first directory whose
  contents cannot be read, or that has to go and cannot be removed, and touches nothing from there on;
  before it, it removes exactly the directories whose newest file was written more than six
  hours ago, and the empty ones.
\<close>

theorem cleanup_pass_spec:
  "cleanup_pass now es = filter (keep_entry now) (takeWhile (passes now) es) @ dropWhile (passes now) es"
proof (induction es)
  case (Cons e es)
  show ?case
  proof (cases "entry_is_directory e \<and> (\<exists>ts. entry_times e = Inr ts)")
    case False
    then show ?thesis using Cons.IH by (cases "entry_times e") (auto simp: passes_def keep_entry_def)
  next
    case True
    then obtain ts where ts: "entry_is_directory e" "entry_times e = Inr ts" by blast
    have "keep_entry now e \<longleftrightarrow> (\<exists>t \<in> set ts. file_time_min < t \<and> now - t \<le> max_age)" by (simp add: keep_entry_def ts)
    with newest_recent [of file_time_min ts max_age now] Cons.IH ts show ?thesis
      by (auto simp: passes_def fold_newest Let_def)
  qed
qed simp

section \<open>Witnesses\<close>

definition demo_pocket :: pocket where
  "demo_pocket = \<lparr>pk_root = ''/srv'', pk_secret = ''123'', pk_can_write = (\<lambda>_. True)\<rparr>"

definition demo_put :: HttpRequest where
  "demo_put = empty_request\<lparr>req_method := Some PUT, req_path := segment_target ''ann'' ''0.ts'',
     req_headers := [(''X-Storage-Key'', ''123'')], req_body := ''data''\<rparr>"

definition demo_get :: HttpRequest where
  "demo_get = empty_request\<lparr>req_method := Some GET, req_path := segment_target ''ann'' ''0.ts''\<rparr>"

theorem segment_put_get_witness:
  "\<exists>put' get' fs'. dispatch (\<lambda>_ fs. (Inr None, fs)) (RegisterSegmentRoutes demo_pocket (PocketHealthRoutes no_routes))
      demo_put \<lparr>fs_files = [], fs_dirs = []\<rparr> = Inr (Ok ''Stored'', put', fs') \<and>
    dispatch (\<lambda>_ fs. (Inr None, fs)) (RegisterSegmentRoutes demo_pocket (PocketHealthRoutes no_routes)) demo_get fs' =
      Inr ((Ok ''data'')\<lparr>res_headers := [(''Content-Type'', ''video/mp2t'')]\<rparr>, get', fs')"
proof -
  let ?auth = "\<lambda>_ fs. (Inr None, fs) :: AuthenticatedUser option res \<times> fsys"
  let ?fs = "\<lparr>fs_files = [], fs_dirs = []\<rparr> :: fsys"
  let ?params = "[(''streamId'', ''ann''), (''filename'', ''0.ts'')]"
  have s: "isSafe ''ann''" "isSafe ''0.ts''" by code_simp+
  define fs' where "fs' = snd (segment_put demo_pocket (demo_put\<lparr>req_path_params := ?params\<rparr>) ?fs)"
  have "fst (segment_put demo_pocket (demo_put\<lparr>req_path_params := ?params\<rparr>) ?fs) = Inr (Ok ''Stored'')" by code_simp
  then have "segment_put demo_pocket (demo_put\<lparr>req_path_params := ?params\<rparr>) ?fs = (Inr (Ok ''Stored''), fs')"
    by (simp add: fs'_def prod_eq_iff)
  then have put: "dispatch ?auth (RegisterSegmentRoutes demo_pocket (PocketHealthRoutes no_routes)) demo_put ?fs =
      Inr (Ok ''Stored'', demo_put\<lparr>req_path_params := ?params\<rparr>, fs')"
    using dispatch_segment [OF s, of demo_put PUT ?auth demo_pocket ?fs] by (simp add: demo_put_def catch_all_def)
  have ct: "content_type_of (segment_path demo_pocket ''ann'' ''0.ts'') = ''video/mp2t''" by code_simp
  from segment_put_get [OF s _ _ put, of demo_get] put ct show ?thesis
    by (simp add: demo_put_def demo_get_def)
qed

theorem segment_confinement_witness:
  "map_of (fs_files (snd (segment_put demo_pocket demo_get \<lparr>fs_files = [], fs_dirs = []\<rparr>))) [''etc'', ''passwd''] = None"
  using segment_confinement [of demo_pocket demo_get "\<lparr>fs_files = [], fs_dirs = []\<rparr>"]
  by (auto simp: storage_key_ok_def demo_get_def empty_request_def)

end
