(* ===== verification/Uploader.thy ===== *)
theory Uploader
  imports Streams Segments
begin

text \<open>
  \<open>services/SegmentUploader.h\<close> and the upload thread of \<open>StreamerSession\<close>: every second the thread
  lists the recording's directory, uploads the segments it has not uploaded yet and the playlist, and
  once more when the session has ended. The encoder changes the directory all the time, so what a
  pass finds is an input: the names that the directory iterator yields and, for each, what
  opening the file at that moment gives. libcurl is a parameter, a function on the state \<open>'w\<close> of what
  it talks to.
\<close>

section \<open>Requests\<close>

text \<open>The result of a transfer: the response code, or nothing when curl reports an error.\<close>

record 'w curl =
  curl_init :: bool
  curl_put :: "string \<Rightarrow> string \<Rightarrow> string \<Rightarrow> 'w \<Rightarrow> int option \<times> 'w"
  curl_delete :: "string \<Rightarrow> string \<Rightarrow> 'w \<Rightarrow> int option \<times> 'w"

record SegmentUploader =
  storageUrl :: string
  up_secret :: string

definition upload_url :: "SegmentUploader \<Rightarrow> string \<Rightarrow> string \<Rightarrow> string" where
  "upload_url up streamId filename = storageUrl up @ ''/api/segments/'' @ streamId @ ''/'' @ filename"

definition upload ::
    "'w curl \<Rightarrow> SegmentUploader \<Rightarrow> string option \<Rightarrow> string \<Rightarrow> string \<Rightarrow> 'w \<Rightarrow> bool \<times> 'w" where
  "upload cu up file streamId filename w =
     (case file of
        None \<Rightarrow> (False, w)
      | Some content \<Rightarrow>
          if \<not> curl_init cu then (False, w)
          else case curl_put cu (c_str (upload_url up streamId filename)) (c_str (''X-Storage-Key: '' @ up_secret up)) content w of
              (None, w') \<Rightarrow> (False, w')
            | (Some httpCode, w') \<Rightarrow> (httpCode = 200, w'))"

definition remove_segment :: "'w curl \<Rightarrow> SegmentUploader \<Rightarrow> string \<Rightarrow> string \<Rightarrow> 'w \<Rightarrow> bool \<times> 'w" where
  "remove_segment cu up streamId filename w =
     (if \<not> curl_init cu then (False, w)
      else case curl_delete cu (c_str (upload_url up streamId filename)) (c_str (''X-Storage-Key: '' @ up_secret up)) w of
          (None, w') \<Rightarrow> (False, w')
        | (Some httpCode, w') \<Rightarrow> (httpCode = 200, w'))"

section \<open>The upload thread\<close>

text \<open>What a pass finds: the directory's entries, and the playlist if it exists.\<close>

record dir_view =
  view_entries :: "(string \<times> string option) list"
  view_playlist :: "string option option"

fun upload_segments ::
    "'w curl \<Rightarrow> SegmentUploader \<Rightarrow> string \<Rightarrow> (string \<times> string option) list \<Rightarrow> string list \<times> 'w \<Rightarrow> string list \<times> 'w" where
  "upload_segments cu up streamId [] s = s"
| "upload_segments cu up streamId ((fname, file) # es) (uploaded, w) =
     upload_segments cu up streamId es
       (if \<not> ends_with fname ''.ts'' then (uploaded, w)
        else if fname \<in> set uploaded then (uploaded, w)
        else case upload cu up file streamId fname w of
            (True, w') \<Rightarrow> (fname # uploaded, w')
          | (False, w') \<Rightarrow> (uploaded, w'))"

definition upload_playlist :: "'w curl \<Rightarrow> SegmentUploader \<Rightarrow> string \<Rightarrow> dir_view \<Rightarrow> 'w \<Rightarrow> 'w" where
  "upload_playlist cu up streamId v w =
     (case view_playlist v of None \<Rightarrow> w | Some file \<Rightarrow> snd (upload cu up file streamId (streamId @ ''.m3u8'') w))"

definition upload_pass ::
    "'w curl \<Rightarrow> SegmentUploader \<Rightarrow> string \<Rightarrow> dir_view option \<Rightarrow> string list \<times> 'w \<Rightarrow> string list \<times> 'w" where
  "upload_pass cu up streamId v s =
     (case v of
        None \<Rightarrow> s
      | Some v \<Rightarrow> (case upload_segments cu up streamId (view_entries v) s of
          (uploaded, w) \<Rightarrow> (uploaded, upload_playlist cu up streamId v w)))"

fun final_segments ::
    "'w curl \<Rightarrow> SegmentUploader \<Rightarrow> string \<Rightarrow> string list \<Rightarrow> (string \<times> string option) list \<Rightarrow> 'w \<Rightarrow> 'w" where
  "final_segments cu up streamId uploaded [] w = w"
| "final_segments cu up streamId uploaded ((fname, file) # es) w =
     final_segments cu up streamId uploaded es
       (if ends_with fname ''.ts'' \<and> fname \<notin> set uploaded then snd (upload cu up file streamId fname w) else w)"

text \<open>The thread: one pass per second while the session is live, then the final pass.\<close>

definition startSegmentUploader ::
    "'w curl \<Rightarrow> SegmentUploader \<Rightarrow> string \<Rightarrow> dir_view option list \<Rightarrow> dir_view option \<Rightarrow> 'w \<Rightarrow> 'w" where
  "startSegmentUploader cu up streamId views final w =
     (case fold (upload_pass cu up streamId) views ([], w) of
        (uploaded, w') \<Rightarrow>
          (case final of
             None \<Rightarrow> w'
           | Some v \<Rightarrow> upload_playlist cu up streamId v
               (final_segments cu up streamId uploaded (view_entries v) w')))"

section \<open>Against the storage server\<close>

definition put_request :: "string \<Rightarrow> string \<Rightarrow> string \<Rightarrow> HttpRequest" where
  "put_request path key content = empty_request\<lparr>req_method := Some PUT, req_path := path,
     req_headers := [(''X-Storage-Key'', key)], req_body := content\<rparr>"

definition get_request :: "string \<Rightarrow> HttpRequest" where
  "get_request path = empty_request\<lparr>req_method := Some GET, req_path := path\<rparr>"

definition pocket_answer :: "pocket \<Rightarrow> HttpRequest \<Rightarrow> fsys \<Rightarrow> (HttpResponse \<times> HttpRequest \<times> fsys) res" where
  "pocket_answer pk req fs =
     dispatch (\<lambda>_ fs. (Inr None, fs)) (RegisterSegmentRoutes pk (PocketHealthRoutes no_routes)) req fs"

text \<open>
  What the uploader relies on of curl and the network between it and the storage server at \<open>url\<close>: a
  transfer to a URL of plain characters is a \<open>PUT\<close> request with the given header and
  content, and its result is the code of the server's answer.
\<close>

definition reaches :: "fsys curl \<Rightarrow> string \<Rightarrow> pocket \<Rightarrow> bool" where
  "reaches cu url pk \<longleftrightarrow> curl_init cu \<and>
     (\<forall>path key content fs. list_all shell_safe path \<longrightarrow>
        curl_put cu (url @ path) (''X-Storage-Key: '' @ key) content fs =
          (case pocket_answer pk (put_request path key content) fs of
             Inl _ \<Rightarrow> (None, fs)
           | Inr (r, _, fs') \<Rightarrow> (Some (res_status_code r), fs')))"

text \<open>What a browser gets for a segment: the body of a 200 answer.\<close>

definition served :: "pocket \<Rightarrow> string \<Rightarrow> string \<Rightarrow> fsys \<Rightarrow> string option" where
  "served pk sid fn fs =
     (case pocket_answer pk (get_request (segment_target sid fn)) fs of
        Inr (r, _, _) \<Rightarrow> if res_status_code r = 200 then Some (res_body r) else None
      | Inl _ \<Rightarrow> None)"

definition media :: "string \<Rightarrow> bool" where
  "media fn \<longleftrightarrow> isSafe fn \<and> list_all shell_safe fn \<and> (ends_with fn ''.ts'' \<or> ends_with fn ''.m3u8'')"

text \<open>A storage server that has room for a stream: nothing is in the way of its directory and files.\<close>

definition has_room :: "pocket \<Rightarrow> string \<Rightarrow> fsys \<Rightarrow> bool" where
  "has_room pk sid fs \<longleftrightarrow>
     (\<forall>p \<in> set (prefixes_of (resolve (BaseDir pk) @ [sid])). map_of (fs_files fs) p = None) \<and>
     (\<forall>fn. media fn \<longrightarrow> resolve (BaseDir pk) @ [sid, fn] \<notin> set (fs_dirs fs))"
definition stored :: "pocket \<Rightarrow> string \<Rightarrow> string \<Rightarrow> fsys \<Rightarrow> string option" where
  "stored pk sid fn fs = map_of (fs_files fs) (resolve (BaseDir pk) @ [sid, fn])"

definition stream_name :: "string \<Rightarrow> bool" where
  "stream_name sid \<longleftrightarrow> isSafe sid \<and> list_all shell_safe sid \<and> sid \<noteq> ''.''"

lemma mediaD:
  assumes "media fn"
  shows "isSafe fn" "list_all shell_safe fn" "ends_with fn ''.ts'' \<or> ends_with fn ''.m3u8''"
  using assms by (simp_all add: media_def)

lemma path_name_stream: "stream_name sid \<Longrightarrow> path_name sid = [sid]"
  by (simp add: stream_name_def path_name_def)

lemma find_sub_dots: "CHR ''.'' \<notin> set s \<Longrightarrow> find_sub ''..'' s = None"
  by (induction s) auto

lemma ValidateUsername_stream_name:
  assumes "ValidateUsername name = None"
  shows "stream_name name" "CHR ''.'' \<notin> set name"
proof -
  have c: "list_all username_char name" and l: "3 \<le> length name"
    using assms by (simp_all add: ValidateUsername_def split: if_splits)
  have n: "\<not> username_char CHR ''.''" "\<not> username_char CHR ''/''" "\<not> username_char CHR 0x5C"
    "\<not> username_char CHR ''%''" "\<not> username_char CHR 0x00" by code_simp+
  have s: "d \<notin> set name" if "\<not> username_char d" for d using c that by (auto simp: list_all_iff)
  have "isSafe name"
    using l n [THEN s] by (auto simp: isSafe_def find_sub_dots find_char_None_iff)
  moreover have "list_all shell_safe name"
    using c by (rule list.pred_mono_strong) (auto simp: username_char_def shell_safe_def)
  ultimately show "stream_name name" "CHR ''.'' \<notin> set name" using l n(1) [THEN s] by (auto simp: stream_name_def)
qed

lemma pocket_put:
  assumes "isSafe sid" and "isSafe fn"
  shows "pocket_answer pk (put_request (segment_target sid fn) key c) fs =
    (let req = (put_request (segment_target sid fn) key c)\<lparr>req_path_params := [(''streamId'', sid), (''filename'', fn)]\<rparr>
     in bind_res (catch_all (segment_put pk req fs)) (\<lambda>(r, fs'). Inr (r, req, fs')))"
  using dispatch_segment [OF assms, of "put_request (segment_target sid fn) key c" PUT "\<lambda>_ fs. (Inr None, fs)" pk fs]
  by (simp add: pocket_answer_def put_request_def Let_def)

lemma served_stored:
  assumes "stream_name sid" and "media fn"
  shows "served pk sid fn fs = stored pk sid fn fs"
proof -
  have s: "isSafe sid" using assms(1) by (simp add: stream_name_def)
  let ?req = "(get_request (segment_target sid fn))\<lparr>req_path_params := [(''streamId'', sid), (''filename'', fn)]\<rparr>"
  have "pocket_answer pk (get_request (segment_target sid fn)) fs =
      bind_res (catch_all (segment_get pk ?req fs)) (\<lambda>(r, fs'). Inr (r, ?req, fs'))"
    using dispatch_segment [OF s mediaD(1) [OF assms(2)], of "get_request (segment_target sid fn)" GET
        "\<lambda>_ fs. (Inr None, fs)" pk fs]
    by (simp add: pocket_answer_def get_request_def)
  with segment_get_file [OF s mediaD(1,3) [OF assms(2)], of ?req pk fs] path_name_stream [OF assms(1)]
  show ?thesis
    by (auto simp: served_def stored_def PathParam_def catch_all_def response_defs split: option.split)
qed
section \<open>One upload\<close>

lemma shell_safe_no_NUL: "list_all shell_safe s \<Longrightarrow> CHR 0x00 \<notin> set s"
proof
  assume "list_all shell_safe s" and "CHR 0x00 \<in> set s"
  then have "shell_safe CHR 0x00" by (auto simp: list_all_iff)
  moreover have "\<not> shell_safe CHR 0x00" by code_simp
  ultimately show False by simp
qed

lemma shell_safe_target:
  assumes "stream_name sid" and "media fn"
  shows "list_all shell_safe (segment_target sid fn)"
proof -
  have "list_all shell_safe ''/api/segments''" "list_all shell_safe ''/''" by code_simp+
  with assms show ?thesis
    unfolding segment_target_def list_all_append by (simp add: stream_name_def media_def)
qed

lemma put_segment_params:
  "PathParam (req\<lparr>req_path_params := [(''streamId'', sid), (''filename'', fn)]\<rparr>) ''streamId'' = Some sid"
  "PathParam (req\<lparr>req_path_params := [(''streamId'', sid), (''filename'', fn)]\<rparr>) ''filename'' = Some fn"
  by (simp_all add: PathParam_def)

lemma prefixes_of_snoc: "p @ [x] \<in> set (prefixes_of (p @ [x]))" "q \<in> set (prefixes_of p) \<Longrightarrow> length q \<le> length p"
  by (auto simp: prefixes_of_def intro: image_eqI [of _ _ "Suc (length p)"])

lemma set_fold_insert: "set (fold List.insert xs ys) = set xs \<union> set ys"
  by (induction xs arbitrary: ys) auto

lemma segment_put_stores:
  assumes "stream_name sid" and "media fn" and "has_room pk sid fs" and "\<And>p. pk_can_write pk p"
    and "storage_key_ok pk req" and "PathParam req ''streamId'' = Some sid" and "PathParam req ''filename'' = Some fn"
  shows "\<exists>fs'. segment_put pk req fs = (Inr (Ok ''Stored''), fs') \<and> has_room pk sid fs' \<and>
    (\<forall>f. stored pk sid f fs' = (if f = fn then Some (req_body req) else stored pk sid f fs))"
proof -
  let ?d = "resolve (BaseDir pk) @ [sid]" and ?r = "resolve (BaseDir pk) @ [sid, fn]"
  have s: "isSafe sid" "path_name sid = [sid]" using assms(1) by (simp_all add: stream_name_def path_name_stream)
  note m = mediaD [OF assms(2)]
  define fs1 where "fs1 = fs\<lparr>fs_dirs := fold List.insert (prefixes_of ?d) (fs_dirs fs)\<rparr>"
  define fs2 where "fs2 = fs1\<lparr>fs_files := AList.update ?r (req_body req) (fs_files fs)\<rparr>"
  have rd: "resolve (BaseDir pk @ ''/'' @ sid) = ?d" using resolve_name [OF s(1)] s(2) by simp
  have rp: "resolve (segment_path pk sid fn) = ?r" using resolve_segment [OF s(1) m(1)] media_not_dot [OF m(3)] s(2) by simp
  have "\<not> list_ex (\<lambda>p. map_of (fs_files fs) p \<noteq> None) (prefixes_of ?d)"
    using assms(3) by (auto simp: has_room_def list_ex_iff)
  then have c: "create_directories (BaseDir pk @ ''/'' @ sid) fs = (Inr (), fs1)"
    unfolding create_directories_def rd fs1_def Let_def by simp
  have long: "resolve (BaseDir pk) @ [sid, f] \<notin> set (prefixes_of ?d)" for f using prefixes_of_snoc(2) by fastforce
  have dirs: "set (fs_dirs fs1) = set (prefixes_of ?d) \<union> set (fs_dirs fs)" by (simp add: fs1_def set_fold_insert)
  have "?r \<notin> set (fs_dirs fs1)" using assms(2,3) long by (simp add: dirs has_room_def)
  moreover have "butlast ?r \<in> set (fs_dirs fs1)" using prefixes_of_snoc(1) by (simp add: dirs butlast_append)
  ultimately have "write_file (pk_can_write pk) (segment_path pk sid fn) (req_body req) fs1 = (True, fs2)"
    using assms(4) by (simp add: write_file_def rp fs2_def fs1_def Let_def)
  with c s(1) m have "segment_put pk req fs = (Inr (Ok ''Stored''), fs2)"
    by (auto simp: segment_put_def assms(5-7))
  moreover have "has_room pk sid fs2"
  proof -
    have "p \<noteq> ?r" if "p \<in> set (prefixes_of ?d)" for p using that long by blast
    then show ?thesis using assms(3) long by (auto simp: has_room_def fs2_def dirs update_conv')
  qed
  moreover have "stored pk sid f fs2 = (if f = fn then Some (req_body req) else stored pk sid f fs)" for f
    by (simp add: stored_def fs2_def fs1_def update_conv')
  ultimately show ?thesis by blast
qed

lemma upload_reaches:
  assumes "reaches cu url pk" and "stream_name sid" and "media fn" and "CHR 0x00 \<notin> set (url @ key)"
  shows "upload cu \<lparr>storageUrl = url, up_secret = key\<rparr> (Some c) sid fn fs =
    (case pocket_answer pk (put_request (segment_target sid fn) key c) fs of
       Inl _ \<Rightarrow> (False, fs)
     | Inr (r, _, fs') \<Rightarrow> (res_status_code r = 200, fs'))"
proof -
  let ?up = "\<lparr>storageUrl = url, up_secret = key\<rparr>"
  have u: "upload_url ?up sid fn = url @ segment_target sid fn" by (simp add: upload_url_def segment_target_def)
  note t = shell_safe_target [OF assms(2,3)]
  have "c_str (upload_url ?up sid fn) = url @ segment_target sid fn"
    unfolding u using assms(4) shell_safe_no_NUL [OF t] by (intro c_str_id) simp
  moreover have "c_str (''X-Storage-Key: '' @ up_secret ?up) = ''X-Storage-Key: '' @ key"
    using assms(4) by (intro c_str_id [THEN trans]) simp_all
  ultimately show ?thesis
    using assms(1) t by (auto simp: upload_def reaches_def split: sum.split)
qed

lemma upload_stores:
  assumes "reaches cu url pk" and "stream_name sid" and "media fn" and "CHR 0x00 \<notin> set (url @ pk_secret pk)"
    and "has_room pk sid fs" and "\<And>p. pk_can_write pk p"
  shows "\<exists>fs'. upload cu \<lparr>storageUrl = url, up_secret = pk_secret pk\<rparr> (Some c) sid fn fs = (True, fs') \<and> has_room pk sid fs' \<and>
    (\<forall>f. stored pk sid f fs' = (if f = fn then Some c else stored pk sid f fs))"
proof -
  let ?req = "(put_request (segment_target sid fn) (pk_secret pk) c)\<lparr>req_path_params := [(''streamId'', sid), (''filename'', fn)]\<rparr>"
  have s: "isSafe sid" using assms(2) by (simp add: stream_name_def)
  have b: "req_body ?req = c" "storage_key_ok pk ?req" by (simp_all add: put_request_def storage_key_ok_def)
  obtain fs' where "segment_put pk ?req fs = (Inr (Ok ''Stored''), fs')" "has_room pk sid fs'"
    "\<forall>f. stored pk sid f fs' = (if f = fn then Some c else stored pk sid f fs)"
    using segment_put_stores [OF assms(2,3,5,6) b(2) put_segment_params] unfolding b(1) by blast
  then show ?thesis
    unfolding upload_reaches [OF assms(1-4)] pocket_put [OF s mediaD(1) [OF assms(3)]] Let_def
    by (simp add: catch_all_def response_defs)
qed

lemma upload_refused:
  assumes "reaches cu url pk" and "stream_name sid" and "media fn" and "CHR 0x00 \<notin> set (url @ key)"
    and "key \<noteq> pk_secret pk"
  shows "upload cu \<lparr>storageUrl = url, up_secret = key\<rparr> x sid fn fs = (False, fs)"
proof (cases x)
  case (Some c)
  have s: "isSafe sid" using assms(2) by (simp add: stream_name_def)
  show ?thesis
    unfolding Some upload_reaches [OF assms(1-4)] pocket_put [OF s mediaD(1) [OF assms(3)]] Let_def using assms(5)
    by (simp add: segment_put_def storage_key_ok_def put_request_def catch_all_def response_defs)
qed (simp add: upload_def)
section \<open>The whole recording\<close>

text \<open>What could be read of the files that were found, in the order in which they were found.\<close>

definition openable :: "(string \<times> string option) list \<Rightarrow> (string \<times> string) list" where
  "openable es = concat (map (\<lambda>(f, x). case x of None \<Rightarrow> [] | Some c \<Rightarrow> [(f, c)]) es)"

definition found :: "dir_view option list \<Rightarrow> (string \<times> string option) list" where
  "found vs = concat (map (\<lambda>v. case v of None \<Rightarrow> [] | Some v \<Rightarrow> view_entries v) vs)"

definition playlists :: "dir_view option list \<Rightarrow> string list" where
  "playlists vs = concat (map (\<lambda>v. case v of None \<Rightarrow> [] | Some v \<Rightarrow>
     (case view_playlist v of Some (Some c) \<Rightarrow> [c] | _ \<Rightarrow> [])) vs)"

lemma openable_simps [simp]:
  "openable [] = []" "openable (xs @ ys) = openable xs @ openable ys"
  "openable ((f, None) # es) = openable es" "openable ((f, Some c) # es) = (f, c) # openable es"
  by (simp_all add: openable_def)

lemma found_simps [simp]:
  "found [] = []" "found (vs @ us) = found vs @ found us" "found (None # vs) = found vs"
  "found (Some v # vs) = view_entries v @ found vs"
  "playlists [] = []" "playlists (vs @ us) = playlists vs @ playlists us" "playlists (None # vs) = playlists vs"
  by (simp_all add: found_def playlists_def)

text \<open>The names of the segments that the encoder writes.\<close>

definition names_ok :: "(string \<times> string option) list \<Rightarrow> bool" where
  "names_ok es \<longleftrightarrow> (\<forall>(f, x) \<in> set es. ends_with f ''.ts'' \<longrightarrow> media f)"

text \<open>
  The thread's invariant, for a recording whose passes found \<open>past\<close> and \<open>pl\<close> so far: the set of
  uploaded names is the set of the segments that could be read, the server has the first version of each,
  and the last version of the playlist.
\<close>

definition recorded ::
    "pocket \<Rightarrow> string \<Rightarrow> fsys \<Rightarrow> (string \<times> string option) list \<Rightarrow> string list \<Rightarrow> string list \<times> fsys \<Rightarrow> bool" where
  "recorded pk sid fs0 past pl s \<longleftrightarrow> has_room pk sid (snd s) \<and>
     (\<forall>f. ends_with f ''.ts'' \<longrightarrow> (f \<in> set (fst s) \<longleftrightarrow> map_of (openable past) f \<noteq> None)) \<and>
     (\<forall>f. ends_with f ''.ts'' \<longrightarrow> stored pk sid f (snd s) =
        (case map_of (openable past) f of None \<Rightarrow> stored pk sid f fs0 | Some c \<Rightarrow> Some c)) \<and>
     stored pk sid (sid @ ''.m3u8'') (snd s) =
       (if pl = [] then stored pk sid (sid @ ''.m3u8'') fs0 else Some (last pl))"

lemma ts_not_playlist: "ends_with f ''.ts'' \<Longrightarrow> f \<noteq> sid @ ''.m3u8''"
  by (auto simp: ends_with_iff append_eq_append_conv2 append_eq_Cons_conv Cons_eq_append_conv)

lemma find_sub_dots_append: "CHR ''.'' \<notin> set s \<Longrightarrow> find_sub ''..'' t = None \<Longrightarrow> find_sub ''..'' (s @ t) = None"
  by (induction s) auto

lemma media_playlist:
  assumes "stream_name sid" and "CHR ''.'' \<notin> set sid"
  shows "media (sid @ ''.m3u8'')"
proof -
  have "find_sub ''..'' ''.m3u8'' = None" "list_all shell_safe ''.m3u8''" by code_simp+
  with assms find_sub_dots_append show ?thesis
    by (auto simp: media_def stream_name_def isSafe_def find_char_None_iff ends_with_iff)
qed

lemma map_of_snoc: "map_of (xs @ [(f, c)]) g = (case map_of xs g of Some y \<Rightarrow> Some y | None \<Rightarrow> if g = f then Some c else None)"
  by (induction xs) auto

lemma recorded_segment:
  assumes r: "recorded pk sid fs0 past pl (u, fs)" and t: "ends_with f ''.ts''" and n: "f \<notin> set u"
    and s: "has_room pk sid fs'" "\<forall>g. stored pk sid g fs' = (if g = f then Some c else stored pk sid g fs)"
  shows "recorded pk sid fs0 (past @ [(f, Some c)]) pl (f # u, fs')"
proof -
  have "map_of (openable past) f = None" using r t n by (simp add: recorded_def)
  with r t s ts_not_playlist [OF t, of sid] show ?thesis
    by (auto simp: recorded_def map_of_snoc split: option.splits)
qed
definition delivery :: "fsys curl \<Rightarrow> string \<Rightarrow> pocket \<Rightarrow> string \<Rightarrow> bool" where
  "delivery cu url pk sid \<longleftrightarrow> reaches cu url pk \<and> stream_name sid \<and> CHR ''.'' \<notin> set sid \<and>
     CHR 0x00 \<notin> set (url @ pk_secret pk) \<and> (\<forall>p. pk_can_write pk p)"

abbreviation keyed :: "string \<Rightarrow> pocket \<Rightarrow> SegmentUploader" where
  "keyed url pk \<equiv> \<lparr>storageUrl = url, up_secret = pk_secret pk\<rparr>"

lemma delivery_upload:
  assumes "delivery cu url pk sid" and "media fn" and "has_room pk sid fs"
  obtains fs' where "upload cu (keyed url pk) (Some c) sid fn fs = (True, fs')" and "has_room pk sid fs'"
    and "\<forall>f. stored pk sid f fs' = (if f = fn then Some c else stored pk sid f fs)"
  using upload_stores [of cu url pk sid fn fs c] assms unfolding delivery_def by blast

lemma recorded_segments:
  assumes d: "delivery cu url pk sid"
  shows "recorded pk sid fs0 past pl s \<Longrightarrow> names_ok es \<Longrightarrow>
    recorded pk sid fs0 (past @ es) pl (upload_segments cu (keyed url pk) sid es s)"
proof (induction es arbitrary: past s)
  case (Cons e es)
  obtain f x where e: "e = (f, x)" by fastforce
  obtain u fs where s: "s = (u, fs)" by fastforce
  have ok: "names_ok es" "ends_with f ''.ts'' \<Longrightarrow> media f" using Cons.prems(2) by (auto simp: names_ok_def e)
  let ?s = "if \<not> ends_with f ''.ts'' then (u, fs) else if f \<in> set u then (u, fs)
    else case upload cu (keyed url pk) x sid f fs of (True, w') \<Rightarrow> (f # u, w') | (False, w') \<Rightarrow> (u, w')"
  have "recorded pk sid fs0 (past @ [(f, x)]) pl ?s"
  proof (cases "ends_with f ''.ts'' \<and> f \<notin> set u \<and> x \<noteq> None")
    case True
    then obtain c where x: "x = Some c" by blast
    have "has_room pk sid fs" using Cons.prems(1) by (simp add: recorded_def s)
    from delivery_upload [OF d ok(2) this] True obtain fs' where
      "upload cu (keyed url pk) (Some c) sid f fs = (True, fs')" "has_room pk sid fs'"
      "\<forall>g. stored pk sid g fs' = (if g = f then Some c else stored pk sid g fs)" by blast
    with recorded_segment [OF Cons.prems(1) [unfolded s]] True show ?thesis by (simp add: x)
  next
    case False
    then have st: "?s = (u, fs)" by (auto simp: upload_def)
    have "map_of (openable (past @ [(f, x)])) g = map_of (openable past) g" if "ends_with g ''.ts''" for g
    proof (cases x)
      case (Some c)
      with False have "g = f \<Longrightarrow> map_of (openable past) f \<noteq> None" using Cons.prems(1) that by (auto simp: s recorded_def)
      then show ?thesis by (auto simp: Some map_of_snoc simp del: map_of_append split: option.split)
    qed simp
    with Cons.prems(1) show ?thesis unfolding st s recorded_def by (simp del: openable_simps)
  qed
  from Cons.IH [OF this ok(1)] show ?case by (simp add: e s)
qed simp

lemma recorded_playlist:
  assumes d: "delivery cu url pk sid" and r: "recorded pk sid fs0 past pl (u, fs)"
  shows "recorded pk sid fs0 past (pl @ playlists [Some v]) (u, upload_playlist cu (keyed url pk) sid v fs)"
proof (cases "\<exists>c. view_playlist v = Some (Some c)")
  case True
  then obtain c where c: "view_playlist v = Some (Some c)" by blast
  have m: "media (sid @ ''.m3u8'')" using d by (simp add: delivery_def media_playlist)
  have "has_room pk sid fs" using r by (simp add: recorded_def)
  from delivery_upload [OF d m this] obtain fs' where
    "upload cu (keyed url pk) (Some c) sid (sid @ ''.m3u8'') fs = (True, fs')" "has_room pk sid fs'"
    "\<forall>g. stored pk sid g fs' = (if g = sid @ ''.m3u8'' then Some c else stored pk sid g fs)" by blast
  with r ts_not_playlist show ?thesis by (auto simp: recorded_def upload_playlist_def playlists_def c)
next
  case False
  then show ?thesis using r
    by (auto simp: upload_playlist_def playlists_def upload_def split: option.splits)
qed

lemma recorded_pass:
  assumes d: "delivery cu url pk sid" and r: "recorded pk sid fs0 past pl s" and n: "names_ok (found [v])"
  shows "recorded pk sid fs0 (past @ found [v]) (pl @ playlists [v]) (upload_pass cu (keyed url pk) sid v s)"
proof (cases v)
  case (Some w)
  obtain u fs where s: "upload_segments cu (keyed url pk) sid (view_entries w) s = (u, fs)" by fastforce
  have "recorded pk sid fs0 (past @ view_entries w) pl (u, fs)"
    using recorded_segments [OF d r, of "view_entries w"] n by (simp add: s Some)
  from recorded_playlist [OF d this] show ?thesis by (simp add: Some upload_pass_def s)
qed (simp add: r upload_pass_def)

lemma recorded_passes:
  assumes d: "delivery cu url pk sid"
  shows "recorded pk sid fs0 past pl s \<Longrightarrow> names_ok (found vs) \<Longrightarrow>
    recorded pk sid fs0 (past @ found vs) (pl @ playlists vs) (fold (upload_pass cu (keyed url pk) sid) vs s)"
proof (induction vs arbitrary: past pl s)
  case (Cons v vs)
  have n: "names_ok (found [v])" "names_ok (found vs)" using Cons.prems(2) by (auto simp: names_ok_def found_def)
  have a: "found (v # vs) = found [v] @ found vs" "playlists (v # vs) = playlists [v] @ playlists vs"
    by (simp_all add: found_def playlists_def)
  from Cons.IH [OF recorded_pass [OF d Cons.prems(1) n(1)] n(2)] show ?case unfolding a by simp
qed simp

text \<open>The final pass is a pass like the others as long as no name is listed twice.\<close>

lemma final_segments_pass:
  "distinct (map fst es) \<Longrightarrow> set u' \<inter> fst ` set es = {} \<Longrightarrow>
    final_segments cu up sid u es w = snd (upload_segments cu up sid es (u' @ u, w))"
proof (induction es arbitrary: u' w)
  case (Cons e es)
  obtain f x where e: "e = (f, x)" by fastforce
  have d: "distinct (map fst es)" "set u' \<inter> fst ` set es = {}" "set (f # u') \<inter> fst ` set es = {}" "f \<notin> set u'"
    using Cons.prems by (auto simp: e)
  show ?case using Cons.IH [OF d(1,2)] Cons.IH [OF d(1,3)] d(4)
    by (auto simp: e split: prod.split bool.split)
qed simp

lemma uploader_as_passes:
  assumes "distinct (map fst (found [final]))"
  shows "startSegmentUploader cu up sid views final w = snd (fold (upload_pass cu up sid) (views @ [final]) ([], w))"
proof (cases final)
  case (Some v)
  obtain u w' where f: "fold (upload_pass cu up sid) views ([], w) = (u, w')" by fastforce
  have "final_segments cu up sid u (view_entries v) w' = snd (upload_segments cu up sid (view_entries v) (u, w'))"
    using final_segments_pass [of "view_entries v" "[]" cu up sid u w'] assms by (simp add: Some)
  then show ?thesis by (simp add: startSegmentUploader_def upload_pass_def Some f split: prod.split)
qed (simp add: startSegmentUploader_def upload_pass_def case_prod_unfold)
section \<open>Properties\<close>


text \<open>
  With different keys nothing arrives. When the backend's key is not the storage server's, every
  upload fails with the server's files unchanged, whatever is recorded; the thread goes on and tries
  every segment again in the next pass.
\<close>

theorem wrong_key_uploads_nothing:
  assumes "ValidateUsername name = None" and "reaches cu url pk" and "CHR 0x00 \<notin> set (url @ key)"
    and "key \<noteq> pk_secret pk" and "names_ok (found (views @ [final]))"
  shows "startSegmentUploader cu \<lparr>storageUrl = url, up_secret = key\<rparr> name views final fs = fs"
proof -
  let ?up = "\<lparr>storageUrl = url, up_secret = key\<rparr>"
  note n = ValidateUsername_stream_name [OF assms(1)]
  note refused = upload_refused [OF assms(2) n(1) _ assms(3,4)]
  have m: "media (name @ ''.m3u8'')" by (rule media_playlist) (fact n)+
  have segs: "names_ok es \<Longrightarrow> upload_segments cu ?up name es (u, fs) = (u, fs)" for es u
    by (induction es) (auto simp: names_ok_def refused)
  have finals: "names_ok es \<Longrightarrow> final_segments cu ?up name u es fs = fs" for es u
    by (induction es) (auto simp: names_ok_def refused)
  have pl: "upload_playlist cu ?up name v fs = fs" for v
    by (simp add: upload_playlist_def refused [OF m] split: option.split)
  have "names_ok (found vs) \<Longrightarrow> fold (upload_pass cu ?up name) vs ([], fs) = ([], fs)" for vs
  proof (induction vs)
    case (Cons v vs)
    then have "names_ok (found [v])" "names_ok (found vs)" by (auto simp: names_ok_def found_def)
    with Cons.IH show ?case by (cases v) (simp_all add: upload_pass_def segs pl)
  qed simp
  moreover have "names_ok (found views)" "names_ok (found [final])" using assms(5) by (auto simp: names_ok_def)
  ultimately show ?thesis by (cases final) (simp_all add: startSegmentUploader_def finals pl)
qed

section \<open>Witnesses\<close>

text \<open>A network without losses: the part of the URL behind the server's address is the path.\<close>

definition direct_curl :: "string \<Rightarrow> pocket \<Rightarrow> fsys curl" where
  "direct_curl url pk = \<lparr>curl_init = True,
     curl_put = (\<lambda>u header content fs.
       case pocket_answer pk (put_request (drop (length url) u) (drop 15 header) content) fs of
         Inl _ \<Rightarrow> (None, fs)
       | Inr (r, _, fs') \<Rightarrow> (Some (res_status_code r), fs')),
     curl_delete = (\<lambda>_ _ fs. (None, fs))\<rparr>"

lemma direct_curl_reaches: "reaches (direct_curl url pk) url pk"
  by (simp add: reaches_def direct_curl_def)

definition demo_views :: "dir_view option list" where
  "demo_views = [None, Some \<lparr>view_entries = [(''ann0.ts'', Some ''one''), (''ann.m3u8'', Some ''a'')], view_playlist = Some (Some ''a'')\<rparr>]"

definition demo_final :: "dir_view option" where
  "demo_final = Some \<lparr>view_entries = [(''ann0.ts'', Some ''again''), (''ann1.ts'', Some ''two'')], view_playlist = Some (Some ''b'')\<rparr>"

lemma demo_recording:
  "ValidateUsername ''ann'' = None" "names_ok (found (demo_views @ [demo_final]))" "distinct (map fst (found [demo_final]))"
  "map_of (openable (found (demo_views @ [demo_final]))) ''ann0.ts'' = Some ''one''"
  "playlists (demo_views @ [demo_final]) = [''a'', ''b'']" "media ''ann0.ts''"
  by code_simp+
lemma demo_room: "has_room demo_pocket ''ann'' \<lparr>fs_files = [], fs_dirs = []\<rparr>" "\<forall>p. pk_can_write demo_pocket p"
  "CHR 0x00 \<notin> set (''http://s'' @ pk_secret demo_pocket)"
  by (simp_all add: has_room_def demo_pocket_def)


theorem wrong_key_uploads_nothing_witness:
  "startSegmentUploader (direct_curl ''http://s'' demo_pocket) \<lparr>storageUrl = ''http://s'', up_secret = ''124''\<rparr> ''ann''
     demo_views demo_final \<lparr>fs_files = [], fs_dirs = []\<rparr> = \<lparr>fs_files = [], fs_dirs = []\<rparr>"
  by (rule wrong_key_uploads_nothing [OF demo_recording(1) direct_curl_reaches _ _ demo_recording(2)])
    (simp_all add: demo_pocket_def)

end
