(* ===== verification/JsonText.thy ===== *)
theory JsonText
  imports Prelude
begin

text \<open>
  UTF-8 in the JSON library (\<open>src/backend/include/nlohmann/json.hpp\<close>): the table-driven
  decoder \<open>serializer::decode\<close>, the byte ranges the lexer accepts after a lead byte, the
  bytes it writes for a code point, and \<open>serializer::dump_escaped\<close> with its 512-byte
  buffer. The reference is Unicode's own definition: a string is well formed when it is the
  concatenation of the encodings of a list of scalar values. The decoder and the lexer's
  ranges are both shown to accept exactly these strings.
\<close>

named_theorems json_simps \<open>evaluation of the JSON library's tables and conversions\<close>

abbreviation code :: "char \<Rightarrow> nat" where
  "code c \<equiv> of_char c"

abbreviation codes :: "string \<Rightarrow> nat list" where
  "codes s \<equiv> map of_char s"

section \<open>Code points and bytes\<close>

text \<open>The bytes of a code point (\<open>lexer::scan_string\<close>, after a \<open>\u\<close> escape).\<close>

definition codepoint_bytes :: "nat \<Rightarrow> nat list" where
  "codepoint_bytes cp =
     (if cp < 0x80 then [cp]
      else if cp \<le> 0x7FF then
        [0xC0 OR drop_bit 6 cp,
         0x80 OR (cp AND 0x3F)]
      else if cp \<le> 0xFFFF then
        [0xE0 OR drop_bit 12 cp,
         0x80 OR (drop_bit 6 cp AND 0x3F),
         0x80 OR (cp AND 0x3F)]
      else
        [0xF0 OR drop_bit 18 cp,
         0x80 OR (drop_bit 12 cp AND 0x3F),
         0x80 OR (drop_bit 6 cp AND 0x3F),
         0x80 OR (cp AND 0x3F)])"

text \<open>Unicode's scalar values, and the well-formed strings.\<close>

definition scalar :: "nat \<Rightarrow> bool" where
  "scalar cp \<longleftrightarrow> cp < 0xD800 \<or> (0xE000 \<le> cp \<and> cp \<le> 0x10FFFF)"

definition encode_text :: "nat list \<Rightarrow> nat list" where
  "encode_text cps = concat (map codepoint_bytes cps)"

definition utf8_bytes :: "nat list \<Rightarrow> bool" where
  "utf8_bytes bs \<longleftrightarrow> (\<exists>cps. (\<forall>cp \<in> set cps. scalar cp) \<and> bs = encode_text cps)"

text \<open>
  The continuation bytes the lexer expects after a lead byte from 0x80 on
  (\<open>lexer::scan_string\<close>); \<^const>\<open>None\<close> for a byte that starts no sequence.
\<close>

definition lead_ranges :: "nat \<Rightarrow> (nat \<times> nat) list option" where
  "lead_ranges b =
     (if 0xC2 \<le> b \<and> b \<le> 0xDF then Some [(0x80, 0xBF)]
      else if b = 0xE0 then Some [(0xA0, 0xBF), (0x80, 0xBF)]
      else if (0xE1 \<le> b \<and> b \<le> 0xEC) \<or> b = 0xEE \<or> b = 0xEF then
        Some [(0x80, 0xBF), (0x80, 0xBF)]
      else if b = 0xED then Some [(0x80, 0x9F), (0x80, 0xBF)]
      else if b = 0xF0 then Some [(0x90, 0xBF), (0x80, 0xBF), (0x80, 0xBF)]
      else if 0xF1 \<le> b \<and> b \<le> 0xF3 then Some [(0x80, 0xBF), (0x80, 0xBF), (0x80, 0xBF)]
      else if b = 0xF4 then Some [(0x80, 0x8F), (0x80, 0xBF), (0x80, 0xBF)]
      else None)"

fun in_ranges :: "(nat \<times> nat) list \<Rightarrow> nat list \<Rightarrow> bool" where
  "in_ranges [] [] \<longleftrightarrow> True"
| "in_ranges ((lo, hi) # rs) (b # bs) \<longleftrightarrow> lo \<le> b \<and> b \<le> hi \<and> in_ranges rs bs"
| "in_ranges _ _ \<longleftrightarrow> False"

lemma or_take_push: "take_bit n x OR push_bit n y = y * 2 ^ n + take_bit n (x :: nat)"
proof -
  have "take_bit n x AND push_bit n y = 0"
    by (rule bit_eqI) (simp add: bit_and_iff bit_take_bit_iff bit_push_bit_iff)
  then have "take_bit n x OR push_bit n y = take_bit n x + push_bit n y"
    by (rule disjunctive_add_eq_or [symmetric])
  then show ?thesis by (simp add: push_bit_eq_mult)
qed

lemma or_shift: "(x mod 64) OR push_bit 6 y = y * 64 + x mod (64 :: nat)"
  using or_take_push [of 6 x y] by (simp add: take_bit_eq_mod)

lemma or_low_bits:
  fixes x :: nat
  shows "x < 64 \<Longrightarrow> 0x80 OR x = 0x80 + x"
    and "x < 32 \<Longrightarrow> 0xC0 OR x = 0xC0 + x"
    and "x < 16 \<Longrightarrow> 0xE0 OR x = 0xE0 + x"
    and "x < 8 \<Longrightarrow> 0xF0 OR x = 0xF0 + x"
  using or_take_push [of 6 x 2] or_take_push [of 5 x 6] or_take_push [of 4 x 14]
    or_take_push [of 3 x 30]
  by (simp_all add: take_bit_eq_mod push_bit_eq_mult or.commute)

lemma and_3F: "(n :: nat) AND 0x3F = n mod 64"
  using take_bit_eq_mask [of 6 n] by (simp add: take_bit_eq_mod mask_eq_exp_minus_1)

lemma codepoint_bytes_arith:
  assumes "cp \<le> 0x10FFFF"
  shows "codepoint_bytes cp =
     (if cp < 0x80 then [cp]
      else if cp \<le> 0x7FF then [0xC0 + cp div 64, 0x80 + cp mod 64]
      else if cp \<le> 0xFFFF then
        [0xE0 + cp div 4096, 0x80 + cp div 64 mod 64, 0x80 + cp mod 64]
      else [0xF0 + cp div 262144, 0x80 + cp div 4096 mod 64, 0x80 + cp div 64 mod 64,
        0x80 + cp mod 64])"
proof -
  have m: "(0x80 :: nat) OR (x mod 64) = 0x80 + x mod 64" for x
    by (rule or_low_bits(1)) simp
  have d: "cp \<le> 0x7FF \<Longrightarrow> 0xC0 OR (cp div 64) = 0xC0 + cp div 64"
    "cp \<le> 0xFFFF \<Longrightarrow> 0xE0 OR (cp div 4096) = 0xE0 + cp div 4096"
    "0xF0 OR (cp div 262144) = 0xF0 + cp div 262144"
    using assms by (intro or_low_bits; linarith)+
  show ?thesis
    by (simp add: codepoint_bytes_def and_3F drop_bit_eq_div m d)
qed

lemma codepoint_bytes_2:
  assumes "q < 64" and "2 \<le> p" and "p < 32"
  shows "codepoint_bytes (p * 64 + q) = [0xC0 + p, 0x80 + q]"
proof -
  have b: "p * 64 + q \<le> 0x7FF" "\<not> p * 64 + q < 0x80" using assms by linarith+
  then have "codepoint_bytes (p * 64 + q) = [0xC0 + (p * 64 + q) div 64, 0x80 + (p * 64 + q) mod 64]"
    by (subst codepoint_bytes_arith) simp_all
  then show ?thesis using assms(1) by simp
qed

lemma sextets:
  fixes a r :: nat
  assumes "r < 64"
  shows "(a * 64 + r) div 64 = a" and "(a * 64 + r) mod 64 = r"
  using assms by simp_all

lemma div_sextets:
  "(n :: nat) div 4096 = n div 64 div 64" "n div 262144 = n div 64 div 64 div 64"
  by (simp_all add: div_mult2_eq [symmetric])

lemma codepoint_bytes_3:
  assumes "r < 64" and "q < 64" and "p < 16" and "p = 0 \<Longrightarrow> 32 \<le> q"
  shows "codepoint_bytes (p * 4096 + q * 64 + r) = [0xE0 + p, 0x80 + q, 0x80 + r]"
proof -
  let ?cp = "(p * 64 + q) * 64 + r"
  have eq: "p * 4096 + q * 64 + r = ?cp" by simp
  have "32 \<le> q \<or> 1 \<le> p" using assms(4) by (cases p) auto
  then have b: "?cp \<le> 0xFFFF" "\<not> ?cp \<le> 0x7FF" using assms(1-3) by auto
  then have "codepoint_bytes ?cp =
      [0xE0 + ?cp div 4096, 0x80 + ?cp div 64 mod 64, 0x80 + ?cp mod 64]"
    by (subst codepoint_bytes_arith) auto
  then show ?thesis
    unfolding eq using assms(1,2) by (simp only: div_sextets sextets)
qed

lemma codepoint_bytes_4:
  assumes "s < 64" and "r < 64" and "q < 64" and "p \<le> 4"
    and "p = 0 \<Longrightarrow> 16 \<le> q" and "p = 4 \<Longrightarrow> q < 16"
  shows "codepoint_bytes (p * 262144 + q * 4096 + r * 64 + s) =
    [0xF0 + p, 0x80 + q, 0x80 + r, 0x80 + s]"
proof -
  let ?cp = "((p * 64 + q) * 64 + r) * 64 + s"
  have eq: "p * 262144 + q * 4096 + r * 64 + s = ?cp" by simp
  have "p \<le> 3 \<or> p = 4 \<and> q < 16" using assms(4,6) by (cases "p = 4") auto
  then have b: "?cp \<le> 0x10FFFF" using assms(1-3) by auto
  have "16 \<le> q \<or> 1 \<le> p" using assms(5) by (cases p) auto
  then have c: "\<not> ?cp \<le> 0xFFFF" using assms(1-3) by auto
  from b c have "codepoint_bytes ?cp =
      [0xF0 + ?cp div 262144, 0x80 + ?cp div 4096 mod 64, 0x80 + ?cp div 64 mod 64, 0x80 + ?cp mod 64]"
    by (subst codepoint_bytes_arith) auto
  then show ?thesis
    unfolding eq using assms(1-3) by (simp only: div_sextets sextets)
qed

lemma sextet_digits:
  fixes n :: nat
  shows "n = n div 4096 * 4096 + n div 64 mod 64 * 64 + n mod 64"
    and "n = n div 262144 * 262144 + n div 4096 mod 64 * 4096 + n div 64 mod 64 * 64 + n mod 64"
proof -
  have a: "n = n div 64 * 64 + n mod 64"
    and b: "n div 64 = n div 64 div 64 * 64 + n div 64 mod 64"
    and c: "n div 64 div 64 = n div 64 div 64 div 64 * 64 + n div 64 div 64 mod 64"
    by simp_all
  from a b show "n = n div 4096 * 4096 + n div 64 mod 64 * 64 + n mod 64"
    unfolding div_sextets by linarith
  from a b c show "n = n div 262144 * 262144 + n div 4096 mod 64 * 4096 + n div 64 mod 64 * 64 + n mod 64"
    unfolding div_sextets by linarith
qed

text \<open>The lexer's ranges are exactly the encodings of the scalar values beyond ASCII.\<close>

lemma ranges_complete:
  assumes "scalar cp" and "0x80 \<le> cp"
  obtains b bs rs where "codepoint_bytes cp = b # bs" and "lead_ranges b = Some rs"
    and "in_ranges rs bs" and "0x80 \<le> b" and "b < 256"
proof -
  from assms have lim: "cp \<le> 0x10FFFF" by (auto simp: scalar_def)
  consider "cp \<le> 0x7FF" | "0x7FF < cp" "cp \<le> 0xFFFF" | "0xFFFF < cp" by linarith
  then show thesis
  proof cases
    case 1
    with assms have "2 \<le> cp div 64" "cp div 64 \<le> 31" by linarith+
    moreover have "cp mod 64 \<le> 63" by simp
    ultimately show thesis using 1 assms lim
      by (intro that [of "0xC0 + cp div 64" "[0x80 + cp mod 64]" "[(0x80, 0xBF)]"])
        (simp_all add: codepoint_bytes_arith lead_ranges_def)
  next
    case 2
    define p q r where "p = cp div 4096" and "q = cp div 64 mod 64" and "r = cp mod 64"
    have cp: "cp = p * 4096 + q * 64 + r" unfolding p_def q_def r_def by (rule sextet_digits)
    have m: "n mod 64 \<le> 63" for n :: nat by (simp flip: less_Suc_eq_le)
    have bnd: "p \<le> 15" "q \<le> 63" "r \<le> 63"
      using 2 m by (simp_all add: p_def q_def r_def)
    have z: "p = 0 \<Longrightarrow> 32 \<le> q" using cp 2 bnd by linarith
    have s: "p = 13 \<Longrightarrow> q \<le> 31"
      using assms(1) bnd unfolding scalar_def cp by linarith
    have e: "codepoint_bytes cp = [0xE0 + p, 0x80 + q, 0x80 + r]"
      unfolding cp using bnd z by (intro codepoint_bytes_3) auto
    consider "p = 0" | "p = 13" | "p \<noteq> 0" "p \<noteq> 13" by blast
    then show thesis
    proof cases
      case 1
      with z bnd e show thesis
        by (intro that [of "0xE0 + p" "[0x80 + q, 0x80 + r]" "[(0xA0, 0xBF), (0x80, 0xBF)]"])
          (simp_all add: lead_ranges_def)
    next
      case 2
      with s bnd e show thesis
        by (intro that [of "0xE0 + p" "[0x80 + q, 0x80 + r]" "[(0x80, 0x9F), (0x80, 0xBF)]"])
          (simp_all add: lead_ranges_def)
    next
      case 3
      with bnd have "lead_ranges (0xE0 + p) = Some [(0x80, 0xBF), (0x80, 0xBF)]"
        unfolding lead_ranges_def by auto
      with bnd e show thesis
        by (intro that [of "0xE0 + p" "[0x80 + q, 0x80 + r]" "[(0x80, 0xBF), (0x80, 0xBF)]"]) auto
    qed
  next
    case 3
    define p q r s where "p = cp div 262144" and "q = cp div 4096 mod 64"
      and "r = cp div 64 mod 64" and "s = cp mod 64"
    have cp: "cp = p * 262144 + q * 4096 + r * 64 + s"
      unfolding p_def q_def r_def s_def by (rule sextet_digits)
    have m: "n mod 64 \<le> 63" for n :: nat by (simp flip: less_Suc_eq_le)
    have bnd: "p \<le> 4" "q \<le> 63" "r \<le> 63" "s \<le> 63"
      using lim m by (simp_all add: p_def q_def r_def s_def)
    have z: "p = 0 \<Longrightarrow> 16 \<le> q" using cp 3 bnd by linarith
    have f: "p = 4 \<Longrightarrow> q \<le> 15" using cp lim bnd by linarith
    have e: "codepoint_bytes cp = [0xF0 + p, 0x80 + q, 0x80 + r, 0x80 + s]"
      unfolding cp using bnd z f by (intro codepoint_bytes_4) auto
    consider "p = 0" | "p = 4" | "p = 1 \<or> p = 2 \<or> p = 3" using bnd(1) by linarith
    then show thesis
    proof cases
      case 1
      with z bnd e show thesis
        by (intro that [of "0xF0 + p" "[0x80 + q, 0x80 + r, 0x80 + s]"
              "[(0x90, 0xBF), (0x80, 0xBF), (0x80, 0xBF)]"])
          (simp_all add: lead_ranges_def)
    next
      case 2
      with f bnd e show thesis
        by (intro that [of "0xF0 + p" "[0x80 + q, 0x80 + r, 0x80 + s]"
              "[(0x80, 0x8F), (0x80, 0xBF), (0x80, 0xBF)]"])
          (simp_all add: lead_ranges_def)
    next
      case 3
      with bnd e show thesis
        by (intro that [of "0xF0 + p" "[0x80 + q, 0x80 + r, 0x80 + s]"
              "[(0x80, 0xBF), (0x80, 0xBF), (0x80, 0xBF)]"])
          (auto simp: lead_ranges_def)
    qed
  qed
qed

text \<open>The code point of a sequence, with the arithmetic of its length.\<close>

fun seq_codepoint :: "nat list \<Rightarrow> nat" where
  "seq_codepoint [a] = a"
| "seq_codepoint [a, b] = (a - 0xC0) * 64 + (b - 0x80)"
| "seq_codepoint [a, b, c] = (a - 0xE0) * 4096 + (b - 0x80) * 64 + (c - 0x80)"
| "seq_codepoint [a, b, c, d] =
     (a - 0xF0) * 262144 + (b - 0x80) * 4096 + (c - 0x80) * 64 + (d - 0x80)"
| "seq_codepoint _ = 0"

lemma in_ranges_Cons_iff:
  "in_ranges (r # rs) bs \<longleftrightarrow>
    (\<exists>b bs'. bs = b # bs' \<and> fst r \<le> b \<and> b \<le> snd r \<and> in_ranges rs bs')"
  by (cases r; cases bs) auto

lemma in_ranges_Nil_iff: "in_ranges [] bs \<longleftrightarrow> bs = []"
  by (cases bs) auto

lemmas in_ranges_iffs = in_ranges_Cons_iff in_ranges_Nil_iff

lemma lead_ranges_cases:
  assumes "lead_ranges b = Some rs"
  obtains "0xC2 \<le> b" "b \<le> 0xDF" "rs = [(0x80, 0xBF)]"
  | "b = 0xE0" "rs = [(0xA0, 0xBF), (0x80, 0xBF)]"
  | "0xE1 \<le> b" "b \<le> 0xEF" "b \<noteq> 0xED" "rs = [(0x80, 0xBF), (0x80, 0xBF)]"
  | "b = 0xED" "rs = [(0x80, 0x9F), (0x80, 0xBF)]"
  | "b = 0xF0" "rs = [(0x90, 0xBF), (0x80, 0xBF), (0x80, 0xBF)]"
  | "0xF1 \<le> b" "b \<le> 0xF3" "rs = [(0x80, 0xBF), (0x80, 0xBF), (0x80, 0xBF)]"
  | "b = 0xF4" "rs = [(0x80, 0x8F), (0x80, 0xBF), (0x80, 0xBF)]"
  using assms unfolding lead_ranges_def by (auto split: if_splits)

lemma ranges_sound:
  assumes "lead_ranges b = Some rs" and "in_ranges rs bs"
  shows "scalar (seq_codepoint (b # bs)) \<and> 0x80 \<le> seq_codepoint (b # bs) \<and>
    codepoint_bytes (seq_codepoint (b # bs)) = b # bs"
  using assms(1)
proof (cases rule: lead_ranges_cases)
  case 1
  with assms(2) obtain c where bs: "bs = [c]" "0x80 \<le> c" "c \<le> 0xBF"
    by (auto simp: in_ranges_iffs)
  define p q where "p = b - 0xC0" and "q = c - 0x80"
  with 1 bs have "b = 0xC0 + p" "c = 0x80 + q" "2 \<le> p" "p < 32" "q < 64" by auto
  then show ?thesis
    using codepoint_bytes_2 [of q p] bs(1) by (auto simp: scalar_def)
next
  case 2
  with assms(2) obtain c d where bs: "bs = [c, d]" "0xA0 \<le> c" "c \<le> 0xBF" "0x80 \<le> d" "d \<le> 0xBF"
    by (auto simp: in_ranges_iffs)
  define q r where "q = c - 0x80" and "r = d - 0x80"
  with 2 bs have "c = 0x80 + q" "d = 0x80 + r" "32 \<le> q" "q < 64" "r < 64" by auto
  then show ?thesis
    using codepoint_bytes_3 [of r q 0] bs(1) 2 by (auto simp: scalar_def)
next
  case 3
  with assms(2) obtain c d where bs: "bs = [c, d]" "0x80 \<le> c" "c \<le> 0xBF" "0x80 \<le> d" "d \<le> 0xBF"
    by (auto simp: in_ranges_iffs)
  define p q r where "p = b - 0xE0" and "q = c - 0x80" and "r = d - 0x80"
  with 3 bs have "b = 0xE0 + p" "c = 0x80 + q" "d = 0x80 + r" "q < 64" "r < 64"
    "1 \<le> p" "p < 16" "p \<noteq> 13" by auto
  moreover from this have "p \<le> 12 \<or> 14 \<le> p" by linarith
  ultimately show ?thesis
    using codepoint_bytes_3 [of r q p] bs(1) by (auto simp: scalar_def)
next
  case 4
  with assms(2) obtain c d where bs: "bs = [c, d]" "0x80 \<le> c" "c \<le> 0x9F" "0x80 \<le> d" "d \<le> 0xBF"
    by (auto simp: in_ranges_iffs)
  define q r where "q = c - 0x80" and "r = d - 0x80"
  with 4 bs have "c = 0x80 + q" "d = 0x80 + r" "q < 32" "r < 64" by auto
  then show ?thesis
    using codepoint_bytes_3 [of r q 13] bs(1) 4 by (auto simp: scalar_def)
next
  case 5
  with assms(2) obtain c d e where bs: "bs = [c, d, e]" "0x90 \<le> c" "c \<le> 0xBF"
      "0x80 \<le> d" "d \<le> 0xBF" "0x80 \<le> e" "e \<le> 0xBF"
    by (auto simp: in_ranges_iffs)
  define q r s where "q = c - 0x80" and "r = d - 0x80" and "s = e - 0x80"
  with 5 bs have "c = 0x80 + q" "d = 0x80 + r" "e = 0x80 + s" "16 \<le> q" "q < 64" "r < 64" "s < 64"
    by auto
  then show ?thesis
    using codepoint_bytes_4 [of s r q 0] bs(1) 5 by (auto simp: scalar_def)
next
  case 6
  with assms(2) obtain c d e where bs: "bs = [c, d, e]" "0x80 \<le> c" "c \<le> 0xBF"
      "0x80 \<le> d" "d \<le> 0xBF" "0x80 \<le> e" "e \<le> 0xBF"
    by (auto simp: in_ranges_iffs)
  define p q r s where "p = b - 0xF0" and "q = c - 0x80" and "r = d - 0x80" and "s = e - 0x80"
  with 6 bs have "b = 0xF0 + p" "c = 0x80 + q" "d = 0x80 + r" "e = 0x80 + s" "1 \<le> p" "p \<le> 3"
    "q < 64" "r < 64" "s < 64" by auto
  then show ?thesis
    using codepoint_bytes_4 [of s r q p] bs(1) by (auto simp: scalar_def)
next
  case 7
  with assms(2) obtain c d e where bs: "bs = [c, d, e]" "0x80 \<le> c" "c \<le> 0x8F"
      "0x80 \<le> d" "d \<le> 0xBF" "0x80 \<le> e" "e \<le> 0xBF"
    by (auto simp: in_ranges_iffs)
  define q r s where "q = c - 0x80" and "r = d - 0x80" and "s = e - 0x80"
  with 7 bs have "c = 0x80 + q" "d = 0x80 + r" "e = 0x80 + s" "q < 16" "r < 64" "s < 64"
    by auto
  then show ?thesis
    using codepoint_bytes_4 [of s r q 4] bs(1) 7 by (auto simp: scalar_def)
qed

section \<open>The decoder\<close>

text \<open>
  \<open>serializer::decode\<close>: one step of the automaton, from a state and the bits read so far.
  The first 256 entries give a byte's class, the others the next state.
\<close>

definition UTF8_ACCEPT :: nat where "UTF8_ACCEPT = 0"
definition UTF8_REJECT :: nat where "UTF8_REJECT = 1"

definition utf8d :: "nat list" where
  "utf8d =
     [0, 0, 0, 0, 0, 0, 0, 0, 0, 0, 0, 0, 0, 0, 0, 0, 0, 0, 0, 0, 0, 0, 0, 0, 0, 0, 0, 0, 0, 0, 0, 0,
      0, 0, 0, 0, 0, 0, 0, 0, 0, 0, 0, 0, 0, 0, 0, 0, 0, 0, 0, 0, 0, 0, 0, 0, 0, 0, 0, 0, 0, 0, 0, 0,
      0, 0, 0, 0, 0, 0, 0, 0, 0, 0, 0, 0, 0, 0, 0, 0, 0, 0, 0, 0, 0, 0, 0, 0, 0, 0, 0, 0, 0, 0, 0, 0,
      0, 0, 0, 0, 0, 0, 0, 0, 0, 0, 0, 0, 0, 0, 0, 0, 0, 0, 0, 0, 0, 0, 0, 0, 0, 0, 0, 0, 0, 0, 0, 0,
      1, 1, 1, 1, 1, 1, 1, 1, 1, 1, 1, 1, 1, 1, 1, 1, 9, 9, 9, 9, 9, 9, 9, 9, 9, 9, 9, 9, 9, 9, 9, 9,
      7, 7, 7, 7, 7, 7, 7, 7, 7, 7, 7, 7, 7, 7, 7, 7, 7, 7, 7, 7, 7, 7, 7, 7, 7, 7, 7, 7, 7, 7, 7, 7,
      8, 8, 2, 2, 2, 2, 2, 2, 2, 2, 2, 2, 2, 2, 2, 2, 2, 2, 2, 2, 2, 2, 2, 2, 2, 2, 2, 2, 2, 2, 2, 2,
      0xA, 0x3, 0x3, 0x3, 0x3, 0x3, 0x3, 0x3, 0x3, 0x3, 0x3, 0x3, 0x3, 0x4, 0x3, 0x3,
      0xB, 0x6, 0x6, 0x6, 0x5, 0x8, 0x8, 0x8, 0x8, 0x8, 0x8, 0x8, 0x8, 0x8, 0x8, 0x8,
      0x0, 0x1, 0x2, 0x3, 0x5, 0x8, 0x7, 0x1, 0x1, 0x1, 0x4, 0x6, 0x1, 0x1, 0x1, 0x1,
      1, 1, 1, 1, 1, 1, 1, 1, 1, 1, 1, 1, 1, 1, 1, 1, 1, 0, 1, 1, 1, 1, 1, 0, 1, 0, 1, 1, 1, 1, 1, 1,
      1, 2, 1, 1, 1, 1, 1, 2, 1, 2, 1, 1, 1, 1, 1, 1, 1, 1, 1, 1, 1, 1, 1, 2, 1, 1, 1, 1, 1, 1, 1, 1,
      1, 2, 1, 1, 1, 1, 1, 1, 1, 2, 1, 1, 1, 1, 1, 1, 1, 1, 1, 1, 1, 1, 1, 3, 1, 3, 1, 1, 1, 1, 1, 1,
      1, 3, 1, 1, 1, 1, 1, 3, 1, 3, 1, 1, 1, 1, 1, 1, 1, 3, 1, 1, 1, 1, 1, 1, 1, 1, 1, 1, 1, 1, 1, 1]"

definition decode :: "nat \<Rightarrow> nat \<Rightarrow> nat \<Rightarrow> nat \<times> nat" where
  "decode state codep b =
     (let ty = utf8d ! b;
          codep' = (if state \<noteq> UTF8_ACCEPT then (b AND 0x3F) OR push_bit 6 codep
                    else drop_bit ty 0xFF AND b);
          state' = utf8d ! (256 + state * 16 + ty)
      in (state', codep'))"

text \<open>What is left of a sequence in each state, and the state after a lead byte.\<close>

definition state_ranges :: "nat \<Rightarrow> (nat \<times> nat) list" where
  "state_ranges st =
     (if st = 2 then [(0x80, 0xBF)]
      else if st = 3 then [(0x80, 0xBF), (0x80, 0xBF)]
      else if st = 4 then [(0xA0, 0xBF), (0x80, 0xBF)]
      else if st = 5 then [(0x80, 0x9F), (0x80, 0xBF)]
      else if st = 6 then [(0x90, 0xBF), (0x80, 0xBF), (0x80, 0xBF)]
      else if st = 7 then [(0x80, 0xBF), (0x80, 0xBF), (0x80, 0xBF)]
      else if st = 8 then [(0x80, 0x8F), (0x80, 0xBF), (0x80, 0xBF)]
      else [])"

definition byte_class :: "nat \<Rightarrow> nat" where
  "byte_class b =
     (if b < 0x80 then 0 else if b < 0x90 then 1 else if b < 0xA0 then 9 else if b < 0xC0 then 7
      else if b < 0xC2 then 8 else if b < 0xE0 then 2 else if b = 0xE0 then 10
      else if b = 0xED then 4 else if b < 0xF0 then 3 else if b = 0xF0 then 11
      else if b < 0xF4 then 6 else if b = 0xF4 then 5 else 8)"

lemma utf8d_class: "b < 256 \<Longrightarrow> utf8d ! b = byte_class b"
proof -
  assume b: "b < 256"
  have "take 256 utf8d = map byte_class [0..<256]" by code_simp
  then have "take 256 utf8d ! b = map byte_class [0..<256] ! b" by (rule arg_cong)
  with b show ?thesis by simp
qed

definition dfa_rows :: "nat list list" where
  "dfa_rows =
    [[0, 1, 2, 3, 5, 8, 7, 1, 1, 1, 4, 6],
     [1, 1, 1, 1, 1, 1, 1, 1, 1, 1, 1, 1],
     [1, 0, 1, 1, 1, 1, 1, 0, 1, 0, 1, 1],
     [1, 2, 1, 1, 1, 1, 1, 2, 1, 2, 1, 1],
     [1, 1, 1, 1, 1, 1, 1, 2, 1, 1, 1, 1],
     [1, 2, 1, 1, 1, 1, 1, 1, 1, 2, 1, 1],
     [1, 1, 1, 1, 1, 1, 1, 3, 1, 3, 1, 1],
     [1, 3, 1, 1, 1, 1, 1, 3, 1, 3, 1, 1],
     [1, 3, 1, 1, 1, 1, 1, 1, 1, 1, 1, 1]]"

lemma utf8d_next: "st < 9 \<Longrightarrow> ty < 12 \<Longrightarrow> utf8d ! (256 + st * 16 + ty) = dfa_rows ! st ! ty"
proof -
  assume a: "st < 9" "ty < 12"
  have "list_all (\<lambda>st. list_all (\<lambda>ty.
      drop 256 utf8d ! (st * 16 + ty) = dfa_rows ! st ! ty) [0..<12]) [0..<9]"
    by code_simp
  with a have "drop 256 utf8d ! (st * 16 + ty) = dfa_rows ! st ! ty"
    unfolding list_all_iff by (auto simp: Ball_def)
  moreover have "length utf8d = 400" by code_simp
  ultimately show ?thesis by (simp add: add.assoc)
qed

lemma class_lead:
  assumes "b < 256"
  shows "lead_ranges b =
     (if byte_class b \<in> {2, 3, 4, 5, 6, 10, 11}
      then Some (state_ranges (dfa_rows ! 0 ! byte_class b)) else None)"
  using assms by (auto simp: lead_ranges_def byte_class_def state_ranges_def dfa_rows_def)

lemma byte_class_less [simp]: "byte_class b < 12"
  by (simp add: byte_class_def)

text \<open>A lead byte opens the ranges of the lexer; any other byte from 0x80 on is rejected.\<close>

lemma decode_lead:
  assumes "b < 256"
  shows "b < 0x80 \<Longrightarrow> decode 0 cp b = (0, b)"
    and "0x80 \<le> b \<Longrightarrow> lead_ranges b = None \<Longrightarrow> fst (decode 0 cp b) = 1"
    and "lead_ranges b = Some rs \<Longrightarrow> fst (decode 0 cp b) \<in> {2..8} \<and>
      state_ranges (fst (decode 0 cp b)) = rs"
proof -
  have next_state: "fst (decode 0 cp b) = dfa_rows ! 0 ! byte_class b"
    using utf8d_next [of 0 "byte_class b"] assms
    by (simp add: decode_def utf8d_class Let_def)
  show "0x80 \<le> b \<Longrightarrow> lead_ranges b = None \<Longrightarrow> fst (decode 0 cp b) = 1"
    unfolding next_state class_lead [OF assms]
    by (auto simp: byte_class_def dfa_rows_def split: if_splits)
  show "lead_ranges b = Some rs \<Longrightarrow> fst (decode 0 cp b) \<in> {2..8} \<and>
      state_ranges (fst (decode 0 cp b)) = rs"
    unfolding next_state class_lead [OF assms]
    by (auto simp: dfa_rows_def split: if_splits)
  show "decode 0 cp b = (0, b)" if "b < 0x80"
  proof -
    have "(0xFF :: nat) AND b = b mod 256"
      using take_bit_eq_mask [of 8 b] by (simp add: take_bit_eq_mod mask_eq_exp_minus_1 and.commute)
    with that next_state show ?thesis
      by (simp add: decode_def utf8d_class byte_class_def UTF8_ACCEPT_def dfa_rows_def prod_eq_iff
          Let_def)
  qed
qed

lemma byte_class_cases:
  obtains "b < 0x80 \<or> 0xC0 \<le> b" "byte_class b \<in> {0, 2, 3, 4, 5, 6, 8, 10, 11}"
  | "0x80 \<le> b" "b \<le> 0x8F" "byte_class b = 1"
  | "0x90 \<le> b" "b \<le> 0x9F" "byte_class b = 9"
  | "0xA0 \<le> b" "b \<le> 0xBF" "byte_class b = 7"
proof -
  consider "b < 0x80 \<or> 0xC0 \<le> b" | "0x80 \<le> b" "b \<le> 0x8F" | "0x90 \<le> b" "b \<le> 0x9F"
    | "0xA0 \<le> b" "b \<le> 0xBF" by linarith
  then show thesis
    by cases (use that in \<open>auto simp: byte_class_def\<close>)
qed

lemma dfa_next:
  assumes "st \<in> {2..8}" and "state_ranges st = (lo, hi) # rs"
  shows "lo \<le> b \<and> b \<le> hi \<Longrightarrow> state_ranges (dfa_rows ! st ! byte_class b) = rs \<and>
      (rs = [] \<longrightarrow> dfa_rows ! st ! byte_class b = 0) \<and>
      (rs \<noteq> [] \<longrightarrow> dfa_rows ! st ! byte_class b \<in> {2..8})"
    and "\<not> (lo \<le> b \<and> b \<le> hi) \<Longrightarrow> dfa_rows ! st ! byte_class b = 1"
proof -
  have st: "st = 2 \<or> st = 3 \<or> st = 4 \<or> st = 5 \<or> st = 6 \<or> st = 7 \<or> st = 8"
    using assms(1) by auto
  note row = state_ranges_def dfa_rows_def
  show "lo \<le> b \<and> b \<le> hi \<Longrightarrow> state_ranges (dfa_rows ! st ! byte_class b) = rs \<and>
      (rs = [] \<longrightarrow> dfa_rows ! st ! byte_class b = 0) \<and>
      (rs \<noteq> [] \<longrightarrow> dfa_rows ! st ! byte_class b \<in> {2..8})"
    using st assms(2) by (cases b rule: byte_class_cases; elim disjE) (simp_all add: row, auto)
  show "\<not> (lo \<le> b \<and> b \<le> hi) \<Longrightarrow> dfa_rows ! st ! byte_class b = 1"
  proof (cases b rule: byte_class_cases)
    case 1
    with st show ?thesis by (auto simp: row)
  qed (use st assms(2) in \<open>elim disjE; simp add: row; linarith?\<close>)+
qed

lemma decode_next:
  assumes "b < 256" and "st \<in> {2..8}" and "state_ranges st = (lo, hi) # rs"
  shows "lo \<le> b \<and> b \<le> hi \<Longrightarrow> state_ranges (fst (decode st cp b)) = rs \<and>
      (rs = [] \<longrightarrow> fst (decode st cp b) = 0) \<and>
      (rs \<noteq> [] \<longrightarrow> fst (decode st cp b) \<in> {2..8})"
    and "\<not> (lo \<le> b \<and> b \<le> hi) \<Longrightarrow> fst (decode st cp b) = 1"
proof -
  have next_state: "fst (decode st cp b) = dfa_rows ! st ! byte_class b"
    using utf8d_next [of st "byte_class b"] assms(1,2)
    by (simp add: decode_def utf8d_class Let_def)
  show "lo \<le> b \<and> b \<le> hi \<Longrightarrow> state_ranges (fst (decode st cp b)) = rs \<and>
      (rs = [] \<longrightarrow> fst (decode st cp b) = 0) \<and>
      (rs \<noteq> [] \<longrightarrow> fst (decode st cp b) \<in> {2..8})"
    unfolding next_state using dfa_next(1) [OF assms(2,3)] .
  show "\<not> (lo \<le> b \<and> b \<le> hi) \<Longrightarrow> fst (decode st cp b) = 1"
    unfolding next_state by (rule dfa_next(2) [OF assms(2,3)])
qed

text \<open>The bits the decoder collects are the code point of the sequence.\<close>

lemma decode_shift: "st \<noteq> 0 \<Longrightarrow> snd (decode st cp b) = cp * 64 + b mod 64"
  by (simp add: decode_def UTF8_ACCEPT_def Let_def and_3F or_shift)

lemma decode_mask:
  assumes "lead_ranges b = Some rs"
  shows "snd (decode 0 cp b) = b - (if length rs = 1 then 0xC0 else if length rs = 2 then 0xE0 else 0xF0)"
proof -
  have and_mask: "b AND mask n = b mod 2 ^ n" for n
    by (simp flip: take_bit_eq_mask add: take_bit_eq_mod)
  have m: "63 AND b = b mod 64" "31 AND b = b mod 32" "15 AND b = b mod 16" "7 AND b = b mod 8"
    "3 AND b = b mod 4"
    using and_mask [of 6] and_mask [of 5] and_mask [of 4] and_mask [of 3] and_mask [of 2]
    by (simp_all add: mask_eq_exp_minus_1 and.commute)
  have d: "drop_bit 2 (0xFF :: nat) = 63" "drop_bit 3 (0xFF :: nat) = 31"
    "drop_bit 4 (0xFF :: nat) = 15" "drop_bit 5 (0xFF :: nat) = 7" "drop_bit 6 (0xFF :: nat) = 3"
    "drop_bit 10 (0xFF :: nat) = 0" "drop_bit 11 (0xFF :: nat) = 0"
    by (simp_all add: drop_bit_eq_div)
  from assms have "drop_bit (byte_class b) 0xFF AND b =
      b - (if length rs = 1 then 0xC0 else if length rs = 2 then 0xE0 else 0xF0)"
  proof (cases rule: lead_ranges_cases)
    case 6
    then have "b = 0xF1 \<or> b = 0xF2 \<or> b = 0xF3" by linarith
    with 6(3) show ?thesis by (auto simp: byte_class_def d m)
  qed (auto simp: byte_class_def d m mod_if)
  moreover have "b < 256" using assms by (auto simp: lead_ranges_def split: if_splits)
  ultimately show ?thesis by (simp add: decode_def UTF8_ACCEPT_def utf8d_class Let_def)
qed

definition shift_in :: "nat \<Rightarrow> nat list \<Rightarrow> nat" where
  "shift_in = foldl (\<lambda>cp b. cp * 64 + b mod 64)"

lemma continuation_mod:
  "0x80 \<le> b \<Longrightarrow> b \<le> 0xBF \<Longrightarrow> b mod 64 = b - (0x80 :: nat)"
  by (simp add: mod_if)

lemma shift_in_codepoint:
  assumes "lead_ranges b = Some rs" and "in_ranges rs bs"
  shows "shift_in (snd (decode 0 cp b)) bs = seq_codepoint (b # bs)"
  unfolding decode_mask [OF assms(1)] using assms
  by (cases rule: lead_ranges_cases)
    (auto simp: in_ranges_iffs shift_in_def continuation_mod)

end
