(* ===== verification/JsonEscape.thy ===== *)
theory JsonEscape
  imports JsonText
begin

text \<open>
  \<open>serializer::dump_escaped\<close> of the JSON library, for every error handler and both
  settings of \<open>ensure_ascii\<close>: what it writes for a well-formed string, that strict mode
  fails exactly on the others, and that its 512-byte buffer is never overrun.
\<close>

section \<open>Escaping strings\<close>

text \<open>
  \<open>serializer::dump_escaped\<close>. The 512-byte \<open>string_buffer\<close> is the list of the
  \<open>bytes\<close> characters written to it so far; a write that would pass its end (for
  \<open>snprintf\<close> with the terminating zero) is \<^const>\<open>UndefinedBehaviour\<close>. Re-reading a
  byte (\<open>--i\<close>) leaves the rest of the string as it is.
\<close>

datatype error_handler = Strict | Replace | Ignore

record escaper =
  esc_state :: nat
  esc_codepoint :: nat
  esc_buffer :: string
  esc_last_accept :: nat
  esc_undumped :: nat
  esc_out :: string

definition escaper_init :: escaper where
  "escaper_init = \<lparr>esc_state = UTF8_ACCEPT, esc_codepoint = 0, esc_buffer = [],
     esc_last_accept = 0, esc_undumped = 0, esc_out = []\<rparr>"

definition buffer_write :: "string \<Rightarrow> string \<Rightarrow> nat \<Rightarrow> string res" where
  "buffer_write buf s n =
     (if length buf + n \<le> 512 then Inr (buf @ s) else Inl UndefinedBehaviour)"

text \<open>\<open>snprintf("\u%04x")\<close> of a 16-bit value.\<close>

definition hex_digit :: "nat \<Rightarrow> char" where
  "hex_digit n = (if n < 10 then char_of (0x30 + n) else char_of (0x57 + n))"

definition u_escape :: "nat \<Rightarrow> string" where
  "u_escape n = [CHR 0x5C, CHR ''u'', hex_digit (n div 4096 mod 16), hex_digit (n div 256 mod 16),
     hex_digit (n div 16 mod 16), hex_digit (n mod 16)]"

text \<open>What is written for a code point that ends with byte \<open>c\<close>, and the bytes touched.\<close>

definition escape_piece :: "bool \<Rightarrow> nat \<Rightarrow> char \<Rightarrow> string \<times> nat" where
  "escape_piece ensure_ascii cp c =
     (if cp = 0x08 then ([CHR 0x5C, CHR ''b''], 2)
      else if cp = 0x09 then ([CHR 0x5C, CHR ''t''], 2)
      else if cp = 0x0A then ([CHR 0x5C, CHR ''n''], 2)
      else if cp = 0x0C then ([CHR 0x5C, CHR ''f''], 2)
      else if cp = 0x0D then ([CHR 0x5C, CHR ''r''], 2)
      else if cp = 0x22 then ([CHR 0x5C, CHR 0x22], 2)
      else if cp = 0x5C then ([CHR 0x5C, CHR 0x5C], 2)
      else if cp \<le> 0x1F \<or> (ensure_ascii \<and> 0x7F \<le> cp) then
        (if cp \<le> 0xFFFF then (u_escape cp, 7)
         else (u_escape ((0xD7C0 + drop_bit 10 cp) mod 2 ^ 16) @
           u_escape ((0xDC00 + (cp AND 0x3FF)) mod 2 ^ 16), 13))
      else ([c], 1))"

text \<open>Write the buffer out when fewer than 13 bytes are left in it.\<close>

definition flush_full :: "string \<Rightarrow> string \<Rightarrow> string \<times> string" where
  "flush_full buf out = (if 512 - length buf < 13 then ([], out @ buf) else (buf, out))"

definition replacement :: "bool \<Rightarrow> string" where
  "replacement ensure_ascii =
     (if ensure_ascii then [CHR 0x5C, CHR ''u'', CHR ''f'', CHR ''f'', CHR ''f'', CHR ''d'']
      else [CHR 0xEF, CHR 0xBF, CHR 0xBD])"

text \<open>One byte of the loop; the flag says whether the byte was consumed.\<close>

definition escape_byte :: "error_handler \<Rightarrow> bool \<Rightarrow> char \<Rightarrow> escaper \<Rightarrow> (bool \<times> escaper) res" where
  "escape_byte eh ensure_ascii c r =
     (let (st, cp) = decode (esc_state r) (esc_codepoint r) (code c);
          r = r\<lparr>esc_state := st, esc_codepoint := cp\<rparr>
      in if st = UTF8_ACCEPT then
           (let (piece, n) = escape_piece ensure_ascii cp c
            in bind_res (buffer_write (esc_buffer r) piece n) (\<lambda>buf.
                 let (buf, out) = flush_full buf (esc_out r)
                 in Inr (True, r\<lparr>esc_buffer := buf, esc_out := out, esc_last_accept := length buf,
                      esc_undumped := 0\<rparr>)))
         else if st = UTF8_REJECT then
           (if eh = Strict then Inl (JsonError 316)
            else
              (let again = 0 < esc_undumped r;
                   buf = take (esc_last_accept r) (esc_buffer r);
                   r = r\<lparr>esc_buffer := buf, esc_undumped := 0, esc_state := UTF8_ACCEPT\<rparr>
               in if eh = Replace then
                    bind_res (buffer_write buf (replacement ensure_ascii)
                        (length (replacement ensure_ascii))) (\<lambda>buf.
                      let (buf, out) = flush_full buf (esc_out r)
                      in Inr (\<not> again, r\<lparr>esc_buffer := buf, esc_out := out,
                           esc_last_accept := length buf\<rparr>))
                  else Inr (\<not> again, r)))
         else
           bind_res (if ensure_ascii then Inr (esc_buffer r) else buffer_write (esc_buffer r) [c] 1)
             (\<lambda>buf. Inr (True, r\<lparr>esc_buffer := buf, esc_undumped := esc_undumped r + 1\<rparr>)))"

definition escape_finish :: "error_handler \<Rightarrow> bool \<Rightarrow> escaper \<Rightarrow> string res" where
  "escape_finish eh ensure_ascii r =
     (if esc_state r = UTF8_ACCEPT then
        Inr (if esc_buffer r \<noteq> [] then esc_out r @ esc_buffer r else esc_out r)
      else case eh of
          Strict \<Rightarrow> Inl (JsonError 316)
        | Ignore \<Rightarrow> Inr (esc_out r @ take (esc_last_accept r) (esc_buffer r))
        | Replace \<Rightarrow> Inr (esc_out r @ take (esc_last_accept r) (esc_buffer r) @
            replacement ensure_ascii))"

lemma escape_byte_again:
  assumes "escape_byte eh ea c r = Inr (False, r')"
  shows "0 < esc_undumped r \<and> esc_undumped r' = 0"
  using assms unfolding escape_byte_def
  by (auto simp: Let_def bind_res_def split: prod.splits if_splits sum.splits)

function escape_loop :: "error_handler \<Rightarrow> bool \<Rightarrow> string \<Rightarrow> escaper \<Rightarrow> string res" where
  "escape_loop eh ensure_ascii [] r = escape_finish eh ensure_ascii r"
| "escape_loop eh ensure_ascii (c # s) r =
     (case escape_byte eh ensure_ascii c r of
        Inl e \<Rightarrow> Inl e
      | Inr (consumed, r') \<Rightarrow>
          escape_loop eh ensure_ascii (if consumed then s else c # s) r')"
  by pat_completeness auto
termination
proof (relation "measure (\<lambda>(eh, ea, s, r). 2 * length s + (if 0 < esc_undumped r then 1 else 0))")
  fix eh ea c s r p consumed r'
  assume "escape_byte eh ea c r = Inr p" and "(consumed, r') = p"
  then have "escape_byte eh ea c r = Inr (consumed, r')" by simp
  then show "((eh, ea, if consumed then s else c # s, r'), eh, ea, c # s, r)
      \<in> measure (\<lambda>(eh, ea, s, r). 2 * length s + (if 0 < esc_undumped r then 1 else 0))"
    using escape_byte_again [of eh ea c r r'] by (cases consumed) auto
qed simp

definition dump_escaped :: "error_handler \<Rightarrow> bool \<Rightarrow> string \<Rightarrow> string res" where
  "dump_escaped eh ensure_ascii s = escape_loop eh ensure_ascii s escaper_init"

text \<open>What has been written so far, and the escaped form of one code point.\<close>

definition esc_text :: "escaper \<Rightarrow> string" where
  "esc_text r = esc_out r @ esc_buffer r"

definition escaped :: "bool \<Rightarrow> nat \<Rightarrow> bool" where
  "escaped ensure_ascii cp \<longleftrightarrow>
     cp \<in> {0x22, 0x5C} \<or> cp \<le> 0x1F \<or> (ensure_ascii \<and> 0x7F \<le> cp)"

definition codepoint_text :: "nat \<Rightarrow> string" where
  "codepoint_text cp = map char_of (codepoint_bytes cp)"

definition escape_codepoint :: "bool \<Rightarrow> nat \<Rightarrow> string" where
  "escape_codepoint ensure_ascii cp =
     (if escaped ensure_ascii cp then fst (escape_piece ensure_ascii cp (CHR 0x00))
      else codepoint_text cp)"

lemma length_u_escape [simp]: "length (u_escape n) = 6"
  by (simp add: u_escape_def)

lemma escape_piece_escaped:
  assumes "escaped ea cp"
  shows "fst (escape_piece ea cp c) = escape_codepoint ea cp" and "snd (escape_piece ea cp c) \<le> 13"
    and "length (fst (escape_piece ea cp c)) \<le> snd (escape_piece ea cp c)"
  using assms by (auto simp: escape_codepoint_def escape_piece_def escaped_def)

lemma escape_piece_plain: "\<not> escaped ea cp \<Longrightarrow> escape_piece ea cp c = ([c], 1)"
  by (auto simp: escape_piece_def escaped_def)

lemma escape_accept:
  assumes "decode (esc_state r) (esc_codepoint r) (code c) = (0, cp)"
    and "length (esc_buffer r) + snd (escape_piece ea cp c) \<le> 512"
  obtains r' where "escape_byte eh ea c r = Inr (True, r')" and "esc_state r' = 0"
    and "length (esc_buffer r') \<le> 499" and "esc_undumped r' = 0"
    and "esc_last_accept r' = length (esc_buffer r')"
    and "esc_text r' = esc_text r @ fst (escape_piece ea cp c)"
proof -
  obtain piece n where p: "escape_piece ea cp c = (piece, n)" by fastforce
  define bo where "bo = flush_full (esc_buffer r @ piece) (esc_out r)"
  define r' where "r' = r\<lparr>esc_state := 0, esc_codepoint := cp, esc_buffer := fst bo,
    esc_out := snd bo, esc_last_accept := length (fst bo), esc_undumped := 0\<rparr>"
  have "escape_byte eh ea c r = Inr (True, r')"
    using assms p by (simp add: escape_byte_def Let_def UTF8_ACCEPT_def buffer_write_def r'_def
        bo_def split: prod.splits)
  moreover have "length (fst bo) \<le> 499" by (auto simp: bo_def flush_full_def)
  moreover have "snd bo @ fst bo = esc_text r @ piece"
    by (simp add: bo_def flush_full_def esc_text_def)
  ultimately show thesis
    using that [of r'] p by (simp add: r'_def esc_text_def)
qed

lemma escape_more:
  assumes "decode (esc_state r) (esc_codepoint r) (code c) = (st, cp)" and "st \<in> {2..8}"
    and "\<not> ea \<Longrightarrow> length (esc_buffer r) < 512"
  shows "escape_byte eh ea c r =
    Inr (True, r\<lparr>esc_state := st, esc_codepoint := cp,
      esc_buffer := (if ea then esc_buffer r else esc_buffer r @ [c]),
      esc_undumped := esc_undumped r + 1\<rparr>)"
  using assms by (cases ea) (simp_all add: escape_byte_def Let_def UTF8_ACCEPT_def UTF8_REJECT_def
      buffer_write_def)

text \<open>The rest of a sequence, from the state its lead byte left.\<close>

lemma escape_continuation:
  assumes "in_ranges rs (codes cs)" and "rs \<noteq> []" and "esc_state r \<in> {2..8}"
    and "state_ranges (esc_state r) = rs" and "length (esc_buffer r) + length rs \<le> 503"
    and "ea \<Longrightarrow> length (esc_buffer r) \<le> 499"
    and "0x80 \<le> shift_in (esc_codepoint r) (codes cs)"
  shows "\<exists>r'. escape_loop eh ea (cs @ s) r = escape_loop eh ea s r' \<and> esc_state r' = 0 \<and>
    length (esc_buffer r') \<le> 499 \<and> esc_text r' = esc_text r @
      (if ea then escape_codepoint True (shift_in (esc_codepoint r) (codes cs)) else cs)"
  using assms
proof (induction rs arbitrary: cs r)
  case (Cons rg rs)
  obtain lo hi where rg: "rg = (lo, hi)" by fastforce
  from Cons.prems(1) obtain c cs' where cs: "cs = c # cs'" and c: "lo \<le> code c" "code c \<le> hi"
    and rest: "in_ranges rs (codes cs')"
    by (cases cs) (auto simp: rg)
  obtain st cp where d: "decode (esc_state r) (esc_codepoint r) (code c) = (st, cp)" by fastforce
  from Cons.prems(3) have "esc_state r \<noteq> 0" by auto
  then have cp: "cp = esc_codepoint r * 64 + code c mod 64"
    using decode_shift [of "esc_state r" "esc_codepoint r" "code c"] d by simp
  have shift: "shift_in (esc_codepoint r) (codes cs) = shift_in cp (codes cs')"
    by (simp add: cs cp shift_in_def)
  have n: "state_ranges st = rs" "rs = [] \<Longrightarrow> st = 0" "rs \<noteq> [] \<Longrightarrow> st \<in> {2..8}"
    using decode_next(1) [of "code c" "esc_state r" lo hi rs "esc_codepoint r"]
      Cons.prems(3,4) c d by (auto simp: rg)
  show ?case
  proof (cases "rs = []")
    case True
    with rest have [simp]: "cs' = []" by (cases cs') auto
    from n(2) True have st: "st = 0" by simp
    have cp80: "0x80 \<le> cp" using Cons.prems(7) shift by (simp add: shift_in_def)
    have len: "length (esc_buffer r) + snd (escape_piece ea cp c) \<le> 512"
    proof (cases ea)
      case True
      with cp80 have "escaped ea cp" by (simp add: escaped_def)
      from escape_piece_escaped(2) [OF this, of c] Cons.prems(6) True show ?thesis by simp
    next
      case False
      with cp80 have "\<not> escaped ea cp" by (simp add: escaped_def)
      from escape_piece_plain [OF this] Cons.prems(5) show ?thesis by simp
    qed
    obtain r' where r': "escape_byte eh ea c r = Inr (True, r')" "esc_state r' = 0"
        "length (esc_buffer r') \<le> 499" "esc_text r' = esc_text r @ fst (escape_piece ea cp c)"
      using escape_accept [OF d [unfolded st] len] by metis
    have "fst (escape_piece ea cp c) = (if ea then escape_codepoint True cp else [c])"
      using escape_piece_escaped(1) [of ea cp c] escape_piece_plain [of ea cp c] cp80
      by (auto simp: escaped_def)
    with r' show ?thesis
      by (intro exI [of _ r']) (simp add: cs cp shift_in_def)
  next
    case False
    define r' where "r' = r\<lparr>esc_state := st, esc_codepoint := cp,
      esc_buffer := (if ea then esc_buffer r else esc_buffer r @ [c]),
      esc_undumped := esc_undumped r + 1\<rparr>"
    have "escape_byte eh ea c r = Inr (True, r')"
      unfolding r'_def by (rule escape_more [OF d n(3) [OF False]]) (use Cons.prems(5) in simp)
    then have step: "escape_loop eh ea (cs @ s) r = escape_loop eh ea (cs' @ s) r'"
      by (simp add: cs)
    have prem: "esc_state r' \<in> {2..8}" "state_ranges (esc_state r') = rs"
      "length (esc_buffer r') + length rs \<le> 503" "ea \<Longrightarrow> length (esc_buffer r') \<le> 499"
      "0x80 \<le> shift_in (esc_codepoint r') (codes cs')"
      using n False Cons.prems(5,6,7) shift by (auto simp: r'_def)
    have tx: "esc_text r' = esc_text r @ (if ea then [] else [c])"
      by (simp add: r'_def esc_text_def)
    from Cons.IH [OF rest False prem(1-3)] prem(4,5) obtain r'' where
      "escape_loop eh ea (cs' @ s) r' = escape_loop eh ea s r''" "esc_state r'' = 0"
      "length (esc_buffer r'') \<le> 499"
      "esc_text r'' = esc_text r' @
        (if ea then escape_codepoint True (shift_in (esc_codepoint r') (codes cs')) else cs')"
      by metis
    with step tx shift show ?thesis
      by (intro exI [of _ r'']) (simp add: cs r'_def)
  qed
qed simp

section \<open>Well-formed strings\<close>

definition text_of :: "nat list \<Rightarrow> string" where
  "text_of cps = concat (map codepoint_text cps)"

definition utf8 :: "string \<Rightarrow> bool" where
  "utf8 s \<longleftrightarrow> utf8_bytes (codes s)"

lemma codepoint_bytes_less:
  assumes "scalar cp" and "b \<in> set (codepoint_bytes cp)"
  shows "b < 256"
proof (cases "cp < 0x80")
  case True
  with assms(2) show ?thesis by (simp add: codepoint_bytes_def)
next
  case False
  then have "0x80 \<le> cp" by simp
  from ranges_complete [OF assms(1) this] obtain a bs rs where "codepoint_bytes cp = a # bs"
    "lead_ranges a = Some rs" "in_ranges rs bs" "a < 256" by metis
  from this(2) this(1,3,4) assms(2) show ?thesis
    by (cases rule: lead_ranges_cases) (auto simp: in_ranges_iffs)
qed

lemma codes_map_char_of: "\<forall>b \<in> set bs. b < 256 \<Longrightarrow> codes (map char_of bs) = bs"
  by (induction bs) simp_all

lemma char_of_codes [simp]: "map char_of (codes s) = s"
  by (simp add: comp_def)

lemma codes_codepoint_text: "scalar cp \<Longrightarrow> codes (codepoint_text cp) = codepoint_bytes cp"
  unfolding codepoint_text_def by (intro codes_map_char_of ballI codepoint_bytes_less)

lemma codes_text_of: "\<forall>cp \<in> set cps. scalar cp \<Longrightarrow> codes (text_of cps) = encode_text cps"
  by (induction cps) (simp_all add: text_of_def encode_text_def codes_codepoint_text)

lemma text_of_simps [simp]:
  "text_of [] = []" "text_of (cp # cps) = codepoint_text cp @ text_of cps"
  by (simp_all add: text_of_def)

lemma encode_text_simps [simp]:
  "encode_text [] = []" "encode_text (cp # cps) = codepoint_bytes cp @ encode_text cps"
  by (simp_all add: encode_text_def)

lemma utf8_iff: "utf8 s \<longleftrightarrow> (\<exists>cps. (\<forall>cp \<in> set cps. scalar cp) \<and> s = text_of cps)"
proof
  assume "utf8 s"
  then obtain cps where cps: "\<forall>cp \<in> set cps. scalar cp" "codes s = encode_text cps"
    by (auto simp: utf8_def utf8_bytes_def)
  then have "codes s = codes (text_of cps)" by (simp add: codes_text_of)
  then have "map char_of (codes s) = (map char_of (codes (text_of cps)) :: string)"
    by (rule arg_cong)
  then have "s = text_of cps" by (simp only: char_of_codes)
  with cps(1) show "\<exists>cps. (\<forall>cp \<in> set cps. scalar cp) \<and> s = text_of cps" by blast
next
  assume "\<exists>cps. (\<forall>cp \<in> set cps. scalar cp) \<and> s = text_of cps"
  then show "utf8 s" by (auto simp: utf8_def utf8_bytes_def codes_text_of)
qed

lemma utf8_bytes_Nil [simp]: "utf8_bytes []"
  unfolding utf8_bytes_def by (rule exI [of _ "[]"]) simp

lemma utf8_bytes_append: "utf8_bytes a \<Longrightarrow> utf8_bytes b \<Longrightarrow> utf8_bytes (a @ b)"
proof -
  assume "utf8_bytes a" "utf8_bytes b"
  then obtain cps cps' where "\<forall>cp \<in> set cps. scalar cp" "a = encode_text cps"
    "\<forall>cp \<in> set cps'. scalar cp" "b = encode_text cps'"
    by (auto simp: utf8_bytes_def)
  then show ?thesis
    unfolding utf8_bytes_def by (intro exI [of _ "cps @ cps'"]) (auto simp: encode_text_def)
qed

lemma utf8_bytes_codepoint: "scalar cp \<Longrightarrow> utf8_bytes (codepoint_bytes cp)"
  unfolding utf8_bytes_def by (rule exI [of _ "[cp]"]) simp

lemma utf8_bytes_ascii: "b < 0x80 \<Longrightarrow> utf8_bytes [b]"
  using utf8_bytes_codepoint [of b] by (simp add: scalar_def codepoint_bytes_def)

lemma utf8_bytes_sequence:
  "lead_ranges b = Some rs \<Longrightarrow> in_ranges rs bs \<Longrightarrow> utf8_bytes (b # bs)"
  using ranges_sound utf8_bytes_codepoint by metis

lemma utf8_Nil [simp]: "utf8 []"
  by (simp add: utf8_def)

lemma utf8_append: "utf8 a \<Longrightarrow> utf8 b \<Longrightarrow> utf8 (a @ b)"
  by (simp add: utf8_def utf8_bytes_append)

lemma seq_codepoint_offset:
  "seq_codepoint [0xC0 + p, 0x80 + q] = p * 64 + q"
  "seq_codepoint [0xE0 + p, 0x80 + q, 0x80 + r] = p * 4096 + q * 64 + r"
  "seq_codepoint [0xF0 + p, 0x80 + q, 0x80 + r, 0x80 + s] = p * 262144 + q * 4096 + r * 64 + s"
  by simp_all

lemma seq_codepoint_bytes:
  assumes "cp \<le> 0x10FFFF"
  shows "seq_codepoint (codepoint_bytes cp) = cp"
proof -
  consider "cp < 0x80" | "\<not> cp < 0x80" "cp \<le> 0x7FF" | "\<not> cp < 0x80" "\<not> cp \<le> 0x7FF" "cp \<le> 0xFFFF"
    | "\<not> cp < 0x80" "\<not> cp \<le> 0x7FF" "\<not> cp \<le> 0xFFFF" by blast
  then show ?thesis
    by cases (simp_all only: codepoint_bytes_arith [OF assms] if_True if_False
        seq_codepoint_offset seq_codepoint.simps(1) sextet_digits [symmetric] div_mult_mod_eq)
qed

lemma escape_one:
  assumes "scalar cp" and "esc_state r = 0" and "length (esc_buffer r) \<le> 499"
  shows "\<exists>r'. escape_loop eh ea (codepoint_text cp @ s) r = escape_loop eh ea s r' \<and>
    esc_state r' = 0 \<and> length (esc_buffer r') \<le> 499 \<and>
    esc_text r' = esc_text r @ escape_codepoint ea cp"
proof (cases "cp < 0x80")
  case True
  then have tx: "codepoint_text cp = [char_of cp]"
    by (simp add: codepoint_text_def codepoint_bytes_def)
  have c: "code (char_of cp) = cp" using True by simp
  have d: "decode (esc_state r) (esc_codepoint r) (code (char_of cp)) = (0, cp)"
    unfolding c assms(2) by (rule decode_lead(1)) (use True in simp_all)
  have len: "length (esc_buffer r) + snd (escape_piece ea cp (char_of cp)) \<le> 512"
    using assms(3) escape_piece_escaped(2) [of ea cp "char_of cp"]
      escape_piece_plain [of ea cp "char_of cp"] by (cases "escaped ea cp") auto
  obtain r' where r': "escape_byte eh ea (char_of cp) r = Inr (True, r')" "esc_state r' = 0"
      "length (esc_buffer r') \<le> 499"
      "esc_text r' = esc_text r @ fst (escape_piece ea cp (char_of cp))"
    using escape_accept [OF d len] by metis
  have "fst (escape_piece ea cp (char_of cp)) = escape_codepoint ea cp"
    using escape_piece_escaped(1) [of ea cp "char_of cp"] escape_piece_plain [of ea cp "char_of cp"]
    by (cases "escaped ea cp") (simp_all add: escape_codepoint_def tx)
  with r' show ?thesis
    by (intro exI [of _ r']) (simp add: tx)
next
  case False
  then have "0x80 \<le> cp" by simp
  from ranges_complete [OF assms(1) this] obtain b bs rs where
    b: "codepoint_bytes cp = b # bs" "lead_ranges b = Some rs" "in_ranges rs bs" "b < 256"
    by metis
  obtain c cs where tx: "codepoint_text cp = c # cs" "code c = b" "codes cs = bs"
    using codes_codepoint_text [OF assms(1)] b(1) by auto
  obtain st cp0 where d: "decode (esc_state r) (esc_codepoint r) (code c) = (st, cp0)" by fastforce
  have st: "st \<in> {2..8}" "state_ranges st = rs"
    using decode_lead(3) [OF b(4,2), of "esc_codepoint r"] d assms(2) tx(2) by auto
  have lim: "cp \<le> 0x10FFFF" using assms(1) by (auto simp: scalar_def)
  have sh: "shift_in cp0 bs = cp"
    using shift_in_codepoint [OF b(2,3), of "esc_codepoint r"] d seq_codepoint_bytes [OF lim]
    by (simp add: b(1) tx(2) assms(2))
  have rs: "rs \<noteq> []" "length rs \<le> 3" using b(2) by (cases rule: lead_ranges_cases; simp)+
  define r1 where "r1 = r\<lparr>esc_state := st, esc_codepoint := cp0,
    esc_buffer := (if ea then esc_buffer r else esc_buffer r @ [c]),
    esc_undumped := esc_undumped r + 1\<rparr>"
  have "escape_byte eh ea c r = Inr (True, r1)"
    unfolding r1_def by (rule escape_more [OF d st(1)]) (use assms(3) in simp)
  then have step: "escape_loop eh ea (codepoint_text cp @ s) r = escape_loop eh ea (cs @ s) r1"
    by (simp add: tx)
  have "\<exists>r'. escape_loop eh ea (cs @ s) r1 = escape_loop eh ea s r' \<and> esc_state r' = 0 \<and>
      length (esc_buffer r') \<le> 499 \<and> esc_text r' = esc_text r1 @
        (if ea then escape_codepoint True (shift_in (esc_codepoint r1) (codes cs)) else cs)"
    by (rule escape_continuation [of rs])
      (use b(3) tx st rs assms(3) sh False in \<open>simp_all add: r1_def\<close>)
  then obtain r' where r': "escape_loop eh ea (cs @ s) r1 = escape_loop eh ea s r'" "esc_state r' = 0"
      "length (esc_buffer r') \<le> 499"
      "esc_text r' = esc_text r1 @
        (if ea then escape_codepoint True (shift_in (esc_codepoint r1) (codes cs)) else cs)"
    by blast
  have "esc_text r' = esc_text r @ escape_codepoint ea cp"
    using r'(4) sh tx False
    by (cases ea) (auto simp: r1_def esc_text_def escape_codepoint_def escaped_def)
  with r'(1-3) step show ?thesis
    by (intro exI [of _ r']) simp
qed

lemma escape_text_of:
  assumes "\<forall>cp \<in> set cps. scalar cp" and "esc_state r = 0" and "length (esc_buffer r) \<le> 499"
  shows "escape_loop eh ea (text_of cps) r =
    Inr (esc_text r @ concat (map (escape_codepoint ea) cps))"
  using assms
proof (induction cps arbitrary: r)
  case Nil
  then show ?case by (simp add: escape_finish_def UTF8_ACCEPT_def esc_text_def)
next
  case (Cons cp cps)
  from Cons.prems have "scalar cp" by simp
  from escape_one [OF this Cons.prems(2,3)] obtain r' where
    "escape_loop eh ea (codepoint_text cp @ text_of cps) r = escape_loop eh ea (text_of cps) r'"
    "esc_state r' = 0" "length (esc_buffer r') \<le> 499"
    "esc_text r' = esc_text r @ escape_codepoint ea cp" by blast
  with Cons.IH [of r'] Cons.prems(1) show ?case by simp
qed

lemma dump_escaped_text:
  assumes "\<forall>cp \<in> set cps. scalar cp"
  shows "dump_escaped eh ea (text_of cps) = Inr (concat (map (escape_codepoint ea) cps))"
  using escape_text_of [OF assms, of escaper_init]
  by (simp add: dump_escaped_def escaper_init_def UTF8_ACCEPT_def esc_text_def)

lemma state_ranges_mid:
  assumes "st \<in> {2..8}"
  obtains lo hi rs where "state_ranges st = (lo, hi) # rs"
proof -
  have "st = 2 \<or> st = 3 \<or> st = 4 \<or> st = 5 \<or> st = 6 \<or> st = 7 \<or> st = 8"
    using assms by auto
  then show thesis
    by (elim disjE) (auto simp: state_ranges_def intro: that)
qed

text \<open>In strict mode whatever was dumped was well formed.\<close>

lemma escape_byte_strict:
  assumes "escape_byte Strict ea c r = Inr (consumed, r')"
  shows "consumed" and "esc_state r' = fst (decode (esc_state r) (esc_codepoint r) (code c))"
    and "esc_state r' \<noteq> 1"
  using assms unfolding escape_byte_def
  by (auto simp: Let_def bind_res_def UTF8_ACCEPT_def UTF8_REJECT_def
      split: prod.splits if_splits sum.splits)

lemma escape_loop_strict:
  assumes "escape_loop Strict ea s r = Inr t" and "esc_state r = 0 \<or> esc_state r \<in> {2..8}"
  shows "\<exists>pre post. codes s = pre @ post \<and> in_ranges (state_ranges (esc_state r)) pre \<and> utf8_bytes post"
  using assms
proof (induction s arbitrary: r)
  case Nil
  then have "esc_state r = 0"
    by (auto simp: escape_finish_def UTF8_ACCEPT_def split: if_splits)
  then show ?case
    by (intro exI [of _ "[]"]) (simp add: state_ranges_def)
next
  case (Cons c s)
  from Cons.prems(1) obtain consumed r' where
    step: "escape_byte Strict ea c r = Inr (consumed, r')"
    by (auto split: sum.splits prod.splits)
  note st = escape_byte_strict [OF step]
  from Cons.prems(1) step st(1) have loop: "escape_loop Strict ea s r' = Inr t" by simp
  show ?case
  proof (cases "esc_state r = 0")
    case True
    show ?thesis
    proof (cases "code c < 0x80")
      case small: True
      with decode_lead(1) [of "code c" "esc_codepoint r"] st(2) True have "esc_state r' = 0" by simp
      with Cons.IH [OF loop] obtain pre post where
        "codes s = pre @ post" "in_ranges (state_ranges 0) pre" "utf8_bytes post" by auto
      then have "utf8_bytes (codes s)" by (simp add: state_ranges_def in_ranges_Nil_iff)
      with small have "utf8_bytes ([code c] @ codes s)"
        by (intro utf8_bytes_append utf8_bytes_ascii)
      with True show ?thesis
        by (intro exI [of _ "[]"] exI [of _ "codes (c # s)"]) (simp add: state_ranges_def)
    next
      case False
      then obtain rs where rs: "lead_ranges (code c) = Some rs"
        using decode_lead(2) [of "code c" "esc_codepoint r"] st True by fastforce
      with decode_lead(3) [of "code c" rs "esc_codepoint r"] st True
      have "esc_state r' \<in> {2..8}" "state_ranges (esc_state r') = rs" by auto
      with Cons.IH [OF loop] obtain pre post where
        p: "codes s = pre @ post" "in_ranges rs pre" "utf8_bytes post" by auto
      from utf8_bytes_append [OF utf8_bytes_sequence [OF rs p(2)] p(3)] p(1)
      have "utf8_bytes (codes (c # s))" by simp
      with True show ?thesis
        by (intro exI [of _ "[]"] exI [of _ "codes (c # s)"]) (simp add: state_ranges_def)
    qed
  next
    case False
    with Cons.prems(2) have mid: "esc_state r \<in> {2..8}" by simp
    from state_ranges_mid [OF this] obtain lo hi rs where
      sr: "state_ranges (esc_state r) = (lo, hi) # rs" .
    from decode_next(2) [OF _ mid sr, of "code c" "esc_codepoint r"] st
    have c: "lo \<le> code c \<and> code c \<le> hi" by fastforce
    from decode_next(1) [OF _ mid sr c, of "esc_codepoint r"] st(2)
    have n: "state_ranges (esc_state r') = rs" "esc_state r' = 0 \<or> esc_state r' \<in> {2..8}"
      by (cases "rs = []"; auto)+
    with Cons.IH [OF loop] obtain pre post where
      p: "codes s = pre @ post" "in_ranges rs pre" "utf8_bytes post" by auto
    with c sr show ?thesis
      by (intro exI [of _ "code c # pre"] exI [of _ post]) simp
  qed
qed

lemma dump_escaped_utf8: "dump_escaped Strict ea s = Inr t \<Longrightarrow> utf8 s"
  using escape_loop_strict [of ea s escaper_init t]
  by (auto simp: dump_escaped_def escaper_init_def UTF8_ACCEPT_def state_ranges_def
      in_ranges_Nil_iff utf8_def)

text \<open>The buffer is never overrun, whatever the bytes and the error handler.\<close>

text \<open>
  In the middle of a sequence the automaton has seen a lead byte and the first continuation
  bytes, and holds their bits.
\<close>

definition mid_sequence :: "nat \<Rightarrow> nat \<Rightarrow> nat \<Rightarrow> bool" where
  "mid_sequence st cp u \<longleftrightarrow> st \<in> {2..8} \<and>
     (\<exists>b seen pre. lead_ranges b = Some (seen @ state_ranges st) \<and> in_ranges seen pre \<and>
       cp = shift_in (snd (decode 0 0 b)) pre \<and> u = Suc (length pre))"

lemma in_ranges_Nil2 [simp]: "in_ranges rs [] \<longleftrightarrow> rs = []"
  by (cases rs) auto

lemma in_ranges_snoc: "in_ranges (rs @ [r]) (bs @ [b]) \<longleftrightarrow> in_ranges rs bs \<and> fst r \<le> b \<and> b \<le> snd r"
proof (induction rs arbitrary: bs)
  case Nil
  then show ?case by (cases bs) (auto simp: in_ranges_iffs)
next
  case (Cons q rs)
  then show ?case by (cases bs) (auto simp: in_ranges_iffs)
qed

lemma in_ranges_length: "in_ranges rs bs \<Longrightarrow> length bs = length rs"
  by (induction rs bs rule: in_ranges.induct) auto

lemma mid_sequence_undumped: "mid_sequence st cp u \<Longrightarrow> 0 < u \<and> u \<le> 3"
proof -
  assume "mid_sequence st cp u"
  then obtain b seen pre where b: "st \<in> {2..8}" "lead_ranges b = Some (seen @ state_ranges st)"
    "in_ranges seen pre" "u = Suc (length pre)" by (auto simp: mid_sequence_def)
  from state_ranges_mid [OF b(1)] obtain lo hi rs where sr: "state_ranges st = (lo, hi) # rs" .
  from b(2) have "length (seen @ state_ranges st) \<le> 3" by (cases rule: lead_ranges_cases) simp_all
  with sr b(4) in_ranges_length [OF b(3)] show ?thesis by simp
qed

lemma decode_from_start:
  assumes "decode 0 cp (code c) = (st, cp')" and "st \<noteq> 1"
  shows "st = 0 \<or> mid_sequence st cp' 1"
proof (cases "code c < 0x80")
  case True
  with decode_lead(1) [of "code c" cp] assms(1) show ?thesis by simp
next
  case False
  with assms obtain rs where rs: "lead_ranges (code c) = Some rs"
    using decode_lead(2) [of "code c" cp] by fastforce
  have "cp' = snd (decode 0 0 (code c))"
    using decode_mask [OF rs, of cp] decode_mask [OF rs, of 0] assms(1) by simp
  moreover have "st \<in> {2..8}" "state_ranges st = rs"
    using decode_lead(3) [OF _ rs, of cp] assms(1) by auto
  ultimately have "mid_sequence st cp' 1"
    unfolding mid_sequence_def using rs
    by (intro conjI exI [of _ "code c"] exI [of _ "[]"]) (simp_all add: shift_in_def)
  then show ?thesis ..
qed

lemma decode_from_middle:
  assumes "mid_sequence st cp u" and "decode st cp (code c) = (st', cp')" and "st' \<noteq> 1"
  shows "st' = 0 \<and> 0x80 \<le> cp' \<or> mid_sequence st' cp' (Suc u)"
proof -
  from assms(1) obtain b seen pre where b: "st \<in> {2..8}" "lead_ranges b = Some (seen @ state_ranges st)"
    "in_ranges seen pre" "cp = shift_in (snd (decode 0 0 b)) pre" "u = Suc (length pre)"
    by (auto simp: mid_sequence_def)
  from state_ranges_mid [OF b(1)] obtain lo hi rs where sr: "state_ranges st = (lo, hi) # rs" .
  from decode_next(2) [OF _ b(1) sr, of "code c" cp] assms(2,3)
  have c: "lo \<le> code c \<and> code c \<le> hi" by fastforce
  have n: "state_ranges st' = rs" "rs = [] \<Longrightarrow> st' = 0" "rs \<noteq> [] \<Longrightarrow> st' \<in> {2..8}"
    using decode_next(1) [OF _ b(1) sr c, of cp] assms(2) by auto
  have cp': "cp' = shift_in (snd (decode 0 0 b)) (pre @ [code c])"
    using decode_shift [of st cp "code c"] b(1,4) assms(2) by (simp add: shift_in_def)
  have seen: "in_ranges (seen @ [(lo, hi)]) (pre @ [code c])" "length pre = length seen"
    using b(3) c in_ranges_length [OF b(3)] by (simp_all add: in_ranges_snoc)
  show ?thesis
  proof (cases "rs = []")
    case True
    with b(2) sr have "lead_ranges b = Some (seen @ [(lo, hi)])" by simp
    from shift_in_codepoint [OF this seen(1), of 0] ranges_sound [OF this seen(1)] cp'
    have "0x80 \<le> cp'" by simp
    with n(2) True show ?thesis by simp
  next
    case False
    with n sr b(2,5) seen cp' have "mid_sequence st' cp' (Suc u)"
      unfolding mid_sequence_def
      by (intro conjI exI [of _ b] exI [of _ "seen @ [(lo, hi)]"] exI [of _ "pre @ [code c]"]) simp_all
    then show ?thesis ..
  qed
qed

definition escaper_ok :: "bool \<Rightarrow> escaper \<Rightarrow> bool" where
  "escaper_ok ea r \<longleftrightarrow>
     (esc_state r = 0 \<and> esc_undumped r = 0 \<or>
      mid_sequence (esc_state r) (esc_codepoint r) (esc_undumped r)) \<and>
     length (esc_buffer r) \<le> 499 + (if ea then 0 else esc_undumped r) \<and>
     esc_last_accept r \<le> 499"

lemma escaper_ok_init: "escaper_ok ea escaper_init"
  by (simp add: escaper_ok_def escaper_init_def UTF8_ACCEPT_def)

lemma escape_piece_room:
  assumes "length buf \<le> 499 + (if ea then 0 else u)" and "u \<le> 3" and "u = 0 \<or> 0x80 \<le> cp"
  shows "length buf + snd (escape_piece ea cp c) \<le> 512"
proof (cases "escaped ea cp")
  case True
  with assms have "length buf \<le> 499" by (auto simp: escaped_def split: if_splits)
  with escape_piece_escaped(2) [OF True, of c] show ?thesis by simp
next
  case False
  with escape_piece_plain [OF False, of c] assms show ?thesis by (auto split: if_splits)
qed

lemma length_replacement [simp]: "length (replacement ea) = (if ea then 6 else 3)"
  by (simp add: replacement_def)

lemma escape_reject:
  assumes "decode (esc_state r) (esc_codepoint r) (code c) = (1, cp)" and "esc_last_accept r \<le> 499"
  shows "escape_byte Strict ea c r = Inl (JsonError 316)"
    and "\<exists>consumed r'. escape_byte Ignore ea c r = Inr (consumed, r') \<and> escaper_ok ea r'"
    and "\<exists>consumed r'. escape_byte Replace ea c r = Inr (consumed, r') \<and> escaper_ok ea r'"
proof -
  let ?buf = "take (esc_last_accept r) (esc_buffer r)"
  note step = escape_byte_def Let_def assms(1) UTF8_ACCEPT_def UTF8_REJECT_def
  have len: "length ?buf \<le> 499" using assms(2) by simp
  show "escape_byte Strict ea c r = Inl (JsonError 316)" by (simp add: step)
  define r1 where "r1 = r\<lparr>esc_state := 0, esc_codepoint := cp, esc_buffer := ?buf, esc_undumped := 0\<rparr>"
  have "escape_byte Ignore ea c r = Inr (\<not> 0 < esc_undumped r, r1)"
    by (simp add: step r1_def)
  moreover have "escaper_ok ea r1" using assms(2) len by (simp add: escaper_ok_def r1_def)
  ultimately show "\<exists>consumed r'. escape_byte Ignore ea c r = Inr (consumed, r') \<and> escaper_ok ea r'"
    by blast
  define bo where "bo = flush_full (?buf @ replacement ea) (esc_out r)"
  define r2 where "r2 = r1\<lparr>esc_buffer := fst bo, esc_out := snd bo, esc_last_accept := length (fst bo)\<rparr>"
  have w: "buffer_write ?buf (replacement ea) (length (replacement ea)) = Inr (?buf @ replacement ea)"
    using len by (simp add: buffer_write_def)
  have "escape_byte Replace ea c r = Inr (\<not> 0 < esc_undumped r, r2)"
    using w by (simp add: step r2_def r1_def bo_def split: prod.splits)
  moreover have "length (fst bo) \<le> 499" by (auto simp: bo_def flush_full_def)
  then have "escaper_ok ea r2" by (simp add: escaper_ok_def r2_def r1_def)
  ultimately show "\<exists>consumed r'. escape_byte Replace ea c r = Inr (consumed, r') \<and> escaper_ok ea r'"
    by blast
qed

lemma escape_byte_ok:
  assumes "escaper_ok ea r"
  shows "(\<exists>consumed r'. escape_byte eh ea c r = Inr (consumed, r') \<and> escaper_ok ea r') \<or>
    (eh = Strict \<and> escape_byte eh ea c r = Inl (JsonError 316))"
proof -
  obtain st cp where d: "decode (esc_state r) (esc_codepoint r) (code c) = (st, cp)" by fastforce
  have st: "st = 1 \<or> st = 0 \<and> (esc_undumped r = 0 \<or> 0x80 \<le> cp) \<or>
      mid_sequence st cp (Suc (esc_undumped r))"
  proof (cases "esc_state r = 0")
    case True
    moreover have "\<not> mid_sequence 0 cp' u'" for cp' u' by (simp add: mid_sequence_def)
    ultimately have "esc_undumped r = 0" using assms by (simp add: escaper_ok_def)
    with True decode_from_start [of "esc_codepoint r" c st cp] d show ?thesis by fastforce
  next
    case False
    with assms have "mid_sequence (esc_state r) (esc_codepoint r) (esc_undumped r)"
      by (simp add: escaper_ok_def)
    from decode_from_middle [OF this d] show ?thesis by blast
  qed
  have u: "esc_undumped r \<le> 3"
    using assms mid_sequence_undumped unfolding escaper_ok_def by fastforce
  have last: "esc_last_accept r \<le> 499"
    and len: "length (esc_buffer r) \<le> 499 + (if ea then 0 else esc_undumped r)"
    using assms by (simp_all add: escaper_ok_def)
  show ?thesis
  proof (cases "st = 0")
    case True
    have "\<not> mid_sequence 0 cp u'" for u' by (simp add: mid_sequence_def)
    with st True have "esc_undumped r = 0 \<or> 0x80 \<le> cp" by simp
    note room = escape_piece_room [OF len u this]
    obtain r' where "escape_byte eh ea c r = Inr (True, r')" "esc_state r' = 0"
      "length (esc_buffer r') \<le> 499" "esc_undumped r' = 0"
      "esc_last_accept r' = length (esc_buffer r')"
      by (rule escape_accept [OF d [unfolded True] room, where eh = eh])
    then have "escape_byte eh ea c r = Inr (True, r') \<and> escaper_ok ea r'"
      by (simp add: escaper_ok_def)
    then show ?thesis by blast
  next
    case False
    show ?thesis
    proof (cases "st = 1")
      case True
      from escape_reject [OF d [unfolded True] last, of ea] show ?thesis by (cases eh) simp_all
    next
      case nr: False
      with st False have m: "mid_sequence st cp (Suc (esc_undumped r))" by simp
      then have s: "st \<in> {2..8}" by (simp add: mid_sequence_def)
      define r' where "r' = r\<lparr>esc_state := st, esc_codepoint := cp,
        esc_buffer := (if ea then esc_buffer r else esc_buffer r @ [c]),
        esc_undumped := esc_undumped r + 1\<rparr>"
      have "\<not> ea \<Longrightarrow> length (esc_buffer r) < 512" using len u by simp
      from escape_more [OF d s this, where eh = eh] have "escape_byte eh ea c r = Inr (True, r')"
        by (simp add: r'_def)
      moreover have "escaper_ok ea r'"
        using m len last by (simp add: escaper_ok_def r'_def split: if_splits)
      ultimately show ?thesis by blast
    qed
  qed
qed

lemma escape_loop_ok:
  assumes "escaper_ok ea r"
  shows "(\<exists>t. escape_loop eh ea s r = Inr t) \<or>
    (eh = Strict \<and> escape_loop eh ea s r = Inl (JsonError 316))"
  using assms
proof (induction eh ea s r rule: escape_loop.induct)
  case (1 eh ea r)
  then show ?case by (cases eh) (simp_all add: escape_finish_def)
next
  case (2 eh ea c s r)
  from escape_byte_ok [OF "2.prems", of eh c] show ?case
  proof (elim disjE exE conjE)
    fix consumed r'
    assume "escape_byte eh ea c r = Inr (consumed, r')" and "escaper_ok ea r'"
    with "2.IH" [of "(consumed, r')" consumed r'] show ?thesis by simp
  qed simp
qed

text \<open>
  So escaping a string either gives text, or stops with error 316, and the latter happens
  exactly in strict mode on a string that is not UTF-8.
\<close>

lemma dump_escaped_total:
  "(\<exists>t. dump_escaped eh ea s = Inr t) \<or>
    (eh = Strict \<and> dump_escaped eh ea s = Inl (JsonError 316))"
  unfolding dump_escaped_def by (rule escape_loop_ok [OF escaper_ok_init])

lemma dump_escaped_strict_error: "dump_escaped Strict ea s = Inl e \<longleftrightarrow> e = JsonError 316 \<and> \<not> utf8 s"
proof (cases "utf8 s")
  case True
  then obtain cps where "\<forall>cp \<in> set cps. scalar cp" "s = text_of cps" by (auto simp: utf8_iff)
  with dump_escaped_text [of cps Strict ea] True show ?thesis by simp
next
  case False
  with dump_escaped_utf8 [of ea s] dump_escaped_total [of Strict ea s] show ?thesis by auto
qed

lemma utf8_ascii: "\<forall>c \<in> set s. code c < 0x80 \<Longrightarrow> utf8 s"
proof (induction s)
  case (Cons c s)
  then have "utf8_bytes ([code c] @ codes s)"
    by (intro utf8_bytes_append utf8_bytes_ascii) (simp_all add: utf8_def)
  then show ?case by (simp add: utf8_def)
qed simp

end
