(* ===== verification/JsonDump.thy ===== *)
theory JsonDump
  imports JsonEscape
begin

text \<open>
  Values of the JSON library and their serialization: \<open>serializer::dump_integer\<close>, \<open>dump\<close>
  (compact and pretty-printed) and \<open>basic_json::dump\<close>.
\<close>

section \<open>Values\<close>

type_synonym i64 = "64 word"

text \<open>
  \<open>basic_json\<close>. A \<open>std::map\<close> iterates its keys in increasing order of unsigned
  bytes, and an object is the list of its entries in that order. Floating-point numbers stay
  abstract: \<open>strtod\<close> and \<open>isfinite\<close> of the C library, and the shortest-digits
  conversion \<open>to_chars\<close>, are given by a record. The types that only binary formats
  produce (\<open>binary\<close>, \<open>discarded\<close>) do not occur.
\<close>

datatype 'f json =
    JNull
  | JBool bool
  | JInteger i64
  | JUnsigned u64
  | JFloat 'f
  | JString string
  | JArray "'f json list"
  | JObject "(string \<times> 'f json) list"

record 'f float_ops =
  strtod :: "string \<Rightarrow> 'f"
  isfinite :: "'f \<Rightarrow> bool"
  to_chars :: "'f \<Rightarrow> string"

section \<open>Integers\<close>

text \<open>
  \<open>serializer::dump_integer\<close> fills \<open>number_buffer\<close> (64 bytes) from the end
  \<open>count_digits\<close> gives, two digits at a time. A write in front of the buffer is
  \<^const>\<open>UndefinedBehaviour\<close>; the buffer may hold anything beforehand.
\<close>

function count_digits :: "nat \<Rightarrow> nat \<Rightarrow> nat" where
  "count_digits x n =
     (if x < 10 then n else if x < 100 then n + 1 else if x < 1000 then n + 2
      else if x < 10000 then n + 3 else count_digits (x div 10000) (n + 4))"
  by pat_completeness auto
termination by (relation "measure fst") auto

declare count_digits.simps [simp del]

definition digits_to_99 :: "(char \<times> char) list" where
  "digits_to_99 = map (\<lambda>i. (digit_char (i div 10), digit_char (i mod 10))) [0..<100]"

text \<open>\<open>remove_sign\<close>: the absolute value of a negative number, without overflow.\<close>

definition remove_sign :: "i64 \<Rightarrow> u64" where
  "remove_sign x = - (x + 1) + 1"

text \<open>\<open>*(--buffer_ptr) = c\<close>.\<close>

definition push_back_to_front :: "nat \<times> string \<Rightarrow> char \<Rightarrow> (nat \<times> string) res" where
  "push_back_to_front pb c =
     (case pb of (p, buf) \<Rightarrow>
        if p = 0 \<or> length buf < p then Inl UndefinedBehaviour else Inr (p - 1, buf[p - 1 := c]))"

function fill_digits :: "nat \<Rightarrow> nat \<times> string \<Rightarrow> (nat \<times> string) res" where
  "fill_digits abs_value pb =
     (if 100 \<le> abs_value then
        bind_res (push_back_to_front pb (snd (digits_to_99 ! (abs_value mod 100)))) (\<lambda>pb.
        bind_res (push_back_to_front pb (fst (digits_to_99 ! (abs_value mod 100)))) (\<lambda>pb.
        fill_digits (abs_value div 100) pb))
      else if 10 \<le> abs_value then
        bind_res (push_back_to_front pb (snd (digits_to_99 ! abs_value))) (\<lambda>pb.
        push_back_to_front pb (fst (digits_to_99 ! abs_value)))
      else push_back_to_front pb (char_of (0x30 + abs_value)))"
  by pat_completeness auto
termination by (relation "measure fst") auto

declare fill_digits.simps [simp del]

definition dump_nonneg :: "u64 \<Rightarrow> string \<Rightarrow> nat \<Rightarrow> string res" where
  "dump_nonneg abs_value buf sign =
     (let n_chars = sign + count_digits (unat abs_value) 1
      in bind_res (fill_digits (unat abs_value) (n_chars, buf)) (\<lambda>(p, buf). Inr (take n_chars buf)))"

definition dump_unsigned :: "u64 \<Rightarrow> string \<Rightarrow> string res" where
  "dump_unsigned x buf = (if x = 0 then Inr ''0'' else dump_nonneg x buf 0)"

definition dump_signed :: "i64 \<Rightarrow> string \<Rightarrow> string res" where
  "dump_signed x buf =
     (if x = 0 then Inr ''0''
      else if sint x < 0 then dump_nonneg (remove_sign x) (buf[0 := CHR ''-'']) 1
      else dump_nonneg x buf 0)"

lemma digits_to_99_nth: "i < 100 \<Longrightarrow> digits_to_99 ! i = (digit_char (i div 10), digit_char (i mod 10))"
  by (simp add: digits_to_99_def)

lemma length_nat_to_string: "length (nat_to_string n) = (if n < 10 then 1 else Suc (length (nat_to_string (n div 10))))"
  by (subst nat_to_string.simps) simp

lemma count_digits_length: "count_digits x n = n + length (nat_to_string x) - 1"
proof (induction x n rule: count_digits.induct)
  case (1 x n)
  have d: "x div 10 div 10 = x div 100" "x div 100 div 10 = x div 1000"
    "x div 1000 div 10 = x div 10000" by (simp_all add: div_mult2_eq [symmetric])
  note l = length_nat_to_string [of x] length_nat_to_string [of "x div 10", unfolded d]
    length_nat_to_string [of "x div 100", unfolded d] length_nat_to_string [of "x div 1000", unfolded d]
  have pos: "0 < length (nat_to_string (x div 10000))" by simp
  show ?case
  proof (cases "x < 10000")
    case True
    then show ?thesis using l by (subst count_digits.simps) (auto split: if_splits)
  next
    case False
    then have "\<not> x < 10" "\<not> x < 100" "\<not> x < 1000" by simp_all
    with "1.IH" False have "count_digits (x div 10000) (n + 4) =
        n + 4 + length (nat_to_string (x div 10000)) - 1" by blast
    with False l pos show ?thesis by (subst count_digits.simps) auto
  qed
qed

text \<open>The digits end up right before the position the filling started from.\<close>

lemma list_update_here: "length a = p \<Longrightarrow> (a @ x # b)[p := c] = a @ c # b"
  by (simp add: list_update_append)

lemma push_step:
  assumes "length a = p"
  shows "push_back_to_front (Suc p, a @ x # b) c = Inr (p, a @ c # b)"
  using assms by (simp add: push_back_to_front_def list_update_append)

lemma fill_digits_text:
  assumes "length old = length (nat_to_string n)"
  shows "fill_digits n (length a + length (nat_to_string n), a @ old @ b) =
    Inr (length a, a @ nat_to_string n @ b)"
  using assms
proof (induction n arbitrary: old b rule: less_induct)
  case (less n)
  have d: "n div 10 div 10 = n div 100" by (simp add: div_mult2_eq [symmetric])
  consider "n < 10" | "10 \<le> n" "n < 100" | "100 \<le> n" by linarith
  then show ?case
  proof cases
    case 1
    then have t: "nat_to_string n = [digit_char n]" by (subst nat_to_string.simps) simp
    with less.prems obtain x where "old = [x]" by (auto simp: length_Suc_conv)
    then show ?thesis
      using push_step [of a "length a" x b "digit_char n"] 1
      by (subst fill_digits.simps) (simp add: t digit_char_def)
  next
    case 2
    then have "nat_to_string (n div 10) = [digit_char (n div 10)]" by (subst nat_to_string.simps) simp
    with 2 have t: "nat_to_string n = [digit_char (n div 10), digit_char (n mod 10)]"
      by (subst nat_to_string.simps) simp
    with less.prems obtain x y where "old = [x, y]" by (auto simp: length_Suc_conv)
    then show ?thesis
      using push_step [of "a @ [x]" "Suc (length a)" y b "digit_char (n mod 10)"]
        push_step [of a "length a" x "digit_char (n mod 10) # b" "digit_char (n div 10)"] 2
      by (subst fill_digits.simps) (simp add: t digits_to_99_nth)
  next
    case 3
    let ?q = "nat_to_string (n div 100)"
    have t: "nat_to_string n = ?q @ [digit_char (n div 10 mod 10), digit_char (n mod 10)]"
      using 3 nat_to_string.simps [of n] nat_to_string.simps [of "n div 10"] d by simp
    have "length (drop (length ?q) old) = Suc (Suc 0)" using less.prems t by simp
    then obtain x y where "drop (length ?q) old = [x, y]"
      unfolding length_Suc_conv by auto
    moreover define old1 where "old1 = take (length ?q) old"
    ultimately have old: "old = old1 @ [x, y]" "length old1 = length ?q"
      using less.prems t append_take_drop_id [of "length ?q" old] by simp_all
    have m: "n mod 100 div 10 = n div 10 mod 10" "n mod 100 mod 10 = n mod 10"
      using mod_mult2_eq [of n 10 10] by simp_all
    have s1: "push_back_to_front (Suc (Suc (length a + length ?q)), a @ old @ b) (digit_char (n mod 10)) =
        Inr (Suc (length a + length ?q), a @ old1 @ x # digit_char (n mod 10) # b)"
      using push_step [of "a @ old1 @ [x]" "Suc (length a + length ?q)" y b "digit_char (n mod 10)"]
      by (simp add: old t)
    have s2: "push_back_to_front (Suc (length a + length ?q), a @ old1 @ x # digit_char (n mod 10) # b)
        (digit_char (n div 10 mod 10)) =
        Inr (length a + length ?q, a @ old1 @ digit_char (n div 10 mod 10) # digit_char (n mod 10) # b)"
      using push_step [of "a @ old1" "length a + length ?q" x "digit_char (n mod 10) # b"] old(2) by simp
    show ?thesis
      using 3 less.IH [of "n div 100" old1 "digit_char (n div 10 mod 10) # digit_char (n mod 10) # b"] old(2)
      by (subst fill_digits.simps) (simp add: digits_to_99_nth m s1 s2 t)
  qed
qed

lemma digit_char_0: "digit_char 0 = CHR ''0''"
  by code_simp

lemma nat_to_string_bound: "n < 10 ^ k \<Longrightarrow> 0 < k \<Longrightarrow> length (nat_to_string n) \<le> k"
proof (induction n arbitrary: k rule: nat_to_string.induct)
  case (1 n)
  show ?case
  proof (cases "n < 10")
    case True
    with "1.prems" show ?thesis by (subst nat_to_string.simps) simp
  next
    case False
    with "1.prems" obtain j where k: "k = Suc j" and j: "0 < j" by (cases k; cases "k = 1") auto
    with "1.prems" have "n div 10 < 10 ^ j" by (simp add: less_mult_imp_div_less mult.commute)
    from "1.IH" [OF False this j] False k show ?thesis by (subst nat_to_string.simps) simp
  qed
qed

lemma unat_length: "length (nat_to_string (unat (x :: u64))) \<le> 20"
proof (rule nat_to_string_bound)
  have "unat x < 2 ^ LENGTH(64)" by (rule unsigned_less)
  then show "unat x < 10 ^ 20" by simp
qed simp

lemma dump_nonneg_text:
  assumes "length buf = 64" and "sign \<le> 1"
  shows "dump_nonneg x buf sign = Inr (take sign buf @ nat_to_string (unat x))"
proof -
  let ?n = "nat_to_string (unat x)" and ?t = "sign + length (nat_to_string (unat x))"
  have "0 < length ?n" by simp
  then have cd: "sign + count_digits (unat x) (Suc 0) = ?t" by (simp add: count_digits_length)
  define a old b where "a = take sign buf" and "old = take (length ?n) (drop sign buf)" and "b = drop ?t buf"
  have len: "length old = length ?n" "length a = sign"
    using assms unat_length [of x] by (simp_all add: old_def a_def)
  have "buf = a @ old @ b"
    unfolding a_def old_def b_def by (metis append_take_drop_id drop_drop add.commute)
  with fill_digits_text [OF len(1), of a b] len(2)
  have "fill_digits (unat x) (?t, buf) = Inr (sign, a @ ?n @ b)" by simp
  then show ?thesis
    using len(2) by (simp add: dump_nonneg_def cd a_def [symmetric])
qed

lemma dump_unsigned_text:
  assumes "length buf = 64"
  shows "dump_unsigned x buf = Inr (nat_to_string (unat x))"
proof (cases "x = 0")
  case True
  then show ?thesis by (simp add: dump_unsigned_def nat_to_string.simps [of 0] digit_char_0)
next
  case False
  then show ?thesis using dump_nonneg_text [OF assms, of 0 x] by (simp add: dump_unsigned_def)
qed

lemma unat_remove_sign: "sint x < 0 \<Longrightarrow> unat (remove_sign x) = nat (- sint x)"
proof -
  assume neg: "sint x < 0"
  have "remove_sign x = - x" by (simp add: remove_sign_def)
  moreover have "uint (- x) = - sint x"
  proof -
    have r: "- sint x < 2 ^ 64" "0 \<le> - sint x"
      using neg sint_greater_eq [of x] by simp_all
    have "uint (- x) = uint (word_of_int (- sint x) :: 64 word)" by simp
    also have "\<dots> = take_bit 64 (- sint x)" by (subst uint_word_of_int_eq) simp
    also have "\<dots> = - sint x" using r by (intro take_bit_int_eq_self) simp_all
    finally show ?thesis .
  qed
  ultimately show ?thesis by (simp flip: nat_uint_eq)
qed

lemma unat_nonneg: "0 \<le> sint x \<Longrightarrow> unat (x :: i64) = nat (sint x)"
proof -
  assume "0 \<le> sint x"
  moreover have "uint x = take_bit 64 (sint x)" by (simp add: uint_sint)
  moreover have "sint x < 2 ^ 64" using sint_less [of x] by simp
  ultimately have "uint x = sint x" by (simp add: take_bit_int_eq_self)
  then show ?thesis by (simp flip: nat_uint_eq)
qed

lemma dump_signed_text:
  assumes "length buf = 64"
  shows "dump_signed x buf = Inr (int_to_string (sint x))"
proof (cases "sint x < 0")
  case True
  then have "x \<noteq> 0" by auto
  moreover have "take 1 (buf[0 := CHR ''-'']) = ''-''" using assms by (cases buf) simp_all
  ultimately show ?thesis
    using dump_nonneg_text [of "buf[0 := CHR ''-'']" 1 "remove_sign x"] assms True
    by (simp add: dump_signed_def int_to_string_def unat_remove_sign)
next
  case False
  show ?thesis
  proof (cases "x = 0")
    case True
    then show ?thesis
      by (simp add: dump_signed_def int_to_string_def nat_to_string.simps [of 0] digit_char_0)
  next
    case nz: False
    then show ?thesis
      using dump_nonneg_text [OF assms, of 0 x] False
      by (simp add: dump_signed_def int_to_string_def unat_nonneg)
  qed
qed

section \<open>Serialization\<close>

text \<open>
  \<open>serializer::dump\<close>. The only state of the serializer that a call leaves for the next one
  is \<open>indent_string\<close>; writing more of it than it holds is \<^const>\<open>UndefinedBehaviour\<close>.
  A step takes the indentation string and returns it with the text written.
\<close>

type_synonym writer = "string \<Rightarrow> (string \<times> string) res"

definition write_characters :: "string \<Rightarrow> writer" where
  "write_characters s ind = Inr (ind, s)"

definition write_indent :: "nat \<Rightarrow> writer" where
  "write_indent n ind = (if n \<le> length ind then Inr (ind, take n ind) else Inl UndefinedBehaviour)"

definition write_res :: "string res \<Rightarrow> writer" where
  "write_res r ind = bind_res r (\<lambda>s. Inr (ind, s))"

definition andw :: "writer \<Rightarrow> writer \<Rightarrow> writer" where
  "andw a b ind = bind_res (a ind) (\<lambda>(ind, s). bind_res (b ind) (\<lambda>(ind, t). Inr (ind, s @ t)))"

text \<open>\<open>indent_string.resize(indent_string.size() * 2, ' ')\<close>.\<close>

definition grow_indent :: "nat \<Rightarrow> string \<Rightarrow> string" where
  "grow_indent new_indent ind =
     (if length ind < new_indent then ind @ replicate (length ind) (CHR '' '') else ind)"

definition dump_float :: "'f float_ops \<Rightarrow> 'f \<Rightarrow> string" where
  "dump_float fl x = (if isfinite fl x then to_chars fl x else ''null'')"

definition number_buffer :: string where
  "number_buffer = replicate 64 (CHR 0x00)"

function (sequential) dump_value ::
  "'f float_ops \<Rightarrow> error_handler \<Rightarrow> bool \<Rightarrow> bool \<Rightarrow> nat \<Rightarrow> nat \<Rightarrow> 'f json \<Rightarrow> writer"
  and dump_elems ::
  "'f float_ops \<Rightarrow> error_handler \<Rightarrow> bool \<Rightarrow> bool \<Rightarrow> nat \<Rightarrow> nat \<Rightarrow> 'f json list \<Rightarrow> writer"
  and dump_members ::
  "'f float_ops \<Rightarrow> error_handler \<Rightarrow> bool \<Rightarrow> bool \<Rightarrow> nat \<Rightarrow> nat \<Rightarrow> (string \<times> 'f json) list \<Rightarrow> writer"
where
  "dump_value fl eh pretty ea step cur (JObject ms) ind =
     (if ms = [] then write_characters ''{}'' ind
      else if pretty then
        (let new_indent = (cur + step) mod 2 ^ 32
         in andw (write_characters [CHR ''{'', CHR 0x0A])
             (andw (dump_members fl eh True ea step new_indent ms)
             (andw (write_characters [CHR 0x0A])
             (andw (write_indent cur) (write_characters ''}'')))) (grow_indent new_indent ind))
      else andw (write_characters ''{'')
             (andw (dump_members fl eh False ea step cur ms) (write_characters ''}'')) ind)"
| "dump_value fl eh pretty ea step cur (JArray xs) ind =
     (if xs = [] then write_characters ''[]'' ind
      else if pretty then
        (let new_indent = (cur + step) mod 2 ^ 32
         in andw (write_characters [CHR ''['', CHR 0x0A])
             (andw (dump_elems fl eh True ea step new_indent xs)
             (andw (write_characters [CHR 0x0A])
             (andw (write_indent cur) (write_characters '']'')))) (grow_indent new_indent ind))
      else andw (write_characters ''['')
             (andw (dump_elems fl eh False ea step cur xs) (write_characters '']'')) ind)"
| "dump_value fl eh pretty ea step cur (JString s) ind =
     andw (write_characters [CHR 0x22])
       (andw (write_res (dump_escaped eh ea s)) (write_characters [CHR 0x22])) ind"
| "dump_value fl eh pretty ea step cur (JBool b) ind =
     write_characters (if b then ''true'' else ''false'') ind"
| "dump_value fl eh pretty ea step cur (JInteger x) ind =
     write_res (dump_signed x number_buffer) ind"
| "dump_value fl eh pretty ea step cur (JUnsigned x) ind =
     write_res (dump_unsigned x number_buffer) ind"
| "dump_value fl eh pretty ea step cur (JFloat x) ind = write_characters (dump_float fl x) ind"
| "dump_value fl eh pretty ea step cur JNull ind = write_characters ''null'' ind"
| "dump_elems fl eh pretty ea step cur [] ind = Inr (ind, [])"
| "dump_elems fl eh pretty ea step cur (x # xs) ind =
     andw (if pretty then write_indent cur else write_characters [])
       (andw (dump_value fl eh pretty ea step cur x)
       (andw (write_characters (if xs = [] then [] else if pretty then [CHR '','', CHR 0x0A] else '',''))
       (dump_elems fl eh pretty ea step cur xs))) ind"
| "dump_members fl eh pretty ea step cur [] ind = Inr (ind, [])"
| "dump_members fl eh pretty ea step cur ((k, v) # ms) ind =
     andw (if pretty then write_indent cur else write_characters [])
       (andw (write_characters [CHR 0x22])
       (andw (write_res (dump_escaped eh ea k))
       (andw (write_characters (if pretty then [CHR 0x22, CHR '':'', CHR '' ''] else [CHR 0x22, CHR '':'']))
       (andw (dump_value fl eh pretty ea step cur v)
       (andw (write_characters (if ms = [] then [] else if pretty then [CHR '','', CHR 0x0A] else '',''))
       (dump_members fl eh pretty ea step cur ms)))))) ind"
  by pat_completeness auto
termination
  by (relation "measure (\<lambda>p. case p of
      Inl (fl, eh, p, ea, st, cur, v, ind) \<Rightarrow> size v
    | Inr (Inl (fl, eh, p, ea, st, cur, xs, ind)) \<Rightarrow> size_list size xs
    | Inr (Inr (fl, eh, p, ea, st, cur, ms, ind)) \<Rightarrow> size_list (size_prod (\<lambda>_. 0) size) ms)")
    simp_all

text \<open>\<open>basic_json::dump(indent, indent_char, ensure_ascii, error_handler)\<close>.\<close>

definition dump_json :: "'f float_ops \<Rightarrow> int \<Rightarrow> char \<Rightarrow> bool \<Rightarrow> error_handler \<Rightarrow> 'f json \<Rightarrow> string res" where
  "dump_json fl indent ichar ea eh v =
     map_sum id snd
       (if 0 \<le> indent then dump_value fl eh True ea (nat indent) 0 v (replicate 512 ichar)
        else dump_value fl eh False ea 0 0 v (replicate 512 ichar))"

text \<open>\<open>dump()\<close>, as the server calls it.\<close>

definition dump :: "'f float_ops \<Rightarrow> 'f json \<Rightarrow> string res" where
  "dump fl v = dump_json fl (-1) (CHR '' '') False Strict v"

section \<open>The text of a value\<close>

text \<open>
  What compact and pretty serialization write, without the buffers: the reference the routine
  is shown to agree with.
\<close>

definition escaped_text :: "error_handler \<Rightarrow> bool \<Rightarrow> string \<Rightarrow> string" where
  "escaped_text eh ea s = projr (dump_escaped eh ea s)"

text \<open>
  The indentation string starts as 512 copies of the chosen character and grows by spaces, so
  \<open>n\<close> columns are the character up to column 512 and spaces from there on.
\<close>

definition indent_text :: "char \<Rightarrow> nat \<Rightarrow> string" where
  "indent_text ichar n = replicate (min n 512) ichar @ replicate (n - 512) (CHR '' '')"

record layout =
  lay_pretty :: bool
  lay_ascii :: bool
  lay_handler :: error_handler
  lay_char :: char
  lay_step :: nat

definition new_line :: "layout \<Rightarrow> string" where
  "new_line l = (if lay_pretty l then [CHR 0x0A] else [])"

definition margin :: "layout \<Rightarrow> nat \<Rightarrow> string" where
  "margin l n = (if lay_pretty l then indent_text (lay_char l) n else [])"

definition deeper :: "layout \<Rightarrow> nat \<Rightarrow> nat" where
  "deeper l cur = (if lay_pretty l then (cur + lay_step l) mod 2 ^ 32 else cur)"

definition quoted :: "layout \<Rightarrow> string \<Rightarrow> string" where
  "quoted l s = [CHR 0x22] @ escaped_text (lay_handler l) (lay_ascii l) s @ [CHR 0x22]"

definition key_text :: "layout \<Rightarrow> string \<Rightarrow> string" where
  "key_text l k = quoted l k @ (if lay_pretty l then '': '' else '':'')"

definition bracketed :: "layout \<Rightarrow> string \<Rightarrow> string \<Rightarrow> nat \<Rightarrow> string list \<Rightarrow> string" where
  "bracketed l op cl cur ts =
     (if ts = [] then op @ cl
      else op @ new_line l @ sep_by ('','' @ new_line l) (map ((@) (margin l (deeper l cur))) ts) @
        new_line l @ margin l cur @ cl)"

fun json_text :: "'f float_ops \<Rightarrow> layout \<Rightarrow> nat \<Rightarrow> 'f json \<Rightarrow> string" where
  "json_text fl l cur (JObject ms) =
     bracketed l ''{'' ''}'' cur (map (\<lambda>(k, v). key_text l k @ json_text fl l (deeper l cur) v) ms)"
| "json_text fl l cur (JArray xs) =
     bracketed l ''['' '']'' cur (map (json_text fl l (deeper l cur)) xs)"
| "json_text fl l cur (JString s) = quoted l s"
| "json_text fl l cur (JBool b) = (if b then ''true'' else ''false'')"
| "json_text fl l cur (JInteger x) = int_to_string (sint x)"
| "json_text fl l cur (JUnsigned x) = nat_to_string (unat x)"
| "json_text fl l cur (JFloat x) = dump_float fl x"
| "json_text fl l cur JNull = ''null''"

text \<open>Every string of the value, keys included, is UTF-8.\<close>

fun strings_utf8 :: "'f json \<Rightarrow> bool" where
  "strings_utf8 (JString s) \<longleftrightarrow> utf8 s"
| "strings_utf8 (JArray xs) \<longleftrightarrow> (\<forall>x \<in> set xs. strings_utf8 x)"
| "strings_utf8 (JObject ms) \<longleftrightarrow> (\<forall>(k, v) \<in> set ms. utf8 k \<and> strings_utf8 v)"
| "strings_utf8 _ \<longleftrightarrow> True"

lemma write_characters_app [simp]: "write_characters s ind = Inr (ind, s)"
  by (simp add: write_characters_def)

text \<open>
  \<open>writes l n ok t a\<close>: from any indentation string of the layout with at least \<open>n\<close>
  columns, the writer \<open>a\<close> writes \<open>t\<close> and keeps the indentation string's shape; in strict
  mode it fails with error 316 exactly when \<open>ok\<close> does not hold.
\<close>

definition indent_ok :: "layout \<Rightarrow> nat \<Rightarrow> string \<Rightarrow> bool" where
  "indent_ok l n ind \<longleftrightarrow>
     512 \<le> length ind \<and> ind = indent_text (lay_char l) (length ind) \<and> (lay_pretty l \<longrightarrow> n \<le> length ind)"

definition writes :: "layout \<Rightarrow> nat \<Rightarrow> bool \<Rightarrow> string \<Rightarrow> writer \<Rightarrow> bool" where
  "writes l n ok t a \<longleftrightarrow> (\<forall>ind. indent_ok l n ind \<longrightarrow>
     (if lay_handler l = Strict \<and> \<not> ok then a ind = Inl (JsonError 316)
      else \<exists>ind'. a ind = Inr (ind', t) \<and> indent_ok l n ind' \<and> length ind \<le> length ind'))"

lemma writesD:
  assumes "writes l n ok t a" and "indent_ok l n ind"
  shows "lay_handler l = Strict \<Longrightarrow> \<not> ok \<Longrightarrow> a ind = Inl (JsonError 316)"
    and "\<not> (lay_handler l = Strict \<and> \<not> ok) \<Longrightarrow>
      \<exists>ind'. a ind = Inr (ind', t) \<and> indent_ok l n ind' \<and> length ind \<le> length ind'"
  using assms unfolding writes_def by (simp_all split: if_splits)

lemma writesI:
  assumes "\<And>ind. indent_ok l n ind \<Longrightarrow> lay_handler l = Strict \<Longrightarrow> \<not> ok \<Longrightarrow> a ind = Inl (JsonError 316)"
    and "\<And>ind. indent_ok l n ind \<Longrightarrow> \<not> (lay_handler l = Strict \<and> \<not> ok) \<Longrightarrow>
      \<exists>ind'. a ind = Inr (ind', t) \<and> indent_ok l n ind' \<and> length ind \<le> length ind'"
  shows "writes l n ok t a"
  using assms unfolding writes_def by simp

lemma length_indent_text [simp]: "length (indent_text c n) = n"
  by (simp add: indent_text_def)

lemma take_indent_text: "n \<le> m \<Longrightarrow> take n (indent_text c m) = indent_text c n"
  by (simp add: indent_text_def min_def)

lemma writes_characters: "writes l n True s (write_characters s)"
  by (rule writesI) (auto simp: write_characters_def)

lemma writes_andw:
  assumes "writes l n ok1 t1 a" and "writes l n ok2 t2 b"
  shows "writes l n (ok1 \<and> ok2) (t1 @ t2) (andw a b)"
proof (rule writesI)
  fix ind assume ind: "indent_ok l n ind" and s: "lay_handler l = Strict" "\<not> (ok1 \<and> ok2)"
  show "andw a b ind = Inl (JsonError 316)"
  proof (cases ok1)
    case True
    with writesD(2) [OF assms(1) ind] obtain ind' where
      "a ind = Inr (ind', t1)" "indent_ok l n ind'" by auto
    with writesD(1) [OF assms(2), of ind'] s True show ?thesis by (simp add: andw_def)
  next
    case False
    with writesD(1) [OF assms(1) ind] s(1) show ?thesis by (simp add: andw_def)
  qed
next
  fix ind assume ind: "indent_ok l n ind" and s: "\<not> (lay_handler l = Strict \<and> \<not> (ok1 \<and> ok2))"
  from writesD(2) [OF assms(1) ind] s obtain ind1 where
    1: "a ind = Inr (ind1, t1)" "indent_ok l n ind1" "length ind \<le> length ind1" by auto
  from writesD(2) [OF assms(2) 1(2)] s obtain ind2 where
    2: "b ind1 = Inr (ind2, t2)" "indent_ok l n ind2" "length ind1 \<le> length ind2" by auto
  from 1 2 show "\<exists>ind'. andw a b ind = Inr (ind', t1 @ t2) \<and> indent_ok l n ind' \<and> length ind \<le> length ind'"
    by (intro exI [of _ ind2]) (simp add: andw_def)
qed

lemma writes_chars_andw: "writes l n ok t b \<Longrightarrow> writes l n ok (s @ t) (andw (write_characters s) b)"
  using writes_andw [OF writes_characters] by simp

lemma writes_andw_chars: "writes l n ok t a \<Longrightarrow> writes l n ok (t @ s) (andw a (write_characters s))"
  using writes_andw [OF _ writes_characters] by simp

lemma writes_escaped:
  "writes l n (utf8 s) (escaped_text (lay_handler l) (lay_ascii l) s)
    (write_res (dump_escaped (lay_handler l) (lay_ascii l) s))"
proof (rule writesI)
  fix ind assume "lay_handler l = Strict" "\<not> utf8 s"
  then have "dump_escaped (lay_handler l) (lay_ascii l) s = Inl (JsonError 316)"
    using dump_escaped_strict_error by simp
  then show "write_res (dump_escaped (lay_handler l) (lay_ascii l) s) ind = Inl (JsonError 316)"
    by (simp add: write_res_def)
next
  fix ind assume i: "indent_ok l n ind" and "\<not> (lay_handler l = Strict \<and> \<not> utf8 s)"
  then obtain t where t: "dump_escaped (lay_handler l) (lay_ascii l) s = Inr t"
    using dump_escaped_total [of "lay_handler l" "lay_ascii l" s] dump_escaped_strict_error by auto
  then show "\<exists>ind'. write_res (dump_escaped (lay_handler l) (lay_ascii l) s) ind =
      Inr (ind', escaped_text (lay_handler l) (lay_ascii l) s) \<and> indent_ok l n ind' \<and> length ind \<le> length ind'"
    using i by (simp add: write_res_def escaped_text_def)
qed

lemma writes_margin:
  "m \<le> n \<Longrightarrow> writes l n True (margin l m) (if lay_pretty l then write_indent m else write_characters [])"
proof (rule writesI)
  fix ind assume "m \<le> n" "indent_ok l n ind"
  then show "\<exists>ind'. (if lay_pretty l then write_indent m else write_characters []) ind = Inr (ind', margin l m) \<and>
      indent_ok l n ind' \<and> length ind \<le> length ind'"
    using take_indent_text [of m "length ind" "lay_char l"]
    by (auto simp: indent_ok_def write_indent_def margin_def write_characters_def)
qed simp

lemma writes_grow:
  assumes "lay_step l \<le> 512" and "lay_pretty l" and "cur \<le> n"
    and "writes l (max n (deeper l cur)) ok t a"
  shows "writes l n ok t (\<lambda>ind. a (grow_indent (deeper l cur) ind))"
proof -
  have g: "indent_ok l (max n (deeper l cur)) (grow_indent (deeper l cur) ind) \<and>
      length ind \<le> length (grow_indent (deeper l cur) ind)" if "indent_ok l n ind" for ind
  proof -
    let ?m = "length ind"
    from that assms(2) have m: "512 \<le> ?m" "ind = indent_text (lay_char l) ?m" "n \<le> ?m"
      by (auto simp: indent_ok_def)
    have "deeper l cur \<le> cur + lay_step l" using assms(2) by (simp add: deeper_def)
    with m assms(1,3) have d: "deeper l cur \<le> 2 * ?m" by linarith
    have "indent_text (lay_char l) ?m @ replicate ?m (CHR '' '') = indent_text (lay_char l) (2 * ?m)"
      using m(1) by (simp add: indent_text_def min_def mult_2 flip: replicate_add)
    with m(2) have "ind @ replicate ?m (CHR '' '') = indent_text (lay_char l) (2 * ?m)" by metis
    with m d show ?thesis by (simp add: grow_indent_def indent_ok_def)
  qed
  show ?thesis
  proof (rule writesI)
    fix ind assume "indent_ok l n ind" "lay_handler l = Strict" "\<not> ok"
    with writesD(1) [OF assms(4)] g show "a (grow_indent (deeper l cur) ind) = Inl (JsonError 316)"
      by blast
  next
    fix ind assume i: "indent_ok l n ind" and s: "\<not> (lay_handler l = Strict \<and> \<not> ok)"
    from writesD(2) [OF assms(4) _ s] g [OF i] obtain ind' where
      "a (grow_indent (deeper l cur) ind) = Inr (ind', t)" "indent_ok l (max n (deeper l cur)) ind'"
      "length (grow_indent (deeper l cur) ind) \<le> length ind'" by blast
    with g [OF i] show "\<exists>ind'. a (grow_indent (deeper l cur) ind) = Inr (ind', t) \<and>
        indent_ok l n ind' \<and> length ind \<le> length ind'"
      by (intro exI [of _ ind']) (auto simp: indent_ok_def)
  qed
qed

lemma dump_elems_Cons:
  "dump_elems fl eh pretty ea step cur (x # xs) =
     andw (if pretty then write_indent cur else write_characters [])
       (andw (dump_value fl eh pretty ea step cur x)
       (andw (write_characters (if xs = [] then [] else if pretty then [CHR '','', CHR 0x0A] else '',''))
       (dump_elems fl eh pretty ea step cur xs)))"
  by (rule ext) simp

lemma dump_members_Cons:
  "dump_members fl eh pretty ea step cur ((k, v) # ms) =
     andw (if pretty then write_indent cur else write_characters [])
       (andw (write_characters [CHR 0x22])
       (andw (write_res (dump_escaped eh ea k))
       (andw (write_characters (if pretty then [CHR 0x22, CHR '':'', CHR '' ''] else [CHR 0x22, CHR '':'']))
       (andw (dump_value fl eh pretty ea step cur v)
       (andw (write_characters (if ms = [] then [] else if pretty then [CHR '','', CHR 0x0A] else '',''))
       (dump_members fl eh pretty ea step cur ms))))))"
  by (rule ext) simp

abbreviation dump_with :: "'f float_ops \<Rightarrow> layout \<Rightarrow> nat \<Rightarrow> 'f json \<Rightarrow> writer" where
  "dump_with fl l cur v \<equiv>
     dump_value fl (lay_handler l) (lay_pretty l) (lay_ascii l) (lay_step l) cur v"

definition writes_value :: "'f float_ops \<Rightarrow> layout \<Rightarrow> 'f json \<Rightarrow> bool" where
  "writes_value fl l v \<longleftrightarrow>
     (\<forall>cur n. cur \<le> n \<longrightarrow> writes l n (strings_utf8 v) (json_text fl l cur v) (dump_with fl l cur v))"

lemma separator_text:
  "(if lay_pretty l then [CHR '','', CHR 0x0A] else '','') = '','' @ new_line l"
  by (simp add: new_line_def)

lemma writes_elems:
  assumes "\<And>x. x \<in> set xs \<Longrightarrow> writes_value fl l x" and "xs \<noteq> []" and "cur \<le> n"
  shows "writes l n (\<forall>x \<in> set xs. strings_utf8 x)
    (sep_by ('','' @ new_line l) (map (\<lambda>x. margin l cur @ json_text fl l cur x) xs))
    (dump_elems fl (lay_handler l) (lay_pretty l) (lay_ascii l) (lay_step l) cur xs)"
  using assms(1,2)
proof (induction xs)
  case (Cons x xs)
  have v: "writes l n (strings_utf8 x) (json_text fl l cur x) (dump_with fl l cur x)"
    using Cons.prems(1) [of x] assms(3) by (simp add: writes_value_def)
  show ?case
  proof (cases "xs = []")
    case True
    have "writes l n True [] (dump_elems fl (lay_handler l) (lay_pretty l) (lay_ascii l) (lay_step l) cur [])"
      by (rule writesI) simp_all
    from writes_andw [OF writes_margin [OF assms(3)] writes_andw [OF v writes_chars_andw [OF this, of "[]"]]]
    show ?thesis by (simp add: dump_elems_Cons True)
  next
    case False
    from writes_andw [OF writes_margin [OF assms(3)] writes_andw [OF v
        writes_chars_andw [OF Cons.IH [OF Cons.prems(1) False], of "'','' @ new_line l"]]]
    show ?thesis using False by (simp add: dump_elems_Cons separator_text sep_by_Cons)
  qed
qed simp

lemma writes_members:
  assumes "\<And>k v. (k, v) \<in> set ms \<Longrightarrow> writes_value fl l v" and "ms \<noteq> []" and "cur \<le> n"
  shows "writes l n (\<forall>(k, v) \<in> set ms. utf8 k \<and> strings_utf8 v)
    (sep_by ('','' @ new_line l)
      (map (\<lambda>(k, v). margin l cur @ key_text l k @ json_text fl l cur v) ms))
    (dump_members fl (lay_handler l) (lay_pretty l) (lay_ascii l) (lay_step l) cur ms)"
  using assms(1,2)
proof (induction ms)
  case (Cons kv ms)
  obtain k v where kv: "kv = (k, v)" by fastforce
  have val: "writes l n (strings_utf8 v) (json_text fl l cur v) (dump_with fl l cur v)"
    using Cons.prems(1) [of k v] assms(3) by (simp add: writes_value_def kv)
  have colon: "(if lay_pretty l then [CHR 0x22, CHR '':'', CHR '' ''] else [CHR 0x22, CHR '':'']) =
      [CHR 0x22] @ (if lay_pretty l then '': '' else '':'')" by simp
  note entry = writes_andw [OF writes_margin [OF assms(3)] writes_chars_andw [OF
      writes_andw [OF writes_escaped [of l n k] writes_chars_andw [OF writes_andw [OF val]]]]]
  show ?case
  proof (cases "ms = []")
    case True
    have "writes l n True [] (dump_members fl (lay_handler l) (lay_pretty l) (lay_ascii l) (lay_step l) cur [])"
      by (rule writesI) simp_all
    from entry [OF writes_chars_andw [OF this, of "[]"], of "[CHR 0x22]"
        "[CHR 0x22] @ (if lay_pretty l then '': '' else '':'')"]
    show ?thesis by (simp add: dump_members_Cons kv True key_text_def quoted_def colon)
  next
    case False
    have IH: "writes l n (\<forall>(k, v) \<in> set ms. utf8 k \<and> strings_utf8 v)
        (sep_by ('','' @ new_line l)
          (map (\<lambda>(k, v). margin l cur @ key_text l k @ json_text fl l cur v) ms))
        (dump_members fl (lay_handler l) (lay_pretty l) (lay_ascii l) (lay_step l) cur ms)"
      by (rule Cons.IH) (use Cons.prems(1) False in auto)
    from entry [OF writes_chars_andw [OF IH, of "'','' @ new_line l"], of "[CHR 0x22]"
        "[CHR 0x22] @ (if lay_pretty l then '': '' else '':'')"]
    show ?thesis using False
      by (simp add: dump_members_Cons kv key_text_def quoted_def colon separator_text sep_by_Cons)
  qed
qed simp

lemma writes_bracketed:
  assumes "lay_step l \<le> 512" and "cur \<le> n" and "ts \<noteq> []"
    and "\<And>m. deeper l cur \<le> m \<Longrightarrow>
      writes l m ok (sep_by ('','' @ new_line l) (map ((@) (margin l (deeper l cur))) ts)) body"
  shows "writes l n ok (bracketed l op cl cur ts)
    (\<lambda>ind. if lay_pretty l then
        andw (write_characters (op @ [CHR 0x0A])) (andw body (andw (write_characters [CHR 0x0A])
          (andw (write_indent cur) (write_characters cl)))) (grow_indent (deeper l cur) ind)
      else andw (write_characters op) (andw body (write_characters cl)) ind)"
proof (cases "lay_pretty l")
  case True
  let ?m = "max n (deeper l cur)"
  have "writes l ?m True (margin l cur) (write_indent cur)"
    using writes_margin [of cur ?m l] assms(2) True by simp
  from writes_chars_andw [OF writes_andw [OF assms(4) writes_chars_andw [OF writes_andw_chars [OF this]]],
      of "op @ [CHR 0x0A]" "[CHR 0x0A]" cl]
  have "writes l ?m ok (bracketed l op cl cur ts)
    (andw (write_characters (op @ [CHR 0x0A])) (andw body (andw (write_characters [CHR 0x0A])
          (andw (write_indent cur) (write_characters cl)))))"
    using assms(3) True by (simp add: bracketed_def new_line_def)
  from writes_grow [OF assms(1) True assms(2) this] True show ?thesis by simp
next
  case False
  then have "deeper l cur \<le> n" using assms(2) by (simp add: deeper_def)
  from writes_chars_andw [OF writes_andw_chars [OF assms(4) [OF this]], of op cl] False assms(3)
  show ?thesis by (simp add: bracketed_def new_line_def margin_def)
qed

lemma writes_value:
  assumes "lay_step l \<le> 512"
  shows "writes_value fl l v"
proof (induction v)
  case JNull
  have "dump_with fl l cur JNull = write_characters ''null''" for cur by (rule ext) simp
  then show ?case using writes_characters by (simp add: writes_value_def)
next
  case (JBool b)
  have "dump_with fl l cur (JBool b) = write_characters (if b then ''true'' else ''false'')" for cur
    by (rule ext) simp
  then show ?case using writes_characters by (simp add: writes_value_def)
next
  case (JInteger x)
  have "dump_with fl l cur (JInteger x) = write_characters (int_to_string (sint x))" for cur
    by (rule ext) (simp add: write_res_def dump_signed_text number_buffer_def)
  then show ?case using writes_characters by (simp add: writes_value_def)
next
  case (JUnsigned x)
  have "dump_with fl l cur (JUnsigned x) = write_characters (nat_to_string (unat x))" for cur
    by (rule ext) (simp add: write_res_def dump_unsigned_text number_buffer_def)
  then show ?case using writes_characters by (simp add: writes_value_def)
next
  case (JFloat x)
  have "dump_with fl l cur (JFloat x) = write_characters (dump_float fl x)" for cur
    by (rule ext) simp
  then show ?case using writes_characters by (simp add: writes_value_def)
next
  case (JString s)
  have "dump_with fl l cur (JString s) = andw (write_characters [CHR 0x22])
       (andw (write_res (dump_escaped (lay_handler l) (lay_ascii l) s)) (write_characters [CHR 0x22]))" for cur
    by (rule ext) simp
  moreover have "writes l n (utf8 s) (quoted l s) (andw (write_characters [CHR 0x22])
       (andw (write_res (dump_escaped (lay_handler l) (lay_ascii l) s)) (write_characters [CHR 0x22])))" for n
    unfolding quoted_def by (intro writes_chars_andw writes_andw_chars writes_escaped)
  ultimately show ?case by (simp add: writes_value_def)
next
  case (JArray xs)
  show ?case
  proof (cases "xs = []")
    case True
    have "dump_with fl l cur (JArray []) = write_characters ''[]''" for cur by (rule ext) simp
    then show ?thesis using writes_characters True by (simp add: writes_value_def bracketed_def)
  next
    case False
    show ?thesis unfolding writes_value_def
    proof (intro allI impI)
      fix cur n :: nat assume "cur \<le> n"
      define body where "body = dump_elems fl (lay_handler l) (lay_pretty l) (lay_ascii l) (lay_step l) (deeper l cur) xs"
      have "writes l n (\<forall>x \<in> set xs. strings_utf8 x)
          (bracketed l ''['' '']'' cur (map (json_text fl l (deeper l cur)) xs))
          (\<lambda>ind. if lay_pretty l then
              andw (write_characters (''['' @ [CHR 0x0A])) (andw body (andw (write_characters [CHR 0x0A])
                (andw (write_indent cur) (write_characters '']'')))) (grow_indent (deeper l cur) ind)
            else andw (write_characters ''['') (andw body (write_characters '']'')) ind)"
        using writes_elems [OF JArray.IH False] False
        by (intro writes_bracketed [OF assms \<open>cur \<le> n\<close>]) (simp_all add: comp_def body_def)
      moreover have "dump_with fl l cur (JArray xs) = (\<lambda>ind. if lay_pretty l then
              andw (write_characters (''['' @ [CHR 0x0A])) (andw body (andw (write_characters [CHR 0x0A])
                (andw (write_indent cur) (write_characters '']'')))) (grow_indent (deeper l cur) ind)
            else andw (write_characters ''['') (andw body (write_characters '']'')) ind)"
        using False by (intro ext) (cases "lay_pretty l"; simp add: deeper_def body_def Let_def)
      ultimately show "writes l n (strings_utf8 (JArray xs)) (json_text fl l cur (JArray xs)) (dump_with fl l cur (JArray xs))"
        by simp
    qed
  qed
next
  case (JObject ms)
  show ?case
  proof (cases "ms = []")
    case True
    have "dump_with fl l cur (JObject []) = write_characters ''{}''" for cur by (rule ext) simp
    then show ?thesis using writes_characters True by (simp add: writes_value_def bracketed_def)
  next
    case False
    have vals: "\<And>k v. (k, v) \<in> set ms \<Longrightarrow> writes_value fl l v" using JObject.IH by auto
    show ?thesis unfolding writes_value_def
    proof (intro allI impI)
      fix cur n :: nat assume "cur \<le> n"
      define body where "body = dump_members fl (lay_handler l) (lay_pretty l) (lay_ascii l) (lay_step l) (deeper l cur) ms"
      have "writes l n (\<forall>(k, v) \<in> set ms. utf8 k \<and> strings_utf8 v)
          (bracketed l ''{'' ''}'' cur (map (\<lambda>(k, v). key_text l k @ json_text fl l (deeper l cur) v) ms))
          (\<lambda>ind. if lay_pretty l then
              andw (write_characters (''{'' @ [CHR 0x0A])) (andw body (andw (write_characters [CHR 0x0A])
                (andw (write_indent cur) (write_characters ''}'')))) (grow_indent (deeper l cur) ind)
            else andw (write_characters ''{'') (andw body (write_characters ''}'')) ind)"
        using writes_members [OF vals False] False
        by (intro writes_bracketed [OF assms \<open>cur \<le> n\<close>]) (simp_all add: comp_def body_def split_def)
      moreover have "dump_with fl l cur (JObject ms) = (\<lambda>ind. if lay_pretty l then
              andw (write_characters (''{'' @ [CHR 0x0A])) (andw body (andw (write_characters [CHR 0x0A])
                (andw (write_indent cur) (write_characters ''}'')))) (grow_indent (deeper l cur) ind)
            else andw (write_characters ''{'') (andw body (write_characters ''}'')) ind)"
        using False by (intro ext) (cases "lay_pretty l"; simp add: deeper_def body_def Let_def)
      ultimately show "writes l n (strings_utf8 (JObject ms)) (json_text fl l cur (JObject ms)) (dump_with fl l cur (JObject ms))"
        by simp
    qed
  qed
qed

definition dump_layout :: "int \<Rightarrow> char \<Rightarrow> bool \<Rightarrow> error_handler \<Rightarrow> layout" where
  "dump_layout indent ichar ea eh = \<lparr>lay_pretty = 0 \<le> indent, lay_ascii = ea, lay_handler = eh,
     lay_char = ichar, lay_step = nat indent\<rparr>"

lemma dump_json_text:
  assumes "indent \<le> 512"
  shows "dump_json fl indent ichar ea eh v =
    (if eh = Strict \<and> \<not> strings_utf8 v then Inl (JsonError 316)
     else Inr (json_text fl (dump_layout indent ichar ea eh) 0 v))"
proof -
  let ?l = "dump_layout indent ichar ea eh"
  have "indent_text ichar 512 = replicate 512 ichar" by (simp add: indent_text_def)
  then have ok: "indent_ok ?l 0 (replicate 512 ichar)"
    by (simp add: indent_ok_def dump_layout_def)
  have "lay_step ?l \<le> 512" using assms by (simp add: dump_layout_def)
  from writes_value [OF this, of fl v] have w: "writes ?l 0 (strings_utf8 v) (json_text fl ?l 0 v) (dump_with fl ?l 0 v)"
    by (simp add: writes_value_def)
  have d: "dump_json fl indent ichar ea eh v = map_sum id snd (dump_with fl ?l 0 v (replicate 512 ichar))"
    by (simp add: dump_json_def dump_layout_def)
  show ?thesis
  proof (cases "eh = Strict \<and> \<not> strings_utf8 v")
    case True
    with writesD(1) [OF w ok] d show ?thesis by (simp add: dump_layout_def)
  next
    case False
    then have "\<not> (lay_handler ?l = Strict \<and> \<not> strings_utf8 v)" by (simp add: dump_layout_def)
    from writesD(2) [OF w ok this] d False show ?thesis by auto
  qed
qed

end
