(* ===== verification/JsonLex.thy ===== *)
theory JsonLex
  imports JsonDump
begin

text \<open>
  The lexer of the JSON library. The input is the rest of the text: \<open>get()\<close> takes its first
  character and returns end of file, again and again, when it is empty; \<open>unget()\<close> leaves the
  character in place. The position counters and the raw token text, which only error messages
  use, are left out.
\<close>

section \<open>Tokens\<close>

text \<open>
  \<open>lexer_base::token_type\<close> with the value the lexer holds for the token;
  \<open>uninitialized\<close> and \<open>literal_or_value\<close> only occur in error messages.
\<close>

datatype 'f token =
    LiteralTrue
  | LiteralFalse
  | LiteralNull
  | ValueString string
  | ValueUnsigned u64
  | ValueInteger i64
  | ValueFloat 'f
  | BeginArray
  | BeginObject
  | EndArray
  | EndObject
  | NameSeparator
  | ValueSeparator
  | ParseError string
  | EndOfInput

section \<open>Strings\<close>

text \<open>\<open>get_codepoint()\<close>: four hexadecimal digits; \<^const>\<open>None\<close> is -1.\<close>

definition hex_value :: "char \<Rightarrow> nat option" where
  "hex_value c =
     (if 0x30 \<le> code c \<and> code c \<le> 0x39 then Some (code c - 0x30)
      else if 0x41 \<le> code c \<and> code c \<le> 0x46 then Some (code c - 0x37)
      else if 0x61 \<le> code c \<and> code c \<le> 0x66 then Some (code c - 0x57)
      else None)"

fun get_hex :: "nat list \<Rightarrow> nat \<Rightarrow> string \<Rightarrow> nat option \<times> string" where
  "get_hex [] cp s = (Some cp, s)"
| "get_hex (f # fs) cp [] = (None, [])"
| "get_hex (f # fs) cp (c # s) =
     (case hex_value c of None \<Rightarrow> (None, s) | Some d \<Rightarrow> get_hex fs (cp + push_bit f d) s)"

definition get_codepoint :: "string \<Rightarrow> nat option \<times> string" where
  "get_codepoint s = get_hex [12, 8, 4, 0] 0 s"

text \<open>\<open>next_byte_in_range\<close>, with the bytes to add to the token.\<close>

fun next_byte_in_range :: "(nat \<times> nat) list \<Rightarrow> string \<Rightarrow> string \<Rightarrow> string option \<times> string" where
  "next_byte_in_range [] buf s = (Some buf, s)"
| "next_byte_in_range ((lo, hi) # rs) buf [] = (None, [])"
| "next_byte_in_range ((lo, hi) # rs) buf (c # s) =
     (if lo \<le> code c \<and> code c \<le> hi then next_byte_in_range rs (buf @ [c]) s else (None, s))"

definition control_names :: "string list" where
  "control_names =
     [''0000 (NUL)'', ''0001 (SOH)'', ''0002 (STX)'', ''0003 (ETX)'', ''0004 (EOT)'', ''0005 (ENQ)'',
      ''0006 (ACK)'', ''0007 (BEL)'', ''0008 (BS)'', ''0009 (HT)'', ''000A (LF)'', ''000B (VT)'',
      ''000C (FF)'', ''000D (CR)'', ''000E (SO)'', ''000F (SI)'', ''0010 (DLE)'', ''0011 (DC1)'',
      ''0012 (DC2)'', ''0013 (DC3)'', ''0014 (DC4)'', ''0015 (NAK)'', ''0016 (SYN)'', ''0017 (ETB)'',
      ''0018 (CAN)'', ''0019 (EM)'', ''001A (SUB)'', ''001B (ESC)'', ''001C (FS)'', ''001D (GS)'',
      ''001E (RS)'', ''001F (US)'']"

text \<open>The message for a control character that stands unescaped in a string.\<close>

definition control_error :: "nat \<Rightarrow> string" where
  "control_error n =
     ''invalid string: control character U+'' @ control_names ! n @ '' must be escaped to '' @
     [CHR 0x5C] @ ''u'' @ take 4 (control_names ! n) @
     (if n = 0x08 then '' or '' @ [CHR 0x5C] @ ''b''
      else if n = 0x09 then '' or '' @ [CHR 0x5C] @ ''t''
      else if n = 0x0A then '' or '' @ [CHR 0x5C] @ ''n''
      else if n = 0x0C then '' or '' @ [CHR 0x5C] @ ''f''
      else if n = 0x0D then '' or '' @ [CHR 0x5C] @ ''r''
      else [])"

definition hex_error :: string where
  "hex_error = ''invalid string: '' @ [CHR 0x27, CHR 0x5C] @ ''u'' @ [CHR 0x27] @
     '' must be followed by 4 hex digits''"

definition high_surrogate_error :: string where
  "high_surrogate_error =
     ''invalid string: surrogate U+D800..U+DBFF must be followed by U+DC00..U+DFFF''"

definition low_surrogate_error :: string where
  "low_surrogate_error =
     ''invalid string: surrogate U+DC00..U+DFFF must follow U+D800..U+DBFF''"

definition utf8_error :: string where
  "utf8_error = ''invalid string: ill-formed UTF-8 byte''"

text \<open>The escape after a backslash and \<open>u\<close>: one or two groups of four digits.\<close>

definition scan_unicode_escape :: "string \<Rightarrow> (string + string) \<times> string" where
  "scan_unicode_escape s =
     (case get_codepoint s of
        (None, s) \<Rightarrow> (Inl hex_error, s)
      | (Some cp1, s) \<Rightarrow>
          if 0xD800 \<le> cp1 \<and> cp1 \<le> 0xDBFF then
            (if s = [] \<or> hd s \<noteq> CHR 0x5C then (Inl high_surrogate_error, drop 1 s)
             else if tl s = [] \<or> hd (tl s) \<noteq> CHR ''u'' then (Inl high_surrogate_error, drop 2 s)
             else
               (case get_codepoint (drop 2 s) of
                  (None, s) \<Rightarrow> (Inl hex_error, s)
                | (Some cp2, s) \<Rightarrow>
                    if 0xDC00 \<le> cp2 \<and> cp2 \<le> 0xDFFF then
                      (Inr (map char_of (codepoint_bytes (push_bit 10 cp1 + cp2 - 0x35FDC00))), s)
                    else (Inl high_surrogate_error, s)))
          else if 0xDC00 \<le> cp1 \<and> cp1 \<le> 0xDFFF then (Inl low_surrogate_error, s)
          else (Inr (map char_of (codepoint_bytes cp1)), s))"

text \<open>The escape after a backslash.\<close>

definition scan_escape :: "string \<Rightarrow> (string + string) \<times> string" where
  "scan_escape s =
     (case s of
        [] \<Rightarrow> (Inl ''invalid string: forbidden character after backslash'', [])
      | c # s \<Rightarrow>
          if c = CHR 0x22 then (Inr [CHR 0x22], s)
          else if c = CHR 0x5C then (Inr [CHR 0x5C], s)
          else if c = CHR ''/'' then (Inr ''/'', s)
          else if c = CHR ''b'' then (Inr [CHR 0x08], s)
          else if c = CHR ''f'' then (Inr [CHR 0x0C], s)
          else if c = CHR ''n'' then (Inr [CHR 0x0A], s)
          else if c = CHR ''r'' then (Inr [CHR 0x0D], s)
          else if c = CHR ''t'' then (Inr [CHR 0x09], s)
          else if c = CHR ''u'' then scan_unicode_escape s
          else (Inl ''invalid string: forbidden character after backslash'', s))"

lemma get_hex_length: "length (snd (get_hex fs cp s)) \<le> length s"
  by (induction fs cp s rule: get_hex.induct) (auto split: option.split)

lemma get_codepoint_length: "get_codepoint s = (r, s') \<Longrightarrow> length s' \<le> length s"
  using get_hex_length [of "[12, 8, 4, 0]" 0 s] by (simp add: get_codepoint_def)

lemma next_byte_length: "next_byte_in_range rs buf s = (r, s') \<Longrightarrow> length s' \<le> length s"
  by (induction rs buf s rule: next_byte_in_range.induct) (auto split: if_splits)

lemma scan_unicode_escape_length: "scan_unicode_escape s = (r, s') \<Longrightarrow> length s' \<le> length s"
  unfolding scan_unicode_escape_def
  by (auto split: prod.splits option.splits if_splits dest!: get_codepoint_length)

lemma scan_escape_length: "scan_escape s = (r, s') \<Longrightarrow> length s' \<le> length s"
proof (cases s)
  case (Cons c t)
  assume "scan_escape s = (r, s')"
  with Cons have "s' = t \<or> scan_unicode_escape t = (r, s')"
    unfolding scan_escape_def by (simp split: if_splits)
  with scan_unicode_escape_length [of t r s'] Cons show ?thesis by auto
qed (simp add: scan_escape_def)

text \<open>\<open>scan_string\<close>, after the opening quote.\<close>

function scan_string :: "string \<Rightarrow> string \<Rightarrow> 'f token \<times> string" where
  "scan_string buf [] = (ParseError ''invalid string: missing closing quote'', [])"
| "scan_string buf (c # s) =
     (if c = CHR 0x22 then (ValueString buf, s)
      else if c = CHR 0x5C then
        (case scan_escape s of
           (Inl e, s') \<Rightarrow> (ParseError e, s')
         | (Inr bs, s') \<Rightarrow> scan_string (buf @ bs) s')
      else if code c < 0x20 then (ParseError (control_error (code c)), s)
      else if code c < 0x80 then scan_string (buf @ [c]) s
      else
        (case lead_ranges (code c) of
           None \<Rightarrow> (ParseError utf8_error, s)
         | Some rs \<Rightarrow>
             (case next_byte_in_range rs (buf @ [c]) s of
                (None, s') \<Rightarrow> (ParseError utf8_error, s')
              | (Some buf', s') \<Rightarrow> scan_string buf' s')))"
  by pat_completeness auto
termination
  by (relation "measure (\<lambda>(buf, s). length s)")
    (auto dest!: scan_escape_length next_byte_length [OF sym] next_byte_length scan_escape_length [OF sym])

section \<open>Numbers\<close>

text \<open>
  \<open>scan_number\<close>: the labels of its \<open>goto\<close> machine, what a label does with the next
  character, and the kind of number it sets on entry.
\<close>

datatype number_label =
    Minus | Zero | Any1 | Decimal1 | Decimal2 | Exponent | Sign | Any2

datatype number_action = Goto number_label | Done | Fail string

datatype number_type = NumUnsigned | NumInteger | NumFloat

definition number_next :: "number_label \<Rightarrow> char option \<Rightarrow> number_action" where
  "number_next l c =
     (let digit = (case c of None \<Rightarrow> False | Some c \<Rightarrow> is_digit c);
          exponent = (c = Some (CHR ''e'') \<or> c = Some (CHR ''E''))
      in case l of
           Minus \<Rightarrow>
             if c = Some (CHR ''0'') then Goto Zero
             else if digit then Goto Any1
             else Fail (''invalid number; expected digit after '' @ [CHR 0x27] @ ''-'' @ [CHR 0x27])
         | Zero \<Rightarrow>
             if c = Some (CHR ''.'') then Goto Decimal1
             else if exponent then Goto Exponent else Done
         | Any1 \<Rightarrow>
             if digit then Goto Any1
             else if c = Some (CHR ''.'') then Goto Decimal1
             else if exponent then Goto Exponent else Done
         | Decimal1 \<Rightarrow>
             if digit then Goto Decimal2
             else Fail (''invalid number; expected digit after '' @ [CHR 0x27] @ ''.'' @ [CHR 0x27])
         | Decimal2 \<Rightarrow>
             if digit then Goto Decimal2
             else if exponent then Goto Exponent else Done
         | Exponent \<Rightarrow>
             if c = Some (CHR ''+'') \<or> c = Some (CHR ''-'') then Goto Sign
             else if digit then Goto Any2
             else Fail (''invalid number; expected '' @ [CHR 0x27] @ ''+'' @ [CHR 0x27] @ '', '' @
               [CHR 0x27] @ ''-'' @ [CHR 0x27] @ '', or digit after exponent'')
         | Sign \<Rightarrow>
             if digit then Goto Any2
             else Fail ''invalid number; expected digit after exponent sign''
         | Any2 \<Rightarrow> if digit then Goto Any2 else Done)"

definition enter_label :: "number_label \<Rightarrow> number_type \<Rightarrow> number_type" where
  "enter_label l ty =
     (if l = Minus then NumInteger else if l = Decimal1 \<or> l = Exponent then NumFloat else ty)"

text \<open>
  \<open>scan_number_done\<close>: \<open>strtoull\<close> and \<open>strtoll\<close> report a value outside their range with
  \<open>ERANGE\<close>, and then, as for a real number, \<open>strtod\<close> decides.
\<close>

definition number_token :: "'f float_ops \<Rightarrow> number_type \<Rightarrow> string \<Rightarrow> 'f token" where
  "number_token fl ty buf =
     (if ty = NumUnsigned \<and> digits_val 0 buf \<le> 18446744073709551615 then
        ValueUnsigned (word_of_nat (digits_val 0 buf))
      else if ty = NumInteger \<and> digits_val 0 (tl buf) \<le> 9223372036854775808 then
        ValueInteger (word_of_int (- int (digits_val 0 (tl buf))))
      else ValueFloat (strtod fl buf))"

fun scan_number_from :: "'f float_ops \<Rightarrow> number_label \<Rightarrow> number_type \<Rightarrow> string \<Rightarrow> string \<Rightarrow> 'f token \<times> string" where
  "scan_number_from fl l ty buf s =
     (let ty = enter_label l ty
      in case s of
           [] \<Rightarrow> (case number_next l None of
               Fail e \<Rightarrow> (ParseError e, []) | _ \<Rightarrow> (number_token fl ty buf, []))
         | c # s' \<Rightarrow> (case number_next l (Some c) of
               Fail e \<Rightarrow> (ParseError e, s')
             | Done \<Rightarrow> (number_token fl ty buf, c # s')
             | Goto l' \<Rightarrow> scan_number_from fl l' ty (buf @ [c]) s'))"

declare scan_number_from.simps [simp del]

text \<open>\<open>scan_number\<close>, entered with the first character.\<close>

definition scan_number :: "'f float_ops \<Rightarrow> char \<Rightarrow> string \<Rightarrow> 'f token \<times> string" where
  "scan_number fl c s =
     (if c = CHR ''-'' then scan_number_from fl Minus NumUnsigned [c] s
      else if c = CHR ''0'' then scan_number_from fl Zero NumUnsigned [c] s
      else scan_number_from fl Any1 NumUnsigned [c] s)"

section \<open>The scanner\<close>

text \<open>\<open>scan_literal\<close>: the rest of a literal after its first character.\<close>

fun scan_literal :: "string \<Rightarrow> 'f token \<Rightarrow> string \<Rightarrow> 'f token \<times> string" where
  "scan_literal [] tok s = (tok, s)"
| "scan_literal (l # ls) tok [] = (ParseError ''invalid literal'', [])"
| "scan_literal (l # ls) tok (c # s) =
     (if c = l then scan_literal ls tok s else (ParseError ''invalid literal'', s))"

definition is_ws :: "char \<Rightarrow> bool" where
  "is_ws c \<longleftrightarrow> c = CHR '' '' \<or> c = CHR 0x09 \<or> c = CHR 0x0A \<or> c = CHR 0x0D"

definition scan_token :: "'f float_ops \<Rightarrow> string \<Rightarrow> 'f token \<times> string" where
  "scan_token fl s =
     (case s of
        [] \<Rightarrow> (EndOfInput, [])
      | c # s \<Rightarrow>
          if c = CHR ''['' then (BeginArray, s)
          else if c = CHR '']'' then (EndArray, s)
          else if c = CHR ''{'' then (BeginObject, s)
          else if c = CHR ''}'' then (EndObject, s)
          else if c = CHR '':'' then (NameSeparator, s)
          else if c = CHR '','' then (ValueSeparator, s)
          else if c = CHR ''t'' then scan_literal ''rue'' LiteralTrue s
          else if c = CHR ''f'' then scan_literal ''alse'' LiteralFalse s
          else if c = CHR ''n'' then scan_literal ''ull'' LiteralNull s
          else if c = CHR 0x22 then scan_string [] s
          else if c = CHR ''-'' \<or> is_digit c then scan_number fl c s
          else if c = CHR 0x00 then (EndOfInput, s)
          else (ParseError ''invalid literal'', s))"

text \<open>\<open>scan()\<close>: white space is skipped; comments are not (\<open>ignore_comments\<close> is off).\<close>

definition scan :: "'f float_ops \<Rightarrow> string \<Rightarrow> 'f token \<times> string" where
  "scan fl s = scan_token fl (dropWhile is_ws s)"

text \<open>\<open>skip_bom\<close>, and the first call of \<open>scan\<close>, which begins with it.\<close>

definition skip_bom :: "string \<Rightarrow> string option" where
  "skip_bom s =
     (if s \<noteq> [] \<and> hd s = CHR 0xEF then
        (if take 2 (tl s) = [CHR 0xBB, CHR 0xBF] then Some (drop 3 s) else None)
      else Some s)"

definition first_scan :: "'f float_ops \<Rightarrow> string \<Rightarrow> 'f token \<times> string" where
  "first_scan fl s =
     (case skip_bom s of
        None \<Rightarrow> (ParseError ''invalid BOM; must be 0xEF 0xBB 0xBF if given'', tl s)
      | Some s' \<Rightarrow> scan fl s')"

section \<open>Lengths\<close>

lemma scan_string_length: "scan_string buf s = (tok, r) \<Longrightarrow> length r \<le> length s"
proof (induction buf s arbitrary: tok r rule: scan_string.induct)
  case (2 buf c s)
  show ?case
  proof (cases "c = CHR 0x22 \<or> c = CHR 0x5C \<or> code c < 0x80")
    case True
    show ?thesis
    proof (cases "c = CHR 0x5C")
      case esc: True
      obtain b s' where n: "scan_escape s = (b, s')" by fastforce
      note IH = "2.IH"(1) [OF _ esc n [symmetric]]
      show ?thesis
      proof (cases b)
        case (Inr bs)
        with IH [of bs tok r] "2.prems" esc n scan_escape_length [OF n] show ?thesis by simp
      qed (use "2.prems" esc n scan_escape_length [OF n] in simp)
    next
      case False
      with True "2.prems" "2.IH"(2) show ?thesis by (auto split: if_splits intro: le_SucI)
    qed
  next
    case False
    show ?thesis
    proof (cases "lead_ranges (code c)")
      case None
      with False "2.prems" show ?thesis by auto
    next
      case (Some rs)
      obtain b s' where n: "next_byte_in_range rs (buf @ [c]) s = (b, s')" by fastforce
      from False "2.prems" "2.IH"(3) [OF _ _ _ _ Some n [symmetric]] Some n
      have "length r \<le> length s'" by (cases b) auto
      with next_byte_length [OF n] show ?thesis by simp
    qed
  qed
qed simp

lemma scan_number_from_length: "scan_number_from fl l ty buf s = (tok, r) \<Longrightarrow> length r \<le> length s"
proof (induction s arbitrary: l ty buf)
  case Nil
  then show ?case
    by (subst (asm) scan_number_from.simps) (auto simp: Let_def split: number_action.splits)
next
  case (Cons c s)
  from Cons.prems Cons.IH show ?case
    by (subst (asm) scan_number_from.simps) (auto simp: Let_def split: number_action.splits intro: le_SucI)
qed

lemma scan_literal_length: "scan_literal ls tok s = (tok', r) \<Longrightarrow> length r \<le> length s"
  by (induction ls tok s rule: scan_literal.induct) (auto split: if_splits intro: le_SucI)

definition final_token :: "'f token \<Rightarrow> bool" where
  "final_token tok \<longleftrightarrow> tok = EndOfInput \<or> (\<exists>e. tok = ParseError e)"

lemma scan_token_length:
  assumes "scan_token fl s = (tok, r)"
  shows "length r \<le> length s" and "\<not> final_token tok \<Longrightarrow> length r < length s"
proof -
  have "s = [] \<and> tok = EndOfInput \<and> r = [] \<or> s \<noteq> [] \<and> length r \<le> length (tl s)"
  proof (cases s)
    case (Cons c t)
    have num: "scan_number fl c t = (tok, r) \<Longrightarrow> length r \<le> length t"
      unfolding scan_number_def by (auto split: if_splits dest: scan_number_from_length)
    have "length r \<le> length t"
      using assms num unfolding scan_token_def Cons
      by (simp split: if_splits) (auto dest: scan_literal_length scan_string_length)
    with Cons show ?thesis by simp
  qed (use assms in \<open>simp add: scan_token_def\<close>)
  then show "length r \<le> length s" and "\<not> final_token tok \<Longrightarrow> length r < length s"
    by (auto simp: final_token_def neq_Nil_conv)
qed

lemma scan_length:
  assumes "scan fl s = (tok, r)"
  shows "length r \<le> length s" and "\<not> final_token tok \<Longrightarrow> length r < length s"
  using scan_token_length [OF assms [unfolded scan_def]] length_dropWhile_le [of is_ws s] by auto

section \<open>Reading what was written\<close>

lemma scan_ws: "\<forall>c \<in> set w. is_ws c \<Longrightarrow> scan fl (w @ s) = scan fl s"
  by (induction w) (simp_all add: scan_def)

lemma hex_value_digit: "n < 16 \<Longrightarrow> hex_value (hex_digit n) = Some n"
  by (auto simp: hex_value_def hex_digit_def)

lemma hex_groups: "n < 65536 \<Longrightarrow>
  n div 4096 mod 16 * 4096 + n div 256 mod 16 * 256 + n div 16 mod 16 * 16 + n mod 16 = (n :: nat)"
proof -
  assume "n < 65536"
  have d: "n div 256 = n div 16 div 16" "n div 4096 = n div 16 div 16 div 16"
    by (simp_all add: div_mult2_eq [symmetric])
  have "n div 16 div 16 div 16 < 16" using \<open>n < 65536\<close> by (simp add: div_mult2_eq [symmetric])
  then have "n div 16 div 16 div 16 mod 16 = n div 16 div 16 div 16" by simp
  then show ?thesis
    unfolding d using div_mult_mod_eq [of n 16] div_mult_mod_eq [of "n div 16" 16]
      div_mult_mod_eq [of "n div 16 div 16" 16] by linarith
qed

lemma get_codepoint_u_escape:
  assumes "n < 65536"
  shows "get_codepoint (drop 2 (u_escape n) @ s) = (Some n, s)"
proof -
  have "get_codepoint (drop 2 (u_escape n) @ s) =
      (Some (n div 4096 mod 16 * 4096 + n div 256 mod 16 * 256 + n div 16 mod 16 * 16 + n mod 16), s)"
    by (simp add: u_escape_def get_codepoint_def hex_value_digit push_bit_eq_mult del: mod_less)
  then show ?thesis by (simp only: hex_groups [OF assms])
qed

lemma u_escape_split: "u_escape n = CHR 0x5C # CHR ''u'' # drop 2 (u_escape n)"
  by (simp add: u_escape_def)

lemma scan_escape_u: "scan_escape (CHR ''u'' # s) = scan_unicode_escape s"
  by (simp add: scan_escape_def)

lemma scan_string_escape:
  "scan_escape s = (Inr bs, s') \<Longrightarrow> scan_string buf (CHR 0x5C # s) = scan_string (buf @ bs) s'"
  by simp

lemma scan_string_u_escape:
  assumes "scalar cp" and "cp < 65536"
  shows "scan_string buf (u_escape cp @ s) = scan_string (buf @ codepoint_text cp) s"
proof -
  have "scan_unicode_escape (drop 2 (u_escape cp) @ s) = (Inr (codepoint_text cp), s)"
    using assms get_codepoint_u_escape [OF assms(2), of s]
    by (auto simp: scan_unicode_escape_def scalar_def codepoint_text_def)
  then show ?thesis
    by (subst u_escape_split) (simp add: scan_escape_u del: drop_Suc)
qed

lemma scan_string_surrogates:
  assumes "0xFFFF < cp" and "cp \<le> 0x10FFFF"
  shows "scan_string buf (u_escape ((0xD7C0 + drop_bit 10 cp) mod 2 ^ 16) @
      u_escape ((0xDC00 + (cp AND 0x3FF)) mod 2 ^ 16) @ s) =
    scan_string (buf @ codepoint_text cp) s"
proof -
  define hi lo where "hi = 0xD7C0 + cp div 1024" and "lo = 0xDC00 + cp mod 1024"
  have and3: "cp AND 0x3FF = cp mod 1024"
    using take_bit_eq_mask [of 10 cp] by (simp add: take_bit_eq_mod mask_eq_exp_minus_1)
  have q: "64 \<le> cp div 1024" "cp div 1024 < 1088" using assms by linarith+
  have h: "(0xD7C0 + drop_bit 10 cp) mod 2 ^ 16 = hi"
    using q by (simp add: hi_def drop_bit_eq_div)
  have l: "(0xDC00 + (cp AND 0x3FF)) mod 2 ^ 16 = lo"
    using mod_less_divisor [of 1024 cp] by (simp add: lo_def and3 del: mod_less_divisor)
  have bnd: "0xD800 \<le> hi" "hi \<le> 0xDBFF" "0xDC00 \<le> lo" "lo \<le> 0xDFFF"
    using q mod_less_divisor [of 1024 cp] by (simp_all add: hi_def lo_def del: mod_less_divisor)
  have sum: "push_bit 10 hi + lo - 0x35FDC00 = cp"
    using div_mult_mod_eq [of cp 1024] by (simp add: push_bit_eq_mult hi_def lo_def)
  have hx: "hi < 65536" "lo < 65536" using bnd by simp_all
  have g1: "get_codepoint (drop 2 (u_escape hi) @ u_escape lo @ s) = (Some hi, u_escape lo @ s)"
    by (rule get_codepoint_u_escape [OF hx(1)])
  have g2: "get_codepoint (drop 2 (u_escape lo) @ s) = (Some lo, s)"
    by (rule get_codepoint_u_escape [OF hx(2)])
  have u: "hd (u_escape lo @ s) = CHR 0x5C" "hd (tl (u_escape lo @ s)) = CHR ''u''"
    "tl (u_escape lo @ s) \<noteq> []" "u_escape lo @ s \<noteq> []"
    by (simp_all add: u_escape_def)
  have "scan_unicode_escape (drop 2 (u_escape hi) @ u_escape lo @ s) = (Inr (codepoint_text cp), s)"
    unfolding scan_unicode_escape_def g1 using bnd u
    by (simp add: g2 sum codepoint_text_def)
  then show ?thesis
    unfolding h l by (subst u_escape_split) (simp add: scan_escape_u del: drop_Suc)
qed

lemma next_byte_in_ranges:
  "in_ranges rs (codes cs) \<Longrightarrow> next_byte_in_range rs buf (cs @ s) = (Some (buf @ cs), s)"
proof (induction rs arbitrary: cs buf)
  case Nil
  then show ?case by (simp add: in_ranges_Nil_iff)
next
  case (Cons r rs)
  then show ?case by (cases r; cases cs) auto
qed

lemma scan_string_plain:
  assumes "scalar cp" and "\<not> escaped ea cp"
  shows "scan_string buf (codepoint_text cp @ s) = scan_string (buf @ codepoint_text cp) s"
proof (cases "cp < 0x80")
  case True
  have "codepoint_text cp = [char_of cp]"
    using True by (simp add: codepoint_text_def codepoint_bytes_def)
  moreover have c: "code (char_of cp) = cp" using True by simp
  moreover have "code (char_of cp) \<noteq> code (CHR 0x22)" "code (char_of cp) \<noteq> code (CHR 0x5C)"
    unfolding c using assms(2) by (simp_all add: escaped_def)
  then have "char_of cp \<noteq> CHR 0x22" "char_of cp \<noteq> CHR 0x5C" by metis+
  ultimately show ?thesis using assms(2) True by (simp add: escaped_def)
next
  case False
  then have "0x80 \<le> cp" by simp
  from ranges_complete [OF assms(1) this] obtain b bs rs where
    b: "codepoint_bytes cp = b # bs" "lead_ranges b = Some rs" "in_ranges rs bs" "0x80 \<le> b"
    by metis
  obtain c cs where tx: "codepoint_text cp = c # cs" "code c = b" "codes cs = bs"
    using codes_codepoint_text [OF assms(1)] b(1) by auto
  have "c \<noteq> CHR 0x22" "c \<noteq> CHR 0x5C" using tx(2) b(4) by auto
  moreover have "next_byte_in_range rs (buf @ [c]) (cs @ s) = (Some (buf @ c # cs), s)"
    using next_byte_in_ranges [of rs cs "buf @ [c]" s] b(3) tx(3) by simp
  ultimately show ?thesis using b tx by simp
qed

lemma simple_escapes:
  "escape_codepoint ea 0x08 = [CHR 0x5C, CHR ''b'']" "codepoint_text 0x08 = [CHR 0x08]"
  "escape_codepoint ea 0x09 = [CHR 0x5C, CHR ''t'']" "codepoint_text 0x09 = [CHR 0x09]"
  "escape_codepoint ea 0x0A = [CHR 0x5C, CHR ''n'']" "codepoint_text 0x0A = [CHR 0x0A]"
  "escape_codepoint ea 0x0C = [CHR 0x5C, CHR ''f'']" "codepoint_text 0x0C = [CHR 0x0C]"
  "escape_codepoint ea 0x0D = [CHR 0x5C, CHR ''r'']" "codepoint_text 0x0D = [CHR 0x0D]"
  "escape_codepoint ea 0x22 = [CHR 0x5C, CHR 0x22]" "codepoint_text 0x22 = [CHR 0x22]"
  "escape_codepoint ea 0x5C = [CHR 0x5C, CHR 0x5C]" "codepoint_text 0x5C = [CHR 0x5C]"
  by (cases ea; code_simp)+

lemma scan_escape_simple:
  "scan_escape (CHR ''b'' # s) = (Inr [CHR 0x08], s)" "scan_escape (CHR ''t'' # s) = (Inr [CHR 0x09], s)"
  "scan_escape (CHR 0x6E # s) = (Inr [CHR 0x0A], s)" "scan_escape (CHR ''f'' # s) = (Inr [CHR 0x0C], s)"
  "scan_escape (CHR ''r'' # s) = (Inr [CHR 0x0D], s)" "scan_escape (CHR 0x22 # s) = (Inr [CHR 0x22], s)"
  "scan_escape (CHR 0x5C # s) = (Inr [CHR 0x5C], s)"
  by (simp_all add: scan_escape_def)

text \<open>Reading back one escaped code point gives its bytes, for both settings of \<open>ensure_ascii\<close>.\<close>

lemma scan_string_escape_codepoint:
  assumes "scalar cp"
  shows "scan_string buf (escape_codepoint ea cp @ s) = scan_string (buf @ codepoint_text cp) s"
proof (cases "escaped ea cp")
  case False
  then show ?thesis using scan_string_plain [OF assms False] by (simp add: escape_codepoint_def)
next
  case True
  have lim: "cp \<le> 0x10FFFF" using assms by (auto simp: scalar_def)
  consider "cp \<in> {0x08, 0x09, 0x0A, 0x0C, 0x0D, 0x22, 0x5C}"
    | "cp \<notin> {0x08, 0x09, 0x0A, 0x0C, 0x0D, 0x22, 0x5C}" "cp \<le> 0xFFFF"
    | "0xFFFF < cp" by fastforce
  then show ?thesis
  proof cases
    case 1
    then show ?thesis
      by (elim insertE emptyE; simp only: simple_escapes append.simps scan_string_escape [OF scan_escape_simple(1)]
          scan_string_escape [OF scan_escape_simple(2)] scan_string_escape [OF scan_escape_simple(3)]
          scan_string_escape [OF scan_escape_simple(4)] scan_string_escape [OF scan_escape_simple(5)]
          scan_string_escape [OF scan_escape_simple(6)] scan_string_escape [OF scan_escape_simple(7)])
  next
    case 2
    with True have "escape_codepoint ea cp = u_escape cp"
      by (auto simp: escape_codepoint_def escape_piece_def escaped_def)
    with scan_string_u_escape [OF assms] 2(2) show ?thesis by simp
  next
    case 3
    with True have "escape_codepoint ea cp = u_escape ((0xD7C0 + drop_bit 10 cp) mod 2 ^ 16) @
        u_escape ((0xDC00 + (cp AND 0x3FF)) mod 2 ^ 16)"
      by (auto simp: escape_codepoint_def escape_piece_def escaped_def)
    with scan_string_surrogates [OF 3 lim] show ?thesis by simp
  qed
qed

lemma scan_string_text:
  "\<forall>cp \<in> set cps. scalar cp \<Longrightarrow>
    scan_string buf (concat (map (escape_codepoint ea) cps) @ s) = scan_string (buf @ text_of cps) s"
proof (induction cps arbitrary: buf)
  case (Cons cp cps)
  then show ?case by (simp add: scan_string_escape_codepoint)
qed simp

lemma scan_string_escaped:
  assumes "utf8 t"
  shows "scan_string [] (escaped_text eh ea t @ CHR 0x22 # s) = (ValueString t, s)"
proof -
  obtain cps where cps: "\<forall>cp \<in> set cps. scalar cp" "t = text_of cps"
    using assms by (auto simp: utf8_iff)
  with scan_string_text [OF cps(1), of "[]" ea "CHR 0x22 # s"] dump_escaped_text [OF cps(1), of eh ea]
  show ?thesis by (simp add: escaped_text_def)
qed

text \<open>A string the lexer accepts is UTF-8.\<close>

lemma in_ranges_next_byte:
  "next_byte_in_range rs buf s = (Some buf', s') \<Longrightarrow>
    \<exists>cs. buf' = buf @ cs \<and> in_ranges rs (codes cs) \<and> s = cs @ s'"
proof (induction rs buf s rule: next_byte_in_range.induct)
  case (3 lo hi rs buf c s)
  then obtain cs where "buf' = (buf @ [c]) @ cs" "in_ranges rs (codes cs)" "s = cs @ s'"
    by (auto split: if_splits)
  with "3.prems" show ?case by (intro exI [of _ "c # cs"]) (auto split: if_splits)
qed auto

lemma get_hex_bound: "get_hex fs cp s = (Some n, s') \<Longrightarrow> n \<le> cp + sum_list (map (\<lambda>f. 15 * 2 ^ f) fs)"
proof (induction fs cp s rule: get_hex.induct)
  case (3 f fs cp c s)
  then obtain d where d: "hex_value c = Some d" "get_hex fs (cp + push_bit f d) s = (Some n, s')"
    by (auto split: option.splits)
  have "d \<le> 15" using d(1) by (auto simp: hex_value_def split: if_splits)
  then have "push_bit f d \<le> 15 * 2 ^ f" by (simp add: push_bit_eq_mult)
  with "3.IH" [OF d] show ?case by simp
qed auto

lemma get_codepoint_bound: "get_codepoint s = (Some n, s') \<Longrightarrow> n \<le> 0xFFFF"
  using get_hex_bound [of "[12, 8, 4, 0]" 0 s n s'] by (simp add: get_codepoint_def)

lemma utf8_codepoint_text: "scalar cp \<Longrightarrow> utf8 (codepoint_text cp)"
  unfolding utf8_iff by (rule exI [of _ "[cp]"]) simp

lemma scan_unicode_escape_utf8:
  assumes "scan_unicode_escape s = (Inr bs, s')"
  shows "utf8 bs"
proof -
  obtain cp1 s1 where g1: "get_codepoint s = (Some cp1, s1)"
    using assms by (auto simp: scan_unicode_escape_def split: prod.splits option.splits)
  show ?thesis
  proof (cases "0xD800 \<le> cp1 \<and> cp1 \<le> 0xDBFF")
    case True
    then obtain cp2 s2 where g2: "get_codepoint (drop 2 s1) = (Some cp2, s2)"
        "0xDC00 \<le> cp2" "cp2 \<le> 0xDFFF"
        "bs = codepoint_text (push_bit 10 cp1 + cp2 - 0x35FDC00)"
      using assms g1 by (auto simp: scan_unicode_escape_def codepoint_text_def
          split: prod.splits option.splits if_splits)
    have "scalar (push_bit 10 cp1 + cp2 - 0x35FDC00)"
      using True g2(2,3) by (auto simp: scalar_def push_bit_eq_mult)
    with g2(4) show ?thesis by (simp add: utf8_codepoint_text)
  next
    case False
    then have "bs = codepoint_text cp1 \<and> scalar cp1"
      using assms g1 get_codepoint_bound [OF g1]
      by (auto simp: scan_unicode_escape_def codepoint_text_def scalar_def split: if_splits)
    then show ?thesis by (simp add: utf8_codepoint_text)
  qed
qed

lemma scan_escape_utf8:
  assumes "scan_escape s = (Inr bs, s')"
  shows "utf8 bs"
proof (cases s)
  case (Cons c t)
  with assms have "scan_unicode_escape t = (Inr bs, s') \<or> (\<forall>c \<in> set bs. code c < 0x80)"
    by (auto simp: scan_escape_def split: if_splits)
  then show ?thesis using scan_unicode_escape_utf8 utf8_ascii by blast
qed (use assms in \<open>simp add: scan_escape_def\<close>)

lemma scan_string_utf8:
  "scan_string buf s = (ValueString t :: 'f token, r) \<Longrightarrow> utf8 buf \<Longrightarrow> utf8 t"
proof (induction buf s rule: scan_string.induct)
  case (2 buf c s)
  show ?case
  proof (cases "c = CHR 0x22 \<or> c = CHR 0x5C")
    case True
    then show ?thesis
    proof
      assume c: "c = CHR 0x5C"
      then obtain bs s' where n: "scan_escape s = (Inr bs, s')"
          "scan_string (buf @ bs) s' = (ValueString t :: 'f token, r)"
        using "2.prems"(1) by (auto split: sum.splits prod.splits)
      from "2.IH"(1) [OF _ c n(1) [symmetric] refl n(2)] c
      show ?thesis using utf8_append [OF "2.prems"(2) scan_escape_utf8 [OF n(1)]] by simp
    qed (use "2.prems" in simp)
  next
    case False
    show ?thesis
    proof (cases "code c < 0x80")
      case True
      with False "2.prems" "2.IH"(2) utf8_append [OF "2.prems"(2) utf8_ascii [of "[c]"]]
      show ?thesis by (auto split: if_splits)
    next
      case big: False
      with False "2.prems"(1) obtain rs buf' s' where n: "lead_ranges (code c) = Some rs"
          "next_byte_in_range rs (buf @ [c]) s = (Some buf', s')"
          "scan_string buf' s' = (ValueString t :: 'f token, r)"
        by (auto split: option.splits prod.splits)
      from in_ranges_next_byte [OF n(2)] obtain cs where cs: "buf' = (buf @ [c]) @ cs" "in_ranges rs (codes cs)"
        by auto
      have "utf8 (c # cs)" using utf8_bytes_sequence [OF n(1) cs(2)] by (simp add: utf8_def)
      with utf8_append [OF "2.prems"(2) this] cs(1) have "utf8 buf'" by simp
      with "2.IH"(3) [OF _ _ _ _ n(1) n(2) [symmetric] refl n(3)] False big show ?thesis by auto
    qed
  qed
qed simp

section \<open>Numbers and literals\<close>

text \<open>What may follow a number without being read as part of it.\<close>

definition number_end :: "string \<Rightarrow> bool" where
  "number_end s \<longleftrightarrow> s = [] \<or>
     (\<not> is_digit (hd s) \<and> hd s \<noteq> CHR ''.'' \<and> hd s \<noteq> CHR ''e'' \<and> hd s \<noteq> CHR ''E'')"

lemma is_digit_simps [simp]:
  "\<not> is_digit (CHR ''.'')" "\<not> is_digit (CHR ''e'')" "\<not> is_digit (CHR ''E'')"
  "\<not> is_digit (CHR ''-'')" "\<not> is_digit (CHR ''+'')" "is_digit (CHR ''0'')"
  by (simp_all add: is_digit_def)

lemma scan_number_end:
  assumes "number_end s" and "number_next l None = Done" and "l \<in> {Zero, Any1, Decimal2, Any2}"
  shows "scan_number_from fl l ty buf s = (number_token fl (enter_label l ty) buf, s)"
proof (cases s)
  case Nil
  with assms(2) show ?thesis by (subst scan_number_from.simps) simp
next
  case (Cons c t)
  with assms(1) have c: "\<not> is_digit c" "c \<noteq> CHR ''.''" "c \<noteq> CHR ''e''" "c \<noteq> CHR ''E''"
    by (simp_all add: number_end_def)
  from assms(3) have "number_next l (Some c) = Done"
    by (elim insertE emptyE) (simp_all add: number_next_def c)
  with Cons show ?thesis by (subst scan_number_from.simps) simp
qed

lemma scan_number_goto:
  "number_next l (Some c) = Goto l' \<Longrightarrow>
    scan_number_from fl l ty buf (c # s) = scan_number_from fl l' (enter_label l ty) (buf @ [c]) s"
  by (subst scan_number_from.simps) simp

lemma scan_number_digits:
  assumes "l \<in> {Any1, Decimal2, Any2}"
  shows "list_all is_digit ds \<Longrightarrow>
    scan_number_from fl l ty buf (ds @ s) = scan_number_from fl l ty (buf @ ds) s"
proof (induction ds arbitrary: buf)
  case (Cons c ds)
  have "number_next l (Some c) = Goto l" "enter_label l ty = ty"
    using assms Cons.prems by (auto simp: number_next_def enter_label_def)
  with Cons show ?case by (simp add: scan_number_goto)
qed simp

lemmas scan_number_run = scan_number_goto scan_number_digits scan_number_end number_next_def
  enter_label_def

text \<open>The grammar of RFC 8259: an integer part, a fraction, an exponent.\<close>

definition int_part :: "string \<Rightarrow> bool" where
  "int_part i \<longleftrightarrow> i = ''0'' \<or> (i \<noteq> [] \<and> list_all is_digit i \<and> hd i \<noteq> CHR ''0'')"

definition frac_part :: "string \<Rightarrow> bool" where
  "frac_part f \<longleftrightarrow> (\<exists>ds. f = ''.'' @ ds \<and> ds \<noteq> [] \<and> list_all is_digit ds)"

definition exp_part :: "string \<Rightarrow> bool" where
  "exp_part x \<longleftrightarrow> (\<exists>e sg ds. x = e @ sg @ ds \<and> (e = ''e'' \<or> e = ''E'') \<and>
     (sg = [] \<or> sg = ''+'' \<or> sg = ''-'') \<and> ds \<noteq> [] \<and> list_all is_digit ds)"

definition real_text :: "string \<Rightarrow> bool" where
  "real_text t \<longleftrightarrow> (\<exists>sg i f x. t = sg @ i @ f @ x \<and> (sg = [] \<or> sg = ''-'') \<and> int_part i \<and>
     (f = [] \<or> frac_part f) \<and> (x = [] \<or> exp_part x) \<and> (f \<noteq> [] \<or> x \<noteq> []))"

lemma scan_exponent:
  assumes "exp_part x" and "number_end s" and "l \<in> {Zero, Any1, Decimal2}"
  shows "scan_number_from fl l ty buf (x @ s) = (number_token fl NumFloat (buf @ x), s)"
proof -
  from assms(1) obtain e sg ds0 where x0: "x = e @ sg @ ds0" "e = ''e'' \<or> e = ''E''"
      "sg = [] \<or> sg = ''+'' \<or> sg = ''-''" "ds0 \<noteq> []" "list_all is_digit ds0"
    unfolding exp_part_def by blast
  then obtain d ds where ds0: "ds0 = d # ds" by (cases ds0) auto
  with x0(5) have d: "is_digit d" "list_all is_digit ds" by simp_all
  define c where "c = hd e"
  have e: "e = [c]" "c = CHR ''e'' \<or> c = CHR ''E''"
    using x0(2) by (elim disjE; simp add: c_def)+
  have c: "\<not> is_digit c" "c \<noteq> CHR ''.''" using e(2) by (elim disjE; simp)+
  from assms(3) have go: "number_next l (Some c) = Goto Exponent"
    by (elim insertE emptyE) (use e(2) in \<open>simp_all add: number_next_def c\<close>)
  have pm: "d \<noteq> CHR ''+''" "d \<noteq> CHR ''-''" using d(1) is_digit_simps by metis+
  have n: "number_next Exponent (Some d) = Goto Any2" "number_next Sign (Some d) = Goto Any2"
    "number_next Exponent (Some (CHR ''+'')) = Goto Sign"
    "number_next Exponent (Some (CHR ''-'')) = Goto Sign"
    using d(1) pm by (simp_all add: number_next_def)
  have en: "enter_label Exponent ty' = NumFloat" "enter_label Sign ty' = ty'"
    "enter_label Any2 ty' = ty'" for ty' by (simp_all add: enter_label_def)
  have "scan_number_from fl l ty buf (x @ s) =
      scan_number_from fl Exponent (enter_label l ty) (buf @ [c]) (sg @ d # ds @ s)"
    by (simp add: x0(1) ds0 e(1) scan_number_goto [OF go])
  also have "\<dots> = scan_number_from fl Any2 NumFloat (buf @ [c] @ sg @ [d]) (ds @ s)"
    using x0(3) by (elim disjE) (simp_all add: scan_number_goto n en)
  also have "\<dots> = scan_number_from fl Any2 NumFloat (buf @ x) s"
    using scan_number_digits [of Any2 ds fl NumFloat "buf @ [c] @ sg @ [d]" s] d(2)
    by (simp add: x0(1) ds0 e(1))
  also have "\<dots> = (number_token fl NumFloat (buf @ x), s)"
    using scan_number_end [OF assms(2), of Any2 fl NumFloat "buf @ x"] by (simp add: number_next_def en)
  finally show ?thesis .
qed

lemma scan_fraction:
  assumes "f = [] \<or> frac_part f" and "x = [] \<or> exp_part x" and "f \<noteq> [] \<or> x \<noteq> []"
    and "number_end s" and "l = Zero \<or> l = Any1"
  shows "scan_number_from fl l ty buf (f @ x @ s) = (number_token fl NumFloat (buf @ f @ x), s)"
proof (cases "f = []")
  case True
  with scan_exponent [of x s l fl ty buf] assms show ?thesis by auto
next
  case False
  with assms(1) obtain d ds where f: "f = ''.'' @ d # ds" "is_digit d" "list_all is_digit ds"
    by (auto simp: frac_part_def neq_Nil_conv)
  have go: "number_next l (Some (CHR ''.'')) = Goto Decimal1"
    using assms(5) by (auto simp: number_next_def)
  have "scan_number_from fl l ty buf (f @ x @ s) =
      scan_number_from fl Decimal2 NumFloat (buf @ f) (x @ s)"
    using f by (simp add: scan_number_goto [OF go] scan_number_goto scan_number_digits
        number_next_def enter_label_def)
  also have "\<dots> = (number_token fl NumFloat (buf @ f @ x), s)"
  proof (cases "x = []")
    case True
    then show ?thesis using assms(4) by (simp add: scan_number_end number_next_def enter_label_def)
  next
    case False
    with scan_exponent [of x s Decimal2 fl NumFloat "buf @ f"] assms(2,4) show ?thesis by simp
  qed
  finally show ?thesis .
qed

text \<open>
  The integer part, entered by \<open>scan_number\<close> or after the minus sign: it leaves the machine
  in \<open>Zero\<close> or \<open>Any1\<close> with the whole part in the buffer.
\<close>

lemma scan_int_part:
  assumes "int_part i"
  obtains l where "l = Zero \<or> l = Any1"
    and "\<And>s. scan_number fl (hd i) (tl i @ s) = scan_number_from fl l NumUnsigned i s"
    and "\<And>s. scan_number fl (CHR ''-'') (i @ s) = scan_number_from fl l NumInteger (CHR ''-'' # i) s"
proof (cases "i = ''0''")
  case True
  show thesis
    by (rule that [of Zero])
      (simp_all add: True scan_number_def scan_number_goto number_next_def enter_label_def)
next
  case False
  with assms obtain c cs where i: "i = c # cs" "is_digit c" "list_all is_digit cs" "c \<noteq> CHR ''0''"
    by (auto simp: int_part_def neq_Nil_conv)
  then have "c \<noteq> CHR ''-''" by auto
  with i show thesis
    by (intro that [of Any1])
      (simp_all add: scan_number_def scan_number_goto scan_number_digits number_next_def enter_label_def)
qed

lemma scan_real:
  assumes "real_text t" and "number_end s"
  shows "scan_number fl (hd t) (tl t @ s) = (ValueFloat (strtod fl t), s)"
proof -
  from assms(1) obtain sg i f x where t: "t = sg @ i @ f @ x" "sg = [] \<or> sg = ''-''" "int_part i"
      "f = [] \<or> frac_part f" "x = [] \<or> exp_part x" "f \<noteq> [] \<or> x \<noteq> []"
    by (auto simp: real_text_def)
  obtain l where l: "l = Zero \<or> l = Any1"
    "\<And>s. scan_number fl (hd i) (tl i @ s) = scan_number_from fl l NumUnsigned i s"
    "\<And>s. scan_number fl (CHR ''-'') (i @ s) = scan_number_from fl l NumInteger (CHR ''-'' # i) s"
    using scan_int_part [OF t(3)] by metis
  have ne: "i \<noteq> []" using t(3) by (auto simp: int_part_def)
  note tail = scan_fraction [OF t(4-6) assms(2) l(1)]
  have tok: "number_token fl NumFloat b = ValueFloat (strtod fl b)" for b
    by (simp add: number_token_def)
  from t(2) show ?thesis
  proof
    assume "sg = []"
    with t(1) ne have "hd t = hd i" "tl t @ s = tl i @ f @ x @ s" by (simp_all add: hd_append tl_append split: list.splits)
    with l(2) [of "f @ x @ s"] tail [of fl NumUnsigned i] \<open>sg = []\<close> t(1) show ?thesis by (simp add: tok)
  next
    assume "sg = ''-''"
    with t(1) have "hd t = CHR ''-''" "tl t @ s = i @ f @ x @ s" by simp_all
    with l(3) [of "f @ x @ s"] tail [of fl NumInteger "CHR ''-'' # i"] \<open>sg = ''-''\<close> t(1)
    show ?thesis by (simp add: tok)
  qed
qed

lemma int_part_nat_to_string: "int_part (nat_to_string n)"
proof (cases "n = 0")
  case True
  then show ?thesis by (simp add: int_part_def nat_to_string.simps [of 0] digit_char_0)
next
  case False
  have "hd (nat_to_string n) \<noteq> CHR ''0''" if "0 < n" for n
    using that
  proof (induction n rule: nat_to_string.induct)
    case (1 n)
    show ?case
    proof (cases "n < 10")
      case True
      have "digit_val (digit_char n) \<noteq> digit_val (CHR ''0'')" using True "1.prems" by (simp add: digit_val_def digit_char_def)
      then have "digit_char n \<noteq> CHR ''0''" by metis
      with True show ?thesis by (subst nat_to_string.simps) simp
    next
      case False
      with "1.IH" show ?thesis by (subst nat_to_string.simps) simp
    qed
  qed
  with False nat_to_string_digits show ?thesis by (simp add: int_part_def)
qed

lemma scan_unsigned:
  assumes "number_end s"
  shows "scan_number fl (hd (nat_to_string (unat x))) (tl (nat_to_string (unat x)) @ s) = (ValueUnsigned x, s)"
proof -
  let ?t = "nat_to_string (unat x)"
  obtain l where l: "l = Zero \<or> l = Any1"
    "\<And>s. scan_number fl (hd ?t) (tl ?t @ s) = scan_number_from fl l NumUnsigned ?t s"
    using scan_int_part [OF int_part_nat_to_string] by metis
  have "unat x < 2 ^ LENGTH(64)" by (rule unsigned_less)
  then have "number_token fl NumUnsigned ?t = ValueUnsigned x" by (simp add: number_token_def)
  with l assms show ?thesis
    by (auto simp: scan_number_end number_next_def enter_label_def)
qed

lemma scan_integer:
  assumes "number_end s" and "sint x < 0"
  shows "scan_number fl (CHR ''-'') (nat_to_string (nat (- sint x)) @ s) = (ValueInteger x, s)"
proof -
  let ?t = "nat_to_string (nat (- sint x))"
  obtain l where l: "l = Zero \<or> l = Any1"
    "\<And>s. scan_number fl (CHR ''-'') (?t @ s) = scan_number_from fl l NumInteger (CHR ''-'' # ?t) s"
    using scan_int_part [OF int_part_nat_to_string] by metis
  have "nat (- sint x) \<le> 2 ^ 63" using sint_greater_eq [of x] by simp
  then have "number_token fl NumInteger (CHR ''-'' # ?t) = ValueInteger x"
    using assms(2) by (simp add: number_token_def)
  with l assms(1) show ?thesis
    by (auto simp: scan_number_end number_next_def enter_label_def)
qed

section \<open>The tokens of a text\<close>

lemma digit_not_special:
  assumes "is_digit c"
  shows "c \<noteq> CHR ''[''" "c \<noteq> CHR '']''" "c \<noteq> CHR ''{''" "c \<noteq> CHR ''}''" "c \<noteq> CHR '':''" "c \<noteq> CHR '',''"
    "c \<noteq> CHR ''t''" "c \<noteq> CHR ''f''" "c \<noteq> CHR ''n''" "c \<noteq> CHR 0x22" "c \<noteq> CHR 0x00" "\<not> is_ws c"
  using assms by (simp_all add: is_digit_def is_ws_def) auto

lemma is_ws_simps [simp]:
  "\<not> is_ws (CHR ''['')" "\<not> is_ws (CHR '']'')" "\<not> is_ws (CHR ''{'')" "\<not> is_ws (CHR ''}'')"
  "\<not> is_ws (CHR '':'')" "\<not> is_ws (CHR '','')" "\<not> is_ws (CHR ''t'')" "\<not> is_ws (CHR ''f'')"
  "\<not> is_ws (CHR 0x6E)" "\<not> is_ws (CHR 0x22)" "\<not> is_ws (CHR ''-'')" "\<not> is_ws (CHR 0x00)"
  by (simp_all add: is_ws_def)

lemma scan_Nil [simp]: "scan fl [] = (EndOfInput, [])"
  by (simp add: scan_def scan_token_def)

lemma scan_structural [simp]:
  "scan fl (CHR ''['' # s) = (BeginArray, s)" "scan fl (CHR '']'' # s) = (EndArray, s)"
  "scan fl (CHR ''{'' # s) = (BeginObject, s)" "scan fl (CHR ''}'' # s) = (EndObject, s)"
  "scan fl (CHR '':'' # s) = (NameSeparator, s)" "scan fl (CHR '','' # s) = (ValueSeparator, s)"
  "scan fl (CHR 0x22 # s) = scan_string [] s"
  by (simp_all add: scan_def scan_token_def)

lemma scan_literals [simp]:
  "scan fl (''true'' @ s) = (LiteralTrue, s)" "scan fl (''false'' @ s) = (LiteralFalse, s)"
  "scan fl (''null'' @ s) = (LiteralNull, s)"
  by (simp_all add: scan_def scan_token_def)

lemma scan_number_first:
  assumes "c = CHR ''-'' \<or> is_digit c"
  shows "scan fl (c # s) = scan_number fl c s"
  using assms
proof
  assume "is_digit c"
  from digit_not_special [OF this] this show ?thesis by (simp add: scan_def scan_token_def)
qed (simp add: scan_def scan_token_def)

lemma scan_unsigned_text:
  "number_end s \<Longrightarrow> scan fl (nat_to_string (unat x) @ s) = (ValueUnsigned x, s)"
proof -
  assume s: "number_end s"
  obtain c t where t: "nat_to_string (unat x) = c # t" by (cases "nat_to_string (unat x)") auto
  with hd_nat_to_string [of "unat x"] have "is_digit c" by simp
  with scan_unsigned [OF s, of fl x] t show ?thesis by (simp add: scan_number_first)
qed

lemma scan_integer_text:
  "number_end s \<Longrightarrow> sint x < 0 \<Longrightarrow> scan fl (int_to_string (sint x) @ s) = (ValueInteger x, s)"
  using scan_integer [of s x fl] by (simp add: int_to_string_def scan_number_first)

lemma real_text_first:
  assumes "real_text t"
  shows "t \<noteq> [] \<and> (hd t = CHR ''-'' \<or> is_digit (hd t))"
proof -
  from assms obtain sg i r where t: "t = sg @ i @ r" "sg = [] \<or> sg = ''-''" "int_part i"
    by (auto simp: real_text_def)
  from t(3) have "i \<noteq> [] \<and> is_digit (hd i)" by (auto simp: int_part_def neq_Nil_conv)
  with t(1,2) show ?thesis by (elim disjE) auto
qed

lemma scan_real_text:
  assumes "real_text t" and "number_end s"
  shows "scan fl (t @ s) = (ValueFloat (strtod fl t), s)"
proof -
  from real_text_first [OF assms(1)] obtain c r where "t = c # r" "c = CHR ''-'' \<or> is_digit c"
    by (cases t) auto
  with scan_real [OF assms, of fl] show ?thesis by (simp add: scan_number_first)
qed

text \<open>Only strings give string tokens, and those are UTF-8.\<close>

lemma scan_number_not_string: "scan_number_from fl l ty buf s \<noteq> (ValueString t, r)"
proof (induction s arbitrary: l ty buf)
  case Nil
  show ?case
    by (subst scan_number_from.simps) (simp add: Let_def number_token_def split: number_action.splits)
next
  case (Cons c s)
  then show ?case
    by (subst scan_number_from.simps) (simp add: Let_def number_token_def split: number_action.splits)
qed

lemma scan_literal_not_string:
  "scan_literal ls tok s = (ValueString t, r) \<Longrightarrow> tok = ValueString t"
  by (induction ls tok s rule: scan_literal.induct) (auto split: if_splits)

lemma scan_string_token:
  fixes fl :: "'f float_ops"
  assumes sc: "scan fl s = (ValueString t, r)"
  shows "utf8 t"
proof (cases "dropWhile is_ws s")
  case (Cons c u)
  show ?thesis
  proof (cases "c = CHR 0x22")
    case True
    with sc Cons have "scan_string [] u = (ValueString t :: 'f token, r)" by (simp add: scan_def scan_token_def)
    then show ?thesis using scan_string_utf8 by fastforce
  next
    case False
    have "scan_number fl c u \<noteq> (ValueString t, r)"
      by (simp add: scan_number_def scan_number_not_string)
    with sc Cons False show ?thesis
      by (auto simp: scan_def scan_token_def split: if_splits dest!: scan_literal_not_string)
  qed
next
  case Nil
  with sc show ?thesis by (simp add: scan_def scan_token_def)
qed

end
