(* ===== verification/JsonParse.thy ===== *)
theory JsonParse
  imports JsonLex "HOL-Library.List_Lexorder" "HOL-Library.Char_ord"
begin

text \<open>
  The parser of the JSON library: the loop of \<open>parser::sax_parse_internal\<close> with its stack of
  states, the events of \<open>json_sax_dom_parser\<close> that build the value, and
  \<open>basic_json::parse\<close>. Characters are ordered by their codes and strings lexicographically
  (the library's instances), which is the order of \<open>std::string\<close> in a \<open>std::map\<close>.
\<close>

section \<open>Objects\<close>

text \<open>\<open>std::map\<close>: assignment to a key, and \<open>operator[]\<close>, which adds a null value.\<close>

fun obj_set :: "string \<Rightarrow> 'a \<Rightarrow> (string \<times> 'a) list \<Rightarrow> (string \<times> 'a) list" where
  "obj_set k v [] = [(k, v)]"
| "obj_set k v ((k', v') # ms) =
     (if k < k' then (k, v) # (k', v') # ms
      else if k = k' then (k, v) # ms
      else (k', v') # obj_set k v ms)"

definition obj_touch :: "string \<Rightarrow> (string \<times> 'f json) list \<Rightarrow> (string \<times> 'f json) list" where
  "obj_touch k ms = (if map_of ms k = None then obj_set k JNull ms else ms)"

section \<open>Building the value\<close>

text \<open>
  \<open>json_sax_dom_parser\<close>. The pointers of \<open>ref_stack\<close> lead to the containers that are
  still open; here the stack holds these containers themselves, innermost first, an object
  with the key \<open>object_element\<close> refers to. The containers they were entered into hold an
  empty one in their place until \<open>end_array\<close> or \<open>end_object\<close> puts the finished one there.
\<close>

datatype 'f frame =
    ArrayFrame "'f json list"
  | ObjectFrame "(string \<times> 'f json) list" string

record 'f dom =
  dom_root :: "'f json"
  ref_stack :: "'f frame list"

definition handle_value :: "'f json \<Rightarrow> 'f dom \<Rightarrow> 'f dom" where
  "handle_value v d =
     (case ref_stack d of
        [] \<Rightarrow> d\<lparr>dom_root := v\<rparr>
      | ArrayFrame xs # fs \<Rightarrow> d\<lparr>ref_stack := ArrayFrame (xs @ [v]) # fs\<rparr>
      | ObjectFrame ms k # fs \<Rightarrow> d\<lparr>ref_stack := ObjectFrame (obj_set k v ms) k # fs\<rparr>)"

definition start_object :: "'f dom \<Rightarrow> 'f dom" where
  "start_object d = (let d = handle_value (JObject []) d in d\<lparr>ref_stack := ObjectFrame [] [] # ref_stack d\<rparr>)"

definition start_array :: "'f dom \<Rightarrow> 'f dom" where
  "start_array d = (let d = handle_value (JArray []) d in d\<lparr>ref_stack := ArrayFrame [] # ref_stack d\<rparr>)"

definition sax_key :: "string \<Rightarrow> 'f dom \<Rightarrow> 'f dom" where
  "sax_key k d =
     (case ref_stack d of
        ObjectFrame ms k' # fs \<Rightarrow> d\<lparr>ref_stack := ObjectFrame (obj_touch k ms) k # fs\<rparr>
      | _ \<Rightarrow> d)"

definition frame_value :: "'f frame \<Rightarrow> 'f json" where
  "frame_value f = (case f of ArrayFrame xs \<Rightarrow> JArray xs | ObjectFrame ms k \<Rightarrow> JObject ms)"

definition end_container :: "'f dom \<Rightarrow> 'f dom" where
  "end_container d =
     (case ref_stack d of
        [] \<Rightarrow> d
      | [f] \<Rightarrow> d\<lparr>dom_root := frame_value f, ref_stack := []\<rparr>
      | f # ArrayFrame xs # fs \<Rightarrow>
          d\<lparr>ref_stack := ArrayFrame (butlast xs @ [frame_value f]) # fs\<rparr>
      | f # ObjectFrame ms k # fs \<Rightarrow>
          d\<lparr>ref_stack := ObjectFrame (obj_set k (frame_value f) ms) k # fs\<rparr>)"

section \<open>The parser\<close>

text \<open>
  \<open>states\<close> is the stack of the loop, innermost first (\<^const>\<open>True\<close> for an array);
  \<open>skip_eval\<close> is \<open>skip_to_state_evaluation\<close>.
\<close>

record 'f parser =
  last_token :: "'f token"
  input :: string
  states :: "bool list"
  skip_eval :: bool
  sdp :: "'f dom"

definition get_token :: "'f float_ops \<Rightarrow> 'f parser \<Rightarrow> 'f parser" where
  "get_token fl p = (let (tok, s) = scan fl (input p) in p\<lparr>last_token := tok, input := s\<rparr>)"

definition sax :: "('f dom \<Rightarrow> 'f dom) \<Rightarrow> 'f parser \<Rightarrow> 'f parser" where
  "sax f p = p\<lparr>sdp := f (sdp p)\<rparr>"

text \<open>\<open>key\<close>, the separator, and the first token of the value.\<close>

definition member_step :: "'f float_ops \<Rightarrow> 'f parser \<Rightarrow> 'f parser res" where
  "member_step fl p =
     (case last_token p of
        ValueString k \<Rightarrow>
          (let p = get_token fl (sax (sax_key k) p)
           in if last_token p = NameSeparator then Inr (get_token fl p) else Inl (JsonError 101))
      | _ \<Rightarrow> Inl (JsonError 101))"

text \<open>What follows a complete value; the flag tells that the text's value is complete.\<close>

definition after_value :: "'f float_ops \<Rightarrow> 'f parser \<Rightarrow> (bool \<times> 'f parser) res" where
  "after_value fl p =
     (case states p of
        [] \<Rightarrow> Inr (True, p)
      | True # sts \<Rightarrow>
          (let p = get_token fl p
           in if last_token p = ValueSeparator then Inr (False, get_token fl p)
              else if last_token p = EndArray then
                Inr (False, sax end_container p\<lparr>states := sts, skip_eval := True\<rparr>)
              else Inl (JsonError 101))
      | False # sts \<Rightarrow>
          (let p = get_token fl p
           in if last_token p = ValueSeparator then
                map_sum id (\<lambda>p. (False, p)) (member_step fl (get_token fl p))
              else if last_token p = EndObject then
                Inr (False, sax end_container p\<lparr>states := sts, skip_eval := True\<rparr>)
              else Inl (JsonError 101)))"

definition value_step :: "'f float_ops \<Rightarrow> 'f parser \<Rightarrow> (bool \<times> 'f parser) res" where
  "value_step fl p =
     (case last_token p of
        BeginObject \<Rightarrow>
          (let p = get_token fl (sax start_object p)
           in if last_token p = EndObject then after_value fl (sax end_container p)
              else map_sum id (\<lambda>p. (False, p\<lparr>states := False # states p\<rparr>)) (member_step fl p))
      | BeginArray \<Rightarrow>
          (let p = get_token fl (sax start_array p)
           in if last_token p = EndArray then after_value fl (sax end_container p)
              else Inr (False, p\<lparr>states := True # states p\<rparr>))
      | ValueFloat x \<Rightarrow>
          if isfinite fl x then after_value fl (sax (handle_value (JFloat x)) p)
          else Inl (JsonError 406)
      | LiteralFalse \<Rightarrow> after_value fl (sax (handle_value (JBool False)) p)
      | LiteralNull \<Rightarrow> after_value fl (sax (handle_value JNull) p)
      | LiteralTrue \<Rightarrow> after_value fl (sax (handle_value (JBool True)) p)
      | ValueInteger x \<Rightarrow> after_value fl (sax (handle_value (JInteger x)) p)
      | ValueString s \<Rightarrow> after_value fl (sax (handle_value (JString s)) p)
      | ValueUnsigned x \<Rightarrow> after_value fl (sax (handle_value (JUnsigned x)) p)
      | ParseError e \<Rightarrow> Inl (JsonError 101)
      | EndOfInput \<Rightarrow> Inl (JsonError 101)
      | _ \<Rightarrow> Inl (JsonError 101))"

definition parse_step :: "'f float_ops \<Rightarrow> 'f parser \<Rightarrow> (bool \<times> 'f parser) res" where
  "parse_step fl p =
     (if skip_eval p then after_value fl (p\<lparr>skip_eval := False\<rparr>) else value_step fl p)"

text \<open>Every round of the loop uses up a token, so it ends.\<close>

definition pending :: "'f parser \<Rightarrow> nat" where
  "pending p = length (input p) + (if skip_eval p \<or> final_token (last_token p) then 0 else 1)"

lemma get_token_pending: "length (input (get_token fl p)) + (if final_token (last_token (get_token fl p)) then 0 else 1)
    \<le> length (input p)"
proof -
  obtain tok s where t: "scan fl (input p) = (tok, s)" by fastforce
  from scan_length [OF t] show ?thesis by (auto simp: get_token_def t)
qed

lemma get_token_simps [simp]:
  "states (get_token fl p) = states p" "skip_eval (get_token fl p) = skip_eval p"
  "sdp (get_token fl p) = sdp p"
  by (simp_all add: get_token_def split: prod.split)

lemma sax_simps [simp]:
  "states (sax f p) = states p" "skip_eval (sax f p) = skip_eval p" "sdp (sax f p) = f (sdp p)"
  "input (sax f p) = input p" "last_token (sax f p) = last_token p"
  by (simp_all add: sax_def)

lemma not_final_simps [simp]:
  "\<not> final_token ValueSeparator" "\<not> final_token EndArray" "\<not> final_token EndObject"
  "\<not> final_token NameSeparator" "\<not> final_token (ValueString s)" "\<not> final_token BeginArray"
  "\<not> final_token BeginObject"
  by (simp_all add: final_token_def)

lemma get_token_le: "length (input (get_token fl p)) \<le> length (input p)"
  using get_token_pending [of fl p] by linarith

lemma get_token_less: "\<not> final_token (last_token (get_token fl p)) \<Longrightarrow>
    length (input (get_token fl p)) < length (input p)"
  using get_token_pending [of fl p] by simp

lemma pending_get_token: "pending (get_token fl p) \<le> length (input p)"
  using get_token_pending [of fl p] get_token_le [of fl p]
  by (auto simp: pending_def split: if_splits)

lemma member_step_pending:
  assumes "member_step fl p = Inr p'"
  shows "pending p' < length (input p)" and "skip_eval p' = skip_eval p"
proof -
  let ?q = "get_token fl (sax (sax_key (case last_token p of ValueString k \<Rightarrow> k | _ \<Rightarrow> [])) p)"
  from assms have p': "last_token ?q = NameSeparator" "p' = get_token fl ?q"
    by (auto simp: member_step_def Let_def split: token.splits if_splits)
  then have "length (input ?q) < length (input p)"
    using get_token_less [of fl "sax (sax_key (case last_token p of ValueString k \<Rightarrow> k | _ \<Rightarrow> [])) p"] by simp
  with p'(2) pending_get_token [of fl ?q] show "pending p' < length (input p)" by simp
  show "skip_eval p' = skip_eval p" by (simp add: p'(2))
qed

lemma after_value_pending:
  assumes "after_value fl p = Inr (False, p')" and "\<not> skip_eval p"
  shows "pending p' < length (input p)"
proof -
  let ?q = "get_token fl p"
  from assms(1) consider
      "last_token ?q = ValueSeparator" "p' = get_token fl ?q"
    | "last_token ?q = ValueSeparator" "member_step fl (get_token fl ?q) = Inr p'"
    | sts where "last_token ?q = EndArray \<or> last_token ?q = EndObject"
        "p' = sax end_container ?q\<lparr>states := sts, skip_eval := True\<rparr>"
    by (auto simp: after_value_def Let_def map_sum_def split: list.splits bool.splits if_splits sum.splits)
  then show ?thesis
  proof cases
    case 1
    with get_token_less [of fl p] pending_get_token [of fl ?q] show ?thesis by simp
  next
    case 2
    with get_token_less [of fl p] get_token_le [of fl ?q] member_step_pending(1) [OF 2(2)] show ?thesis by simp
  next
    case 3
    with get_token_less [of fl p] show ?thesis by (auto simp: pending_def)
  qed
qed

lemma parse_step_pending:
  assumes "parse_step fl p = Inr (False, p')"
  shows "pending p' < pending p"
proof (cases "skip_eval p")
  case True
  with assms have "after_value fl (p\<lparr>skip_eval := False\<rparr>) = Inr (False, p')"
    by (simp add: parse_step_def)
  from after_value_pending [OF this] True show ?thesis by (simp add: pending_def)
next
  case False
  with assms have v: "value_step fl p = Inr (False, p')" by (simp add: parse_step_def)
  have leaf: "pending p' < Suc (length (input p))" if "after_value fl (sax f p) = Inr (False, p')" for f
    using after_value_pending [OF that] False by simp
  have "\<not> final_token (last_token p) \<and> pending p' < Suc (length (input p))"
  proof (cases "last_token p")
    case BeginArray
    let ?q = "get_token fl (sax start_array p)"
    from v BeginArray have "last_token ?q = EndArray \<and> after_value fl (sax end_container ?q) = Inr (False, p') \<or>
        p' = ?q\<lparr>states := True # states p\<rparr>"
      by (simp add: value_step_def Let_def split: if_splits)
    then have "pending p' \<le> length (input p)"
    proof
      assume "last_token ?q = EndArray \<and> after_value fl (sax end_container ?q) = Inr (False, p')"
      then have "pending p' < length (input (sax end_container ?q))"
        using after_value_pending False by fastforce
      with get_token_le [of fl "sax start_array p"] show ?thesis by simp
    next
      assume "p' = ?q\<lparr>states := True # states p\<rparr>"
      then have "pending p' = pending ?q" by (simp add: pending_def)
      with pending_get_token [of fl "sax start_array p"] show ?thesis by simp
    qed
    then show ?thesis by (simp add: BeginArray)
  next
    case BeginObject
    let ?q = "get_token fl (sax start_object p)"
    from v BeginObject have "last_token ?q = EndObject \<and> after_value fl (sax end_container ?q) = Inr (False, p') \<or>
        (\<exists>p1. member_step fl ?q = Inr p1 \<and> p' = p1\<lparr>states := False # states p1\<rparr>)"
      by (auto simp: value_step_def Let_def map_sum_def split: if_splits sum.splits)
    then have "pending p' \<le> length (input p)"
    proof
      assume "last_token ?q = EndObject \<and> after_value fl (sax end_container ?q) = Inr (False, p')"
      then have "pending p' < length (input (sax end_container ?q))"
        using after_value_pending False by fastforce
      with get_token_le [of fl "sax start_object p"] show ?thesis by simp
    next
      assume "\<exists>p1. member_step fl ?q = Inr p1 \<and> p' = p1\<lparr>states := False # states p1\<rparr>"
      then obtain p1 where p1: "member_step fl ?q = Inr p1" "p' = p1\<lparr>states := False # states p1\<rparr>" by blast
      then have "pending p' = pending p1" by (simp add: pending_def)
      with member_step_pending(1) [OF p1(1)] get_token_le [of fl "sax start_object p"] show ?thesis by simp
    qed
    then show ?thesis by (simp add: BeginObject)
  qed (use v leaf in \<open>simp_all add: value_step_def final_token_def split: if_splits\<close>)
  with False show ?thesis by (simp add: pending_def)
qed

function parse_loop :: "'f float_ops \<Rightarrow> 'f parser \<Rightarrow> 'f parser res" where
  "parse_loop fl p =
     (case parse_step fl p of
        Inl e \<Rightarrow> Inl e
      | Inr (finished, p') \<Rightarrow> if finished then Inr p' else parse_loop fl p')"
  by pat_completeness auto
termination
proof (relation "measure (\<lambda>(fl, p). pending p)")
  fix fl p q finished p'
  assume "parse_step fl p = Inr q" "(finished, p') = q" "\<not> finished"
  then have "parse_step fl p = Inr (False, p')" by auto
  from parse_step_pending [OF this] show "((fl, p'), fl, p) \<in> measure (\<lambda>(fl, p). pending p)" by simp
qed simp

declare parse_loop.simps [simp del]

text \<open>
  \<open>basic_json::parse\<close>: the constructor of the parser reads the first token; after the value
  (strict mode) only the end of the input may follow.
\<close>

definition parser_init :: "'f float_ops \<Rightarrow> string \<Rightarrow> 'f parser" where
  "parser_init fl s =
     (let (tok, r) = first_scan fl s
      in \<lparr>last_token = tok, input = r, states = [], skip_eval = False,
          sdp = \<lparr>dom_root = JNull, ref_stack = []\<rparr>\<rparr>)"

definition parse :: "'f float_ops \<Rightarrow> string \<Rightarrow> 'f json res" where
  "parse fl s =
     bind_res (parse_loop fl (parser_init fl s)) (\<lambda>p.
       let p = get_token fl p
       in if last_token p = EndOfInput then Inr (dom_root (sdp p)) else Inl (JsonError 101))"

section \<open>Objects as maps\<close>

lemma map_of_obj_set: "map_of (obj_set k v ms) = (map_of ms)(k \<mapsto> v)"
  by (induction ms) (auto simp: fun_eq_iff)

lemma set_keys_obj_set: "fst ` set (obj_set k v ms) = insert k (fst ` set ms)"
proof (induction ms)
  case (Cons kv ms)
  then show ?case by (cases kv) (simp add: insert_commute)
qed simp

lemma obj_set_sorted:
  "sorted_wrt (<) (map fst ms) \<Longrightarrow> sorted_wrt (<) (map fst (obj_set k v ms))"
proof (induction ms)
  case (Cons kv ms)
  obtain k' v' where kv: "kv = (k', v')" by fastforce
  show ?case
  proof (cases "k < k'")
    case True
    with Cons.prems show ?thesis by (auto simp: kv)
  next
    case False
    show ?thesis
    proof (cases "k = k'")
      case True
      with Cons.prems show ?thesis by (simp add: kv)
    next
      case ne: False
      with False have "k' < k" by auto
      moreover have "set (map fst (obj_set k v ms)) = insert k (set (map fst ms))"
        using set_keys_obj_set [of k v ms] by simp
      ultimately show ?thesis using Cons ne False by (auto simp: kv)
    qed
  qed
qed simp

lemma obj_set_twice: "obj_set k v' (obj_set k v ms) = obj_set k v' ms"
  by (induction ms) auto

lemma obj_set_touch: "obj_set k v (obj_touch k ms) = obj_set k v ms"
  by (simp add: obj_touch_def obj_set_twice)

lemma obj_set_last:
  "\<forall>k' \<in> fst ` set ms. k' < k \<Longrightarrow> obj_set k v ms = ms @ [(k, v)]"
  by (induction ms) auto

lemma fold_obj_set_sorted:
  "sorted_wrt (<) (map fst ms @ map fst es) \<Longrightarrow>
    fold (\<lambda>(k, t, v). obj_set k v) es ms = ms @ map (\<lambda>(k, t, v). (k, v)) es"
proof (induction es arbitrary: ms)
  case (Cons e es)
  obtain k t v where e: "e = (k, t, v)" by (metis prod_cases3)
  have "obj_set k v ms = ms @ [(k, v)]"
    using Cons.prems by (intro obj_set_last) (auto simp: e sorted_wrt_append)
  with Cons show ?case by (simp add: e)
qed simp

section \<open>Parsing what \<open>dump\<close> wrote\<close>

text \<open>
  The values the theorem covers: objects in the order of \<open>std::map\<close>, strings in UTF-8 (else
  \<open>dump\<close> fails), and floating-point numbers that \<open>to_chars\<close> writes as a JSON number with
  a fraction or an exponent, and \<open>strtod\<close> reads back.
\<close>

definition float_ok :: "'f float_ops \<Rightarrow> 'f \<Rightarrow> bool" where
  "float_ok fl x \<longleftrightarrow>
     (isfinite fl x \<longrightarrow> real_text (to_chars fl x) \<and> strtod fl (to_chars fl x) = x)"

fun floats_ok :: "'f float_ops \<Rightarrow> 'f json \<Rightarrow> bool" where
  "floats_ok fl (JFloat x) \<longleftrightarrow> float_ok fl x"
| "floats_ok fl (JArray xs) \<longleftrightarrow> (\<forall>x \<in> set xs. floats_ok fl x)"
| "floats_ok fl (JObject ms) \<longleftrightarrow> (\<forall>(k, v) \<in> set ms. floats_ok fl v)"
| "floats_ok fl _ \<longleftrightarrow> True"

fun keys_sorted :: "'f json \<Rightarrow> bool" where
  "keys_sorted (JArray xs) \<longleftrightarrow> (\<forall>x \<in> set xs. keys_sorted x)"
| "keys_sorted (JObject ms) \<longleftrightarrow> sorted_wrt (<) (map fst ms) \<and> (\<forall>(k, v) \<in> set ms. keys_sorted v)"
| "keys_sorted _ \<longleftrightarrow> True"

text \<open>
  What comes back: a signed integer that is not negative is read as an unsigned one, and a
  number that is not finite, written as \<open>null\<close>, as null. The library's \<open>operator==\<close>
  does not tell the integers apart.
\<close>

fun reread :: "'f float_ops \<Rightarrow> 'f json \<Rightarrow> 'f json" where
  "reread fl (JInteger x) = (if sint x < 0 then JInteger x else JUnsigned x)"
| "reread fl (JFloat x) = (if isfinite fl x then JFloat x else JNull)"
| "reread fl (JArray xs) = JArray (map (reread fl) xs)"
| "reread fl (JObject ms) = JObject (map (\<lambda>(k, v). (k, reread fl v)) ms)"
| "reread fl v = v"

definition at_value :: "'f float_ops \<Rightarrow> string \<Rightarrow> 'f parser \<Rightarrow> 'f parser" where
  "at_value fl s p = (let (tok, r) = scan fl s in p\<lparr>last_token := tok, input := r, skip_eval := False\<rparr>)"

definition value_done :: "'f token \<Rightarrow> string \<Rightarrow> 'f json \<Rightarrow> 'f parser \<Rightarrow> 'f parser" where
  "value_done tok s v p = p\<lparr>last_token := tok, input := s, skip_eval := True, sdp := handle_value v (sdp p)\<rparr>"

text \<open>
  The loop, started at the text of a value, reaches the evaluation of the states with the
  value handed to the builder and the rest of the input untouched.
\<close>

definition reads :: "'f float_ops \<Rightarrow> string \<Rightarrow> 'f json \<Rightarrow> bool" where
  "reads fl t v \<longleftrightarrow> (\<forall>p s. number_end s \<longrightarrow>
     (\<exists>tok. parse_loop fl (at_value fl (t @ s) p) = parse_loop fl (value_done tok s v p)))"

lemma parse_loop_cong: "parse_step fl p = parse_step fl q \<Longrightarrow> parse_loop fl p = parse_loop fl q"
  by (simp add: parse_loop.simps [of fl p] parse_loop.simps [of fl q])

lemma parse_loop_next: "parse_step fl p = Inr (False, q) \<Longrightarrow> parse_loop fl p = parse_loop fl q"
  by (simp add: parse_loop.simps [of fl p])

lemma leaf_reads:
  assumes "\<And>s. number_end s \<Longrightarrow> scan fl (t @ s) = (tok, s)"
    and "\<And>p. last_token p = tok \<Longrightarrow> value_step fl p = after_value fl (sax (handle_value v) p)"
  shows "reads fl t v"
  unfolding reads_def
proof (intro allI impI)
  fix p :: "'a parser" and s assume "number_end s"
  then have "at_value fl (t @ s) p = p\<lparr>last_token := tok, input := s, skip_eval := False\<rparr>"
    by (simp add: at_value_def assms(1))
  then have "parse_step fl (at_value fl (t @ s) p) = parse_step fl (value_done tok s v p)"
    using assms(2) [of "at_value fl (t @ s) p"]
    by (cases p) (simp add: parse_step_def value_done_def sax_def)
  then show "\<exists>tok. parse_loop fl (at_value fl (t @ s) p) = parse_loop fl (value_done tok s v p)"
    by (intro exI [of _ tok] parse_loop_cong)
qed

lemma reads_string:
  assumes "utf8 s" shows "reads fl (quoted l s) (JString s)"
  by (rule leaf_reads [where tok = "ValueString s"])
    (simp_all add: quoted_def scan_string_escaped [OF assms] value_step_def)

lemma reads_literals: "reads fl ''true'' (JBool True)" "reads fl ''false'' (JBool False)" "reads fl ''null'' JNull"
  by (rule leaf_reads [where tok = LiteralTrue], simp_all only: scan_literals, simp add: value_step_def,
      rule leaf_reads [where tok = LiteralFalse], simp_all only: scan_literals, simp add: value_step_def,
      rule leaf_reads [where tok = LiteralNull], simp_all only: scan_literals, simp add: value_step_def)

lemma reads_unsigned: "reads fl (nat_to_string (unat x)) (JUnsigned x)"
  by (rule leaf_reads [where tok = "ValueUnsigned x"]) (simp_all add: scan_unsigned_text value_step_def)

lemma reads_integer: "sint x < 0 \<Longrightarrow> reads fl (int_to_string (sint x)) (JInteger x)"
  by (rule leaf_reads [where tok = "ValueInteger x"]) (simp_all add: scan_integer_text value_step_def)

lemma reads_float:
  "real_text t \<Longrightarrow> isfinite fl (strtod fl t) \<Longrightarrow> reads fl t (JFloat (strtod fl t))"
  by (rule leaf_reads [where tok = "ValueFloat (strtod fl t)"]) (simp_all add: scan_real_text value_step_def)

text \<open>Filling a container that was just entered into its parent gives the parent the container.\<close>

lemma end_container_frame:
  "end_container (handle_value (frame_value e) d\<lparr>ref_stack := f # ref_stack (handle_value (frame_value e) d)\<rparr>)
    = handle_value (frame_value f) d"
  by (auto simp: end_container_def handle_value_def obj_set_twice split: list.splits frame.splits)

lemma number_end_simps [simp]:
  "number_end []" "number_end (CHR '','' # s)" "number_end (CHR '']'' # s)" "number_end (CHR ''}'' # s)"
  by (simp_all add: number_end_def is_digit_def)

lemma number_end_ws: "is_ws c \<Longrightarrow> number_end (c # s)"
  by (auto simp: number_end_def is_digit_def is_ws_def)

lemma number_end_append: "\<forall>c \<in> set w. is_ws c \<Longrightarrow> number_end s \<Longrightarrow> number_end (w @ s)"
  by (cases w) (simp_all add: number_end_ws)

lemma at_value_ws: "\<forall>c \<in> set w. is_ws c \<Longrightarrow> at_value fl (w @ s) p = at_value fl s p"
  by (simp add: at_value_def scan_ws)

text \<open>One element more, or the end of the array.\<close>

lemma array_more:
  assumes "states p = True # sts" and "\<forall>c \<in> set w. is_ws c"
  shows "parse_loop fl (value_done tok (CHR '','' # w @ s) v p) =
    parse_loop fl (at_value fl s (sax (handle_value v) p))"
proof (rule parse_loop_next)
  show "parse_step fl (value_done tok (CHR '','' # w @ s) v p) =
      Inr (False, at_value fl s (sax (handle_value v) p))"
    using assms by (cases p) (simp add: parse_step_def value_done_def after_value_def get_token_def
        at_value_def sax_def scan_ws split: prod.split)
qed

lemma array_end:
  assumes "states p = True # sts" and "\<forall>c \<in> set w. is_ws c"
  shows "parse_loop fl (value_done tok (w @ CHR '']'' # s) v p) =
    parse_loop fl (p\<lparr>last_token := EndArray, input := s, states := sts, skip_eval := True,
      sdp := end_container (handle_value v (sdp p))\<rparr>)"
proof (rule parse_loop_next)
  show "parse_step fl (value_done tok (w @ CHR '']'' # s) v p) =
      Inr (False, p\<lparr>last_token := EndArray, input := s, states := sts, skip_eval := True,
        sdp := end_container (handle_value v (sdp p))\<rparr>)"
    using assms by (cases p) (simp add: parse_step_def value_done_def after_value_def get_token_def
        sax_def scan_ws)
qed

lemma array_elements:
  assumes "\<And>t v. (t, v) \<in> set (zip ts vs) \<Longrightarrow> reads fl t v" and "length ts = length vs" and "ts \<noteq> []"
    and "\<forall>c \<in> set w. is_ws c" and "\<forall>c \<in> set w'. is_ws c"
    and "states p = True # sts" and "ref_stack (sdp p) = ArrayFrame xs # fs"
  shows "\<exists>tok. parse_loop fl (at_value fl (sep_by ('','' @ w) ts @ w' @ CHR '']'' # s) p) =
    parse_loop fl (p\<lparr>last_token := tok, input := s, states := sts, skip_eval := True,
      sdp := end_container (sdp p\<lparr>ref_stack := ArrayFrame (xs @ vs) # fs\<rparr>)\<rparr>)"
  using assms(1-3,6,7)
proof (induction ts arbitrary: vs xs p)
  case (Cons t ts)
  obtain v vs' where vs: "vs = v # vs'" using Cons.prems(2) by (cases vs) auto
  have rv: "reads fl t v" using Cons.prems(1) [of t v] by (simp add: vs)
  show ?case
  proof (cases "ts = []")
    case True
    then have [simp]: "vs' = []" using Cons.prems(2) vs by simp
    have "number_end (w' @ CHR '']'' # s)" using number_end_append assms(5) by simp
    with rv obtain tok where "parse_loop fl (at_value fl (t @ w' @ CHR '']'' # s) p) =
        parse_loop fl (value_done tok (w' @ CHR '']'' # s) v p)" unfolding reads_def by blast
    with array_end [OF Cons.prems(4) assms(5), of fl tok s v] Cons.prems(5) show ?thesis
      by (intro exI [of _ EndArray]) (simp add: True vs handle_value_def)
  next
    case False
    let ?rest = "sep_by ('','' @ w) ts @ w' @ CHR '']'' # s"
    have tx: "sep_by ('','' @ w) (t # ts) @ w' @ CHR '']'' # s = t @ CHR '','' # w @ ?rest"
      using False by (simp add: sep_by_Cons)
    from rv obtain tok where 1: "parse_loop fl (at_value fl (t @ CHR '','' # w @ ?rest) p) =
        parse_loop fl (value_done tok (CHR '','' # w @ ?rest) v p)" unfolding reads_def by fastforce
    let ?p = "sax (handle_value v) p"
    have "ref_stack (sdp ?p) = ArrayFrame (xs @ [v]) # fs"
      using Cons.prems(5) by (simp add: handle_value_def)
    from Cons.IH [OF _ _ False _ this, of vs'] Cons.prems(1,2,4) vs obtain tok' where
      "parse_loop fl (at_value fl ?rest ?p) = parse_loop fl (?p\<lparr>last_token := tok', input := s,
         states := sts, skip_eval := True,
         sdp := end_container (sdp ?p\<lparr>ref_stack := ArrayFrame ((xs @ [v]) @ vs') # fs\<rparr>)\<rparr>)"
      by auto
    with 1 array_more [OF Cons.prems(4) assms(4), of fl tok ?rest v] Cons.prems(5) tx show ?thesis
      by (intro exI [of _ tok']) (cases p, simp add: vs sax_def handle_value_def)
  qed
qed simp

text \<open>The same for the members of an object; a member starts with its key.\<close>

lemma member_step_text:
  assumes "last_token p = ValueString k" and "input p = CHR '':'' # wc @ s"
    and "\<forall>c \<in> set wc. is_ws c" and "\<not> skip_eval p"
  shows "member_step fl p = Inr (at_value fl s (sax (sax_key k) p))"
  using assms by (cases p) (simp add: member_step_def get_token_def at_value_def sax_def scan_ws
      split: prod.split)

lemma scan_quoted: "utf8 k \<Longrightarrow> scan fl (quoted l k @ s) = (ValueString k, s)"
  by (simp add: quoted_def scan_string_escaped)

lemma object_more:
  assumes "states p = False # sts" and "\<forall>c \<in> set w. is_ws c" and "\<forall>c \<in> set wc. is_ws c" and "utf8 k"
  shows "parse_loop fl (value_done tok (CHR '','' # w @ quoted l k @ CHR '':'' # wc @ s) v p) =
    parse_loop fl (at_value fl s (sax (sax_key k) (sax (handle_value v) p)))"
proof (rule parse_loop_next)
  let ?p = "p\<lparr>last_token := ValueSeparator,
    input := w @ quoted l k @ CHR '':'' # wc @ s, skip_eval := False, sdp := handle_value v (sdp p)\<rparr>"
  let ?q = "get_token fl ?p"
  have q: "?q = ?p\<lparr>last_token := ValueString k, input := CHR '':'' # wc @ s\<rparr>"
    using assms(2,4) by (simp add: get_token_def scan_ws scan_quoted)
  have "member_step fl ?q = Inr (at_value fl s (sax (sax_key k) ?q))"
    by (rule member_step_text) (use assms(3) in \<open>simp_all add: q\<close>)
  moreover have "at_value fl s (sax (sax_key k) ?q) = at_value fl s (sax (sax_key k) (sax (handle_value v) p))"
    by (cases p) (simp add: q at_value_def sax_def split: prod.split)
  ultimately show "parse_step fl (value_done tok (CHR '','' # w @ quoted l k @ CHR '':'' # wc @ s) v p) =
      Inr (False, at_value fl s (sax (sax_key k) (sax (handle_value v) p)))"
    using assms(1) by (cases p) (simp add: parse_step_def value_done_def after_value_def get_token_def)
qed

lemma object_end:
  assumes "states p = False # sts" and "\<forall>c \<in> set w. is_ws c"
  shows "parse_loop fl (value_done tok (w @ CHR ''}'' # s) v p) =
    parse_loop fl (p\<lparr>last_token := EndObject, input := s, states := sts, skip_eval := True,
      sdp := end_container (handle_value v (sdp p))\<rparr>)"
proof (rule parse_loop_next)
  show "parse_step fl (value_done tok (w @ CHR ''}'' # s) v p) =
      Inr (False, p\<lparr>last_token := EndObject, input := s, states := sts, skip_eval := True,
        sdp := end_container (handle_value v (sdp p))\<rparr>)"
    using assms by (cases p) (simp add: parse_step_def value_done_def after_value_def get_token_def
        sax_def scan_ws)
qed

lemma object_members:
  assumes "\<And>k t v. (k, t, v) \<in> set ((k0, t0, v0) # es) \<Longrightarrow> utf8 k \<and> reads fl t v"
    and "\<forall>c \<in> set w. is_ws c" and "\<forall>c \<in> set wc. is_ws c" and "\<forall>c \<in> set w'. is_ws c"
    and "states p = False # sts" and "ref_stack (sdp p) = ObjectFrame (obj_touch k0 ms) k0 # fs"
  shows "\<exists>tok. parse_loop fl (at_value fl
      (t0 @ concat (map (\<lambda>(k, t, v). '','' @ w @ quoted l k @ '':'' @ wc @ t) es) @ w' @ CHR ''}'' # s) p) =
    parse_loop fl (p\<lparr>last_token := tok, input := s, states := sts, skip_eval := True,
      sdp := end_container (sdp p\<lparr>ref_stack :=
        ObjectFrame (fold (\<lambda>(k, t, v). obj_set k v) ((k0, t0, v0) # es) ms) (last (k0 # map fst es)) # fs\<rparr>)\<rparr>)"
  using assms(1,5,6)
proof (induction es arbitrary: k0 t0 v0 ms p)
  case Nil
  have "reads fl t0 v0" using Nil.prems(1) by auto
  moreover have "number_end (w' @ CHR ''}'' # s)" using number_end_append assms(4) by simp
  ultimately obtain tok where "parse_loop fl (at_value fl (t0 @ w' @ CHR ''}'' # s) p) =
      parse_loop fl (value_done tok (w' @ CHR ''}'' # s) v0 p)" unfolding reads_def by blast
  then show ?case
    using object_end [OF Nil.prems(2) assms(4), of fl tok s v0] Nil.prems(3)
    by (intro exI [of _ EndObject]) (simp add: handle_value_def obj_set_touch)
next
  case (Cons e es)
  obtain k t v where e: "e = (k, t, v)" by (metis prod_cases3)
  have k: "utf8 k" "reads fl t0 v0" using Cons.prems(1) by (auto simp: e)
  let ?rest = "t @ concat (map (\<lambda>(k, t, v). '','' @ w @ quoted l k @ '':'' @ wc @ t) es) @ w' @ CHR ''}'' # s"
  from k(2) obtain tok where 1: "parse_loop fl (at_value fl (t0 @ CHR '','' # w @ quoted l k @ CHR '':'' # wc @ ?rest) p) =
      parse_loop fl (value_done tok (CHR '','' # w @ quoted l k @ CHR '':'' # wc @ ?rest) v0 p)"
    unfolding reads_def by fastforce
  let ?p = "sax (sax_key k) (sax (handle_value v0) p)"
  have st: "sdp ?p = sdp p\<lparr>ref_stack := ObjectFrame (obj_touch k (obj_set k0 v0 ms)) k # fs\<rparr>"
    using Cons.prems(3) by (simp add: handle_value_def sax_key_def obj_set_touch)
  have "\<exists>tok. parse_loop fl (at_value fl ?rest ?p) = parse_loop fl (?p\<lparr>last_token := tok, input := s,
      states := sts, skip_eval := True, sdp := end_container (sdp ?p\<lparr>ref_stack :=
        ObjectFrame (fold (\<lambda>(k, t, v). obj_set k v) ((k, t, v) # es) (obj_set k0 v0 ms)) (last (k # map fst es)) # fs\<rparr>)\<rparr>)"
  proof (rule Cons.IH)
    show "utf8 k' \<and> reads fl t' v'" if "(k', t', v') \<in> set ((k, t, v) # es)" for k' t' v'
      using Cons.prems(1) [of k' t' v'] that by (auto simp: e)
    show "states ?p = False # sts" using Cons.prems(2) by simp
    show "ref_stack (sdp ?p) = ObjectFrame (obj_touch k (obj_set k0 v0 ms)) k # fs" by (simp only: st) simp
  qed
  then obtain tok' where 2: "parse_loop fl (at_value fl ?rest ?p) = parse_loop fl (?p\<lparr>last_token := tok', input := s,
      states := sts, skip_eval := True, sdp := end_container (sdp ?p\<lparr>ref_stack :=
        ObjectFrame (fold (\<lambda>(k, t, v). obj_set k v) ((k, t, v) # es) (obj_set k0 v0 ms)) (last (k # map fst es)) # fs\<rparr>)\<rparr>)"
    by blast
  have fin: "?p\<lparr>last_token := tok', input := s, states := sts, skip_eval := True, sdp := end_container (sdp ?p\<lparr>ref_stack :=
        ObjectFrame (fold (\<lambda>(k, t, v). obj_set k v) ((k, t, v) # es) (obj_set k0 v0 ms)) (last (k # map fst es)) # fs\<rparr>)\<rparr> =
      p\<lparr>last_token := tok', input := s, states := sts, skip_eval := True, sdp := end_container (sdp p\<lparr>ref_stack :=
        ObjectFrame (fold (\<lambda>(k, t, v). obj_set k v) ((k0, t0, v0) # e # es) ms) (last (k0 # map fst (e # es))) # fs\<rparr>)\<rparr>"
    unfolding st by (cases p) (simp add: e sax_def)
  show ?case
    using 1 2 object_more [OF Cons.prems(2) assms(2,3) k(1), of fl tok l ?rest v0] fin
    by (intro exI [of _ tok']) (simp add: e)
qed

lemma sep_by_prefix:
  "ts \<noteq> [] \<Longrightarrow> sep_by d (map ((@) m) ts) = m @ sep_by (d @ m) ts"
  by (induction ts rule: induct_list012) simp_all

lemma reads_opens:
  assumes "reads fl t v" and "number_end s"
  shows "fst (scan fl (t @ s)) \<noteq> EndArray" and "fst (scan fl (t @ s)) \<noteq> EndObject"
proof -
  define p :: "'a parser" where "p = \<lparr>last_token = EndOfInput, input = [], states = [], skip_eval = False,
    sdp = \<lparr>dom_root = JNull, ref_stack = []\<rparr>\<rparr>"
  obtain tok where e: "parse_loop fl (at_value fl (t @ s) p) = parse_loop fl (value_done tok s v p)"
    using assms unfolding reads_def by blast
  have ok: "\<exists>q. parse_loop fl (value_done tok s v p) = Inr q"
    by (subst parse_loop.simps) (simp add: parse_step_def value_done_def after_value_def p_def)
  have "parse_loop fl (at_value fl (t @ s) p) = Inl (JsonError 101)"
    if "fst (scan fl (t @ s)) = EndArray \<or> fst (scan fl (t @ s)) = EndObject"
    using that by (subst parse_loop.simps)
      (auto simp: parse_step_def value_step_def at_value_def split: prod.splits)
  with e ok show "fst (scan fl (t @ s)) \<noteq> EndArray" and "fst (scan fl (t @ s)) \<noteq> EndObject" by auto
qed

lemma reads_empty:
  "reads fl ''[]'' (JArray [])" "reads fl ''{}'' (JObject [])"
proof -
  have "reads fl (op @ cl) (frame_value f)"
    if "\<And>s. scan fl (op @ cl @ s) = (tok, cl @ s)" "\<And>s. scan fl (cl @ s) = (tok', s)"
      and "\<And>p. last_token p = tok \<Longrightarrow> value_step fl p =
        (let p = get_token fl (sax (\<lambda>d. let d = handle_value (frame_value f) d in d\<lparr>ref_stack := f # ref_stack d\<rparr>) p)
         in if last_token p = tok' then after_value fl (sax end_container p) else e p)"
    for op cl f tok tok' e
    unfolding reads_def
  proof (intro allI impI)
    fix p :: "'a parser" and s
    have "parse_step fl (at_value fl ((op @ cl) @ s) p) = parse_step fl (value_done tok' s (frame_value f) p)"
      using that(3) [of "at_value fl ((op @ cl) @ s) p"] end_container_frame [where e = f and d = "sdp p" and f = f]
      by (cases p) (simp add: parse_step_def at_value_def that(1,2) get_token_def sax_def value_done_def Let_def)
    then show "\<exists>tok. parse_loop fl (at_value fl ((op @ cl) @ s) p) = parse_loop fl (value_done tok s (frame_value f) p)"
      by (intro exI [of _ tok'] parse_loop_cong)
  qed
  note empty = this
  show "reads fl ''[]'' (JArray [])"
    using empty [of "''[''" "'']''" BeginArray EndArray "ArrayFrame []"
        "\<lambda>p. Inr (False, p\<lparr>states := True # states p\<rparr>)"]
    by (simp add: value_step_def start_array_def [abs_def] frame_value_def)
  show "reads fl ''{}'' (JObject [])"
    using empty [of "''{''" "''}''" BeginObject EndObject "ObjectFrame [] []"
        "\<lambda>p. map_sum id (\<lambda>p. (False, p\<lparr>states := False # states p\<rparr>)) (member_step fl p)"]
    by (simp add: value_step_def start_object_def [abs_def] frame_value_def)
qed

lemma reads_array:
  assumes "\<And>t v. (t, v) \<in> set (zip ts vs) \<Longrightarrow> reads fl t v" and "length ts = length vs" and "ts \<noteq> []"
    and ws: "\<forall>c \<in> set w. is_ws c" "\<forall>c \<in> set w'. is_ws c"
  shows "reads fl (''['' @ w @ sep_by ('','' @ w) ts @ w' @ '']'') (JArray vs)"
  unfolding reads_def
proof (intro allI impI)
  fix p :: "'a parser" and s
  let ?rest = "sep_by ('','' @ w) ts @ w' @ CHR '']'' # s"
  let ?p = "(sax start_array p)\<lparr>states := True # states p\<rparr>"
  obtain t ts' v vs' where tv: "ts = t # ts'" "vs = v # vs'"
    using assms(2,3) by (cases ts; cases vs) auto
  then have "reads fl t v" using assms(1) by simp
  have "fst (scan fl ?rest) \<noteq> EndArray"
  proof (cases "ts' = []")
    case True
    have "number_end (w' @ CHR '']'' # s)" using number_end_append ws(2) by simp
    from reads_opens(1) [OF \<open>reads fl t v\<close> this] True show ?thesis by (simp add: tv)
  next
    case False
    then obtain r where r: "?rest = t @ CHR '','' # r" by (simp add: tv sep_by_Cons)
    show ?thesis unfolding r by (rule reads_opens(1) [OF \<open>reads fl t v\<close>]) simp
  qed
  then have "parse_step fl (at_value fl ((''['' @ w @ sep_by ('','' @ w) ts @ w' @ '']'') @ s) p) =
      Inr (False, at_value fl ?rest ?p)"
    using ws(1) by (cases p) (auto simp: parse_step_def at_value_def value_step_def get_token_def
        scan_ws sax_def split: prod.splits)
  then have 1: "parse_loop fl (at_value fl ((''['' @ w @ sep_by ('','' @ w) ts @ w' @ '']'') @ s) p) =
      parse_loop fl (at_value fl ?rest ?p)" by (rule parse_loop_next)
  let ?d = "handle_value (JArray []) (sdp p)"
  have st: "sdp ?p = ?d\<lparr>ref_stack := ArrayFrame [] # ref_stack ?d\<rparr>"
    by (simp add: start_array_def Let_def)
  then have "states ?p = True # states p" "ref_stack (sdp ?p) = ArrayFrame [] # ref_stack ?d" by simp_all
  from array_elements [OF assms(1-3) ws this, of s] obtain tok where
    2: "parse_loop fl (at_value fl ?rest ?p) = parse_loop fl (?p\<lparr>last_token := tok, input := s,
      states := states p, skip_eval := True,
      sdp := end_container (sdp ?p\<lparr>ref_stack := ArrayFrame ([] @ vs) # ref_stack ?d\<rparr>)\<rparr>)"
    by blast
  have "end_container (?d\<lparr>ref_stack := ArrayFrame vs # ref_stack ?d\<rparr>) = handle_value (JArray vs) (sdp p)"
    using end_container_frame [where e = "ArrayFrame []" and d = "sdp p" and f = "ArrayFrame vs"] by (simp add: frame_value_def)
  then have "?p\<lparr>last_token := tok, input := s, states := states p, skip_eval := True,
      sdp := end_container (sdp ?p\<lparr>ref_stack := ArrayFrame ([] @ vs) # ref_stack ?d\<rparr>)\<rparr> =
      value_done tok s (JArray vs) p"
    unfolding st by (cases p) (simp add: value_done_def sax_def)
  with 1 2 show "\<exists>tok. parse_loop fl (at_value fl ((''['' @ w @ sep_by ('','' @ w) ts @ w' @ '']'') @ s) p) =
      parse_loop fl (value_done tok s (JArray vs) p)"
    by (intro exI [of _ tok]) simp
qed

lemma reads_object:
  assumes "\<And>k t v. (k, t, v) \<in> set es \<Longrightarrow> utf8 k \<and> reads fl t v" and "es \<noteq> []"
    and ws: "\<forall>c \<in> set w. is_ws c" "\<forall>c \<in> set wc. is_ws c" "\<forall>c \<in> set w'. is_ws c"
  shows "reads fl (''{'' @ w @ sep_by ('','' @ w) (map (\<lambda>(k, t, v). quoted l k @ '':'' @ wc @ t) es) @ w' @ ''}'')
    (JObject (fold (\<lambda>(k, t, v). obj_set k v) es []))"
  unfolding reads_def
proof (intro allI impI)
  fix p :: "'a parser" and s
  obtain k0 t0 v0 es' where es: "es = (k0, t0, v0) # es'"
    using assms(2) by (metis neq_Nil_conv prod_cases3)
  have k0: "utf8 k0" using assms(1) by (auto simp: es)
  let ?all = "''{'' @ w @ sep_by ('','' @ w) (map (\<lambda>(k, t, v). quoted l k @ '':'' @ wc @ t) es) @ w' @ ''}''"
  let ?rest = "t0 @ concat (map (\<lambda>(k, t, v). '','' @ w @ quoted l k @ '':'' @ wc @ t) es') @ w' @ CHR ''}'' # s"
  let ?q = "(sax start_object p)\<lparr>last_token := ValueString k0, input := CHR '':'' # wc @ ?rest, skip_eval := False\<rparr>"
  let ?p = "(sax (sax_key k0) (sax start_object p))\<lparr>states := False # states p\<rparr>"
  have split_all: "?all @ s = CHR ''{'' # w @ quoted l k0 @ CHR '':'' # wc @ ?rest"
    by (simp add: es sep_by_concat comp_def split_def)
  have m: "member_step fl ?q = Inr (at_value fl ?rest (sax (sax_key k0) ?q))"
    by (rule member_step_text) (use ws(2) in simp_all)
  have "parse_step fl (at_value fl (?all @ s) p) =
      map_sum id (\<lambda>p. (False, p\<lparr>states := False # states p\<rparr>)) (member_step fl ?q)"
    unfolding split_all using ws(1) k0
    by (cases p) (simp add: parse_step_def at_value_def value_step_def get_token_def scan_ws scan_quoted
        sax_def)
  also have "\<dots> = Inr (False, at_value fl ?rest ?p)"
    unfolding m by (cases p) (simp add: at_value_def sax_def split: prod.split)
  finally have 1: "parse_loop fl (at_value fl (?all @ s) p) = parse_loop fl (at_value fl ?rest ?p)"
    by (rule parse_loop_next)
  let ?d = "handle_value (JObject []) (sdp p)"
  have st: "sdp ?p = ?d\<lparr>ref_stack := ObjectFrame (obj_touch k0 []) k0 # ref_stack ?d\<rparr>"
    by (simp add: start_object_def sax_key_def Let_def)
  have "\<exists>tok. parse_loop fl (at_value fl ?rest ?p) = parse_loop fl (?p\<lparr>last_token := tok, input := s,
      states := states p, skip_eval := True, sdp := end_container (sdp ?p\<lparr>ref_stack :=
        ObjectFrame (fold (\<lambda>(k, t, v). obj_set k v) ((k0, t0, v0) # es') []) (last (k0 # map fst es')) # ref_stack ?d\<rparr>)\<rparr>)"
  proof (rule object_members [where ms = "[]"])
    show "utf8 k \<and> reads fl t v" if "(k, t, v) \<in> set ((k0, t0, v0) # es')" for k t v
      using assms(1) that by (simp add: es)
    show "states ?p = False # states p" by simp
    show "ref_stack (sdp ?p) = ObjectFrame (obj_touch k0 []) k0 # ref_stack ?d" by (simp only: st) simp
  qed (use ws in simp_all)
  then obtain tok where 2: "parse_loop fl (at_value fl ?rest ?p) = parse_loop fl (?p\<lparr>last_token := tok, input := s,
      states := states p, skip_eval := True, sdp := end_container (sdp ?p\<lparr>ref_stack :=
        ObjectFrame (fold (\<lambda>(k, t, v). obj_set k v) ((k0, t0, v0) # es') []) (last (k0 # map fst es')) # ref_stack ?d\<rparr>)\<rparr>)"
    by blast
  let ?f = "ObjectFrame (fold (\<lambda>(k, t, v). obj_set k v) es []) (last (k0 # map fst es'))"
  have "end_container (?d\<lparr>ref_stack := ?f # ref_stack ?d\<rparr>) =
      handle_value (JObject (fold (\<lambda>(k, t, v). obj_set k v) es [])) (sdp p)"
    using end_container_frame [where e = "ObjectFrame [] []" and d = "sdp p" and f = ?f]
    by (simp add: frame_value_def)
  then have "?p\<lparr>last_token := tok, input := s,
      states := states p, skip_eval := True, sdp := end_container (sdp ?p\<lparr>ref_stack :=
        ObjectFrame (fold (\<lambda>(k, t, v). obj_set k v) ((k0, t0, v0) # es') []) (last (k0 # map fst es')) # ref_stack ?d\<rparr>)\<rparr> =
      value_done tok s (JObject (fold (\<lambda>(k, t, v). obj_set k v) es [])) p"
    unfolding st by (cases p) (simp add: value_done_def sax_def es)
  with 1 2 show "\<exists>tok. parse_loop fl (at_value fl (?all @ s) p) =
      parse_loop fl (value_done tok s (JObject (fold (\<lambda>(k, t, v). obj_set k v) es [])) p)"
    by (intro exI [of _ tok]) simp
qed

lemma ws_indent:
  assumes "lay_pretty l \<longrightarrow> is_ws (lay_char l)"
  shows "\<forall>c \<in> set (new_line l). is_ws c" and "\<forall>c \<in> set (margin l n). is_ws c"
  using assms by (auto simp: new_line_def margin_def indent_text_def is_ws_def)

lemma bracketed_text:
  "ts \<noteq> [] \<Longrightarrow> bracketed l op cl cur ts =
    op @ (new_line l @ margin l (deeper l cur)) @
      sep_by ('','' @ new_line l @ margin l (deeper l cur)) ts @ (new_line l @ margin l cur) @ cl"
  by (simp add: bracketed_def sep_by_prefix)

lemma reads_json_text:
  assumes l: "lay_pretty l \<longrightarrow> is_ws (lay_char l)"
  shows "strings_utf8 v \<Longrightarrow> keys_sorted v \<Longrightarrow> floats_ok fl v \<Longrightarrow>
    reads fl (json_text fl l cur v) (reread fl v)"
proof (induction v arbitrary: cur)
  case (JInteger x)
  show ?case
  proof (cases "sint x < 0")
    case False
    then have "int_to_string (sint x) = nat_to_string (unat x)"
      by (simp add: int_to_string_def unat_nonneg)
    with False reads_unsigned show ?thesis by simp
  qed (simp add: reads_integer)
next
  case (JFloat x)
  show ?case
  proof (cases "isfinite fl x")
    case True
    with JFloat have "real_text (to_chars fl x)" "strtod fl (to_chars fl x) = x" by (simp_all add: float_ok_def)
    with True reads_float [of "to_chars fl x" fl] show ?thesis by (simp add: dump_float_def)
  qed (simp add: dump_float_def reads_literals)
next
  case (JArray xs)
  show ?case
  proof (cases "xs = []")
    case False
    let ?w = "new_line l @ margin l (deeper l cur)" and ?w' = "new_line l @ margin l cur"
    let ?ts = "map (json_text fl l (deeper l cur)) xs"
    have w: "\<forall>c \<in> set ?w. is_ws c" "\<forall>c \<in> set ?w'. is_ws c" using ws_indent [OF l] by auto
    have "reads fl (''['' @ ?w @ sep_by ('','' @ ?w) ?ts @ ?w' @ '']'') (JArray (map (reread fl) xs))"
    proof (rule reads_array [OF _ _ _ w])
      show "reads fl t v" if "(t, v) \<in> set (zip ?ts (map (reread fl) xs))" for t v
      proof -
        from that obtain i where "i < length xs" "t = json_text fl l (deeper l cur) (xs ! i)"
          "v = reread fl (xs ! i)" by (auto simp: set_zip)
        with JArray nth_mem [of i xs] show ?thesis by simp
      qed
    qed (use False in simp_all)
    with False show ?thesis by (simp add: bracketed_text)
  qed (simp add: bracketed_def reads_empty)
next
  case (JObject ms)
  show ?case
  proof (cases "ms = []")
    case False
    let ?w = "new_line l @ margin l (deeper l cur)" and ?w' = "new_line l @ margin l cur"
    let ?wc = "if lay_pretty l then '' '' else []"
    let ?es = "map (\<lambda>(k, v). (k, json_text fl l (deeper l cur) v, reread fl v)) ms"
    have w: "\<forall>c \<in> set ?w. is_ws c" "\<forall>c \<in> set ?wc. is_ws c" "\<forall>c \<in> set ?w'. is_ws c"
      using ws_indent [OF l] by (auto simp: is_ws_def)
    have "reads fl (''{'' @ ?w @ sep_by ('','' @ ?w) (map (\<lambda>(k, t, v). quoted l k @ '':'' @ ?wc @ t) ?es) @ ?w' @ ''}'')
        (JObject (fold (\<lambda>(k, t, v). obj_set k v) ?es []))"
    proof (rule reads_object [OF _ _ w])
      show "utf8 k \<and> reads fl t v" if "(k, t, v) \<in> set ?es" for k t v
      proof -
        from that obtain v' where v': "(k, v') \<in> set ms" "t = json_text fl l (deeper l cur) v'" "v = reread fl v'"
          by auto
        have "utf8 k" "strings_utf8 v'" "keys_sorted v'" "floats_ok fl v'" using JObject.prems v'(1) by auto
        moreover have "v' \<in> Basic_BNFs.snds (k, v')" by simp
        ultimately show ?thesis using JObject.IH v' by blast
      qed
    qed (use False in simp)
    moreover have "fold (\<lambda>(k, t, v). obj_set k v) ?es [] = map (\<lambda>(k, t, v). (k, v)) ?es"
      using fold_obj_set_sorted [of "[]" ?es] JObject.prems(2) by (simp add: comp_def split_def)
    moreover have "key_text l k = quoted l k @ CHR '':'' # ?wc" for k
      by (simp add: key_text_def)
    ultimately show ?thesis using False
      by (simp add: bracketed_text comp_def split_def)
  qed (simp add: bracketed_def reads_empty)
qed (simp_all add: reads_literals reads_string reads_unsigned)

text \<open>
  Round trip: \<open>parse\<close> reads what \<open>dump\<close> wrote, compact or indented by white space, with or
  without \<open>ensure_ascii\<close>.
\<close>

lemma first_scan_json_text:
  assumes "t \<noteq> []" and "hd t \<noteq> CHR 0xEF"
  shows "first_scan fl t = scan fl t"
  using assms by (simp add: first_scan_def skip_bom_def)

lemma hd_nat_to_string_ascii: "hd (nat_to_string n) \<noteq> CHR 0xEF"
  using hd_nat_to_string [of n] by (auto simp: is_digit_def)

lemma json_text_first: "floats_ok fl v \<Longrightarrow> json_text fl l cur v \<noteq> [] \<and> hd (json_text fl l cur v) \<noteq> CHR 0xEF"
proof (cases v)
  case (JFloat x)
  assume "floats_ok fl v"
  with JFloat have "isfinite fl x \<Longrightarrow> real_text (to_chars fl x)" by (simp add: float_ok_def)
  with real_text_first [of "to_chars fl x"] show ?thesis
    by (cases "isfinite fl x") (auto simp: JFloat dump_float_def is_digit_def)
qed (auto simp: bracketed_def quoted_def hd_nat_to_string_ascii int_to_string_def)

lemma parse_json_text:
  assumes "lay_pretty l \<longrightarrow> is_ws (lay_char l)" and "strings_utf8 v" and "keys_sorted v" and "floats_ok fl v"
  shows "parse fl (json_text fl l cur v) = Inr (reread fl v)"
proof -
  let ?t = "json_text fl l cur v"
  define p :: "'a parser" where "p = \<lparr>last_token = EndOfInput, input = [], states = [], skip_eval = False,
    sdp = \<lparr>dom_root = JNull, ref_stack = []\<rparr>\<rparr>"
  have "parser_init fl ?t = at_value fl (?t @ []) p"
    using first_scan_json_text [of ?t fl] json_text_first [OF assms(4)]
    by (simp add: parser_init_def at_value_def p_def split: prod.split)
  moreover from reads_json_text [OF assms, of cur] obtain tok where
    "parse_loop fl (at_value fl (?t @ []) p) = parse_loop fl (value_done tok [] (reread fl v) p)"
    unfolding reads_def using number_end_simps(1) by blast
  moreover have "parse_loop fl (value_done tok [] (reread fl v) p) =
      Inr (p\<lparr>last_token := tok, input := [], sdp := \<lparr>dom_root = reread fl v, ref_stack = []\<rparr>\<rparr>)"
    by (subst parse_loop.simps) (simp add: parse_step_def value_done_def after_value_def p_def handle_value_def)
  ultimately show ?thesis by (simp add: parse_def get_token_def p_def)
qed

section \<open>What the parser returns\<close>

text \<open>Every value under construction has sorted objects and UTF-8 strings.\<close>

definition value_ok :: "'f json \<Rightarrow> bool" where
  "value_ok v \<longleftrightarrow> strings_utf8 v \<and> keys_sorted v"

definition members_ok :: "(string \<times> 'f json) list \<Rightarrow> bool" where
  "members_ok ms \<longleftrightarrow> sorted_wrt (<) (map fst ms) \<and> (\<forall>(k, v) \<in> set ms. utf8 k \<and> value_ok v)"

fun frame_ok :: "'f frame \<Rightarrow> bool" where
  "frame_ok (ArrayFrame xs) \<longleftrightarrow> (\<forall>x \<in> set xs. value_ok x)"
| "frame_ok (ObjectFrame ms k) \<longleftrightarrow> members_ok ms \<and> utf8 k"

definition dom_ok :: "'f dom \<Rightarrow> bool" where
  "dom_ok d \<longleftrightarrow> value_ok (dom_root d) \<and> (\<forall>f \<in> set (ref_stack d). frame_ok f)"

definition parser_ok :: "'f parser \<Rightarrow> bool" where
  "parser_ok p \<longleftrightarrow> dom_ok (sdp p) \<and> (\<forall>s. last_token p = ValueString s \<longrightarrow> utf8 s)"

lemma value_ok_simps [simp]:
  "value_ok JNull" "value_ok (JBool b)" "value_ok (JInteger x)" "value_ok (JUnsigned y)"
  "value_ok (JFloat z)" "value_ok (JString s) \<longleftrightarrow> utf8 s" "value_ok (JArray [])" "value_ok (JObject [])"
  by (simp_all add: value_ok_def)

lemma members_ok_Nil [simp]: "members_ok []"
  by (simp add: members_ok_def)

lemma value_ok_frame: "frame_ok f \<Longrightarrow> value_ok (frame_value f)"
  by (cases f) (auto simp: frame_value_def value_ok_def members_ok_def)

lemma set_obj_set: "set (obj_set k v ms) \<subseteq> insert (k, v) (set ms)"
  by (induction ms) (auto split: if_splits)

lemma members_ok_set:
  assumes "members_ok ms" and "utf8 k" and "value_ok v"
  shows "members_ok (obj_set k v ms)"
proof -
  have "\<forall>kv \<in> set (obj_set k v ms). kv = (k, v) \<or> kv \<in> set ms" using set_obj_set by fastforce
  with assms obj_set_sorted [of ms k v] show ?thesis by (fastforce simp: members_ok_def)
qed

lemma members_ok_touch: "members_ok ms \<Longrightarrow> utf8 k \<Longrightarrow> members_ok (obj_touch k ms)"
  by (simp add: obj_touch_def members_ok_set)

lemma handle_value_ok:
  assumes "dom_ok d" and "value_ok v"
  shows "dom_ok (handle_value v d)"
proof (cases "ref_stack d")
  case (Cons f fs)
  then show ?thesis
    using assms by (cases f) (auto simp: dom_ok_def handle_value_def members_ok_set)
qed (use assms in \<open>simp add: dom_ok_def handle_value_def\<close>)

lemma start_ok:
  "dom_ok d \<Longrightarrow> dom_ok (start_array d)" "dom_ok d \<Longrightarrow> dom_ok (start_object d)"
  using handle_value_ok [of d "JArray []"] handle_value_ok [of d "JObject []"]
  by (simp_all add: start_array_def start_object_def Let_def dom_ok_def)

lemma sax_key_ok: "dom_ok d \<Longrightarrow> utf8 k \<Longrightarrow> dom_ok (sax_key k d)"
  by (auto simp: sax_key_def dom_ok_def members_ok_touch split: list.splits frame.splits)

lemma end_container_ok:
  assumes "dom_ok d"
  shows "dom_ok (end_container d)"
proof (cases "ref_stack d")
  case (Cons f fs)
  with assms have f: "value_ok (frame_value f)" by (simp add: dom_ok_def value_ok_frame)
  show ?thesis
  proof (cases fs)
    case Nil
    with Cons f show ?thesis by (simp add: end_container_def dom_ok_def)
  next
    case (Cons g gs)
    with \<open>ref_stack d = f # fs\<close> assms f show ?thesis
      by (cases g) (auto simp: end_container_def dom_ok_def members_ok_set dest: in_set_butlastD)
  qed
qed (use assms in \<open>simp add: end_container_def\<close>)

lemma get_token_ok: "dom_ok (sdp p) \<Longrightarrow> parser_ok (get_token fl p)"
  using scan_string_token [of fl "input p"]
  by (auto simp: parser_ok_def get_token_def split: prod.splits)

lemma member_step_ok:
  assumes "parser_ok p" and "member_step fl p = Inr p'"
  shows "parser_ok p'"
proof -
  from assms(2) obtain k where k: "last_token p = ValueString k"
    "p' = get_token fl (get_token fl (sax (sax_key k) p))"
    by (auto simp: member_step_def Let_def split: token.splits if_splits)
  have "dom_ok (sax_key k (sdp p))" using assms(1) k(1) by (simp add: parser_ok_def sax_key_ok)
  then show ?thesis unfolding k(2) by (intro get_token_ok) simp
qed

lemma after_value_ok:
  assumes "dom_ok (sdp p)" and "after_value fl p = Inr (b, p')"
  shows "dom_ok (sdp p') \<and> (b \<or> parser_ok p')"
proof (cases "states p")
  case Nil
  with assms show ?thesis by (auto simp: after_value_def)
next
  case (Cons a sts)
  let ?q = "get_token fl p"
  have q: "parser_ok (get_token fl ?q)" by (intro get_token_ok) (simp add: assms(1))
  from assms(2) Cons consider "p' = get_token fl ?q" | "member_step fl (get_token fl ?q) = Inr p'"
    | "p' = sax end_container ?q\<lparr>states := sts, skip_eval := True\<rparr>"
      "last_token ?q = EndArray \<or> last_token ?q = EndObject"
    by (auto simp: after_value_def Let_def map_sum_def split: bool.splits if_splits sum.splits)
  then have "parser_ok p'"
  proof cases
    case 3
    with assms(1) show ?thesis by (auto simp: parser_ok_def end_container_ok)
  qed (use q member_step_ok in auto)
  then show ?thesis by (simp add: parser_ok_def)
qed

lemma value_step_ok:
  assumes "parser_ok p" and "value_step fl p = Inr (b, p')"
  shows "dom_ok (sdp p') \<and> (b \<or> parser_ok p')"
proof -
  have d: "dom_ok (sdp p)" using assms(1) by (simp add: parser_ok_def)
  have leaf: "dom_ok (sdp p') \<and> (b \<or> parser_ok p')"
    if "value_ok v" "after_value fl (sax (handle_value v) p) = Inr (b, p')" for v
    using after_value_ok [OF _ that(2)] handle_value_ok [OF d that(1)] by simp
  show ?thesis
  proof (cases "last_token p")
    case BeginArray
    let ?q = "get_token fl (sax start_array p)"
    have q: "parser_ok ?q" by (intro get_token_ok) (simp add: start_ok d)
    from assms(2) BeginArray consider "after_value fl (sax end_container ?q) = Inr (b, p')"
      | "p' = ?q\<lparr>states := True # states p\<rparr>"
      by (auto simp: value_step_def Let_def split: if_splits)
    then show ?thesis
    proof cases
      case 1
      from after_value_ok [OF _ 1] start_ok(1) [OF d] show ?thesis by (simp add: end_container_ok)
    qed (use q in \<open>simp add: parser_ok_def\<close>)
  next
    case BeginObject
    let ?q = "get_token fl (sax start_object p)"
    have q: "parser_ok ?q" by (intro get_token_ok) (simp add: start_ok d)
    from assms(2) BeginObject consider "after_value fl (sax end_container ?q) = Inr (b, p')"
      | p1 where "member_step fl ?q = Inr p1" "p' = p1\<lparr>states := False # states p1\<rparr>"
      by (auto simp: value_step_def Let_def map_sum_def split: if_splits sum.splits)
    then show ?thesis
    proof cases
      case 1
      from after_value_ok [OF _ 1] start_ok(2) [OF d] show ?thesis by (simp add: end_container_ok)
    next
      case 2
      from member_step_ok [OF q 2(1)] 2(2) show ?thesis by (simp add: parser_ok_def)
    qed
  next
    case (ValueString s)
    with assms leaf [of "JString s"] show ?thesis by (auto simp: value_step_def parser_ok_def)
  qed (use assms(2) in \<open>simp_all add: value_step_def leaf [rotated] split: if_splits\<close>)
qed

lemma parse_loop_ok:
  "parse_loop fl p = Inr q \<Longrightarrow> parser_ok p \<Longrightarrow> dom_ok (sdp q)"
proof (induction fl p rule: parse_loop.induct)
  case (1 fl p)
  obtain b p' where s: "parse_step fl p = Inr (b, p')"
    using "1.prems"(1) by (subst (asm) parse_loop.simps) (auto split: sum.splits)
  have ok: "dom_ok (sdp p') \<and> (b \<or> parser_ok p')"
  proof (cases "skip_eval p")
    case True
    with s "1.prems"(2) show ?thesis
      using after_value_ok [of "p\<lparr>skip_eval := False\<rparr>" fl b p'] by (auto simp: parse_step_def parser_ok_def)
  next
    case False
    with s "1.prems"(2) show ?thesis using value_step_ok by (simp add: parse_step_def)
  qed
  from "1.prems"(1) s have r: "(if b then Inr p' else parse_loop fl p') = Inr q"
    by (subst (asm) parse_loop.simps) simp
  with ok "1.IH" [OF s refl] show ?case by (cases b) auto
qed

lemma parse_ok:
  assumes "parse fl s = Inr v"
  shows "strings_utf8 v" and "keys_sorted v"
proof -
  have "parser_ok (parser_init fl s)"
  proof -
    obtain tok r where t: "first_scan fl s = (tok, r)" by fastforce
    have "utf8 k" if "tok = ValueString k" for k
      using t that scan_string_token by (auto simp: first_scan_def split: option.splits)
    with t show ?thesis by (simp add: parser_init_def parser_ok_def dom_ok_def)
  qed
  moreover obtain q where "parse_loop fl (parser_init fl s) = Inr q" "v = dom_root (sdp q)"
    using assms by (auto simp: parse_def bind_res_eq_Inr Let_def split: if_splits)
  ultimately have "value_ok v" using parse_loop_ok by (auto simp: dom_ok_def)
  then show "strings_utf8 v" and "keys_sorted v" by (simp_all add: value_ok_def)
qed

text \<open>The only errors: 101 for a text that is not JSON, 406 for a number beyond the range.\<close>

lemma member_step_error: "member_step fl p = Inl e \<Longrightarrow> e = JsonError 101"
  by (auto simp: member_step_def Let_def split: token.splits if_splits)

lemma after_value_error: "after_value fl p = Inl e \<Longrightarrow> e = JsonError 101"
  by (auto simp: after_value_def Let_def map_sum_def dest: member_step_error
      split: list.splits bool.splits if_splits sum.splits)

lemma value_step_error: "value_step fl p = Inl e \<Longrightarrow> e = JsonError 101 \<or> e = JsonError 406"
  by (cases "last_token p") (auto simp: value_step_def Let_def map_sum_def
      dest: member_step_error after_value_error split: if_splits sum.splits)

lemma parse_loop_error: "parse_loop fl p = Inl e \<Longrightarrow> e = JsonError 101 \<or> e = JsonError 406"
proof (induction fl p rule: parse_loop.induct)
  case (1 fl p)
  show ?case
  proof (cases "parse_step fl p")
    case (Inl e')
    with "1.prems" have "e' = e" by (subst (asm) parse_loop.simps) simp
    with Inl show ?thesis
      using after_value_error [of fl "p\<lparr>skip_eval := False\<rparr>" e'] value_step_error [of fl p e']
      by (auto simp: parse_step_def split: if_splits)
  next
    case (Inr bp)
    obtain b p' where "bp = (b, p')" by fastforce
    with Inr "1.prems" "1.IH" [of bp b p'] show ?thesis
      by (subst (asm) parse_loop.simps) (auto split: if_splits)
  qed
qed

lemma parse_error: "parse fl s = Inl e \<Longrightarrow> e = JsonError 101 \<or> e = JsonError 406"
  using parse_loop_error [of fl "parser_init fl s" e]
  by (cases "parse_loop fl (parser_init fl s)") (auto simp: parse_def Let_def split: if_splits)

end
