(* ===== verification/JsonApi.thy ===== *)
theory JsonApi
  imports JsonParse
begin

text \<open>
  The operations of \<open>basic_json\<close> the server calls on a value: \<open>value\<close>, \<open>operator[]\<close>,
  \<open>get<std::string>\<close>, \<open>items\<close>, construction from a braced list, \<open>push_back\<close>.
\<close>

section \<open>Access\<close>

text \<open>\<open>from_json\<close> to a string.\<close>

definition get_string :: "'f json \<Rightarrow> string res" where
  "get_string v = (case v of JString s \<Rightarrow> Inr s | _ \<Rightarrow> Inl (JsonError 302))"

text \<open>\<open>find\<close>: only an object has keys.\<close>

definition json_find :: "'f json \<Rightarrow> string \<Rightarrow> 'f json option" where
  "json_find v k = (case v of JObject ms \<Rightarrow> map_of ms k | _ \<Rightarrow> None)"

text \<open>\<open>value(key, default)\<close> with a string literal as default.\<close>

definition json_value :: "'f json \<Rightarrow> string \<Rightarrow> string \<Rightarrow> string res" where
  "json_value v k dflt =
     (case v of
        JObject ms \<Rightarrow> (case json_find v k of Some x \<Rightarrow> get_string x | None \<Rightarrow> Inr dflt)
      | _ \<Rightarrow> Inl (JsonError 306))"

text \<open>\<open>map::emplace\<close>: a key that is there keeps its value.\<close>

definition obj_emplace :: "string \<Rightarrow> 'f json \<Rightarrow> (string \<times> 'f json) list \<Rightarrow> (string \<times> 'f json) list" where
  "obj_emplace k v ms = (if map_of ms k = None then obj_set k v ms else ms)"

text \<open>
  \<open>operator[](key)\<close> on a value that is not constant: the element, which is added as null
  when it is missing, and the value afterwards; null turns into an object first.
\<close>

definition json_index :: "'f json \<Rightarrow> string \<Rightarrow> ('f json \<times> 'f json) res" where
  "json_index v k =
     (let v = (case v of JNull \<Rightarrow> JObject [] | _ \<Rightarrow> v)
      in case v of
           JObject ms \<Rightarrow>
             (let ms = obj_emplace k JNull ms in Inr (the (map_of ms k), JObject ms))
         | _ \<Rightarrow> Inl (JsonError 305))"

text \<open>\<open>items()\<close>: indices as keys of an array; a single value counts as one item without a key.\<close>

definition json_items_of :: "'f json \<Rightarrow> (string \<times> 'f json) list" where
  "json_items_of v =
     (case v of
        JObject ms \<Rightarrow> ms
      | JArray xs \<Rightarrow> zip (map nat_to_string [0..<length xs]) xs
      | JNull \<Rightarrow> []
      | _ \<Rightarrow> [([], v)])"

section \<open>Construction\<close>

text \<open>
  A braced list: an object when every element is an array of two elements with a string in
  front, of which the first with a key counts; otherwise an array.
\<close>

fun is_pair :: "'f json \<Rightarrow> bool" where
  "is_pair (JArray [JString k, v]) \<longleftrightarrow> True"
| "is_pair _ \<longleftrightarrow> False"

fun emplace_pairs :: "'f json list \<Rightarrow> (string \<times> 'f json) list \<Rightarrow> (string \<times> 'f json) list" where
  "emplace_pairs (JArray [JString k, v] # es) ms = emplace_pairs es (obj_emplace k v ms)"
| "emplace_pairs _ ms = ms"

definition json_init :: "'f json list \<Rightarrow> 'f json" where
  "json_init es = (if list_all is_pair es then JObject (emplace_pairs es []) else JArray es)"

definition push_back :: "'f json \<Rightarrow> 'f json \<Rightarrow> 'f json res" where
  "push_back v x =
     (case v of
        JNull \<Rightarrow> Inr (JArray [x])
      | JArray xs \<Rightarrow> Inr (JArray (xs @ [x]))
      | _ \<Rightarrow> Inl (JsonError 308))"

text \<open>The braced list \<open>{{k, v}, ...}\<close> of the sources.\<close>

definition json_object :: "(string \<times> 'f json) list \<Rightarrow> 'f json" where
  "json_object kvs = json_init (map (\<lambda>(k, v). json_init [JString k, v]) kvs)"

lemma json_init_pair [simp]: "json_init [JString k, v] = JArray [JString k, v]"
  by (simp add: json_init_def)

lemma emplace_pairs_fold:
  "emplace_pairs (map (\<lambda>(k, v). JArray [JString k, v]) kvs) ms =
    fold (\<lambda>(k, v). obj_emplace k v) kvs ms"
  by (induction kvs arbitrary: ms) auto

lemma json_object_members:
  "json_object kvs = JObject (fold (\<lambda>(k, v). obj_emplace k v) kvs [])"
proof -
  have "list_all is_pair (map (\<lambda>(k, v). JArray [JString k, v]) kvs)" by (induction kvs) auto
  moreover have "map (\<lambda>(k, v). json_init [JString k, v]) kvs = map (\<lambda>(k, v). JArray [JString k, v]) kvs"
    by simp
  ultimately show ?thesis
    unfolding json_object_def using emplace_pairs_fold [of kvs "[]"] by (simp add: json_init_def)
qed

lemma members_ok_emplace: "members_ok ms \<Longrightarrow> utf8 k \<Longrightarrow> value_ok v \<Longrightarrow> members_ok (obj_emplace k v ms)"
  by (simp add: obj_emplace_def members_ok_set)

lemma members_ok_fold:
  "members_ok ms \<Longrightarrow> \<forall>(k, v) \<in> set kvs. utf8 k \<and> value_ok v \<Longrightarrow>
    members_ok (fold (\<lambda>(k, v). obj_emplace k v) kvs ms)"
  by (induction kvs arbitrary: ms) (auto simp: members_ok_emplace)

lemma value_ok_object:
  "\<forall>(k, v) \<in> set kvs. utf8 k \<and> value_ok v \<Longrightarrow> value_ok (json_object kvs)"
  using members_ok_fold [of "[]" kvs] value_ok_frame [of "ObjectFrame (fold (\<lambda>(k, v). obj_emplace k v) kvs []) []"]
  by (simp add: json_object_members frame_value_def)

text \<open>Looking a key up in a braced object finds the first entry with it.\<close>

lemma map_of_emplace: "map_of (obj_emplace k v ms) = (if map_of ms k = None then (map_of ms)(k \<mapsto> v) else map_of ms)"
  by (simp add: obj_emplace_def map_of_obj_set)

lemma map_of_fold_emplace:
  "map_of (fold (\<lambda>(k, v). obj_emplace k v) kvs ms) x =
    (case map_of ms x of Some y \<Rightarrow> Some y | None \<Rightarrow> map_of kvs x)"
proof (induction kvs arbitrary: ms)
  case Nil
  show ?case by (cases "map_of ms x") simp_all
next
  case (Cons kv kvs)
  obtain a b where kv: "kv = (a, b)" by fastforce
  show ?case
    using Cons.IH [of "obj_emplace a b ms"]
    by (cases "map_of ms a"; cases "map_of ms x"; cases "x = a") (simp_all add: kv map_of_emplace)
qed

lemma json_find_object: "json_find (json_object kvs) k = map_of kvs k"
  by (simp add: json_find_def json_object_members map_of_fold_emplace)

lemma json_value_object:
  "json_value (json_object kvs) k d = (case map_of kvs k of Some x \<Rightarrow> get_string x | None \<Rightarrow> Inr d)"
  using json_find_object [of kvs k] by (simp add: json_value_def json_object_members)

text \<open>An access never changes what another key holds.\<close>

lemma json_index_other:
  "json_index v k = Inr (x, v') \<Longrightarrow> k' \<noteq> k \<Longrightarrow> json_find v' k' = json_find v k'"
  by (auto simp: json_index_def json_find_def Let_def map_of_emplace split: if_splits json.splits)

lemma json_index_found:
  "json_find v k = Some x \<Longrightarrow> json_index v k = Inr (x, v)"
  by (auto simp: json_index_def json_find_def Let_def obj_emplace_def split: json.splits)

section \<open>Floating-point numbers as they are written\<close>

text \<open>
  An instance of the parameters for concrete examples: a number is its own text, read back as
  it is written.
\<close>

definition text_floats :: "string float_ops" where
  "text_floats = \<lparr>strtod = (\<lambda>t. t), isfinite = (\<lambda>_. True), to_chars = (\<lambda>t. t)\<rparr>"

end
