(* ===== verification/HttpParse.thy ===== *)
theory HttpParse
  imports HttpTypes
begin

text \<open>
  \<open>HttpConnection::Parse\<close>: from the bytes of one request to an \<open>HttpRequest\<close>. The JSON library is
  a parameter: \<open>json_items body\<close> is the list of \<open>body.items()\<close>, each value its string or its
  dump, \<^const>\<open>None\<close> when parsing throws; \<open>JsonApps\<close> instantiates it.
\<close>

section \<open>Parsing\<close>

definition crlf :: string where
  "crlf = [CHR 0x0D, CHR 0x0A]"

definition crlf2 :: string where
  "crlf2 = [CHR 0x0D, CHR 0x0A, CHR 0x0D, CHR 0x0A]"

text \<open>The loop over the query string.\<close>

function parse_query :: "string \<Rightarrow> nat \<Rightarrow> smap \<Rightarrow> smap" where
  "parse_query qs pos params =
     (if pos < length qs then
        let amp = (case find_from ''&'' qs pos of Some a \<Rightarrow> a | None \<Rightarrow> length qs);
            params' = (case find_from ''='' qs pos of
                None \<Rightarrow> params
              | Some eq \<Rightarrow>
                  if eq < amp
                  then smap_set (slice qs pos (eq - pos)) (slice qs (eq + 1) (amp - eq - 1)) params
                  else params)
        in parse_query qs (amp + 1) params'
      else params)"
  by pat_completeness auto
termination
  by (relation "measure (\<lambda>(qs, pos, params). length qs - pos)")
    (auto simp: find_from_def split: option.splits)

declare parse_query.simps [simp del]

definition parse_header_line :: "string \<Rightarrow> smap \<Rightarrow> smap" where
  "parse_header_line line hdrs =
     (case find_sub '':'' line of
        None \<Rightarrow> hdrs
      | Some colon \<Rightarrow>
          let key = slice line 0 colon;
              value = drop (colon + 1) line;
              value' = (case find_first_not_of '' '' value 0 of
                  Some val_start \<Rightarrow> drop val_start value
                | None \<Rightarrow> value)
          in smap_set key value' hdrs)"

text \<open>The loop over the header lines.\<close>

function parse_headers :: "string \<Rightarrow> nat \<Rightarrow> smap \<Rightarrow> smap" where
  "parse_headers header_section pos hdrs =
     (if pos < length header_section then
        let line_end = (case find_from crlf header_section pos of
                Some e \<Rightarrow> e | None \<Rightarrow> length header_section);
            line = slice header_section pos (line_end - pos)
        in parse_headers header_section (line_end + 2) (parse_header_line line hdrs)
      else hdrs)"
  by pat_completeness auto
termination
  by (relation "measure (\<lambda>(hs, pos, hdrs). length hs - pos)")
    (auto simp: find_from_def split: option.splits)

declare parse_headers.simps [simp del]

definition split_target :: "string \<Rightarrow> string \<times> string \<times> smap" where
  "split_target target =
     (case find_sub ''?'' target of
        None \<Rightarrow> (target, [], [])
      | Some query_pos \<Rightarrow>
          let qs = drop (query_pos + 1) target
          in (slice target 0 query_pos, qs, parse_query qs 0 []))"

definition json_body_params :: "(string \<Rightarrow> (string \<times> string) list option) \<Rightarrow> smap \<Rightarrow> string \<Rightarrow> smap" where
  "json_body_params json_items hdrs b =
     (case map_of hdrs ''Content-Type'' of
        None \<Rightarrow> []
      | Some ct \<Rightarrow>
          if find_sub ''application/json'' ct \<noteq> None \<and> b \<noteq> []
          then case json_items b of
              None \<Rightarrow> []
            | Some items \<Rightarrow> foldl (\<lambda>m (k, v). smap_set k v m) [] items
          else [])"

definition ParseRequest :: "(string \<Rightarrow> (string \<times> string) list option) \<Rightarrow> string \<Rightarrow> HttpRequest res" where
  "ParseRequest json_items raw =
     (if raw = [] then Inr empty_request
      else case find_sub crlf2 raw of
          None \<Rightarrow> Inl (RuntimeError ''Malformed HTTP request: no header terminator'')
        | Some header_end \<Rightarrow>
            let header_section = slice raw 0 header_end;
                body_start = header_end + 4;
                first_line_end = find_sub crlf header_section;
                request_line = (case first_line_end of
                    Some e \<Rightarrow> slice header_section 0 e | None \<Rightarrow> header_section);
                (method_str, rest1) = read_word request_line;
                (target, rest2) = read_word rest1;
                (version, _) = read_word rest2
            in bind_res (GetEnumForString method_str) (\<lambda>m.
              let (path, qs, params) = split_target target;
                  hdrs = parse_headers header_section (pos_plus first_line_end 2) [];
                  b = (if body_start < length raw then drop body_start raw else [])
              in Inr \<lparr>req_method = Some m, req_path = path, req_version = version,
                   req_query_string = qs, req_headers = hdrs, req_query_params = params,
                   req_body_params = json_body_params json_items hdrs b,
                   req_path_params = [], req_body = b\<rparr>))"

section \<open>Header blocks\<close>

text \<open>
  The text of a request or response: a start line and header lines, each ended by CRLF, an empty
  line, the body.
\<close>

definition http_text :: "string list \<Rightarrow> string \<Rightarrow> string" where
  "http_text ls b = concat (map (\<lambda>l. l @ crlf) ls) @ crlf @ b"

definition http_line :: "string \<Rightarrow> bool" where
  "http_line l \<longleftrightarrow> l \<noteq> [] \<and> CHR 0x0D \<notin> set l"

abbreviation join_crlf :: "string list \<Rightarrow> string" where
  "join_crlf ls \<equiv> sep_by crlf ls"

lemma crlf_simps [simp]: "length crlf = 2" "crlf \<noteq> []" "hd crlf = CHR 0x0D" "length crlf2 = 4" "crlf2 \<noteq> []"
  "hd crlf2 = CHR 0x0D"
  by (simp_all add: crlf_def crlf2_def)

lemma http_text_join: "ls \<noteq> [] \<Longrightarrow> http_text ls b = join_crlf ls @ crlf2 @ b"
  by (simp add: http_text_def concat_sep_by crlf_def crlf2_def)

text \<open>The first blank line of a block of lines is its last.\<close>

lemma find_crlf2_lines:
  "ls \<noteq> [] \<Longrightarrow> list_all http_line ls \<Longrightarrow> find_sub crlf2 (join_crlf ls @ crlf2 @ b) = Some (length (join_crlf ls))"
proof (induction ls rule: induct_list012)
  case (2 l)
  then have "CHR 0x0D \<notin> set l" by (simp add: http_line_def)
  then show ?case by (simp add: find_sub_skip find_sub_prefix)
next
  case (3 l k ks)
  let ?r = "join_crlf (k # ks) @ crlf2 @ b"
  have l: "CHR 0x0D \<notin> set l" and k: "http_line k" using 3 by (simp_all add: http_line_def)
  have "join_crlf (k # ks) \<noteq> [] \<and> hd (join_crlf (k # ks)) = hd k"
    using k hd_sep_by [of "k # ks" crlf] by (simp add: http_line_def)
  then obtain c r where r: "?r = c # r" "c = hd k" by (cases "join_crlf (k # ks)") auto
  then have c: "c \<noteq> CHR 0x0D" using k hd_in_set [of k] by (metis http_line_def)
  have "find_sub crlf2 (crlf @ ?r) = map_option ((+) 2) (find_sub crlf2 ?r)"
    unfolding r(1) using c by (simp add: crlf_def crlf2_def option.map_comp comp_def)
  with 3 have "find_sub crlf2 (crlf @ ?r) = Some (2 + length (join_crlf (k # ks)))" by simp
  then show ?case using l by (simp add: find_sub_skip)
qed simp

lemma find_crlf_line: "CHR 0x0D \<notin> set l \<Longrightarrow> find_sub crlf (l @ crlf @ s) = Some (length l)"
  by (rule find_sub_after) simp_all

lemma find_crlf_last: "CHR 0x0D \<notin> set l \<Longrightarrow> find_sub crlf l = None"
  using find_sub_skip [of crlf l "[]"] by simp

text \<open>The header loop reads every line of a block once, in order.\<close>

lemma parse_headers_lines:
  "list_all http_line ls \<Longrightarrow>
    parse_headers (pre @ join_crlf ls) (length pre) hdrs = foldl (\<lambda>h l. parse_header_line l h) hdrs ls"
proof (induction ls arbitrary: pre hdrs rule: induct_list012)
  case 1
  then show ?case by (simp add: parse_headers.simps)
next
  case (2 l)
  then have l: "l \<noteq> []" "CHR 0x0D \<notin> set l" by (simp_all add: http_line_def)
  have f: "find_from crlf (pre @ l) (length pre) = None"
    by (simp add: find_from_append [OF refl] find_crlf_last [OF l(2)])
  have s: "slice (pre @ l) (length pre) (length (pre @ l) - length pre) = l" by (simp add: slice_def)
  have "parse_headers (pre @ l) (length pre) hdrs =
      parse_headers (pre @ l) (length (pre @ l) + 2) (parse_header_line l hdrs)"
    using l s by (subst parse_headers.simps) (simp add: f Let_def)
  also have "\<dots> = parse_header_line l hdrs" by (subst parse_headers.simps) simp
  finally show ?case by simp
next
  case (3 l k ks)
  then have l: "l \<noteq> []" "CHR 0x0D \<notin> set l" by (simp_all add: http_line_def)
  let ?t = "l @ crlf @ join_crlf (k # ks)"
  have f: "find_from crlf (pre @ ?t) (length pre) = Some (length pre + length l)"
    by (simp add: find_from_append [OF refl] find_crlf_line [OF l(2)])
  have s: "slice (pre @ ?t) (length pre) (length l) = l" by (simp add: slice_def)
  have "parse_headers (pre @ ?t) (length pre) hdrs =
      parse_headers (pre @ ?t) (length pre + length l + 2) (parse_header_line l hdrs)"
    using l s by (subst parse_headers.simps) (simp add: f Let_def)
  also have "\<dots> = parse_headers ((pre @ l @ crlf) @ join_crlf (k # ks)) (length (pre @ l @ crlf)) (parse_header_line l hdrs)"
    by (simp add: add.commute add.left_commute)
  also have "\<dots> = foldl (\<lambda>h l. parse_header_line l h) (parse_header_line l hdrs) (k # ks)"
    using 3 by (intro "3.IH") simp
  finally show ?case by simp
qed

definition header_line :: "string \<times> string \<Rightarrow> string" where
  "header_line kv = fst kv @ '': '' @ snd kv"

definition header_ok :: "string \<times> string \<Rightarrow> bool" where
  "header_ok kv \<longleftrightarrow> CHR '':'' \<notin> set (fst kv) \<and> CHR 0x0D \<notin> set (fst kv) \<and> CHR 0x0D \<notin> set (snd kv) \<and>
     snd kv \<noteq> [] \<and> hd (snd kv) \<noteq> CHR '' ''"

lemma header_line_ok: "header_ok kv \<Longrightarrow> http_line (header_line kv)"
  by (auto simp: header_ok_def http_line_def header_line_def)

lemma parse_header_line_ok:
  assumes "header_ok (k, v)"
  shows "parse_header_line (header_line (k, v)) hdrs = smap_set k v hdrs"
proof -
  have f: "find_sub '':'' (k @ '': '' @ v) = Some (length k)"
    using assms by (simp add: header_ok_def find_sub_skip)
  have s: "slice (k @ '': '' @ v) 0 (length k) = k" by (simp add: slice_def)
  have "v \<noteq> []" "hd v \<noteq> CHR '' ''" using assms by (auto simp: header_ok_def)
  then have "takeWhile (\<lambda>c. c = CHR '' '') v = []" by (cases v) auto
  with \<open>v \<noteq> []\<close> have n: "find_first_not_of '' '' (CHR '' '' # v) 0 = Some 1"
    by (simp add: find_first_not_of_def)
  show ?thesis
    unfolding parse_header_line_def header_line_def fst_conv snd_conv f option.case Let_def s
    by (simp add: n)
qed

lemma parse_header_lines_ok:
  "list_all header_ok hs \<Longrightarrow>
    foldl (\<lambda>h l. parse_header_line l h) hdrs (map header_line hs) = foldl (\<lambda>m (k, v). smap_set k v m) hdrs hs"
proof (induction hs arbitrary: hdrs)
  case (Cons kv hs)
  then show ?case by (cases kv) (simp add: parse_header_line_ok)
qed simp

text \<open>The query loop reads every pair once, in order.\<close>

definition query_text :: "(string \<times> string) list \<Rightarrow> string" where
  "query_text kvs = sep_by ''&'' (map (\<lambda>(k, v). k @ ''='' @ v) kvs)"

definition query_ok :: "string \<times> string \<Rightarrow> bool" where
  "query_ok kv \<longleftrightarrow> CHR ''&'' \<notin> set (fst kv) \<and> CHR ''='' \<notin> set (fst kv) \<and> CHR ''&'' \<notin> set (snd kv)"

lemma parse_query_step:
  assumes "query_ok (k, v)" and "rest = [] \<or> hd rest = CHR ''&''"
  shows "parse_query (pre @ k @ ''='' @ v @ rest) (length pre) params =
    parse_query (pre @ k @ ''='' @ v @ rest) (length (pre @ k @ ''='' @ v) + 1) (smap_set k v params)"
proof -
  let ?q = "pre @ k @ ''='' @ v @ rest"
  have eq: "find_from ''='' ?q (length pre) = Some (length pre + length k)"
    using assms(1) by (simp add: find_from_append [OF refl] query_ok_def find_sub_skip)
  have kv: "CHR ''&'' \<notin> set (k @ ''='' @ v)" using assms(1) by (simp add: query_ok_def)
  have "find_sub ''&'' ((k @ ''='' @ v) @ rest) = (if rest = [] then None else Some (length (k @ ''='' @ v)))"
    using assms(2) by (subst find_sub_skip) (use kv in \<open>cases rest; auto\<close>)+
  then have amp: "(case find_from ''&'' ?q (length pre) of Some a \<Rightarrow> a | None \<Rightarrow> length ?q) = length (pre @ k @ ''='' @ v)"
    by (auto simp: find_from_append [OF refl])
  have "slice ?q (length pre) (length k) = k" "slice ?q (length pre + length k + 1) (length v) = v"
    by (simp_all add: slice_def)
  then show ?thesis
    unfolding parse_query.simps [of ?q "length pre"] amp Let_def eq by simp
qed

lemma parse_query_pairs:
  "list_all query_ok kvs \<Longrightarrow>
    parse_query (pre @ query_text kvs) (length pre) params = foldl (\<lambda>m (k, v). smap_set k v m) params kvs"
proof (induction kvs arbitrary: pre params rule: induct_list012)
  case 1
  then show ?case by (simp add: query_text_def parse_query.simps)
next
  case (2 kv)
  obtain k v where kv: "kv = (k, v)" by (cases kv)
  have "parse_query (pre @ k @ ''='' @ v) (length (pre @ k @ ''='' @ v) + 1) (smap_set k v params) = smap_set k v params"
    by (subst parse_query.simps) simp
  with 2 parse_query_step [of k v "[]" pre params] show ?case by (simp add: kv query_text_def)
next
  case (3 kv kv' kvs)
  obtain k v where kv: "kv = (k, v)" by (cases kv)
  have q: "query_text (kv # kv' # kvs) = k @ ''='' @ v @ ''&'' @ query_text (kv' # kvs)"
    by (simp add: query_text_def kv)
  have "parse_query (pre @ query_text (kv # kv' # kvs)) (length pre) params =
      parse_query ((pre @ k @ ''='' @ v @ ''&'') @ query_text (kv' # kvs)) (length (pre @ k @ ''='' @ v @ ''&''))
        (smap_set k v params)"
    using parse_query_step [of k v "''&'' @ query_text (kv' # kvs)" pre params] "3.prems" kv
    unfolding q by simp
  also have "\<dots> = foldl (\<lambda>m (k, v). smap_set k v m) (smap_set k v params) (kv' # kvs)"
    using 3 by (intro "3.IH") simp
  finally show ?case by (simp add: kv)
qed

section \<open>Round trip\<close>

definition target_text :: "string \<Rightarrow> (string \<times> string) list \<Rightarrow> string" where
  "target_text path kvs = path @ (if kvs = [] then [] else ''?'' @ query_text kvs)"

definition print_request ::
    "HttpMethod \<Rightarrow> string \<Rightarrow> (string \<times> string) list \<Rightarrow> string \<Rightarrow> (string \<times> string) list \<Rightarrow> string \<Rightarrow> string" where
  "print_request m path kvs version hs b =
     http_text ((GetStringForEnum m @ '' '' @ target_text path kvs @ '' '' @ version) # map header_line hs) b"

definition word_ok :: "string \<Rightarrow> bool" where
  "word_ok w \<longleftrightarrow> w \<noteq> [] \<and> list_all (\<lambda>c. \<not> is_space c) w"

lemma word_ok_no_cr: "word_ok w \<Longrightarrow> CHR 0x0D \<notin> set w"
  by (auto simp: word_ok_def list_all_iff is_space_def)

lemma split_target_text:
  assumes "CHR ''?'' \<notin> set path" and "list_all query_ok kvs"
  shows "split_target (target_text path kvs) =
    (path, if kvs = [] then [] else query_text kvs, foldl (\<lambda>m (k, v). smap_set k v m) [] kvs)"
proof (cases "kvs = []")
  case True
  with assms(1) show ?thesis
    using find_char_None_iff [of "CHR ''?''" path] by (simp add: split_target_def target_text_def)
next
  case False
  have "find_sub ''?'' (path @ ''?'' @ query_text kvs) = Some (length path)"
    using assms(1) by (simp add: find_sub_skip)
  moreover have "slice (path @ ''?'' @ query_text kvs) 0 (length path) = path" by (simp add: slice_def)
  ultimately show ?thesis
    using False parse_query_pairs [OF assms(2), of "[]" "[]"] by (simp add: split_target_def target_text_def Let_def)
qed

lemma read_word_space: "read_word (CHR '' '' # s) = read_word s"
  by (simp add: read_word_def is_space_def)

lemma read_word_word:
  "word_ok w \<Longrightarrow> read_word (w @ '' '' @ s) = (w, '' '' @ s)"
  "word_ok w \<Longrightarrow> read_word ('' '' @ w @ '' '' @ s) = (w, '' '' @ s)"
  "word_ok w \<Longrightarrow> read_word ('' '' @ w) = (w, [])"
  using read_word_append [of w "'' '' @ s"] read_word_append [of w "[]"]
  by (simp_all add: word_ok_def read_word_space is_space_def)

lemma ParseRequest_print:
  assumes t: "word_ok (target_text path kvs)" and v: "word_ok version" and "CHR ''?'' \<notin> set path"
    and "list_all query_ok kvs" and hs: "hs \<noteq> []" "list_all header_ok hs"
  shows "ParseRequest json_items (print_request m path kvs version hs b) =
    Inr (let hdrs = foldl (\<lambda>m (k, v). smap_set k v m) [] hs in
      \<lparr>req_method = Some m, req_path = path, req_version = version,
       req_query_string = (if kvs = [] then [] else query_text kvs), req_headers = hdrs,
       req_query_params = foldl (\<lambda>m (k, v). smap_set k v m) [] kvs,
       req_body_params = json_body_params json_items hdrs b, req_path_params = [], req_body = b\<rparr>)"
proof -
  let ?l = "GetStringForEnum m @ '' '' @ target_text path kvs @ '' '' @ version"
  let ?ls = "map header_line hs"
  let ?raw = "print_request m path kvs version hs b"
  have m: "word_ok (GetStringForEnum m)" using GetStringForEnum_word by (simp add: word_ok_def)
  have l: "http_line ?l" using word_ok_no_cr [OF m] word_ok_no_cr [OF t] word_ok_no_cr [OF v]
    by (simp add: http_line_def)
  have ls: "list_all http_line ?ls" using hs(2) by (auto simp: list_all_iff header_line_ok)
  have raw: "?raw = join_crlf (?l # ?ls) @ crlf2 @ b"
    unfolding print_request_def by (rule http_text_join) simp
  have sec: "slice ?raw 0 (length (join_crlf (?l # ?ls))) = join_crlf (?l # ?ls)"
    unfolding raw by (simp add: slice_def)
  have ne: "?raw \<noteq> []" unfolding raw by simp
  have fe: "find_sub crlf2 ?raw = Some (length (join_crlf (?l # ?ls)))"
    unfolding raw using l ls by (intro find_crlf2_lines) simp_all
  have j: "join_crlf (?l # ?ls) = (?l @ crlf) @ join_crlf ?ls"
    using hs(1) by (simp add: sep_by_Cons)
  have fl: "find_sub crlf (join_crlf (?l # ?ls)) = Some (length ?l)"
    unfolding j using l find_crlf_line [of ?l] by (simp add: http_line_def)
  have rl: "slice (join_crlf (?l # ?ls)) 0 (length ?l) = ?l" unfolding j by (simp add: slice_def)
  have ph: "parse_headers (join_crlf (?l # ?ls)) (pos_plus (Some (length ?l)) 2) [] =
      foldl (\<lambda>m (k, v). smap_set k v m) [] hs"
    using parse_headers_lines [OF ls, of "?l @ crlf" "[]"] parse_header_lines_ok [OF hs(2), of "[]"]
    unfolding j pos_plus_def by simp
  have bd: "(if length (join_crlf (?l # ?ls)) + 4 < length ?raw
      then drop (length (join_crlf (?l # ?ls)) + 4) ?raw else []) = b"
    unfolding raw by auto
  show ?thesis
    unfolding ParseRequest_def fe option.case Let_def sec fl rl read_word_word(1) [OF m] case_prod_conv
      read_word_word(2) [OF t] read_word_word(3) [OF v] ph bd GetEnumForString_GetStringForEnum
      bind_res_Inr split_target_text [OF assms(3,4)]
    using ne by simp
qed

lemma ParseRequest_no_headers:
  assumes "http_line l" and "1 < length l" and "ParseRequest json_items (l @ crlf2 @ b) = Inr r"
  shows "req_headers r = parse_header_line (drop 1 l) []"
proof -
  have l: "CHR 0x0D \<notin> set l" "l \<noteq> []" using assms(1) by (simp_all add: http_line_def)
  have fe: "find_sub crlf2 (l @ crlf2 @ b) = Some (length l)"
    using find_crlf2_lines [of "[l]" b] assms(1) by simp
  have sec: "slice (l @ crlf2 @ b) 0 (length l) = l" by (simp add: slice_def)
  have pos: "pos_plus None 2 = 1" by (simp add: pos_plus_def npos_def)
  obtain c t where ct: "l = c # t" "t \<noteq> []" using assms(2) by (cases l) auto
  have "parse_headers l 1 [] = parse_header_line t []"
    using parse_headers_lines [of "[t]" "[c]" "[]"] ct l by (simp add: http_line_def)
  moreover have "req_headers r = parse_headers l 1 []"
    using assms(3) l(2)
    unfolding ParseRequest_def fe option.case Let_def sec find_crlf_last [OF l(1)] pos
    by (auto simp: bind_res_eq_Inr case_prod_unfold)
  ultimately show ?thesis using ct by simp
qed

section \<open>Properties\<close>

text \<open>
  C9: the request round trip. \<open>Parse\<close> on the text of a request with at least one header returns
  its method, path, version, query parameters, headers and body exactly, for every body (CRLFs and
  blank lines included) and any number of headers and parameters; a repeated key keeps its last
  value. Names hold no separator, values no separator of their own level.
\<close>

theorem http_parse_roundtrip:
  assumes "word_ok (target_text path kvs)" and "word_ok version" and "CHR ''?'' \<notin> set path"
    and "list_all query_ok kvs" and "hs \<noteq> []" and "list_all header_ok hs"
  shows "ParseRequest json_items (print_request m path kvs version hs b) =
    Inr (let hdrs = foldl (\<lambda>m (k, v). smap_set k v m) [] hs in
      \<lparr>req_method = Some m, req_path = path, req_version = version,
       req_query_string = (if kvs = [] then [] else query_text kvs), req_headers = hdrs,
       req_query_params = foldl (\<lambda>m (k, v). smap_set k v m) [] kvs,
       req_body_params = json_body_params json_items hdrs b, req_path_params = [], req_body = b\<rparr>)"
  using assms by (rule ParseRequest_print)

theorem http_parse_roundtrip_witness:
  "map_option req_query_params (case ParseRequest (\<lambda>_. None)
      (print_request POST ''/a'' [(''x'', ''1''), (''y'', [])] ''HTTP/1.1'' [(''Host'', ''h'')] crlf2) of
      Inr r \<Rightarrow> Some r | Inl _ \<Rightarrow> None) = Some [(''x'', ''1''), (''y'', [])]"
  using http_parse_roundtrip [of "''/a''" "[(''x'', ''1''), (''y'', [])]" "''HTTP/1.1''" "[(''Host'', ''h'')]"
      "\<lambda>_. None" POST crlf2]
  by (simp add: word_ok_def target_text_def query_text_def query_ok_def header_ok_def is_space_def Let_def)

text \<open>
  A request without headers. The search for the end of the request line fails and
  \<open>npos + 2\<close> is \<open>1\<close>, so the request line itself, from its second character on, is read as a
  header line: whenever it holds a colon, a header is made up from it.
\<close>

theorem http_parse_no_headers:
  assumes "http_line l" and "1 < length l" and "ParseRequest json_items (l @ crlf2 @ b) = Inr r"
  shows "req_headers r = parse_header_line (drop 1 l) []"
  using assms by (rule ParseRequest_no_headers)

theorem http_parse_no_headers_witness:
  "\<exists>r. ParseRequest (\<lambda>_. None) (''GET /a:b HTTP/1.1'' @ crlf2) = Inr r \<and>
    req_headers r = [(''ET /a'', ''b HTTP/1.1'')]"
proof -
  obtain r where r: "ParseRequest (\<lambda>_. None) (''GET /a:b HTTP/1.1'' @ crlf2 @ []) = Inr r"
    by (simp add: ParseRequest_def crlf2_def crlf_def slice_def read_word_def is_space_def
      GetEnumForString_def split_target_def Let_def)
  have "req_headers r = [(''ET /a'', ''b HTTP/1.1'')]"
    using http_parse_no_headers [OF _ _ r]
    by (simp add: http_line_def parse_header_line_def slice_def find_first_not_of_def)
  with r show ?thesis by (simp del: append_Cons)
qed

end
