(* ===== verification/Cors.thy ===== *)
theory Cors
  imports HttpTypes
begin

text \<open>
  \<open>cors/Cors.cpp\<close>: which origins may call the API, and the headers that tell a browser so. The
  unordered sets of the configuration are lists in the set's (unspecified) iteration order.
\<close>

record CorsConfig =
  allowed_origins :: "string list"
  allow_credentials :: bool
  allowed_methods :: "string list"
  allowed_headers :: "string list"
  max_age_seconds :: int

record Cors =
  cors_config :: CorsConfig
  allowed_method_header :: string
  allowed_headers_header :: string

definition join_set :: "string list \<Rightarrow> string \<Rightarrow> string" where
  "join_set items sep =
     foldl (\<lambda>result item. (if result = [] then result else result @ sep) @ item) [] items"

definition mk_Cors :: "CorsConfig \<Rightarrow> Cors" where
  "mk_Cors cfg = \<lparr>cors_config = cfg, allowed_method_header = join_set (allowed_methods cfg) '', '',
     allowed_headers_header = join_set (allowed_headers cfg) '', ''\<rparr>"

definition is_origin_valid :: "Cors \<Rightarrow> HttpRequest \<Rightarrow> bool" where
  "is_origin_valid c req =
     (case map_of (req_headers req) ''Origin'' of
        None \<Rightarrow> False
      | Some origin \<Rightarrow>
          ''*'' \<in> set (allowed_origins (cors_config c)) \<or> origin \<in> set (allowed_origins (cors_config c)))"

definition bool_string :: "bool \<Rightarrow> string" where
  "bool_string b = (if b then ''true'' else ''false'')"

definition handle_preflight :: "Cors \<Rightarrow> HttpRequest \<Rightarrow> HttpResponse option" where
  "handle_preflight c request =
     (if \<not> is_origin_valid c request then None
      else
        let origin = the (map_of (req_headers request) ''Origin'');
            response = NoContent;
            h1 = smap_set ''Access-Control-Allow-Origin'' origin (res_headers response);
            h2 = smap_set ''Access-Control-Allow-Methods'' (allowed_method_header c) h1;
            h3 = smap_set ''Access-Control-Allow-Headers'' (allowed_headers_header c) h2;
            h4 = smap_set ''Access-Control-Allow-Credentials''
                   (bool_string (allow_credentials (cors_config c))) h3;
            h5 = smap_set ''Access-Control-Max-Age'' (int_to_string (max_age_seconds (cors_config c))) h4
        in Some (response\<lparr>res_headers := h5\<rparr>))"

definition apply_cors_headers :: "Cors \<Rightarrow> HttpRequest \<Rightarrow> HttpResponse \<Rightarrow> bool \<times> HttpResponse" where
  "apply_cors_headers c req res =
     (if \<not> is_origin_valid c req then (False, res)
      else
        let origin = the (map_of (req_headers req) ''Origin'');
            h1 = smap_set ''Access-Control-Allow-Origin'' origin (res_headers res);
            h2 = (if allowed_method_header c \<noteq> []
                  then smap_set ''Access-Control-Allow-Methods'' (allowed_method_header c) h1 else h1);
            h3 = (if allowed_headers_header c \<noteq> []
                  then smap_set ''Access-Control-Allow-Headers'' (allowed_headers_header c) h2 else h2);
            h4 = (if allow_credentials (cors_config c)
                  then smap_set ''Access-Control-Allow-Credentials'' ''true'' h3 else h3);
            h5 = (if 0 < max_age_seconds (cors_config c)
                  then smap_set ''Access-Control-Max-Age'' (int_to_string (max_age_seconds (cors_config c))) h4
                  else h4)
        in (True, res\<lparr>res_headers := h5\<rparr>))"

section \<open>Joining\<close>

text \<open>The separator goes between the items when none of them is empty.\<close>

lemma join_set_acc:
  "acc \<noteq> [] \<Longrightarrow> foldl (\<lambda>result item. (if result = [] then result else result @ sep) @ item) acc items =
    acc @ concat (map (\<lambda>x. sep @ x) items)"
  by (induction items arbitrary: acc) auto

lemma join_set_sep_by: "[] \<notin> set items \<Longrightarrow> join_set items sep = sep_by sep items"
  by (cases items) (auto simp: join_set_def join_set_acc sep_by_concat)

definition cors_keys :: "string set" where
  "cors_keys = {''Access-Control-Allow-Origin'', ''Access-Control-Allow-Methods'',
     ''Access-Control-Allow-Headers'', ''Access-Control-Allow-Credentials'', ''Access-Control-Max-Age''}"

lemma apply_cors_headers_other:
  assumes "k \<notin> cors_keys"
  shows "map_of (res_headers (snd (apply_cors_headers c req res))) k = map_of (res_headers res) k"
  using assms by (simp add: apply_cors_headers_def Let_def cors_keys_def update_conv')

lemma apply_cors_headers_frame:
  "res_status_code (snd (apply_cors_headers c req res)) = res_status_code res"
  "res_status_text (snd (apply_cors_headers c req res)) = res_status_text res"
  "res_body (snd (apply_cors_headers c req res)) = res_body res"
  by (simp_all add: apply_cors_headers_def Let_def)

section \<open>Property\<close>

text \<open>
  Only a configured origin is let through. When the request's origin is missing or not
  configured, the response is untouched and a preflight is refused. Otherwise both the response
  and the preflight answer name exactly the request's origin, agree on the methods and headers the
  configuration lists (separated by commas), grant credentials only when configured, and change
  neither status nor body nor any other header.
\<close>

theorem cors_policy:
  fixes cfg :: CorsConfig
  assumes "[] \<notin> set (allowed_methods cfg)" and "allowed_methods cfg \<noteq> []"
  shows "case map_of (req_headers req) ''Origin'' of
      None \<Rightarrow> apply_cors_headers (mk_Cors cfg) req res = (False, res) \<and>
        handle_preflight (mk_Cors cfg) req = None
    | Some origin \<Rightarrow>
        if ''*'' \<notin> set (allowed_origins cfg) \<and> origin \<notin> set (allowed_origins cfg)
        then apply_cors_headers (mk_Cors cfg) req res = (False, res) \<and>
          handle_preflight (mk_Cors cfg) req = None
        else \<exists>res' pre. apply_cors_headers (mk_Cors cfg) req res = (True, res') \<and>
          handle_preflight (mk_Cors cfg) req = Some pre \<and>
          map_of (res_headers res') ''Access-Control-Allow-Origin'' = Some origin \<and>
          map_of (res_headers pre) ''Access-Control-Allow-Origin'' = Some origin \<and>
          map_of (res_headers res') ''Access-Control-Allow-Methods'' = Some (sep_by '', '' (allowed_methods cfg)) \<and>
          map_of (res_headers pre) ''Access-Control-Allow-Methods'' = Some (sep_by '', '' (allowed_methods cfg)) \<and>
          (map_of (res_headers pre) ''Access-Control-Allow-Credentials'' = Some ''true'' \<longleftrightarrow> allow_credentials cfg) \<and>
          (allow_credentials cfg \<or> map_of (res_headers res') ''Access-Control-Allow-Credentials'' =
            map_of (res_headers res) ''Access-Control-Allow-Credentials'') \<and>
          (map_of (res_headers res') |` (- cors_keys) = map_of (res_headers res) |` (- cors_keys)) \<and>
          res_status_code res' = res_status_code res \<and> res_body res' = res_body res"
proof -
  have ne: "join_set (allowed_methods cfg) '', '' \<noteq> []"
    using assms by (cases "allowed_methods cfg") (auto simp: join_set_sep_by sep_by_concat)
  have m: "join_set (allowed_methods cfg) '', '' = sep_by '', '' (allowed_methods cfg)"
    by (simp add: assms(1) join_set_sep_by)
  show ?thesis
  proof (cases "is_origin_valid (mk_Cors cfg) req")
    case False
    then show ?thesis
      by (auto simp: is_origin_valid_def apply_cors_headers_def handle_preflight_def mk_Cors_def
        split: option.splits)
  next
    case True
    then obtain origin where o: "map_of (req_headers req) ''Origin'' = Some origin"
      "''*'' \<in> set (allowed_origins cfg) \<or> origin \<in> set (allowed_origins cfg)"
      by (auto simp: is_origin_valid_def mk_Cors_def split: option.splits)
    let ?r = "snd (apply_cors_headers (mk_Cors cfg) req res)"
    obtain res' where r: "apply_cors_headers (mk_Cors cfg) req res = (True, res')"
      using True by (simp add: apply_cors_headers_def Let_def)
    obtain pre where p: "handle_preflight (mk_Cors cfg) req = Some pre"
      using True by (auto simp: handle_preflight_def Let_def)
    have "map_of (res_headers res') |` (- cors_keys) = map_of (res_headers res) |` (- cors_keys)"
      using apply_cors_headers_other [of _ "mk_Cors cfg" req res] r
      by (auto simp: restrict_map_def fun_eq_iff)
    moreover have "map_of (res_headers ?r) ''Access-Control-Allow-Origin'' = Some origin"
      "map_of (res_headers ?r) ''Access-Control-Allow-Methods'' = Some (sep_by '', '' (allowed_methods cfg))"
      "allow_credentials cfg \<or> map_of (res_headers ?r) ''Access-Control-Allow-Credentials'' =
            map_of (res_headers res) ''Access-Control-Allow-Credentials''"
      using True ne m o(1) by (simp_all add: apply_cors_headers_def Let_def update_conv' mk_Cors_def)
    then have "map_of (res_headers res') ''Access-Control-Allow-Origin'' = Some origin"
      "map_of (res_headers res') ''Access-Control-Allow-Methods'' = Some (sep_by '', '' (allowed_methods cfg))"
      "allow_credentials cfg \<or> map_of (res_headers res') ''Access-Control-Allow-Credentials'' =
            map_of (res_headers res) ''Access-Control-Allow-Credentials''"
      unfolding r snd_conv .
    moreover have "map_of (res_headers pre) ''Access-Control-Allow-Origin'' = Some origin"
      "map_of (res_headers pre) ''Access-Control-Allow-Methods'' = Some (sep_by '', '' (allowed_methods cfg))"
      "map_of (res_headers pre) ''Access-Control-Allow-Credentials'' = Some ''true'' \<longleftrightarrow> allow_credentials cfg"
      using True ne m o(1) p
      by (auto simp: handle_preflight_def Let_def update_conv' mk_Cors_def bool_string_def split: if_splits)
    ultimately show ?thesis
      using o r p apply_cors_headers_frame [of "mk_Cors cfg" req res] by simp
  qed
qed

definition cors_example :: CorsConfig where
  "cors_example = \<lparr>allowed_origins = [''http://a''], allow_credentials = True,
     allowed_methods = [''GET'', ''POST''], allowed_headers = [], max_age_seconds = 60\<rparr>"

theorem cors_policy_witness:
  "apply_cors_headers (mk_Cors cors_example) (empty_request\<lparr>req_headers := [(''Origin'', ''http://b'')]\<rparr>) NoContent
     = (False, NoContent) \<and>
   (\<exists>res'. apply_cors_headers (mk_Cors cors_example) (empty_request\<lparr>req_headers := [(''Origin'', ''http://a'')]\<rparr>) NoContent
     = (True, res') \<and> map_of (res_headers res') ''Access-Control-Allow-Methods'' = Some ''GET, POST'')"
  using cors_policy [of cors_example "empty_request\<lparr>req_headers := [(''Origin'', ''http://b'')]\<rparr>" NoContent]
    cors_policy [of cors_example "empty_request\<lparr>req_headers := [(''Origin'', ''http://a'')]\<rparr>" NoContent]
  by (auto simp: cors_example_def)

end
