(* ===== verification/HttpConn.thy ===== *)
theory HttpConn
  imports HttpParse Framing Routing Cors Sha_Fips Base64
begin

text \<open>
  \<open>HttpConnection\<close>: \<open>OnReadable\<close> drains the socket into the connection's buffer, cuts one complete
  request off it and handles it; \<open>HandleRead\<close> upgrades to a WebSocket, answers a CORS preflight or
  dispatches to a route and queues the response; \<open>OnWritable\<close> writes the queue. What \<open>recv\<close> and
  \<open>send\<close> return is an input of the model; the epoll interest, the bytes written and the request
  that was upgraded are fields of the connection.
\<close>

section \<open>Framing\<close>

definition content_length_of :: "string \<Rightarrow> nat res" where
  "content_length_of header_section =
     (case (case find_sub ''Content-Length:'' header_section of
              Some p \<Rightarrow> Some p
            | None \<Rightarrow> find_sub ''content-length:'' header_section) of
        None \<Rightarrow> Inr 0
      | Some cl_pos \<Rightarrow>
          (case find_first_not_of [CHR '' '', CHR 0x09] header_section (cl_pos + 15) of
             None \<Rightarrow> Inl OutOfRange
           | Some val_start \<Rightarrow>
               let cl_str = (case find_from crlf header_section val_start of
                     Some val_end \<Rightarrow> slice header_section val_start (val_end - val_start)
                   | None \<Rightarrow> drop val_start header_section)
               in Inr (from_chars_size cl_str 0)))"

text \<open>
  The length of the complete request at the front of the buffer. The sum of \<open>size_t\<close> values wraps.
\<close>

definition http_frame :: "string \<Rightarrow> nat option res" where
  "http_frame raw =
     (case find_sub crlf2 raw of
        None \<Rightarrow> Inr None
      | Some header_end \<Rightarrow>
          bind_res (content_length_of (slice raw 0 header_end)) (\<lambda>content_length.
            let total = (header_end + 4 + content_length) mod 2 ^ 64
            in if length raw < total then Inr None else Inr (Some total)))"

lemma find_sub_append_Some:
  "find_sub p s = Some i \<Longrightarrow> p \<noteq> [] \<Longrightarrow> find_sub p (s @ t) = Some i"
proof (rule find_sub_eq_Some)
  assume s: "find_sub p s = Some i" and p: "p \<noteq> []"
  have *: "occurs_at p (s @ t) j \<longleftrightarrow> occurs_at p s j" if "j \<le> i" for j
  proof -
    have "i + length p \<le> length s" using find_sub_SomeD [OF s] occurs_at_length p by blast
    with that show ?thesis by (simp add: occurs_at_def)
  qed
  show "occurs_at p (s @ t) i" using * find_sub_SomeD [OF s] by blast
  show "\<not> occurs_at p (s @ t) j" if "j < i" for j using * that find_sub_SomeD [OF s] by simp
qed

interpretation http: framing http_frame
proof
  fix b :: string and n
  assume "http_frame b = Inr (Some n)"
  then show "n \<le> length b"
    by (auto simp: http_frame_def bind_res_eq_Inr Let_def split: option.splits if_splits)
next
  fix b c :: string
  assume a: "http_frame b \<noteq> Inr None"
  then obtain h where h: "find_sub crlf2 b = Some h"
    by (cases "find_sub crlf2 b") (simp_all add: http_frame_def)
  have hc: "find_sub crlf2 (b @ c) = Some h" by (rule find_sub_append_Some [OF h]) simp
  have "h \<le> length b" using find_sub_SomeD [OF h] by simp
  then have s: "slice (b @ c) 0 h = slice b 0 h" by (simp add: slice_def)
  show "http_frame (b @ c) = http_frame b"
  proof (cases "content_length_of (slice b 0 h)")
    case (Inl e)
    then show ?thesis by (simp add: http_frame_def h hc s)
  next
    case (Inr cl)
    with a have "(h + 4 + cl) mod 2 ^ 64 \<le> length b"
      by (simp add: http_frame_def h Let_def split: if_splits)
    with Inr show ?thesis by (simp add: http_frame_def h hc s Let_def)
  qed
qed

section \<open>Reading\<close>

datatype recv_result = RecvData string | RecvAgain | RecvClosed | RecvError

text \<open>
  The loop over \<open>recv\<close>; the flag says whether to go on to the framing. When the listed
  results are used up the socket is empty.
\<close>

fun drain_socket :: "recv_result list \<Rightarrow> string \<Rightarrow> string \<times> bool" where
  "drain_socket [] buf = (buf, True)"
| "drain_socket (RecvAgain # rs) buf = (buf, True)"
| "drain_socket (RecvError # rs) buf = (buf, False)"
| "drain_socket (RecvClosed # rs) buf = (buf, False)"
| "drain_socket (RecvData d # rs) buf = drain_socket rs (buf @ d)"

record http_conn =
  read_buffer :: string
  response_queue :: "HttpResponse list"
  want_write :: bool
  sent_bytes :: string
  upgraded :: "HttpRequest option"

definition new_conn :: http_conn where
  "new_conn = \<lparr>read_buffer = [], response_queue = [], want_write = False, sent_bytes = [], upgraded = None\<rparr>"

record 'w http_server =
  srv_routes :: "'w routes"
  srv_cors :: Cors
  srv_auth :: "'w auth_func"

definition ComputeAcceptKey :: "string \<Rightarrow> string" where
  "ComputeAcceptKey client_key =
     Base64Encode (SHA1 (bytes_of (client_key @ ''258EAFA5-E914-47DA-95CA-C5AB0DC85B11'')))"

definition handshake_response :: "string \<Rightarrow> string" where
  "handshake_response accept_key =
     ''HTTP/1.1 101 Switching Protocols'' @ crlf @ ''Upgrade: websocket'' @ crlf @
     ''Connection: Upgrade'' @ crlf @ ''Sec-WebSocket-Accept: '' @ accept_key @ crlf @ crlf"

definition is_ws_upgrade :: "HttpRequest \<Rightarrow> bool" where
  "is_ws_upgrade r \<longleftrightarrow> req_method r = Some GET \<and>
     map_of (req_headers r) ''Upgrade'' = Some ''websocket'' \<and>
     map_of (req_headers r) ''Connection'' \<noteq> None \<and>
     map_of (req_headers r) ''Sec-WebSocket-Key'' \<noteq> None"

definition is_cors_preflight :: "HttpRequest \<Rightarrow> bool" where
  "is_cors_preflight r \<longleftrightarrow> req_method r = Some OPTIONS \<and>
     map_of (req_headers r) ''Origin'' \<noteq> None \<and>
     map_of (req_headers r) ''Access-Control-Request-Method'' \<noteq> None"

definition queue_response :: "HttpResponse \<Rightarrow> http_conn \<Rightarrow> http_conn" where
  "queue_response r c = c\<lparr>response_queue := response_queue c @ [r], want_write := True\<rparr>"

definition HandleRead :: "'w http_server \<Rightarrow> HttpRequest \<Rightarrow> http_conn \<Rightarrow> 'w \<Rightarrow> (http_conn \<times> 'w) res" where
  "HandleRead srv request c w =
     (if is_ws_upgrade request then
        let accept_key = ComputeAcceptKey (the (map_of (req_headers request) ''Sec-WebSocket-Key''))
        in Inr (c\<lparr>sent_bytes := sent_bytes c @ handshake_response accept_key, upgraded := Some request\<rparr>, w)
      else if is_cors_preflight request then
        let response = (case handle_preflight (srv_cors srv) request of
              Some r \<Rightarrow> r
            | None \<Rightarrow> Forbidden ''CORS preflight failed: Origin not allowed'')
        in Inr (queue_response response c, w)
      else
        bind_res (dispatch (srv_auth srv) (srv_routes srv) request w) (\<lambda>(response, request', w').
          Inr (queue_response (snd (apply_cors_headers (srv_cors srv) request' response)) c, w')))"

text \<open>
  A complete request is parsed and handled: the connection and the state afterwards, and the exception
  that left the call, if any.
\<close>

definition serve_request ::
    "(string \<Rightarrow> (string \<times> string) list option) \<Rightarrow> 'w http_server \<Rightarrow> string \<Rightarrow> http_conn \<Rightarrow> 'w
      \<Rightarrow> http_conn \<times> 'w \<times> exn option" where
  "serve_request json_items srv complete_request c w =
     (case bind_res (ParseRequest json_items complete_request) (\<lambda>request. HandleRead srv request c w) of
        Inl e \<Rightarrow> (c, w, Some e)
      | Inr (c', w') \<Rightarrow> (c', w', None))"

definition OnReadable ::
    "(string \<Rightarrow> (string \<times> string) list option) \<Rightarrow> 'w http_server \<Rightarrow> recv_result list \<Rightarrow> http_conn \<Rightarrow> 'w
      \<Rightarrow> http_conn \<times> 'w \<times> exn option" where
  "OnReadable json_items srv rs c w =
     (case drain_socket rs (read_buffer c) of
        (buf, proceed) \<Rightarrow>
          if \<not> proceed then (c\<lparr>read_buffer := buf\<rparr>, w, None)
          else case http_frame buf of
              Inl e \<Rightarrow> (c\<lparr>read_buffer := buf\<rparr>, w, Some e)
            | Inr None \<Rightarrow> (c\<lparr>read_buffer := buf\<rparr>, w, None)
            | Inr (Some n) \<Rightarrow>
                serve_request json_items srv (take n buf) (c\<lparr>read_buffer := drop n buf\<rparr>) w)"

section \<open>Writing\<close>

definition render_response :: "HttpResponse \<Rightarrow> string" where
  "render_response response =
     ''HTTP/1.1 '' @ int_to_string (res_status_code response) @ '' '' @ res_status_text response @ crlf @
     concat (map (\<lambda>(k, v). k @ '': '' @ v @ crlf) (res_headers response)) @
     ''Content-Length: '' @ nat_to_string (length (res_body response)) @ crlf @
     ''Connection: keep-alive'' @ crlf @ crlf @ res_body response"

text \<open>
  The loop over the queue. \<open>send\<close> takes some of the bytes or fails; a response is popped after
  every successful call, however much of it was taken.
\<close>

fun write_loop :: "(string \<Rightarrow> nat option) \<Rightarrow> HttpResponse list \<Rightarrow> string \<Rightarrow> HttpResponse list \<times> string \<times> bool" where
  "write_loop send [] out = ([], out, True)"
| "write_loop send (r # rs) out =
     (case send (render_response r) of
        None \<Rightarrow> (r # rs, out, False)
      | Some n \<Rightarrow> write_loop send rs (out @ take n (render_response r)))"

definition OnWritable :: "(string \<Rightarrow> nat option) \<Rightarrow> http_conn \<Rightarrow> http_conn" where
  "OnWritable send c =
     (case write_loop send (response_queue c) (sent_bytes c) of
        (q, out, finished) \<Rightarrow>
          c\<lparr>response_queue := q, sent_bytes := out, want_write := (if finished then False else want_write c)\<rparr>)"

section \<open>Messages with a length\<close>

lemma take_before_crlf:
  assumes "p \<noteq> []" and "CHR 0x0D \<notin> set p"
  shows "take (length p) (a @ crlf @ s) = p \<longleftrightarrow> take (length p) a = p"
proof (cases "length p \<le> length a")
  case False
  then obtain k where k: "length p - length a = Suc k" by (metis Suc_diff_Suc not_le)
  then have "take (length p) (a @ crlf @ s) = a @ CHR 0x0D # take k (CHR 0x0A # s)"
    using False by (simp add: crlf_def)
  then have "CHR 0x0D \<in> set (take (length p) (a @ crlf @ s))" by simp
  with assms(2) have "take (length p) (a @ crlf @ s) \<noteq> p" by metis
  moreover have "take (length p) a \<noteq> p" using False by (metis length_take min.absorb_iff2 min.commute)
  ultimately show ?thesis by simp
qed simp

text \<open>A search for a text without line breaks looks at one line after the other.\<close>

lemma find_sub_line:
  assumes "p \<noteq> []" and "CHR 0x0D \<notin> set p" and "CHR 0x0A \<notin> set p"
  shows "find_sub p (a @ crlf @ s) =
    (case find_sub p a of Some i \<Rightarrow> Some i | None \<Rightarrow> map_option ((+) (length a + 2)) (find_sub p s))"
proof (induction a)
  case Nil
  have "find_sub p (crlf @ s) = map_option ((+) 2) (find_sub p s)"
    by (rule find_sub_skip [of p crlf s, simplified]) (use assms in \<open>cases p; auto simp: crlf_def\<close>)+
  with assms(1) show ?case by (simp add: numeral_2_eq_2)
next
  case (Cons x a)
  then show ?case
    using take_before_crlf [OF assms(1,2), of "x # a" s]
    by (cases "find_sub p s") (auto split: option.splits)
qed

lemma find_sub_lines_None:
  assumes "p \<noteq> []" and "CHR 0x0D \<notin> set p" and "CHR 0x0A \<notin> set p"
  shows "list_all (\<lambda>l. find_sub p l = None) ls \<Longrightarrow> find_sub p (join_crlf ls) = None"
  by (induction ls rule: induct_list012) (use assms in \<open>auto simp: find_sub_line\<close>)

lemma find_sub_lines_skip:
  assumes "p \<noteq> []" and "CHR 0x0D \<notin> set p" and "CHR 0x0A \<notin> set p"
  shows "list_all (\<lambda>l. find_sub p l = None) pre \<Longrightarrow> pre \<noteq> [] \<Longrightarrow>
    find_sub p (join_crlf pre @ crlf @ s) = map_option ((+) (length (join_crlf pre @ crlf))) (find_sub p s)"
  using find_sub_lines_None [OF assms, of pre] by (simp add: find_sub_line [OF assms])

definition cl_line :: "nat \<Rightarrow> string" where
  "cl_line n = ''Content-Length: '' @ nat_to_string n"

definition cl_free :: "string \<Rightarrow> bool" where
  "cl_free l \<longleftrightarrow> find_sub ''Content-Length:'' l = None"

lemma find_first_not_of_append:
  "length a = n \<Longrightarrow> find_first_not_of cs (a @ s) n = map_option ((+) n) (find_first_not_of cs s 0)"
  by (auto simp: find_first_not_of_def Let_def)

lemma digit_not_blank: "is_digit c \<Longrightarrow> c \<noteq> CHR '' '' \<and> c \<noteq> CHR 0x09"
  by (auto simp: is_digit_def)

lemma content_length_split:
  assumes "find_sub ''Content-Length:'' (a @ cl_line n @ z) = Some (length a)"
    and z: "z = [] \<or> (\<exists>t. z = crlf @ t)" and "n < 2 ^ 64"
  shows "content_length_of (a @ cl_line n @ z) = Inr n"
proof -
  let ?d = "nat_to_string n" and ?pre = "a @ ''Content-Length:''"
  have s: "a @ cl_line n @ z = ?pre @ '' '' @ ?d @ z" by (simp add: cl_line_def)
  have d: "list_all is_digit ?d" "?d \<noteq> []" using nat_to_string_digits by simp_all
  have "takeWhile (\<lambda>c. c = CHR '' '' \<or> c = CHR 0x09) (?d @ z) = []"
    using d digit_not_blank by (cases ?d) auto
  then have nb: "find_first_not_of [CHR '' '', CHR 0x09] ('' '' @ ?d @ z) 0 = Some 1"
    using d(2) by (simp add: find_first_not_of_def)
  have vs: "find_first_not_of [CHR '' '', CHR 0x09] (a @ cl_line n @ z) (length a + 15) = Some (length a + 16)"
    unfolding s using find_first_not_of_append [of ?pre "length a + 15"] nb by simp
  have nocr: "CHR 0x0D \<notin> set ?d" using d(1) by (auto simp: list_all_iff is_digit_def)
  let ?q = "?pre @ '' ''"
  have q: "a @ cl_line n @ z = ?q @ ?d @ z" "length ?q = length a + 16" by (simp_all add: s)
  have cs: "(case find_from crlf (a @ cl_line n @ z) (length a + 16) of
      Some e \<Rightarrow> slice (a @ cl_line n @ z) (length a + 16) (e - (length a + 16))
    | None \<Rightarrow> drop (length a + 16) (a @ cl_line n @ z)) = ?d"
    using z
  proof
    assume "z = []"
    then have "find_from crlf (a @ cl_line n @ z) (length a + 16) = None"
      unfolding q find_from_append [OF q(2)] using find_crlf_last [OF nocr] by simp
    moreover have "drop (length a + 16) (a @ cl_line n @ z) = ?d"
      unfolding q(1) q(2) [symmetric] using \<open>z = []\<close> by simp
    ultimately show ?thesis by simp
  next
    assume "\<exists>t. z = crlf @ t"
    then obtain t where t: "z = crlf @ t" by blast
    then have "find_sub crlf (?d @ z) = Some (length ?d)" using find_crlf_line [OF nocr] by simp
    then have "find_from crlf (a @ cl_line n @ z) (length a + 16) = Some (length a + 16 + length ?d)"
      unfolding q find_from_append [OF q(2)] by simp
    moreover have "slice (a @ cl_line n @ z) (length a + 16) (length ?d) = ?d"
      unfolding q by (rule slice_append [OF q(2) refl])
    ultimately show ?thesis by simp
  qed
  have "from_chars_size ?d 0 = n" using from_chars_size_nat_to_string [of "[]" n 0] assms(3) by simp
  then show ?thesis
    unfolding content_length_of_def assms(1) option.case vs Let_def cs by simp
qed

lemma content_length_lines:
  assumes "list_all cl_free pre" and "n < 2 ^ 64"
  shows "content_length_of (join_crlf (pre @ cl_line n # post)) = Inr n"
proof -
  define a where "a = (if pre = [] then [] else join_crlf pre @ crlf)"
  define z where "z = (if post = [] then [] else crlf @ join_crlf post)"
  have f0: "find_sub ''Content-Length:'' (cl_line n @ z) = Some 0"
    using find_sub_prefix [of "''Content-Length:''"] by (simp add: cl_line_def)
  have "join_crlf (pre @ cl_line n # post) = a @ cl_line n @ z"
    unfolding a_def z_def
    by (induction pre rule: induct_list012) (auto simp: sep_by_Cons)
  moreover have "find_sub ''Content-Length:'' (a @ cl_line n @ z) = Some (length a)"
    using find_sub_lines_skip [of "''Content-Length:''" pre "cl_line n @ z"] assms(1) f0
    by (auto simp: a_def cl_free_def [abs_def])
  ultimately show ?thesis
    using content_length_split [of a n z] assms(2) by (auto simp: z_def)
qed

lemma http_frame_message:
  assumes "list_all http_line (pre @ post)" and "list_all cl_free pre"
    and "length (http_text (pre @ cl_line (length b) # post) b) < 2 ^ 64"
  shows "http_frame (http_text (pre @ cl_line (length b) # post) b) =
    Inr (Some (length (http_text (pre @ cl_line (length b) # post) b)))"
proof -
  let ?ls = "pre @ cl_line (length b) # post"
  have raw: "http_text ?ls b = join_crlf ?ls @ crlf2 @ b" by (rule http_text_join) simp
  have "CHR 0x0D \<notin> set (nat_to_string (length b))"
    using nat_to_string_digits [of "length b"] by (auto simp: list_all_iff is_digit_def)
  then have "list_all http_line ?ls" using assms(1) by (auto simp: http_line_def cl_line_def)
  then have fe: "find_sub crlf2 (http_text ?ls b) = Some (length (join_crlf ?ls))"
    unfolding raw by (intro find_crlf2_lines) simp_all
  have len: "length (http_text ?ls b) = length (join_crlf ?ls) + 4 + length b" by (simp add: raw)
  have cl: "content_length_of (slice (http_text ?ls b) 0 (length (join_crlf ?ls))) = Inr (length b)"
    using assms(3) content_length_lines [OF assms(2), of "length b" post] len by (simp add: raw slice_def)
  show ?thesis
    unfolding http_frame_def fe option.case cl bind_res_Inr Let_def
    using assms(3) len by simp
qed

section \<open>One call\<close>

lemma OnReadable_wait:
  "http_frame (read_buffer c @ d) = Inr None \<Longrightarrow>
    OnReadable json_items srv [RecvData d] c w = (c\<lparr>read_buffer := read_buffer c @ d\<rparr>, w, None)"
  by (simp add: OnReadable_def)

lemma OnReadable_message:
  assumes "http_frame r = Inr (Some (length r))" and "read_buffer c @ d = r @ behind"
  shows "OnReadable json_items srv [RecvData d] c w = serve_request json_items srv r (c\<lparr>read_buffer := behind\<rparr>) w"
  using http.message_then [OF assms(1), of behind] assms(2) by (simp add: OnReadable_def)

text \<open>A run of calls, one for each piece the socket delivers.\<close>

fun on_pieces ::
    "(string \<Rightarrow> (string \<times> string) list option) \<Rightarrow> 'w http_server \<Rightarrow> string list \<Rightarrow> http_conn \<Rightarrow> 'w
      \<Rightarrow> http_conn \<times> 'w \<times> exn option" where
  "on_pieces json_items srv [] c w = (c, w, None)"
| "on_pieces json_items srv (p # ps) c w =
     (case OnReadable json_items srv [RecvData p] c w of
        (c', w', Some e) \<Rightarrow> (c', w', Some e)
      | (c', w', None) \<Rightarrow> on_pieces json_items srv ps c' w')"

lemma outcome_id: "(case x of (c, w, Some e) \<Rightarrow> (c, w, Some e) | (c, w, None) \<Rightarrow> (c, w, None)) = x"
  by (cases x) (simp split: option.split)

lemma on_pieces_message:
  assumes "http_frame r = Inr (Some (length r))" and "q \<noteq> []"
  shows "read_buffer c @ concat ps @ q = r \<Longrightarrow>
    on_pieces json_items srv (ps @ [q]) c w = serve_request json_items srv r (c\<lparr>read_buffer := []\<rparr>) w"
proof (induction ps arbitrary: c)
  case Nil
  then show ?case
    using OnReadable_message [OF assms(1), of c q "[]" json_items srv w] by (simp add: outcome_id)
next
  case (Cons p ps)
  have "http_frame (read_buffer c @ p) = Inr None"
    using http.prefix_waits [of "read_buffer c @ p" "concat ps @ q"] assms Cons.prems by auto
  then show ?case
    using Cons.IH [of "c\<lparr>read_buffer := read_buffer c @ p\<rparr>"] Cons.prems by (simp add: OnReadable_wait)
qed

section \<open>Responses\<close>

definition status_line :: "HttpResponse \<Rightarrow> string" where
  "status_line r = ''HTTP/1.1 '' @ int_to_string (res_status_code r) @ '' '' @ res_status_text r"

lemma render_response_text:
  "render_response r = http_text ((status_line r # map header_line (res_headers r)) @
     cl_line (length (res_body r)) # [''Connection: keep-alive'']) (res_body r)"
proof -
  have "concat (map (\<lambda>(k, v). k @ '': '' @ v @ crlf) hs) = concat (map (\<lambda>l. l @ crlf) (map header_line hs))" for hs
    by (induction hs) (auto simp: header_line_def)
  then show ?thesis
    by (simp add: render_response_def http_text_def status_line_def cl_line_def del: map_map)
qed

definition response_ok :: "HttpResponse \<Rightarrow> bool" where
  "response_ok r \<longleftrightarrow> CHR 0x0D \<notin> set (res_status_text r) \<and> cl_free (status_line r) \<and>
     list_all (\<lambda>h. http_line (header_line h) \<and> cl_free (header_line h)) (res_headers r) \<and>
     length (render_response r) < 2 ^ 64"

lemma http_frame_response:
  assumes "response_ok r"
  shows "http_frame (render_response r) = Inr (Some (length (render_response r)))"
proof -
  have "CHR 0x0D \<notin> set (int_to_string i)" for i
    by (auto dest!: int_to_string_chars simp: is_digit_def)
  then have "http_line (status_line r)" using assms by (simp add: response_ok_def http_line_def status_line_def)
  then show ?thesis
    using assms unfolding render_response_text
    by (intro http_frame_message)
      (auto simp: response_ok_def render_response_text list_all_iff http_line_def)
qed

lemma http_frame_declared:
  assumes "list_all http_line (pre @ post)" and "list_all cl_free pre" and "n < 2 ^ 64"
    and h: "h = length (http_text (pre @ cl_line n # post) [])"
  shows "http_frame (http_text (pre @ cl_line n # post) b) =
    (if h + length b < (h + n) mod 2 ^ 64 then Inr None else Inr (Some ((h + n) mod 2 ^ 64)))"
proof -
  let ?ls = "pre @ cl_line n # post"
  have raw: "http_text ?ls x = join_crlf ?ls @ crlf2 @ x" for x by (rule http_text_join) simp
  have "CHR 0x0D \<notin> set (nat_to_string n)"
    using nat_to_string_digits [of n] by (auto simp: list_all_iff is_digit_def)
  then have "list_all http_line ?ls" using assms(1) by (auto simp: http_line_def cl_line_def)
  then have fe: "find_sub crlf2 (http_text ?ls b) = Some (length (join_crlf ?ls))"
    unfolding raw by (intro find_crlf2_lines) simp_all
  have cl: "content_length_of (slice (http_text ?ls b) 0 (length (join_crlf ?ls))) = Inr n"
    using content_length_lines [OF assms(2,3), of post] by (simp add: raw slice_def)
  have "length (http_text ?ls b) = h + length b" "h = length (join_crlf ?ls) + 4" by (simp_all add: raw h)
  then show ?thesis
    unfolding http_frame_def fe option.case cl bind_res_Inr Let_def by simp
qed

lemma write_loop_sent:
  "list_all (\<lambda>r. send (render_response r) = Some (k r)) q \<Longrightarrow>
    write_loop send q out = ([], out @ concat (map (\<lambda>r. take (k r) (render_response r)) q), True)"
  by (induction q arbitrary: out) simp_all

section \<open>Properties\<close>

text \<open>
  C8: TCP segmentation does not matter. However a request is cut into pieces, each piece delivered by its
  own readiness event, the connection waits without touching anything until the last piece and then
  handles exactly that request, once, leaving an empty buffer; the outcome is the one of receiving it in
  a single read.
\<close>

theorem http_request_any_pieces:
  assumes "http_frame r = Inr (Some (length r))" and "read_buffer c = []" and "concat ps @ q = r" and "q \<noteq> []"
  shows "on_pieces json_items srv (ps @ [q]) c w = OnReadable json_items srv [RecvData r] c w \<and>
    on_pieces json_items srv (ps @ [q]) c w = serve_request json_items srv r c w"
proof -
  have e: "c\<lparr>read_buffer := []\<rparr> = c" using assms(2) by simp
  have "on_pieces json_items srv (ps @ [q]) c w = serve_request json_items srv r (c\<lparr>read_buffer := []\<rparr>) w"
    by (rule on_pieces_message [OF assms(1,4)]) (simp add: assms(2,3))
  moreover have "OnReadable json_items srv [RecvData r] c w = serve_request json_items srv r (c\<lparr>read_buffer := []\<rparr>) w"
    using OnReadable_message [OF assms(1), of c r "[]"] assms(2) by simp
  ultimately show ?thesis unfolding e by simp
qed

definition ping_request :: string where
  "ping_request = http_text [''GET /ping HTTP/1.1'', ''Host: a'', cl_line 0] []"

lemma ping_request_frame: "http_frame ping_request = Inr (Some (length ping_request))"
proof -
  have "length ping_request < 2 ^ 64"
    by (simp add: ping_request_def http_text_def cl_line_def nat_to_string.simps [of 0] crlf_def)
  then show ?thesis
    using http_frame_message [of "[''GET /ping HTTP/1.1'', ''Host: a'']" "[]" "[]"]
    by (simp add: ping_request_def http_line_def cl_free_def)
qed

definition ping_server :: "nat http_server" where
  "ping_server = \<lparr>srv_routes = no_routes, srv_cors = mk_Cors cors_example, srv_auth = \<lambda>_ w. (Inr None, w)\<rparr>"

theorem http_request_any_pieces_witness:
  "on_pieces (\<lambda>_. None) ping_server [take 1 ping_request, drop 1 ping_request] new_conn 0 =
    OnReadable (\<lambda>_. None) ping_server [RecvData ping_request] new_conn 0"
proof -
  have "drop 1 ping_request \<noteq> []" by (simp add: ping_request_def http_text_def)
  then show ?thesis
    using http_request_any_pieces [OF ping_request_frame, of new_conn "[take 1 ping_request]" "drop 1 ping_request"
        "\<lambda>_. None" ping_server 0]
    by (simp add: new_conn_def)
qed

text \<open>
  One request per readiness event. When the buffer holds a complete request and more behind it, the
  call handles the first and leaves the rest in the buffer, even when that is a complete
  request too: it is only looked at when the socket becomes readable again.
\<close>

theorem http_one_request_per_call:
  assumes "http_frame r = Inr (Some (length r))" and "read_buffer c = []"
  shows "OnReadable json_items srv [RecvData (r @ behind)] c w =
    serve_request json_items srv r (c\<lparr>read_buffer := behind\<rparr>) w"
  using OnReadable_message [OF assms(1), of c "r @ behind" behind] assms(2) by simp

theorem http_one_request_per_call_witness:
  "OnReadable (\<lambda>_. None) ping_server [RecvData (ping_request @ ping_request)] new_conn 0 =
    serve_request (\<lambda>_. None) ping_server ping_request (new_conn\<lparr>read_buffer := ping_request\<rparr>) 0"
  using http_one_request_per_call [OF ping_request_frame, of new_conn] by (simp add: new_conn_def)

text \<open>
  The declared length. A request whose header block is \<open>h\<close> bytes long and declares \<open>n\<close> bytes of
  body is complete exactly when \<open>h + n\<close> bytes are there, as long as the sum fits \<open>size_t\<close>;
  beyond that it wraps, and a request that declares an enormous body is taken to be complete at once
  and cut off inside its own headers.
\<close>

theorem http_declared_length:
  assumes "list_all http_line (pre @ post)" and "list_all cl_free pre" and "n < 2 ^ 64"
    and "h = length (http_text (pre @ cl_line n # post) [])" and "h < 2 ^ 64"
  shows "http_frame (http_text (pre @ cl_line n # post) b) =
    (if h + n < 2 ^ 64
     then if length b < n then Inr None else Inr (Some (h + n))
     else Inr (Some (h + n - 2 ^ 64))) \<and> (2 ^ 64 \<le> h + n \<longrightarrow> h + n - 2 ^ 64 < h)"
proof (cases "h + n < 2 ^ 64")
  case True
  then show ?thesis using http_frame_declared [OF assms(1-4), of b] by simp
next
  case False
  then have "(h + n) mod 2 ^ 64 = h + n - 2 ^ 64"
    using assms(3,5) by (subst mod_if [of "h + n"]) simp
  moreover have "h + n - 2 ^ 64 < h" using False assms(3) by simp
  ultimately show ?thesis using http_frame_declared [OF assms(1-4), of b] False by simp
qed

theorem http_declared_length_witness:
  "http_frame (http_text [''POST / HTTP/1.1'', cl_line 18446744073709551615] []) =
    Inr (Some (length (http_text [''POST / HTTP/1.1'', cl_line 18446744073709551615] []) - 1))"
proof -
  let ?h = "length (http_text [''POST / HTTP/1.1'', cl_line 18446744073709551615] [])"
  have "?h = 57"
    by (simp add: http_text_def cl_line_def nat_to_string.simps crlf_def)
  then show ?thesis
    using http_declared_length [of "[''POST / HTTP/1.1'']" "[]" 18446744073709551615 ?h "[]"]
    by (simp add: http_line_def cl_free_def)
qed

text \<open>
  A response is self-delimiting. What \<open>OnWritable\<close> builds from a response whose headers are single
  lines starts with a header block and declares its body's exact length: read back by the server's own
  framing, whatever follows it on the connection, it is cut off exactly where it ends.
\<close>

theorem http_response_delimited:
  assumes "response_ok r"
  shows "http_frame (render_response r @ behind) = Inr (Some (length (render_response r)))"
  by (rule http.message_then [OF http_frame_response [OF assms]])

theorem http_response_delimited_witness:
  "http_frame (render_response (NotFound ''Route not found'') @ ''HTTP/1.1'') =
    Inr (Some (length (render_response (NotFound ''Route not found''))))"
proof -
  have "response_ok (NotFound ''Route not found'')"
    by (simp add: response_ok_def cl_free_def status_line_def response_defs render_response_def
      int_to_string_def nat_to_string.simps digit_char_def crlf_def)
  then show ?thesis by (rule http_response_delimited)
qed

text \<open>
  What \<open>OnWritable\<close> writes. When \<open>send\<close> does not fail the queue is emptied in order and the
  connection waits for input again; of each response exactly the bytes go out that the one call to
  \<open>send\<close> took. All of it goes out when every call takes everything; when a call takes less, the rest of
  that response is lost.
\<close>

theorem http_write_queue:
  assumes "list_all (\<lambda>r. send (render_response r) = Some (k r)) (response_queue c)"
  shows "OnWritable send c = c\<lparr>response_queue := [], want_write := False,
    sent_bytes := sent_bytes c @ concat (map (\<lambda>r. take (k r) (render_response r)) (response_queue c))\<rparr>"
  using write_loop_sent [OF assms] by (simp add: OnWritable_def)

theorem http_write_queue_witness:
  "sent_bytes (OnWritable (\<lambda>s. Some 4) (new_conn\<lparr>response_queue := [Ok ''a'', Ok ''b'']\<rparr>)) = ''HTTPHTTP''"
  using http_write_queue [of "\<lambda>s. Some 4" "\<lambda>_. 4" "new_conn\<lparr>response_queue := [Ok ''a'', Ok ''b'']\<rparr>"]
  by (simp add: new_conn_def render_response_def)

text \<open>
  The WebSocket handshake. A \<open>GET\<close> with the upgrade headers is answered by the 101 response and
  nothing else: its accept key is the padded Base64 of the 20-byte SHA-1 of the client's key and the
  protocol's GUID, so that decoding it gives that digest, and no handler is run.
\<close>

theorem ws_handshake:
  assumes "is_ws_upgrade request" and "map_of (req_headers request) ''Sec-WebSocket-Key'' = Some key"
  shows "HandleRead srv request c w =
      Inr (c\<lparr>sent_bytes := sent_bytes c @ handshake_response (ComputeAcceptKey key), upgraded := Some request\<rparr>, w) \<and>
    Base64URLDecode (ComputeAcceptKey key) =
      Some (string_of (fips_sha1 (bytes_of (key @ ''258EAFA5-E914-47DA-95CA-C5AB0DC85B11'')))) \<and>
    length (ComputeAcceptKey key) = 28"
  using assms Base64URLDecode_Base64Encode length_Base64Encode
  by (simp add: HandleRead_def ComputeAcceptKey_def Let_def SHA1_fips [symmetric] length_SHA1)

theorem ws_handshake_witness:
  "length (ComputeAcceptKey ''dGhlIHNhbXBsZSBub25jZQ=='') = 28"
  using ws_handshake [of "empty_request\<lparr>req_method := Some GET, req_headers := [(''Upgrade'', ''websocket''),
      (''Connection'', ''Upgrade''), (''Sec-WebSocket-Key'', ''dGhlIHNhbXBsZSBub25jZQ=='')]\<rparr>"
      "''dGhlIHNhbXBsZSBub25jZQ==''" ping_server new_conn 0]
  by (simp add: is_ws_upgrade_def)

end
