(* ===== verification/Server.thy ===== *)
theory Server
  imports Streams HttpConn
begin

text \<open>
  What holds the connections together: \<open>RegisterWebSocketRoute\<close>, \<open>UpgradeToWebSocket\<close> and the epoll
  handlers of \<open>ZvejysServer\<close>, the accept loop and the worker of \<open>main.cpp\<close>, and the WebSocket routes of
  \<open>TestRoutes.cpp\<close>, \<open>VIewerRoutes.cpp\<close> and \<open>StreamerRoutes.cpp\<close>. A connection object is a number; the
  kernel's part of the state (open descriptors, the pointer registered with epoll) stands beside
  the server's two tables. Each operation holds the tables' mutex, so a run is a sequence of operations.
\<close>

section \<open>The connection tables\<close>

text \<open>What successive calls of \<open>accept4\<close> return: a descriptor, with whether \<open>epoll_ctl\<close> then takes it, or
  an error. The empty list is \<open>EAGAIN\<close>.\<close>

datatype accept_result = Accepted int bool | AcceptError

record conn_table =
  connections :: "int \<Rightarrow> nat option"
  ws_connections :: "int \<Rightarrow> nat option"
  interest :: "int \<Rightarrow> nat option"
  open_fds :: "int list"
  fd_of :: "nat \<Rightarrow> int"
  next_obj :: nat
  pending :: "accept_result list"

definition empty_table :: conn_table where
  "empty_table = \<lparr>connections = (\<lambda>_. None), ws_connections = (\<lambda>_. None), interest = (\<lambda>_. None), open_fds = [],
     fd_of = (\<lambda>_. 0), next_obj = 0, pending = []\<rparr>"

definition HandleEpollNewConnection :: "conn_table \<Rightarrow> int \<times> conn_table" where
  "HandleEpollNewConnection t =
     (case pending t of
        [] \<Rightarrow> (-1, t)
      | AcceptError # q \<Rightarrow> (-1, t\<lparr>pending := q\<rparr>)
      | Accepted fd add_ok # q \<Rightarrow>
          let conn = next_obj t;
              t1 = t\<lparr>pending := q, open_fds := fd # open_fds t, connections := (connections t)(fd \<mapsto> conn),
                fd_of := (fd_of t)(conn := fd), next_obj := Suc conn\<rparr>
          in if add_ok then (fd, t1\<lparr>interest := (interest t1)(fd \<mapsto> conn)\<rparr>)
             else (fd, t1\<lparr>open_fds := removeAll fd (open_fds t1), connections := (connections t1)(fd := None)\<rparr>))"

definition HandleClientClosedConnection :: "nat \<Rightarrow> conn_table \<Rightarrow> conn_table" where
  "HandleClientClosedConnection conn t =
     (let fd = fd_of t conn in
      t\<lparr>open_fds := removeAll fd (open_fds t), interest := (interest t)(fd := None),
        connections := (connections t)(fd := None)\<rparr>)"

text \<open>The accept loop of \<open>main.cpp\<close>; the storage server calls the handler once per event instead.\<close>

lemma new_connection_pending:
  "HandleEpollNewConnection t = (r, t') \<Longrightarrow> 0 \<le> r \<Longrightarrow> length (pending t') < length (pending t)"
  by (auto simp: HandleEpollNewConnection_def Let_def split: list.splits accept_result.splits if_splits)

function accept_all :: "conn_table \<Rightarrow> conn_table" where
  "accept_all t = (case HandleEpollNewConnection t of (r, t') \<Rightarrow> if 0 \<le> r then accept_all t' else t')"
  by pat_completeness auto
termination
  by (relation "measure (\<lambda>t. length (pending t))") (auto dest: new_connection_pending [OF sym])

declare accept_all.simps [simp del]

section \<open>Upgrades\<close>

text \<open>
  The state behind the WebSocket handlers: the node and the streamers' sessions, which the closures of
  \<open>/sig\<close> own, by connection.
\<close>

record 'd site =
  site_node :: "'d node"
  sessions :: "wid \<Rightarrow> session option"

type_synonym 'd ws_setup = "wid \<Rightarrow> 'd site \<Rightarrow> 'd site ws_callbacks option res \<times> 'd site"

record 'd ws_app =
  ws_routes :: "(string \<times> 'd ws_setup) list"
  auth_ws_routes :: "(string \<times> (AuthenticatedUser \<Rightarrow> 'd ws_setup)) list"

definition RegisterWebSocketRoute :: "string \<Rightarrow> 'd ws_setup \<Rightarrow> 'd ws_app \<Rightarrow> 'd ws_app" where
  "RegisterWebSocketRoute path setup app = app\<lparr>ws_routes := AList.update path setup (ws_routes app)\<rparr>"

definition RegisterAuthenticatedWebSocketRoute ::
    "string \<Rightarrow> (AuthenticatedUser \<Rightarrow> 'd ws_setup) \<Rightarrow> 'd ws_app \<Rightarrow> 'd ws_app" where
  "RegisterAuthenticatedWebSocketRoute path setup app =
     app\<lparr>auth_ws_routes := AList.update path setup (auth_ws_routes app)\<rparr>"

record 'd server =
  conn_tables :: conn_table
  site_state :: "'d site"
  installed :: "wid \<Rightarrow> 'd site ws_callbacks option"

definition set_socket :: "wid \<Rightarrow> ws_conn \<Rightarrow> 'd site \<Rightarrow> 'd site" where
  "set_socket ws c st = st\<lparr>site_node := (site_node st)\<lparr>sockets := (sockets (site_node st))(ws := c)\<rparr>\<rparr>"

definition close_socket :: "wid \<Rightarrow> string \<Rightarrow> 'd site \<Rightarrow> 'd site" where
  "close_socket ws reason st = set_socket ws (CloseWs 1008 reason (sockets (site_node st) ws)) st"

definition swap_connection :: "int \<Rightarrow> conn_table \<Rightarrow> conn_table" where
  "swap_connection fd t =
     (let ws = next_obj t in
      t\<lparr>connections := (connections t)(fd := None), ws_connections := (ws_connections t)(fd \<mapsto> ws),
        fd_of := (fd_of t)(ws := fd), next_obj := Suc ws,
        interest := (if interest t fd = None then interest t else (interest t)(fd \<mapsto> ws))\<rparr>)"

definition run_setup :: "'d ws_setup \<Rightarrow> wid \<Rightarrow> 'd server \<Rightarrow> exn option \<times> 'd server" where
  "run_setup setup ws sv =
     (case setup ws (site_state sv) of
        (Inl e, st) \<Rightarrow> (Some e, sv\<lparr>site_state := st\<rparr>)
      | (Inr cb, st) \<Rightarrow> (None, sv\<lparr>site_state := st, installed := (installed sv)(ws := cb)\<rparr>))"

definition UpgradeToWebSocket ::
    "'d ws_app \<Rightarrow> 'd site auth_func option \<Rightarrow> int \<Rightarrow> HttpRequest \<Rightarrow> 'd server \<Rightarrow> exn option \<times> 'd server" where
  "UpgradeToWebSocket app auth_func fd http_request sv =
     (let ws = next_obj (conn_tables sv);
          sv1 = sv\<lparr>conn_tables := swap_connection fd (conn_tables sv),
                   site_state := set_socket ws (new_ws http_request) (site_state sv),
                   installed := (installed sv)(ws := None)\<rparr>;
          path = req_path http_request
      in case map_of (auth_ws_routes app) path of
           Some setup \<Rightarrow>
             (case auth_func of
                None \<Rightarrow> (None, sv1\<lparr>site_state := close_socket ws ''Auth not configured'' (site_state sv1)\<rparr>)
              | Some auth \<Rightarrow>
                  (case auth http_request (site_state sv1) of
                     (Inl e, st) \<Rightarrow> (Some e, sv1\<lparr>site_state := st\<rparr>)
                   | (Inr None, st) \<Rightarrow> (None, sv1\<lparr>site_state := close_socket ws ''Unauthorized'' st\<rparr>)
                   | (Inr (Some user), st) \<Rightarrow> run_setup (setup user) ws (sv1\<lparr>site_state := st\<rparr>)))
         | None \<Rightarrow>
             (case map_of (ws_routes app) path of
                Some setup \<Rightarrow> run_setup setup ws sv1
              | None \<Rightarrow> (None, sv1\<lparr>site_state := close_socket ws ''No route'' (site_state sv1)\<rparr>)))"

section \<open>The WebSocket routes\<close>

definition echo_setup :: "string \<Rightarrow> 'd ws_setup" where
  "echo_setup prefix ws st = (Inr (Some \<lparr>
     on_message = Some (\<lambda>data opcode (c, st).
       ((if opcode = TEXT then SendText (prefix @ string_of data) c else SendBinary data c, st), None)),
     on_close = Some (\<lambda>code reason s. (s, None))\<rparr>), st)"

text \<open>\<open>/ws/view\<close>: the callbacks of \<open>Viewers\<close>, on the node inside the site.\<close>

definition on_node :: "(ws_conn \<times> 'd node \<Rightarrow> (ws_conn \<times> 'd node) \<times> exn option)
    \<Rightarrow> ws_conn \<times> 'd site \<Rightarrow> (ws_conn \<times> 'd site) \<times> exn option" where
  "on_node f cs =
     (case f (fst cs, site_node (snd cs)) of ((c, n), e) \<Rightarrow> ((c, (snd cs)\<lparr>site_node := n\<rparr>), e))"

definition view_setup :: "'d backends \<Rightarrow> json_texts \<Rightarrow> AuthenticatedUser \<Rightarrow> 'd ws_setup" where
  "view_setup be js user ws st =
     (case viewer_join be js ws (site_node st) of
        (Inl e, n) \<Rightarrow> (Inl e, st\<lparr>site_node := n\<rparr>)
      | (Inr None, n) \<Rightarrow> (Inr None, st\<lparr>site_node := n\<rparr>)
      | (Inr (Some streamId), n) \<Rightarrow>
          (let cb = viewer_callbacks be js streamId user ws in
           (Inr (Some \<lparr>on_message = map_option (\<lambda>f data opcode. on_node (f data opcode)) (on_message cb),
              on_close = map_option (\<lambda>f code reason. on_node (f code reason)) (on_close cb)\<rparr>),
            st\<lparr>site_node := n\<rparr>)))"

text \<open>\<open>/sig\<close>: a session per connection; the callbacks work on the session that they captured.\<close>

record 'd sig_deps =
  sig_db :: "'d stream_db"
  sig_be :: "'d backends"
  sig_rnd :: "nat \<Rightarrow> u32"
  sig_fresh :: "AuthenticatedUser \<Rightarrow> session"
  sig_parse :: "string \<Rightarrow> signal res"
  sig_throws :: "pc_call \<Rightarrow> exn option"

definition sig_setup :: "'d sig_deps \<Rightarrow> AuthenticatedUser \<Rightarrow> 'd ws_setup" where
  "sig_setup deps user ws st =
     (case sig_open (sig_db deps) (sig_rnd deps) (sig_fresh deps user) user (store (site_node st)) of
        (Inl e, d) \<Rightarrow> (Inl e, st\<lparr>site_node := (site_node st)\<lparr>store := d\<rparr>\<rparr>)
      | (Inr s, d) \<Rightarrow> (Inr (Some \<lparr>
           on_message = Some (\<lambda>data opcode (c, st).
             ((c, st\<lparr>sessions := (sessions st)(ws := map_option (on_signal (sig_parse deps) (sig_throws deps) data opcode)
                (sessions st ws))\<rparr>), None)),
           on_close = Some (\<lambda>code reason (c, st).
             case sessions st ws of
               None \<Rightarrow> ((c, st), None)
             | Some s \<Rightarrow>
                 (case sig_close (sig_db deps) (sig_be deps) user code (s, (site_node st)\<lparr>sockets := (sockets (site_node st))(ws := c)\<rparr>) of
                    (e, s', n) \<Rightarrow> ((sockets n ws, st\<lparr>site_node := n, sessions := (sessions st)(ws \<mapsto> s')\<rparr>), e)))\<rparr>),
           st\<lparr>site_node := (site_node st)\<lparr>store := d\<rparr>, sessions := (sessions st)(ws \<mapsto> s)\<rparr>))"

definition backend_ws_app :: "'d backends \<Rightarrow> json_texts \<Rightarrow> 'd sig_deps \<Rightarrow> 'd ws_app" where
  "backend_ws_app be js deps =
     RegisterAuthenticatedWebSocketRoute ''/ws/view'' (view_setup be js)
      (RegisterAuthenticatedWebSocketRoute ''/sig'' (sig_setup deps)
       (RegisterWebSocketRoute ''/ws2'' (echo_setup ''Echo2: '')
        (RegisterWebSocketRoute ''/ws'' (echo_setup ''Echo: '') \<lparr>ws_routes = [], auth_ws_routes = []\<rparr>)))"

section \<open>Workers\<close>

text \<open>
  What a worker does with the events of one connection: an exception ends it and is
  swallowed. In the storage server the same steps run in the event loop itself: a hang-up is only
  handled when there is nothing to read, and an exception leaves \<open>main\<close>.
\<close>

definition worker_task ::
    "bool \<Rightarrow> bool \<Rightarrow> bool \<Rightarrow> ('s \<Rightarrow> exn option \<times> 's) \<Rightarrow> ('s \<Rightarrow> exn option \<times> 's) \<Rightarrow> ('s \<Rightarrow> 's) \<Rightarrow> 's \<Rightarrow> 's" where
  "worker_task epollin epollout hup readable writable hangup s =
     (case (if epollin then readable s else (None, s)) of
        (Some e, s1) \<Rightarrow> s1
      | (None, s1) \<Rightarrow>
          (case (if epollout then writable s1 else (None, s1)) of
             (Some e, s2) \<Rightarrow> s2
           | (None, s2) \<Rightarrow> if hup then hangup s2 else s2))"

definition pocket_task ::
    "bool \<Rightarrow> bool \<Rightarrow> bool \<Rightarrow> ('s \<Rightarrow> exn option \<times> 's) \<Rightarrow> ('s \<Rightarrow> exn option \<times> 's) \<Rightarrow> ('s \<Rightarrow> 's) \<Rightarrow> 's \<Rightarrow> exn option \<times> 's" where
  "pocket_task epollin epollout hup readable writable hangup s =
     (case (if epollin then readable s else (None, s)) of
        (Some e, s1) \<Rightarrow> (Some e, s1)
      | (None, s1) \<Rightarrow>
          (case (if epollout then writable s1 else (None, s1)) of
             (Some e, s2) \<Rightarrow> (Some e, s2)
           | (None, s2) \<Rightarrow> (None, if hup \<and> \<not> epollin then hangup s2 else s2)))"
section \<open>The HTTP routes of the backend\<close>

text \<open>
  The test and health routes, and all registrations in the order of \<open>main\<close>. The handler of \<open>/2s\<close> leaves
  the status text empty; the delays of the two test handlers are left out.
\<close>

definition RegisterTestRoutes :: "'d routes \<Rightarrow> 'd routes" where
  "RegisterTestRoutes =
     RegisterRoute GET ''/2s'' (\<lambda>request d. (Inr (mk_response 200 [] ''2s :)''), d)) \<circ>
     RegisterRoute GET ''/5s'' (\<lambda>request d. (Inr (Ok ''This is a 5s response''), d))"

definition health_handler :: "(string \<Rightarrow> string option) \<Rightarrow> smap \<Rightarrow> 'd handler" where
  "health_handler env vars request d =
     (Inr (Json (''{'' @ [CHR 0x22] @ ''status'' @ [CHR 0x22] @ '':'' @ [CHR 0x22] @ ''ok'' @ [CHR 0x22] @ '','' @
        [CHR 0x22] @ ''port'' @ [CHR 0x22] @ '':'' @ GetEnvDefault env vars ''SERVER_PORT'' ''unknown'' @ ''}'')), d)"

definition RegisterHealthRoutes :: "(string \<Rightarrow> string option) \<Rightarrow> smap \<Rightarrow> 'd routes \<Rightarrow> 'd routes" where
  "RegisterHealthRoutes env vars = RegisterRoute GET ''/api/health'' (health_handler env vars)"

definition RegisterViewerRoutes :: "'d backends \<Rightarrow> json_texts \<Rightarrow> 'd routes \<Rightarrow> 'd routes" where
  "RegisterViewerRoutes be js = RegisterRoute GET ''/api/streams/{streamId}/chat'' (chat_history_handler be js)"

record 'd backend_deps =
  bd_env :: "string \<Rightarrow> string option"
  bd_vars :: smap
  bd_users :: "'d user_deps"
  bd_be :: "'d backends"
  bd_js :: json_texts
  bd_db :: "'d stream_db"
  bd_get :: "string \<Rightarrow> 'd \<Rightarrow> string option res \<times> 'd"
  bd_dump :: "(Stream \<times> int) list \<Rightarrow> string res"

definition backend_routes :: "'d backend_deps \<Rightarrow> 'd routes" where
  "backend_routes bd =
     (RegisterHealthRoutes (bd_env bd) (bd_vars bd) \<circ>
      RegisterViewerRoutes (bd_be bd) (bd_js bd) \<circ>
      RegisterStreamerRoutes (bd_db bd) (bd_get bd) (bd_dump bd) \<circ>
      RegisterUserRoutes (bd_users bd) \<circ>
      RegisterTestRoutes) no_routes"

section \<open>The tables over time\<close>

text \<open>
  The operations in any order: a new connection, whose descriptor the kernel hands out only when it is not
  open; an upgrade, by the HTTP connection of a descriptor; the hang-up of a registered connection.
\<close>

inductive table_step :: "conn_table \<Rightarrow> conn_table \<Rightarrow> bool" where
  arrive: "table_step t (t\<lparr>pending := pending t @ [r]\<rparr>)"
| accept: "pending t = Accepted fd ok # q \<Longrightarrow> fd \<notin> set (open_fds t) \<Longrightarrow> table_step t (snd (HandleEpollNewConnection t))"
| accept_error: "pending t = AcceptError # q \<Longrightarrow> table_step t (snd (HandleEpollNewConnection t))"
| upgrade: "connections t fd = Some conn \<Longrightarrow> interest t fd = Some conn \<Longrightarrow> table_step t (swap_connection fd t)"
| hangup: "interest t (fd_of t conn) = Some conn \<Longrightarrow> table_step t (HandleClientClosedConnection conn t)"

definition tables_ok :: "conn_table \<Rightarrow> bool" where
  "tables_ok t \<longleftrightarrow>
     (\<forall>fd conn. interest t fd = Some conn \<longrightarrow> fd_of t conn = fd \<and> conn < next_obj t \<and>
        (connections t fd = Some conn \<or> (connections t fd = None \<and> ws_connections t fd = Some conn))) \<and>
     (\<forall>fd conn. connections t fd = Some conn \<longrightarrow> interest t fd = Some conn) \<and>
     (\<forall>fd conn. ws_connections t fd = Some conn \<longrightarrow> conn < next_obj t) \<and>
     (\<forall>fd. fd \<in> set (open_fds t) \<longleftrightarrow> interest t fd \<noteq> None)"

lemma tables_okI:
  assumes "\<And>fd conn. interest t fd = Some conn \<Longrightarrow> fd_of t conn = fd"
    and "\<And>fd conn. interest t fd = Some conn \<Longrightarrow> conn < next_obj t"
    and "\<And>fd conn. interest t fd = Some conn \<Longrightarrow>
      connections t fd = Some conn \<or> connections t fd = None \<and> ws_connections t fd = Some conn"
    and "\<And>fd conn. connections t fd = Some conn \<Longrightarrow> interest t fd = Some conn"
    and "\<And>fd conn. ws_connections t fd = Some conn \<Longrightarrow> conn < next_obj t"
    and "\<And>fd. fd \<in> set (open_fds t) \<longleftrightarrow> interest t fd \<noteq> None"
  shows "tables_ok t"
  using assms unfolding tables_ok_def by blast

lemma tables_okD:
  assumes "tables_ok t"
  shows "interest t fd = Some conn \<Longrightarrow> fd_of t conn = fd"
    and "interest t fd = Some conn \<Longrightarrow> conn < next_obj t"
    and "interest t fd = Some conn \<Longrightarrow> connections t fd = Some conn \<or> connections t fd = None \<and> ws_connections t fd = Some conn"
    and "connections t fd = Some conn \<Longrightarrow> interest t fd = Some conn"
    and "ws_connections t fd = Some conn \<Longrightarrow> conn < next_obj t"
    and "fd \<in> set (open_fds t) \<longleftrightarrow> interest t fd \<noteq> None"
  using assms unfolding tables_ok_def by blast+

lemma tables_ok_accept:
  assumes ok: "tables_ok t" and p: "pending t = Accepted fd add_ok # q" and n: "fd \<notin> set (open_fds t)"
  shows "tables_ok (snd (HandleEpollNewConnection t))"
proof -
  note d = tables_okD [OF ok]
  have i: "interest t fd = None" using n d(6) by simp
  have c: "connections t fd = None" using i d(4) [of fd] by (cases "connections t fd") auto
  show ?thesis
  proof (rule tables_okI)
    fix g conn
    let ?t = "snd (HandleEpollNewConnection t)"
    show "interest ?t g = Some conn \<Longrightarrow> fd_of ?t conn = g" "interest ?t g = Some conn \<Longrightarrow> conn < next_obj ?t"
      using d(1,2) [of g conn] i by (auto simp: HandleEpollNewConnection_def p Let_def split: if_splits)
    show "interest ?t g = Some conn \<Longrightarrow> connections ?t g = Some conn \<or> connections ?t g = None \<and> ws_connections ?t g = Some conn"
      using d(3) [of g conn] i by (auto simp: HandleEpollNewConnection_def p Let_def split: if_splits)
    show "connections ?t g = Some conn \<Longrightarrow> interest ?t g = Some conn" "ws_connections ?t g = Some conn \<Longrightarrow> conn < next_obj ?t"
      using d(4,5) [of g conn] c by (auto simp: HandleEpollNewConnection_def p Let_def split: if_splits)
    show "g \<in> set (open_fds ?t) \<longleftrightarrow> interest ?t g \<noteq> None"
      using d(6) [of g] i by (auto simp: HandleEpollNewConnection_def p Let_def)
  qed
qed

lemma tables_ok_upgrade:
  assumes ok: "tables_ok t" and c: "connections t fd = Some conn0"
  shows "tables_ok (swap_connection fd t)"
proof -
  note d = tables_okD [OF ok]
  show ?thesis
  proof (rule tables_okI)
    fix g conn
    let ?t = "swap_connection fd t"
    have i: "interest t fd = Some conn0" by (rule d(4) [OF c])
    show "interest ?t g = Some conn \<Longrightarrow> fd_of ?t conn = g" "interest ?t g = Some conn \<Longrightarrow> conn < next_obj ?t"
      using d(1,2) [of g conn] i by (auto simp: swap_connection_def Let_def split: if_splits)
    show "interest ?t g = Some conn \<Longrightarrow> connections ?t g = Some conn \<or> connections ?t g = None \<and> ws_connections ?t g = Some conn"
      using d(3) [of g conn] i by (auto simp: swap_connection_def Let_def split: if_splits)
    show "connections ?t g = Some conn \<Longrightarrow> interest ?t g = Some conn" "ws_connections ?t g = Some conn \<Longrightarrow> conn < next_obj ?t"
      using d(4,5) [of g conn] by (auto simp: swap_connection_def Let_def split: if_splits)
    show "g \<in> set (open_fds ?t) \<longleftrightarrow> interest ?t g \<noteq> None"
      using d(6) [of g] i by (auto simp: swap_connection_def Let_def)
  qed
qed

lemma tables_ok_hangup:
  assumes ok: "tables_ok t"
  shows "tables_ok (HandleClientClosedConnection conn0 t)"
proof -
  note d = tables_okD [OF ok]
  show ?thesis
  proof (rule tables_okI)
    fix g conn
    let ?t = "HandleClientClosedConnection conn0 t"
    show "interest ?t g = Some conn \<Longrightarrow> fd_of ?t conn = g" "interest ?t g = Some conn \<Longrightarrow> conn < next_obj ?t"
      "interest ?t g = Some conn \<Longrightarrow> connections ?t g = Some conn \<or> connections ?t g = None \<and> ws_connections ?t g = Some conn"
      using d(1-3) [of g conn] by (auto simp: HandleClientClosedConnection_def Let_def split: if_splits)
    show "connections ?t g = Some conn \<Longrightarrow> interest ?t g = Some conn" "ws_connections ?t g = Some conn \<Longrightarrow> conn < next_obj ?t"
      using d(4,5) [of g conn] by (auto simp: HandleClientClosedConnection_def Let_def split: if_splits)
    show "g \<in> set (open_fds ?t) \<longleftrightarrow> interest ?t g \<noteq> None"
      using d(6) [of g] by (auto simp: HandleClientClosedConnection_def Let_def)
  qed
qed

lemma tables_ok_step: "table_step t t' \<Longrightarrow> tables_ok t \<Longrightarrow> tables_ok t'"
proof (induction rule: table_step.induct)
  case (arrive t r)
  then show ?case by (simp add: tables_ok_def)
next
  case (accept_error t q)
  then show ?case by (simp add: tables_ok_def HandleEpollNewConnection_def)
qed (rule tables_ok_accept tables_ok_upgrade tables_ok_hangup; assumption)+

lemma tables_ok_reach: "table_step\<^sup>*\<^sup>* empty_table t \<Longrightarrow> tables_ok t"
proof (induction rule: rtranclp_induct)
  case base
  then show ?case by (simp add: empty_table_def tables_ok_def)
qed (rule tables_ok_step)

lemma ws_entries_stay: "table_step t t' \<Longrightarrow> ws_connections t fd \<noteq> None \<Longrightarrow> ws_connections t' fd \<noteq> None"
  by (induction rule: table_step.induct)
    (auto simp: HandleEpollNewConnection_def swap_connection_def HandleClientClosedConnection_def Let_def)
section \<open>The accept loop\<close>

fun accepted :: "accept_result \<Rightarrow> bool" where
  "accepted (Accepted fd _) \<longleftrightarrow> 0 \<le> fd"
| "accepted AcceptError \<longleftrightarrow> False"

lemma accept_all_cases:
  "pending t = [] \<Longrightarrow> accept_all t = t"
  "pending t = AcceptError # q \<Longrightarrow> accept_all t = t\<lparr>pending := q\<rparr>"
  "pending t = Accepted fd ok # q \<Longrightarrow> 0 \<le> fd \<Longrightarrow> accept_all t = accept_all (snd (HandleEpollNewConnection t))"
  "pending t = Accepted fd ok # q \<Longrightarrow> fd < 0 \<Longrightarrow> accept_all t = snd (HandleEpollNewConnection t)"
  by (subst accept_all.simps, simp add: HandleEpollNewConnection_def Let_def)+

lemma new_connection_effect:
  assumes "pending t = Accepted fd ok # q"
  shows "pending (snd (HandleEpollNewConnection t)) = q"
    and "g \<noteq> fd \<Longrightarrow> interest (snd (HandleEpollNewConnection t)) g = interest t g \<and>
      connections (snd (HandleEpollNewConnection t)) g = connections t g"
    and "ok \<Longrightarrow> interest (snd (HandleEpollNewConnection t)) fd = Some (next_obj t) \<and>
      connections (snd (HandleEpollNewConnection t)) fd = Some (next_obj t)"
  using assms by (auto simp: HandleEpollNewConnection_def Let_def)

lemma accept_all_pending: "pending (accept_all t) = tl (dropWhile accepted (pending t))"
proof (induction t rule: accept_all.induct)
  case (1 t)
  consider "pending t = []" | q where "pending t = AcceptError # q" | fd ok q where "pending t = Accepted fd ok # q" "0 \<le> fd"
    | fd ok q where "pending t = Accepted fd ok # q" "fd < 0"
    by (metis accept_result.exhaust linorder_not_le neq_Nil_conv)
  then show ?case
  proof cases
    case (3 fd ok q)
    then have "HandleEpollNewConnection t = (fd, snd (HandleEpollNewConnection t))"
      by (auto simp: HandleEpollNewConnection_def Let_def)
    from 1 [OF this [symmetric] 3(2)] 3 show ?thesis by (simp add: accept_all_cases new_connection_effect)
  qed (simp_all add: accept_all_cases new_connection_effect)
qed

fun result_fd :: "accept_result \<Rightarrow> int" where
  "result_fd (Accepted fd _) = fd"
| "result_fd AcceptError = -1"

lemma accept_all_keeps:
  "g \<notin> result_fd ` set (takeWhile accepted (pending t)) \<Longrightarrow> 0 \<le> g \<Longrightarrow>
    interest (accept_all t) g = interest t g \<and> connections (accept_all t) g = connections t g"
proof (induction "pending t" arbitrary: t)
  case (Cons r q)
  show ?case
  proof (cases r)
    case (Accepted fd ok)
    have p: "pending t = Accepted fd ok # q" using Cons.hyps(2) Accepted by simp
    show ?thesis
    proof (cases "0 \<le> fd")
      case True
      then have "g \<noteq> fd" "g \<notin> result_fd ` set (takeWhile accepted q)" using Cons.prems by (simp_all add: p)
      with Cons.hyps(1) [of "snd (HandleEpollNewConnection t)"] Cons.prems(2) True show ?thesis
        by (simp add: accept_all_cases p new_connection_effect)
    next
      case False
      with Cons.prems(2) have "g \<noteq> fd" by simp
      with False show ?thesis by (simp add: accept_all_cases p new_connection_effect)
    qed
  next
    case AcceptError
    then show ?thesis using Cons.hyps(2) [symmetric] by (simp add: accept_all_cases)
  qed
qed (simp add: accept_all_cases)

lemma accept_all_registers:
  "Accepted fd True \<in> set (takeWhile accepted (pending t)) \<Longrightarrow>
    distinct (map result_fd (takeWhile accepted (pending t))) \<Longrightarrow>
    \<exists>conn. interest (accept_all t) fd = Some conn \<and> connections (accept_all t) fd = Some conn"
proof (induction "pending t" arbitrary: t)
  case (Cons r q)
  from Cons.prems(1) Cons.hyps(2) [symmetric] obtain g ok where r: "r = Accepted g ok" "0 \<le> g"
    by (cases r) (auto split: if_splits)
  have p: "pending t = Accepted g ok # q" using Cons.hyps(2) r by simp
  let ?t = "snd (HandleEpollNewConnection t)"
  have q: "pending ?t = q" by (rule new_connection_effect(1) [OF p])
  have d: "distinct (map result_fd (takeWhile accepted q))" "g \<notin> result_fd ` set (takeWhile accepted q)"
    using Cons.prems(2) r(2) by (auto simp: p)
  show ?case
  proof (cases "Accepted fd True \<in> set (takeWhile accepted q)")
    case True
    with Cons.hyps(1) [of ?t] d(1) show ?thesis by (simp add: accept_all_cases(3) [OF p r(2)] q)
  next
    case False
    then have "fd = g" "ok" using Cons.prems(1) r(2) by (auto simp: p)
    with accept_all_keeps [of g ?t] d(2) r(2) new_connection_effect(3) [OF p] show ?thesis
      by (simp add: accept_all_cases(3) [OF p r(2)] q)
  qed
qed simp
section \<open>Properties\<close>

text \<open>
  An event always finds its connection. After any sequence of accepts, upgrades and hang-ups, the object
  that epoll holds for a descriptor belongs to that descriptor and is owned by one of the two tables; the
  open descriptors are exactly the registered ones; every HTTP connection in its table is open. The entry
  of a WebSocket connection is never removed, only replaced, even when its descriptor is closed.
\<close>

theorem connection_tables:
  assumes "table_step\<^sup>*\<^sup>* empty_table t"
  shows "(\<forall>fd conn. interest t fd = Some conn \<longrightarrow>
      fd_of t conn = fd \<and> (connections t fd = Some conn \<or> ws_connections t fd = Some conn)) \<and>
    (\<forall>fd. fd \<in> set (open_fds t) \<longleftrightarrow> interest t fd \<noteq> None) \<and>
    (\<forall>fd conn. connections t fd = Some conn \<longrightarrow> fd_of t conn = fd \<and> fd \<in> set (open_fds t)) \<and>
    (\<forall>t' fd. table_step\<^sup>*\<^sup>* t t' \<and> ws_connections t fd \<noteq> None \<longrightarrow> ws_connections t' fd \<noteq> None)"
proof -
  note d = tables_okD [OF tables_ok_reach [OF assms]]
  have "ws_connections t' fd \<noteq> None" if "table_step\<^sup>*\<^sup>* t t'" and "ws_connections t fd \<noteq> None" for t' fd
    using that by (induction rule: rtranclp_induct) (auto dest: ws_entries_stay)
  moreover have "fd_of t conn = fd \<and> fd \<in> set (open_fds t)" if "connections t fd = Some conn" for fd conn
    using d(4) [OF that] d(1) d(6) [of fd] by simp
  ultimately show ?thesis using d(1,3,6) by blast
qed


text \<open>
  C17: only users broadcast and watch. An upgrade to \<open>/sig\<close> or \<open>/ws/view\<close> without a valid session changes
  nothing but the new connection, on which the close frame 1008 is queued, and installs no callback. With
  one, an upgrade to \<open>/sig\<close> starts a session for exactly that user once the database has the
  stream's row, and fails with the database's exception otherwise.
\<close>

theorem upgrade_authenticated:
  fixes sv :: "'d server"
  assumes "req_path req \<in> {''/sig'', ''/ws/view''}"
    and "UpgradeToWebSocket (backend_ws_app be js deps) (Some (\<lambda>r st. (ExtractAuthenticatedUser secret now r, st))) fd req sv = (e, sv')"
  shows "let ws = next_obj (conn_tables sv); old = site_state sv; new = site_state sv' in
    (ExtractAuthenticatedUser secret now req = Inr None \<longrightarrow>
      e = None \<and> installed sv' ws = None \<and>
      new = set_socket ws (QueueFrame (close_frame 1008 ''Unauthorized'') ((new_ws req)\<lparr>ws_state := CLOSING\<rparr>)) old) \<and>
    (\<forall>user. ExtractAuthenticatedUser secret now req = Inr (Some user) \<and> req_path req = ''/sig'' \<longrightarrow>
      (let sid = GenerateStreamId (sig_rnd deps) in
       case StreamCreate (sig_db deps) (au_id user) sid ''Live Stream'' (store (site_node old)) of
         (Inl x, d) \<Rightarrow> e = Some x \<and> sessions new = sessions old \<and> installed sv' ws = None
       | (Inr row, d) \<Rightarrow> e = None \<and> store (site_node new) = d \<and> installed sv' ws \<noteq> None \<and>
           sessions new = (sessions old)(ws \<mapsto> (sig_fresh deps user)\<lparr>sess_dbStreamId := sid\<rparr>)))"
proof -
  have r: "map_of (auth_ws_routes (backend_ws_app be js deps)) ''/sig'' = Some (sig_setup deps)"
    "map_of (auth_ws_routes (backend_ws_app be js deps)) ''/ws/view'' = Some (view_setup be js)"
    by (simp_all add: backend_ws_app_def RegisterAuthenticatedWebSocketRoute_def RegisterWebSocketRoute_def)
  show ?thesis
    unfolding Let_def
  proof (intro conjI impI allI)
    assume "ExtractAuthenticatedUser secret now req = Inr None"
    then have "e = None" "sv' = sv\<lparr>conn_tables := swap_connection fd (conn_tables sv),
        site_state := close_socket (next_obj (conn_tables sv)) ''Unauthorized''
          (set_socket (next_obj (conn_tables sv)) (new_ws req) (site_state sv)),
        installed := (installed sv)(next_obj (conn_tables sv) := None)\<rparr>"
      using assms r by (auto simp: UpgradeToWebSocket_def Let_def)
    then show "e = None" "installed sv' (next_obj (conn_tables sv)) = None"
      "site_state sv' = set_socket (next_obj (conn_tables sv))
        (QueueFrame (close_frame 1008 ''Unauthorized'') ((new_ws req)\<lparr>ws_state := CLOSING\<rparr>)) (site_state sv)"
      by (simp_all add: close_socket_def set_socket_def CloseWs_def new_ws_def)
  next
    fix user
    assume u: "ExtractAuthenticatedUser secret now req = Inr (Some user) \<and> req_path req = ''/sig''"
    obtain x d where s: "StreamCreate (sig_db deps) (au_id user) (GenerateStreamId (sig_rnd deps)) ''Live Stream''
        (store (site_node (site_state sv))) = (x, d)" by fastforce
    show "case StreamCreate (sig_db deps) (au_id user) (GenerateStreamId (sig_rnd deps)) ''Live Stream''
        (store (site_node (site_state sv))) of
        (Inl x, d) \<Rightarrow> e = Some x \<and> sessions (site_state sv') = sessions (site_state sv) \<and>
          installed sv' (next_obj (conn_tables sv)) = None
      | (Inr row, d) \<Rightarrow> e = None \<and> store (site_node (site_state sv')) = d \<and>
          installed sv' (next_obj (conn_tables sv)) \<noteq> None \<and>
          sessions (site_state sv') = (sessions (site_state sv))(next_obj (conn_tables sv) \<mapsto>
            (sig_fresh deps user)\<lparr>sess_dbStreamId := GenerateStreamId (sig_rnd deps)\<rparr>)"
      using assms(2) u r s
      by (cases x) (auto simp: UpgradeToWebSocket_def run_setup_def sig_setup_def sig_open_def set_socket_def Let_def)
  qed
qed
section \<open>Witnesses\<close>

definition demo_table :: conn_table where
  "demo_table = snd (HandleEpollNewConnection (empty_table\<lparr>pending := pending empty_table @ [Accepted 7 True]\<rparr>))"

lemma demo_table_reach: "table_step\<^sup>*\<^sup>* empty_table (swap_connection 7 demo_table)"
proof -
  have "table_step empty_table (empty_table\<lparr>pending := pending empty_table @ [Accepted 7 True]\<rparr>)" by (rule arrive)
  moreover have "table_step (empty_table\<lparr>pending := pending empty_table @ [Accepted 7 True]\<rparr>) demo_table"
    unfolding demo_table_def by (rule accept [of _ 7 True "[]"]) (simp_all add: empty_table_def)
  moreover have "table_step demo_table (swap_connection 7 demo_table)"
    by (rule upgrade [of _ _ 0]) (simp_all add: demo_table_def empty_table_def HandleEpollNewConnection_def)
  ultimately show ?thesis by (meson rtranclp.rtrancl_into_rtrancl rtranclp.rtrancl_refl)
qed

theorem connection_tables_witness:
  "interest (swap_connection 7 demo_table) 7 = Some 1 \<and> fd_of (swap_connection 7 demo_table) 1 = 7 \<and>
   ws_connections (swap_connection 7 demo_table) 7 = Some 1"
proof -
  have i: "interest (swap_connection 7 demo_table) 7 = Some 1" "connections (swap_connection 7 demo_table) 7 = None"
    by (simp_all add: swap_connection_def demo_table_def empty_table_def HandleEpollNewConnection_def)
  from connection_tables [OF demo_table_reach, THEN conjunct1, rule_format, OF i(1)] i show ?thesis by simp
qed


definition demo_stream_db :: "(string \<Rightarrow> int) stream_db" where
  "demo_stream_db = \<lparr>exec_end_all = (\<lambda>d. (Inr (), d)),
     exec_insert_stream = (\<lambda>i u t d. (Inr (i, u, t, ''live'', ''now''), d)),
     exec_set_ended = (\<lambda>i d. (Inr (), d)), exec_select_stream = (\<lambda>i d. Inr []),
     exec_select_active = (\<lambda>d. Inr []), exec_select_history = (\<lambda>u d. Inr [])\<rparr>"

definition demo_sig :: "(string \<Rightarrow> int) sig_deps" where
  "demo_sig = \<lparr>sig_db = demo_stream_db, sig_be = memory_backends, sig_rnd = (\<lambda>_. 0),
     sig_fresh = (\<lambda>user. new_session (au_username user) ''./recordings'' 0),
     sig_parse = (\<lambda>_. Inl OutOfRange), sig_throws = (\<lambda>_. None)\<rparr>"

definition demo_server :: "(string \<Rightarrow> int) server" where
  "demo_server = \<lparr>conn_tables = demo_table, site_state = \<lparr>site_node = idle_node, sessions = (\<lambda>_. None)\<rparr>, installed = (\<lambda>_. None)\<rparr>"

theorem upgrade_authenticated_witness:
  "ws_state (sockets (site_node (site_state (snd (UpgradeToWebSocket (backend_ws_app memory_backends plain_texts demo_sig)
     (Some (\<lambda>r st. (ExtractAuthenticatedUser None 0 r, st))) 7 (empty_request\<lparr>req_path := ''/sig''\<rparr>) demo_server)))) 1) = CLOSING"
proof -
  let ?req = "empty_request\<lparr>req_path := ''/sig''\<rparr>"
  obtain e sv' where u: "UpgradeToWebSocket (backend_ws_app memory_backends plain_texts demo_sig)
     (Some (\<lambda>r st. (ExtractAuthenticatedUser None 0 r, st))) 7 ?req demo_server = (e, sv')" by fastforce
  have p: "req_path ?req \<in> {''/sig'', ''/ws/view''}" by simp
  have x: "ExtractAuthenticatedUser None 0 ?req = Inr None"
    by (simp add: ExtractAuthenticatedUser_def cookie_token_def empty_request_def)
  have n: "next_obj (conn_tables demo_server) = 1"
    by (simp add: demo_server_def demo_table_def empty_table_def HandleEpollNewConnection_def)
  from upgrade_authenticated [OF p u, unfolded Let_def, THEN conjunct1] x show ?thesis
    unfolding u n by (simp add: set_socket_def QueueFrame_def)
qed

end
