(* ===== verification/JsonApps.thy ===== *)
theory JsonApps
  imports JsonApi Server
begin

text \<open>
  Where the server uses the JSON library: the body parameters of a request
  (\<open>zvejys-rest-api/HttpConnection.cpp\<close>), the texts of the viewer socket and the chat history
  (\<open>routes/viewer-route/VIewerRoutes.cpp\<close>), the list of live streams and the signalling messages
  (\<open>routes/stream-route/StreamerRoutes.cpp\<close>). They are the instances of what the other theories
  take as parameters.
\<close>

section \<open>Body parameters\<close>

text \<open>A \<open>dump\<close> that throws ends the loop; what was stored before stays.\<close>

fun param_items :: "'f float_ops \<Rightarrow> (string \<times> 'f json) list \<Rightarrow> (string \<times> string) list" where
  "param_items fl [] = []"
| "param_items fl ((k, v) # items) =
     (case v of
        JString s \<Rightarrow> (k, s) # param_items fl items
      | _ \<Rightarrow> (case dump fl v of Inl e \<Rightarrow> [] | Inr t \<Rightarrow> (k, t) # param_items fl items))"

definition body_items :: "'f float_ops \<Rightarrow> string \<Rightarrow> (string \<times> string) list option" where
  "body_items fl b =
     (case parse fl b of Inl e \<Rightarrow> None | Inr v \<Rightarrow> Some (param_items fl (json_items_of v)))"

section \<open>The viewer socket\<close>

definition json_int :: "int \<Rightarrow> 'f json" where
  "json_int i = JInteger (word_of_int i)"

definition count_text :: "'f float_ops \<Rightarrow> int \<Rightarrow> string" where
  "count_text fl count =
     (case dump fl (json_object [(''type'', JString ''viewer_count''), (''count'', json_int count)]) of
        Inl e \<Rightarrow> [] | Inr t \<Rightarrow> t)"

definition chat_json :: "ChatMessage \<Rightarrow> 'f json" where
  "chat_json m = json_object [
     (''type'', JString ''chat''),
     (''id'', json_int (chat_id m)),
     (''user_id'', json_int (chat_user_id m)),
     (''username'', JString (chat_username m)),
     (''text'', JString (chat_message m)),
     (''createdAt'', JString (chat_created_at m))]"

definition history_row_json :: "int \<times> string \<times> string \<times> string \<Rightarrow> 'f json" where
  "history_row_json row =
     (case row of (i, username, message, createdAt) \<Rightarrow> json_object [
        (''id'', json_int i),
        (''username'', JString username),
        (''text'', JString message),
        (''createdAt'', JString createdAt)])"

fun push_rows :: "('a \<Rightarrow> 'f json) \<Rightarrow> 'a list \<Rightarrow> 'f json \<Rightarrow> 'f json res" where
  "push_rows row [] arr = Inr arr"
| "push_rows row (m # ms) arr = bind_res (push_back arr (row m)) (push_rows row ms)"

definition rows_text :: "'f float_ops \<Rightarrow> ('a \<Rightarrow> 'f json) \<Rightarrow> 'a list \<Rightarrow> string res" where
  "rows_text fl row ms = bind_res (push_rows row ms (JArray [])) (dump fl)"

definition chat_of_text :: "'f float_ops \<Rightarrow> string \<Rightarrow> (string \<times> string) option" where
  "chat_of_text fl raw =
     (case bind_res (parse fl raw) (\<lambda>msg.
           bind_res (json_value msg ''type'' []) (\<lambda>type.
             if type \<noteq> ''chat'' then Inr (type, [])
             else bind_res (json_value msg ''text'' []) (\<lambda>t. Inr (type, t)))) of
        Inl e \<Rightarrow> None
      | Inr p \<Rightarrow> Some p)"

definition server_texts :: "'f float_ops \<Rightarrow> json_texts" where
  "server_texts fl = \<lparr>
     dump_count = count_text fl,
     dump_chat = (\<lambda>m. dump fl (chat_json m)),
     dump_history = rows_text fl history_row_json,
     parse_chat = chat_of_text fl\<rparr>"

section \<open>Live streams and signalling\<close>

definition live_row_json :: "Stream \<times> int \<Rightarrow> 'f json" where
  "live_row_json row =
     (case row of (s, viewerCount) \<Rightarrow> json_object [
        (''streamId'', JString (stream_id s)),
        (''viewerCount'', json_int viewerCount),
        (''userId'', json_int (stream_user_id s)),
        (''title'', JString (stream_title s)),
        (''startedAt'', JString (stream_started_at s)),
        (''username'', JString (stream_username s))])"

definition live_text :: "'f float_ops \<Rightarrow> (Stream \<times> int) list \<Rightarrow> string res" where
  "live_text fl = rows_text fl live_row_json"

text \<open>\<open>payload[k1][k2]\<close> refers into the payload, and may add both keys to it.\<close>

definition json_index2 :: "'f json \<Rightarrow> string \<Rightarrow> string \<Rightarrow> ('f json \<times> 'f json) res" where
  "json_index2 v k1 k2 =
     bind_res (json_index v k1) (\<lambda>(x, v').
       bind_res (json_index x k2) (\<lambda>(y, x').
         Inr (y, case v' of JObject ms \<Rightarrow> JObject (obj_set k1 x' ms) | _ \<Rightarrow> v')))"

definition signal_of :: "'f float_ops \<Rightarrow> string \<Rightarrow> signal res" where
  "signal_of fl msg =
     bind_res (parse fl msg) (\<lambda>payload. Inr \<lparr>
       sig_type = json_value payload ''type'' [],
       sig_sdp = bind_res (json_index payload ''sdp'') (\<lambda>(x, _). get_string x),
       sig_candidate = bind_res (json_index2 payload ''candidate'' ''candidate'') (\<lambda>(x, _). get_string x),
       sig_mid = bind_res (json_index2 payload ''candidate'' ''candidate'') (\<lambda>(_, payload).
         bind_res (json_index2 payload ''candidate'' ''sdpMid'') (\<lambda>(x, _). get_string x))\<rparr>)"

text \<open>The two callbacks of the peer connection that answer the browser.\<close>

definition send_json :: "'f float_ops \<Rightarrow> 'f json \<Rightarrow> ws_conn \<Rightarrow> ws_conn res" where
  "send_json fl v ws = bind_res (dump fl v) (\<lambda>t. Inr (SendText t ws))"

definition on_local_description :: "'f float_ops \<Rightarrow> string \<Rightarrow> ws_conn \<Rightarrow> ws_conn res" where
  "on_local_description fl answer ws =
     send_json fl (json_object [(''type'', JString ''answer''), (''sdp'', JString answer)]) ws"

definition on_local_candidate :: "'f float_ops \<Rightarrow> string \<Rightarrow> string \<Rightarrow> ws_conn \<Rightarrow> ws_conn res" where
  "on_local_candidate fl candidate mid ws =
     send_json fl (json_object [(''type'', JString ''candidate''), (''candidate'', JString candidate),
       (''mid'', JString mid)]) ws"

section \<open>Texts the library accepts\<close>

text \<open>The compact layout of \<open>dump()\<close>, which is also the one of a browser's \<open>JSON.stringify\<close>.\<close>

abbreviation compact :: layout where
  "compact \<equiv> dump_layout (-1) (CHR '' '') False Strict"

lemma dump_text: "dump fl v = (if strings_utf8 v then Inr (json_text fl compact 0 v) else Inl (JsonError 316))"
  by (simp add: dump_def dump_json_text)

text \<open>The text of one value is read whatever follows, as long as the next token ends the input.\<close>

lemma parse_reads:
  assumes "reads fl t v" and "t \<noteq> []" and "hd t \<noteq> CHR 0xEF"
    and "number_end s" and "scan fl s = (EndOfInput, r)"
  shows "parse fl (t @ s) = Inr v"
proof -
  define p :: "'a parser" where "p = \<lparr>last_token = EndOfInput, input = [], states = [], skip_eval = False,
    sdp = \<lparr>dom_root = JNull, ref_stack = []\<rparr>\<rparr>"
  have "parser_init fl (t @ s) = at_value fl (t @ s) p"
    using first_scan_json_text [of "t @ s" fl] assms(2,3)
    by (simp add: parser_init_def at_value_def p_def split: prod.split)
  moreover from assms(1,4) obtain tok where
    "parse_loop fl (at_value fl (t @ s) p) = parse_loop fl (value_done tok s v p)"
    unfolding reads_def by blast
  moreover have "parse_loop fl (value_done tok s v p) =
      Inr (p\<lparr>last_token := tok, input := s, sdp := \<lparr>dom_root = v, ref_stack = []\<rparr>\<rparr>)"
    by (subst parse_loop.simps) (simp add: parse_step_def value_done_def after_value_def p_def handle_value_def)
  ultimately show ?thesis using assms(5) by (simp add: parse_def get_token_def p_def)
qed

text \<open>A braced list of members in any order, as a browser writes an object.\<close>

definition js_members :: "(string \<times> string) list \<Rightarrow> string" where
  "js_members kts = ''{'' @ sep_by '','' (map (\<lambda>(k, t). quoted compact k @ '':'' @ t) kts) @ ''}''"

definition js_object :: "'f float_ops \<Rightarrow> (string \<times> 'f json) list \<Rightarrow> string" where
  "js_object fl kvs = js_members (map (\<lambda>(k, v). (k, json_text fl compact 0 v)) kvs)"

lemma compact_not_pretty [simp]: "\<not> lay_pretty compact"
  by (simp add: dump_layout_def)

lemma reads_js_members:
  assumes "\<And>k t v. (k, t, v) \<in> set es \<Longrightarrow> utf8 k \<and> reads fl t v" and "es \<noteq> []"
  shows "reads fl (js_members (map (\<lambda>(k, t, v). (k, t)) es)) (JObject (fold (\<lambda>(k, t, v). obj_set k v) es []))"
  using reads_object [OF assms, of "[]" "[]" "[]" compact]
  by (simp add: js_members_def comp_def split_def)

lemma reads_js_object:
  assumes "\<And>k v. (k, v) \<in> set kvs \<Longrightarrow> utf8 k \<and> strings_utf8 v \<and> keys_sorted v \<and> floats_ok fl v" and "kvs \<noteq> []"
  shows "reads fl (js_object fl kvs) (JObject (fold (\<lambda>(k, v). obj_set k (reread fl v)) kvs []))"
proof -
  let ?es = "map (\<lambda>(k, v). (k, json_text fl compact 0 v, reread fl v)) kvs"
  have "reads fl (js_members (map (\<lambda>(k, t, v). (k, t)) ?es)) (JObject (fold (\<lambda>(k, t, v). obj_set k v) ?es []))"
  proof (rule reads_js_members)
    show "utf8 k \<and> reads fl t v" if "(k, t, v) \<in> set ?es" for k t v
      using that assms(1) reads_json_text [of compact _ fl 0] by auto
  qed (use assms(2) in simp_all)
  then show ?thesis by (simp add: js_object_def comp_def split_def fold_map)
qed

lemma parse_js_object:
  assumes "\<And>k v. (k, v) \<in> set kvs \<Longrightarrow> utf8 k \<and> strings_utf8 v \<and> keys_sorted v \<and> floats_ok fl v" and "kvs \<noteq> []"
  shows "parse fl (js_object fl kvs) = Inr (JObject (fold (\<lambda>(k, v). obj_set k (reread fl v)) kvs []))"
  using parse_reads [OF reads_js_object [OF assms], of "[]"]
  by (simp add: js_object_def js_members_def number_end_def scan_def scan_token_def)

section \<open>Objects by key\<close>


lemma map_of_fold_obj_set:
  "distinct (map fst kvs) \<Longrightarrow> map_of (fold (\<lambda>(k, v). obj_set k (f v)) kvs ms) k =
    (case map_of kvs k of Some v \<Rightarrow> Some (f v) | None \<Rightarrow> map_of ms k)"
proof (induction kvs arbitrary: ms)
  case (Cons kv kvs)
  obtain a b where kv: "kv = (a, b)" by fastforce
  have "map_of kvs a = None" using Cons.prems by (simp add: kv map_of_eq_None_iff)
  with Cons show ?case by (auto simp: kv map_of_obj_set split: option.split)
qed simp

lemma set_fold_obj_set:
  "set (fold (\<lambda>(k, v). obj_set k (f v)) kvs ms) \<subseteq> (\<lambda>(k, v). (k, f v)) ` set kvs \<union> set ms"
proof (induction kvs arbitrary: ms)
  case (Cons kv kvs)
  obtain a b where kv: "kv = (a, b)" by fastforce
  show ?case using Cons.IH [of "obj_set a (f b) ms"] set_obj_set [of a "f b" ms] by (auto simp: kv)
qed simp

text \<open>The parameters of a body whose values are strings.\<close>

lemma param_items_strings:
  "\<forall>(k, v) \<in> set items. \<exists>s. v = JString s \<Longrightarrow> param_items fl items = map (\<lambda>(k, v). (k, projr (get_string v))) items"
  by (induction items) (auto simp: get_string_def)

lemma map_of_foldl_pairs:
  "map_of (foldl (\<lambda>m (k, v). smap_set k v m) m kvs) k =
    (case map_of (rev kvs) k of Some v \<Rightarrow> Some v | None \<Rightarrow> map_of m k)"
proof (induction kvs arbitrary: m)
  case (Cons kv kvs)
  obtain a b where kv: "kv = (a, b)" by fastforce
  show ?case using Cons.IH [of "smap_set a b m"]
    by (auto simp: kv update_conv' map_add_def split: option.splits)
qed simp

lemma sorted_keys_fold:
  "sorted_wrt (<) (map fst ms) \<Longrightarrow> sorted_wrt (<) (map fst (fold (\<lambda>(k, v). obj_set k (f v)) kvs ms))"
  by (induction kvs arbitrary: ms) (auto simp: obj_set_sorted)

lemma map_of_rev_distinct: "distinct (map fst ms) \<Longrightarrow> map_of (rev ms) = map_of ms"
  by (metis distinct_rev map_of_eqI map_of_eq_Some_iff rev_map set_rev map_of_inject_set set_map)

text \<open>A form sent as JSON, every field a string.\<close>

definition string_fields :: "(string \<times> string) list \<Rightarrow> (string \<times> 'f json) list" where
  "string_fields kvs = map (\<lambda>(k, v). (k, JString v)) kvs"

lemma body_items_form:
  assumes "\<And>k v. (k, v) \<in> set kvs \<Longrightarrow> utf8 k \<and> utf8 v" and "kvs \<noteq> []" and "distinct (map fst kvs)"
  shows "\<exists>items. body_items fl (js_object fl (string_fields kvs)) = Some items \<and>
    map_of (foldl (\<lambda>m (k, v). smap_set k v m) [] items) = map_of kvs"
proof -
  let ?kvs = "string_fields kvs :: (string \<times> 'a json) list"
  let ?ms = "fold (\<lambda>(k, v). obj_set k (reread fl v)) ?kvs []"
  have p: "parse fl (js_object fl ?kvs) = Inr (JObject ?ms)"
    by (rule parse_js_object) (use assms(1,2) in \<open>auto simp: string_fields_def\<close>)
  have st: "\<forall>(k, v) \<in> set ?ms. \<exists>s. v = JString s"
    using set_fold_obj_set [of "reread fl" ?kvs "[]"] by (fastforce simp: string_fields_def)
  let ?items = "map (\<lambda>(k, v). (k, projr (get_string v))) ?ms"
  have b: "body_items fl (js_object fl ?kvs) = Some ?items"
    by (simp add: body_items_def p json_items_of_def param_items_strings [OF st])
  have "sorted_wrt (<) (map fst ?ms)" by (rule sorted_keys_fold) simp
  then have "distinct (map fst ?ms)" using strict_sorted_iff by blast
  then have "distinct (map fst ?items)" by (simp add: comp_def split_def)
  then have r: "map_of (rev ?items) = map_of ?items" by (rule map_of_rev_distinct)
  have "map_of ?items k = map_of kvs k" for k
  proof -
    have "distinct (map fst ?kvs)" using assms(3) by (simp add: string_fields_def comp_def split_def)
    from map_of_fold_obj_set [OF this, of "reread fl" "[]" k]
    have "map_of ?ms k = (case map_of ?kvs k of Some v \<Rightarrow> Some (reread fl v) | None \<Rightarrow> None)"
      by (simp split: option.split)
    moreover have "map_of ?kvs k = map_option JString (map_of kvs k)"
      unfolding string_fields_def by (simp add: map_of_map)
    moreover have "map_of ?items k = map_option (\<lambda>v. projr (get_string v)) (map_of ?ms k)"
      by (simp add: map_of_map)
    ultimately show ?thesis by (cases "map_of kvs k") (simp_all add: get_string_def)
  qed
  then have "map_of (foldl (\<lambda>m (k, v). smap_set k v m) [] ?items) = map_of kvs"
    by (intro ext) (simp only: map_of_foldl_pairs r, simp split: option.split)
  with b show ?thesis by blast
qed

section \<open>Properties of the library\<close>



lemma not_utf8_FF: "\<not> utf8 [CHR 0xFF]"
proof -
  have "dump_escaped Strict False [CHR 0xFF] = Inl (JsonError 316)" by code_simp
  then show ?thesis by (simp add: dump_escaped_strict_error)
qed



lemma json_text_reread: "json_text fl l cur (reread fl v) = json_text fl l cur v"
proof (induction v arbitrary: cur)
  case (JInteger x)
  show ?case by (simp add: int_to_string_def unat_nonneg)
next
  case (JObject ms)
  then have "map (\<lambda>(k, v). key_text l k @ json_text fl l (deeper l cur) (reread fl v)) ms =
      map (\<lambda>(k, v). key_text l k @ json_text fl l (deeper l cur) v) ms" by (intro map_cong) auto
  then show ?case by (simp add: comp_def split_def del: map_eq_conv)
next
  case (JArray xs)
  then have "map (json_text fl l (deeper l cur) \<circ> reread fl) xs = map (json_text fl l (deeper l cur)) xs" by simp
  then show ?case by (simp del: map_eq_conv)
qed (simp_all add: dump_float_def)

lemma strings_utf8_reread: "strings_utf8 (reread fl v) = strings_utf8 v"
  by (induction v) (auto simp: split_def)

text \<open>
  C25: what \<open>parse\<close> can return. On any bytes it ends, with error 101 or 406 or with a value in
  which every string and key is UTF-8 and every object is sorted by strictly increasing keys; such
  a value can be dumped, and when its numbers are finite and survive conversion, dumping and
  parsing again gives it in a normal form that no further round changes.
\<close>

theorem parse_type:
  shows "parse fl s \<in> {Inl (JsonError 101), Inl (JsonError 406)} \<or>
    (\<exists>v t. parse fl s = Inr v \<and> strings_utf8 v \<and> keys_sorted v \<and> dump fl v = Inr t \<and>
      (floats_ok fl v \<longrightarrow> parse fl t = Inr (reread fl v) \<and> dump fl (reread fl v) = Inr t))"
proof (cases "parse fl s")
  case (Inl e)
  with parse_error [OF this] show ?thesis by auto
next
  case (Inr v)
  note ok = parse_ok [OF Inr]
  have "dump fl v = Inr (json_text fl compact 0 v)" by (simp add: dump_text ok)
  moreover have "dump fl (reread fl v) = Inr (json_text fl compact 0 v)"
    by (simp add: dump_text ok strings_utf8_reread json_text_reread)
  ultimately show ?thesis using Inr ok parse_json_text [of compact v fl 0] by auto
qed

theorem parse_type_witness:
  "\<exists>t. dump text_floats (JArray [JString ''a'', JNull]) = Inr t \<and>
    parse text_floats t = Inr (JArray [JString ''a'', JNull])"
proof -
  let ?v = "JArray [JString ''a'', JNull]"
  have "utf8 ''a''" by (rule utf8_ascii) simp
  then have "parse text_floats (json_text text_floats compact 0 ?v) = Inr ?v"
    using parse_json_text [of compact ?v text_floats 0] by (simp add: dump_layout_def)
  with parse_type [of text_floats "json_text text_floats compact 0 ?v"] show ?thesis by auto
qed

section \<open>Plain strings\<close>

text \<open>Bytes that a JSON string holds as they are: no quotes, backslashes, control characters.\<close>

definition plain :: "string \<Rightarrow> bool" where
  "plain s \<longleftrightarrow> (\<forall>c \<in> set s. c \<noteq> CHR 0x22 \<and> c \<noteq> CHR 0x5C \<and> 0x20 \<le> code c)"

lemma next_byte_plain:
  assumes "next_byte_in_range rs buf (s @ CHR 0x22 # r) = (Some buf', s')" and "\<forall>(lo, hi) \<in> set rs. 0x80 \<le> lo"
  shows "\<exists>u. s = u @ drop (length u) s \<and> buf' = buf @ u \<and> s' = drop (length u) s @ CHR 0x22 # r"
  using assms
proof (induction rs buf s arbitrary: buf' rule: next_byte_in_range.induct)
  case (1 buf s)
  then show ?case by (intro exI [of _ "[]"]) simp
next
  case (2 lo hi rs buf)
  then show ?case by (simp split: if_splits)
next
  case (3 lo hi rs buf c s)
  then have c: "lo \<le> code c \<and> code c \<le> hi"
    "next_byte_in_range rs (buf @ [c]) (s @ CHR 0x22 # r) = (Some buf', s')" by (auto split: if_splits)
  from "3.IH" [OF c] "3.prems"(2) obtain u where
    "s = u @ drop (length u) s" "buf' = (buf @ [c]) @ u" "s' = drop (length u) s @ CHR 0x22 # r" by auto
  then show ?case by (intro exI [of _ "c # u"]) simp
qed

lemma lead_ranges_low: "lead_ranges b = Some rs \<Longrightarrow> \<forall>(lo, hi) \<in> set rs. 0x80 \<le> lo"
  by (erule lead_ranges_cases) simp_all

lemma scan_plain_string:
  fixes buf :: string
  shows "plain s \<Longrightarrow> scan_string buf (s @ CHR 0x22 # r) = (ValueString (buf @ s) :: 'f token, r) \<or>
    (\<exists>e r'. scan_string buf (s @ CHR 0x22 # r) = (ParseError e :: 'f token, r'))"
proof (induction "length s" arbitrary: s buf rule: less_induct)
  case less
  show ?case
  proof (cases s)
    case Nil
    then show ?thesis by simp
  next
    case (Cons c t)
    with less.prems have c: "c \<noteq> CHR 0x22" "c \<noteq> CHR 0x5C" "\<not> code c < 0x20" and t: "plain t"
      by (auto simp: plain_def)
    show ?thesis
    proof (cases "code c < 0x80")
      case True
      with less.hyps [OF _ t, of "buf @ [c]"] Cons c show ?thesis by simp
    next
      case high: False
      show ?thesis
      proof (cases "lead_ranges (code c)")
        case None
        with Cons c high show ?thesis by simp
      next
        case (Some rs)
        obtain b s' where n: "next_byte_in_range rs (buf @ [c]) (t @ CHR 0x22 # r) = (b, s')" by fastforce
        show ?thesis
        proof (cases b)
          case None
          with Cons c high Some n show ?thesis by simp
        next
          case b: (Some buf')
          from next_byte_plain [of rs "buf @ [c]" t r buf' s'] n b lead_ranges_low [OF Some] obtain u where
            u: "t = u @ drop (length u) t" "buf' = (buf @ [c]) @ u" "s' = drop (length u) t @ CHR 0x22 # r" by auto
          have p: "plain (drop (length u) t)" using t by (auto simp: plain_def dest: in_set_dropD)
          have e: "buf' @ drop (length u) t = buf @ s" using u(1,2) Cons by (metis append.assoc append_Cons append_Nil)
          have "length (drop (length u) t) < length s" using Cons by simp
          from less.hyps [OF this p, of buf'] show ?thesis
            using Cons c high Some n b u(3) by (simp add: e)
        qed
      qed
    qed
  qed
qed

lemma escaped_text_plain:
  assumes "plain s" and "utf8 s"
  shows "escaped_text eh False s = s"
proof -
  obtain cps where cps: "\<forall>cp \<in> set cps. scalar cp" "s = text_of cps" using assms(2) by (auto simp: utf8_iff)
  have "escape_codepoint False cp = codepoint_text cp" if "cp \<in> set cps" for cp
  proof (cases "cp < 0x80")
    case True
    then have "codepoint_text cp = [char_of cp]" by (simp add: codepoint_text_def codepoint_bytes_def)
    then have "char_of cp \<in> set s" using that unfolding cps(2) text_of_def set_concat set_map by (intro UN_I) auto
    with assms(1) have "char_of cp \<noteq> CHR 0x22" "char_of cp \<noteq> CHR 0x5C" "0x20 \<le> code (char_of cp)"
      unfolding plain_def by blast+
    moreover have "code (char_of cp) = cp" using True by simp
    moreover have "char_of (0x22 :: nat) = CHR 0x22" "char_of (0x5C :: nat) = CHR 0x5C" by code_simp+
    ultimately have "cp \<noteq> 0x22 \<and> cp \<noteq> 0x5C \<and> 0x20 \<le> cp" by metis
    then show ?thesis by (simp add: escape_codepoint_def escaped_def)
  qed (simp add: escape_codepoint_def escaped_def)
  then have "map (escape_codepoint False) cps = map codepoint_text cps" by simp
  then have "concat (map (escape_codepoint False) cps) = s"
    by (simp only: cps(2) text_of_def)
  with dump_escaped_text [OF cps(1), of eh False] cps(2) show ?thesis by (simp add: escaped_text_def)
qed

text \<open>
  The two decoders of UTF-8 agree. The scanner of string tokens checks bytes by ranges, the
  serializer by an automaton in a table of 400 entries; on every sequence of bytes without quotes,
  backslashes and control characters both accept exactly the UTF-8 encodings of sequences of
  Unicode scalar values, and neither changes them.
\<close>

theorem utf8_decoders_agree:
  assumes "plain s"
  shows "parse fl ([CHR 0x22] @ s @ [CHR 0x22]) = (if utf8 s then Inr (JString s) else Inl (JsonError 101)) \<and>
    dump fl (JString s) = (if utf8 s then Inr ([CHR 0x22] @ s @ [CHR 0x22]) else Inl (JsonError 316))"
proof (cases "utf8 s")
  case True
  have q: "quoted compact s = [CHR 0x22] @ s @ [CHR 0x22]"
    using escaped_text_plain [OF assms True, of Strict] by (simp add: quoted_def dump_layout_def)
  from parse_json_text [of compact "JString s" fl 0] True q show ?thesis by (simp add: dump_text)
next
  case False
  let ?t = "[CHR 0x22] @ s @ [CHR 0x22]"
  have fs: "first_scan fl ?t = scan_string [] (s @ CHR 0x22 # [])"
    by (simp add: first_scan_def skip_bom_def scan_def scan_token_def is_ws_def)
  have "\<exists>e r. scan_string [] (s @ CHR 0x22 # []) = (ParseError e :: 'a token, r)"
  proof (rule ccontr)
    assume "\<nexists>e r. scan_string [] (s @ CHR 0x22 # []) = (ParseError e :: 'a token, r)"
    with scan_plain_string [OF assms, of "[]" "[]", where 'f = 'a] have "scan fl ?t = (ValueString s, [])"
      by (simp add: scan_def scan_token_def is_ws_def)
    with scan_string_token False show False by blast
  qed
  then obtain e r where "scan_string [] (s @ CHR 0x22 # []) = (ParseError e :: 'a token, r)" by blast
  then have "parse fl ?t = Inl (JsonError 101)"
    unfolding parse_def parser_init_def fs
    by (subst parse_loop.simps) (simp add: parse_step_def value_step_def)
  with False show ?thesis by (simp add: dump_text)
qed

theorem utf8_decoders_agree_witness:
  "parse text_floats ([CHR 0x22] @ [CHR 0xFF] @ [CHR 0x22]) = Inl (JsonError 101)"
  using utf8_decoders_agree [of "[CHR 0xFF]" text_floats] not_utf8_FF by (simp add: plain_def)

text \<open>
  C30: integers. For every 64-bit signed integer, the least one included, \<open>dump_integer\<close> writes
  its decimal digits with a minus sign when it is negative, whatever its buffer of 64 bytes held
  before, and no write falls outside the buffer; the same holds for unsigned integers.
\<close>

theorem dump_integer_text:
  assumes "length buffer = 64"
  shows "dump_signed x buffer = Inr (int_to_string (sint x)) \<and>
    dump_unsigned y buffer = Inr (nat_to_string (unat y))"
  using dump_signed_text [OF assms] dump_unsigned_text [OF assms] by simp

theorem dump_integer_text_witness:
  "dump_signed (-0x8000000000000000) number_buffer = Inr ''-9223372036854775808''"
proof -
  have "sint (-0x8000000000000000 :: i64) = -9223372036854775808" by simp
  moreover have "int_to_string (-9223372036854775808) = ''-9223372036854775808''"
    by (simp add: int_to_string_def nat_to_string.simps digit_char_def) code_simp
  ultimately have "int_to_string (sint (-0x8000000000000000 :: i64)) = ''-9223372036854775808''" by simp
  with dump_integer_text [of number_buffer "-0x8000000000000000" 0] show ?thesis
    by (simp add: number_buffer_def)
qed

section \<open>The browser's messages\<close>

text \<open>A form sent by the browser, from the bytes of the request to the handler's parameters.\<close>

lemma form_request:
  assumes "word_ok (target_text path kvs)" and "word_ok version" and "CHR ''?'' \<notin> set path"
    and "list_all query_ok kvs" and "hs \<noteq> []" and "list_all header_ok hs"
    and "map_of (rev hs) ''Content-Type'' = Some ''application/json''"
    and "\<And>k v. (k, v) \<in> set form \<Longrightarrow> utf8 k \<and> utf8 v" and "form \<noteq> []" and "distinct (map fst form)"
  shows "\<exists>request. ParseRequest (body_items fl)
      (print_request m path kvs version hs (js_object fl (string_fields form))) = Inr request \<and>
    req_method request = Some m \<and> req_path request = path \<and> (\<forall>k. BodyParam request k = map_of form k)"
proof -
  let ?b = "js_object fl (string_fields form)"
  let ?hdrs = "foldl (\<lambda>m (k, v). smap_set k v m) [] hs"
  obtain items where i: "body_items fl ?b = Some items"
    "map_of (foldl (\<lambda>m (k, v). smap_set k v m) [] items) = map_of form"
    using body_items_form [OF assms(8-10)] by blast
  have "map_of ?hdrs ''Content-Type'' = Some ''application/json''"
    using assms(7) by (simp add: map_of_foldl_pairs)
  moreover have "find_sub ''application/json'' ''application/json'' \<noteq> None" by code_simp
  moreover have "?b \<noteq> []" by (simp add: js_object_def js_members_def)
  ultimately have "json_body_params (body_items fl) ?hdrs ?b = foldl (\<lambda>m (k, v). smap_set k v m) [] items"
    by (simp add: json_body_params_def i(1))
  with ParseRequest_print [OF assms(1-6), of "body_items fl" m ?b] i(2) show ?thesis
    by (simp add: BodyParam_def Let_def)
qed

text \<open>
  A registration from the browser to the account table. The request whose body is the
  browser's JSON object of the three fields, in its order and with any characters in them, is
  parsed to a request for which the handler of \<open>/api/users/register\<close> checks exactly the three
  texts that were typed and creates the account with them.
\<close>

theorem browser_registration:
  assumes "hs \<noteq> []" and "list_all header_ok hs" and "map_of (rev hs) ''Content-Type'' = Some ''application/json''"
    and "utf8 u" and "utf8 m" and "utf8 p"
  shows "\<exists>request. ParseRequest (body_items fl)
      (print_request POST ''/api/users/register'' [] ''HTTP/1.1'' hs
        (js_object fl [(''username'', JString u), (''email'', JString m), (''password'', JString p)])) = Inr request \<and>
    register_handler deps request d =
      (case ValidateUsername u of
         Some err \<Rightarrow> (Inr (UnprocessableEntity err), d)
       | None \<Rightarrow>
           (case ValidateEmail m of
              Some err \<Rightarrow> (Inr (UnprocessableEntity err), d)
            | None \<Rightarrow>
                (case ValidatePassword p of
                   Some err \<Rightarrow> (Inr (UnprocessableEntity err), d)
                 | None \<Rightarrow> create_account deps u m p d)))"
proof -
  let ?form = "[(''username'', u), (''email'', m), (''password'', p)]"
  have w: "word_ok (target_text ''/api/users/register'' [])" "word_ok ''HTTP/1.1''"
    by (simp_all add: word_ok_def target_text_def is_space_def)
  have k: "utf8 ''username''" "utf8 ''email''" "utf8 ''password''" by (rule utf8_ascii; simp)+
  have f: "\<And>a b. (a, b) \<in> set ?form \<Longrightarrow> utf8 a \<and> utf8 b" using k assms(4-6) by auto
  obtain request where
    "ParseRequest (body_items fl) (print_request POST ''/api/users/register'' [] ''HTTP/1.1'' hs
      (js_object fl (string_fields ?form))) = Inr request" "\<forall>k. BodyParam request k = map_of ?form k"
    using form_request [of "''/api/users/register''" "[]" "''HTTP/1.1''" hs ?form fl POST, OF w _ _ assms(1-3) f]
    by auto
  then show ?thesis by (intro exI [of _ request]) (simp add: register_handler_def string_fields_def)
qed

theorem browser_registration_witness:
  "\<exists>request. ParseRequest (body_items text_floats)
      (print_request POST ''/api/users/register'' [] ''HTTP/1.1'' [(''Content-Type'', ''application/json'')]
        (js_object text_floats [(''username'', JString ''alice''), (''email'', JString ''alice@example.com''),
          (''password'', JString ''Passw0rd'')])) = Inr request \<and>
    register_handler demo_deps request [] = create_account demo_deps ''alice'' ''alice@example.com'' ''Passw0rd'' []"
proof -
  have u: "utf8 ''alice''" "utf8 ''alice@example.com''" "utf8 ''Passw0rd''" by (rule utf8_ascii; simp)+
  have v: "ValidateUsername ''alice'' = None" "ValidateEmail ''alice@example.com'' = None"
    "ValidatePassword ''Passw0rd'' = None" by code_simp+
  from browser_registration [of "[(''Content-Type'', ''application/json'')]", OF _ _ _ u, of text_floats demo_deps "[]"] v
  show ?thesis by (simp add: header_ok_def)
qed

text \<open>What a parsed text holds under its keys.\<close>

lemma json_value_fold:
  assumes "distinct (map fst kvs)"
  shows "json_value (JObject (fold (\<lambda>(k, v). obj_set k (f v)) kvs [])) k dflt =
    (case map_of kvs k of Some v \<Rightarrow> get_string (f v) | None \<Rightarrow> Inr dflt)"
  using map_of_fold_obj_set [OF assms, of f "[]" k]
  by (simp add: json_value_def json_find_def split: option.split)

lemma keys_sorted_object:
  assumes "\<And>k v. (k, v) \<in> set kvs \<Longrightarrow> utf8 k \<and> value_ok v"
  shows "strings_utf8 (json_object kvs)" and "keys_sorted (json_object kvs)"
  using value_ok_object [of kvs] assms by (auto simp: value_ok_def)

lemma map_of_map_snd: "map_of (map (\<lambda>(k, v). (k, f v)) ms) k = map_option f (map_of ms k)"
  by (induction ms) auto

lemma json_value_reread:
  "json_value (JObject ms) k dflt = Inr s \<Longrightarrow> map_of ms k = Some (JString s) \<Longrightarrow>
    json_value (reread fl (JObject ms)) k dflt = Inr s"
  by (simp add: json_value_def json_find_def map_of_map_snd get_string_def)

lemma map_of_json_object: "json_object kvs = JObject ms \<Longrightarrow> map_of ms k = map_of kvs k"
  using json_find_object [of kvs k] by (simp add: json_find_def)

text \<open>A braced object of strings and integers is written, and read back with the same strings.\<close>

definition flat :: "'f json \<Rightarrow> bool" where
  "flat v \<longleftrightarrow> (case v of JString s \<Rightarrow> utf8 s | JInteger i \<Rightarrow> True | _ \<Rightarrow> False)"

lemma flat_simps [simp]: "flat (JString s) = utf8 s" "flat (json_int i)"
  by (simp_all add: flat_def json_int_def)

lemma flat_ok: "flat v \<Longrightarrow> value_ok v \<and> floats_ok fl v"
  by (cases v) (simp_all add: flat_def)

lemma set_emplace: "set (obj_emplace k v ms) \<subseteq> insert (k, v) (set ms)"
  using set_obj_set [of k v ms] by (auto simp: obj_emplace_def)

lemma set_fold_emplace: "set (fold (\<lambda>(k, v). obj_emplace k v) kvs ms) \<subseteq> set kvs \<union> set ms"
proof (induction kvs arbitrary: ms)
  case (Cons kv kvs)
  obtain a b where kv: "kv = (a, b)" by fastforce
  show ?case using Cons.IH [of "obj_emplace a b ms"] set_emplace [of a b ms] by (auto simp: kv)
qed simp

lemma flat_object:
  assumes "\<And>k v. (k, v) \<in> set kvs \<Longrightarrow> utf8 k \<and> flat v"
  shows "\<exists>t v. dump fl (json_object kvs) = Inr t \<and> parse fl t = Inr v \<and>
    (\<forall>k s. map_of kvs k = Some (JString s) \<longrightarrow> json_value v k [] = Inr s)"
proof -
  have ok: "\<And>k v. (k, v) \<in> set kvs \<Longrightarrow> utf8 k \<and> value_ok v"
    using assms flat_ok by blast
  note u = keys_sorted_object [of kvs, OF ok]
  obtain ms where ms: "json_object kvs = JObject ms" by (simp add: json_object_members)
  have "floats_ok fl v" if "(k, v) \<in> set ms" for k v
  proof -
    have "(k, v) \<in> set kvs"
      using that ms set_fold_emplace [of kvs "[]"] by (auto simp: json_object_members)
    from assms [OF this] flat_ok show ?thesis by blast
  qed
  then have fo: "floats_ok fl (json_object kvs)" by (auto simp: ms)
  have "json_value (reread fl (JObject ms)) k [] = Inr s" if "map_of kvs k = Some (JString s)" for k s
  proof (rule json_value_reread)
    show m: "map_of ms k = Some (JString s)" using that map_of_json_object [OF ms] by simp
    show "json_value (JObject ms) k [] = Inr s" by (simp add: json_value_def json_find_def m get_string_def)
  qed
  moreover have "dump fl (JObject ms) = Inr (json_text fl compact 0 (JObject ms))"
    using u(1) unfolding ms dump_text by (rule if_P)
  moreover have "parse fl (json_text fl compact 0 (JObject ms)) = Inr (reread fl (JObject ms))"
    using parse_json_text [of compact "JObject ms" fl 0] u fo ms by simp
  ultimately show ?thesis unfolding ms by blast
qed

text \<open>
  C27: a chat message from browser to browser. The text a user types, any 1 to 500 bytes of UTF-8,
  sent as the browser's JSON object, is stored as it is and published as a JSON object in which
  every receiver finds the type \<open>chat\<close>, the same text, the sender's name and the time the database
  gave it. The name and the time of the stored row are taken to be UTF-8.
\<close>

theorem browser_chat:
  fixes fl :: "'f float_ops"
  assumes "utf8 t" and "t \<noteq> []" and "length t \<le> 500"
    and "exec_insert_chat be s (int_to_string (au_id user)) (au_username user) t (store n) = (Inr saved, d)"
    and "chat_message saved = t" and "utf8 (chat_username saved)" and "utf8 (chat_created_at saved)"
  shows "\<exists>sent v. viewer_message be (server_texts fl) s user
      (bytes_of (js_object fl [(''type'', JString ''chat''), (''text'', JString t)])) TEXT n =
        n\<lparr>store := snd (api_publish be (''chat:'' @ s) sent d)\<rparr> \<and>
    parse fl sent = Inr v \<and>
    json_value v ''type'' [] = Inr ''chat'' \<and> json_value v ''text'' [] = Inr t \<and>
    json_value v ''username'' [] = Inr (chat_username saved) \<and>
    json_value v ''createdAt'' [] = Inr (chat_created_at saved)"
proof -
  let ?msg = "js_object fl [(''type'', JString ''chat''), (''text'', JString t)]"
  have ascii: "utf8 ''type''" "utf8 ''text''" "utf8 ''chat''" "utf8 ''id''" "utf8 ''user_id''"
    "utf8 ''username''" "utf8 ''createdAt''" by (rule utf8_ascii; simp)+
  have "parse fl ?msg = Inr (JObject (fold (\<lambda>(k, v). obj_set k (reread fl v))
      [(''type'', JString ''chat''), (''text'', JString t)] []))"
    by (rule parse_js_object) (use ascii assms(1) in auto)
  then have p: "parse_chat (server_texts fl) ?msg = Some (''chat'', t)"
    by (simp add: server_texts_def chat_of_text_def json_value_def json_find_def get_string_def)
  let ?kvs = "[(''type'', JString ''chat''), (''id'', json_int (chat_id saved)),
     (''user_id'', json_int (chat_user_id saved)), (''username'', JString (chat_username saved)),
     (''text'', JString (chat_message saved)), (''createdAt'', JString (chat_created_at saved))] :: (string \<times> 'f json) list"
  have "\<exists>sent v. dump fl (json_object ?kvs) = Inr sent \<and> parse fl sent = Inr v \<and>
      (\<forall>k s. map_of ?kvs k = Some (JString s) \<longrightarrow> json_value v k [] = Inr s)"
    by (rule flat_object) (use ascii assms(1,5-7) in auto)
  then obtain sent v where sent: "dump fl (chat_json saved) = Inr sent" "parse fl sent = Inr v"
    "\<forall>k s. map_of ?kvs k = Some (JString s) \<longrightarrow> json_value v k [] = Inr s"
    unfolding chat_json_def by blast
  have "viewer_message be (server_texts fl) s user (bytes_of ?msg) TEXT n =
      n\<lparr>store := snd (api_publish be (''chat:'' @ s) sent d)\<rparr>"
    using p assms(2-4) sent(1) by (simp add: viewer_message_def ChatInsert_def server_texts_def del: map_map)
  moreover have "json_value v ''type'' [] = Inr ''chat''" "json_value v ''text'' [] = Inr t"
    "json_value v ''username'' [] = Inr (chat_username saved)"
    "json_value v ''createdAt'' [] = Inr (chat_created_at saved)"
    using sent(3) assms(5) by simp_all
  ultimately show ?thesis using sent(2) by blast
qed

theorem browser_chat_witness:
  "\<exists>sent v. viewer_message memory_backends (server_texts text_floats) ''ann'' \<lparr>au_id = 7, au_username = ''bob''\<rparr>
      (bytes_of (js_object text_floats [(''type'', JString ''chat''), (''text'', JString [CHR ''h'', CHR 0x22, CHR ''i''])]))
      TEXT idle_node = idle_node\<lparr>store := snd (api_publish memory_backends ''chat:ann'' sent (store idle_node))\<rparr> \<and>
    parse text_floats sent = Inr v \<and> json_value v ''text'' [] = Inr [CHR ''h'', CHR 0x22, CHR ''i'']"
proof -
  let ?t = "[CHR ''h'', CHR 0x22, CHR ''i'']"
  let ?saved = "\<lparr>chat_id = 1, chat_stream_id = ''ann'', chat_user_id = 7, chat_username = ''bob'',
    chat_message = ?t, chat_created_at = ''now''\<rparr>"
  let ?u = "\<lparr>au_id = 7, au_username = ''bob''\<rparr>"
  have u: "utf8 ?t" "utf8 (chat_username ?saved)" "utf8 (chat_created_at ?saved)" by (rule utf8_ascii; simp)+
  have i: "exec_insert_chat memory_backends ''ann'' (int_to_string (au_id ?u)) (au_username ?u) ?t (store idle_node) =
      (Inr ?saved, store idle_node)"
    by (simp add: memory_backends_def)
  from browser_chat [OF u(1) _ _ i _ u(2,3), of text_floats] show ?thesis by simp blast
qed

section \<open>The browser's signals\<close>

text \<open>
  What \<open>useLiveStream.tsx\<close> sends: the offer, and each candidate with the four members of its
  JSON form.
\<close>

datatype browser_signal =
    BrowserOffer string
  | BrowserCandidate string string nat string

definition browser_text :: "'f float_ops \<Rightarrow> browser_signal \<Rightarrow> string" where
  "browser_text fl b =
     (case b of
        BrowserOffer descr \<Rightarrow> js_object fl [(''type'', JString ''offer''), (''sdp'', JString descr)]
      | BrowserCandidate c mid i frag \<Rightarrow>
          js_members [(''type'', json_text fl compact 0 (JString ''candidate'')),
            (''candidate'', js_object fl [(''candidate'', JString c), (''sdpMid'', JString mid),
              (''sdpMLineIndex'', JUnsigned (of_nat i)), (''usernameFragment'', JString frag)])])"

fun browser_ok :: "browser_signal \<Rightarrow> bool" where
  "browser_ok (BrowserOffer descr) \<longleftrightarrow> utf8 descr"
| "browser_ok (BrowserCandidate c mid i frag) \<longleftrightarrow> utf8 c \<and> utf8 mid \<and> utf8 frag"

fun browser_candidate :: "browser_signal \<Rightarrow> (string \<times> string) list" where
  "browser_candidate (BrowserOffer descr) = []"
| "browser_candidate (BrowserCandidate c mid i frag) =
     (if c = [] then [] else [(if take 2 c = ''a='' then drop 2 c else c, mid)])"

lemma signal_keys:
  "utf8 ''type''" "utf8 ''offer''" "utf8 ''sdp''" "utf8 ''candidate''" "utf8 ''sdpMid''"
  "utf8 ''sdpMLineIndex''" "utf8 ''usernameFragment''"
  by (rule utf8_ascii; simp)+

lemma signal_of_offer:
  assumes "utf8 descr"
  shows "\<exists>m. signal_of fl (browser_text fl (BrowserOffer descr)) = Inr m \<and>
    sig_type m = Inr ''offer'' \<and> sig_sdp m = Inr descr"
proof -
  let ?kvs = "[(''type'', JString ''offer''), (''sdp'', JString descr)]"
  have p: "parse fl (js_object fl ?kvs) = Inr (JObject (fold (\<lambda>(k, v). obj_set k (reread fl v)) ?kvs []))"
    by (rule parse_js_object) (use signal_keys assms in auto)
  let ?v = "JObject (fold (\<lambda>(k, v). obj_set k (reread fl v)) ?kvs [])"
  have "json_find ?v ''sdp'' = Some (JString descr)"
    using map_of_fold_obj_set [of ?kvs "reread fl" "[]" "''sdp''"] by (simp add: json_find_def)
  moreover have "json_value ?v ''type'' [] = Inr ''offer''"
    using json_value_fold [of ?kvs "reread fl" "''type''" "[]"] by (simp add: get_string_def)
  ultimately show ?thesis
    using p by (simp add: signal_of_def browser_text_def json_index_found get_string_def)
qed

lemma json_index2_found:
  assumes "map_of ms k1 = Some x" and "json_find x k2 = Some y"
  shows "json_index2 (JObject ms) k1 k2 = Inr (y, JObject (obj_set k1 x ms))"
  using assms by (simp add: json_index2_def json_index_found json_find_def)

lemma signal_of_members:
  assumes "parse fl t = Inr (JObject ms)" and "map_of ms ''candidate'' = Some inner" and "map_of ms ''type'' = Some (JString ty)"
    and "json_find inner ''candidate'' = Some (JString c)" and "json_find inner ''sdpMid'' = Some (JString mid)"
  shows "\<exists>m. signal_of fl t = Inr m \<and> sig_type m = Inr ty \<and> sig_candidate m = Inr c \<and> sig_mid m = Inr mid"
proof -
  have "json_index2 (JObject (obj_set ''candidate'' inner ms)) ''candidate'' ''sdpMid'' =
      Inr (JString mid, JObject (obj_set ''candidate'' inner (obj_set ''candidate'' inner ms)))"
    by (rule json_index2_found [OF _ assms(5)]) (simp add: map_of_obj_set)
  then show ?thesis
    using assms(1,3) json_index2_found [OF assms(2,4)]
    by (simp add: signal_of_def json_value_def json_find_def get_string_def)
qed

lemma signal_of_candidate:
  assumes "utf8 c" and "utf8 mid" and "utf8 frag"
  shows "\<exists>m. signal_of fl (browser_text fl (BrowserCandidate c mid i frag)) = Inr m \<and>
    sig_type m = Inr ''candidate'' \<and> sig_candidate m = Inr c \<and> sig_mid m = Inr mid"
proof -
  let ?in = "[(''candidate'', JString c), (''sdpMid'', JString mid),
    (''sdpMLineIndex'', JUnsigned (of_nat i)), (''usernameFragment'', JString frag)]"
  let ?inner = "JObject (fold (\<lambda>(k, v). obj_set k (reread fl v)) ?in [])"
  have r: "reads fl (js_object fl ?in) ?inner"
    by (rule reads_js_object) (use signal_keys assms in auto)
  let ?es = "[(''type'', json_text fl compact 0 (JString ''candidate''), JString ''candidate''),
    (''candidate'', js_object fl ?in, ?inner)]"
  let ?ms = "fold (\<lambda>(k, t, v). obj_set k v) ?es []"
  have rc: "reads fl (json_text fl compact 0 (JString ''candidate'')) (JString ''candidate'')"
    using reads_json_text [of compact "JString ''candidate''" fl 0] signal_keys by simp
  have "reads fl (js_members (map (\<lambda>(k, t, v). (k, t)) ?es)) (JObject ?ms)"
    by (rule reads_js_members) (use r rc signal_keys in auto)
  from parse_reads [OF this, of "[]"] have p: "parse fl (browser_text fl (BrowserCandidate c mid i frag)) = Inr (JObject ?ms)"
    by (simp add: browser_text_def js_members_def number_end_def scan_def scan_token_def)
  have ms: "map_of ?ms k = (if k = ''candidate'' then Some ?inner else if k = ''type'' then Some (JString ''candidate'') else None)" for k
    by (simp only: fold.simps comp_def id_def case_prod_conv map_of_obj_set) simp
  have f: "json_find ?inner ''candidate'' = Some (JString c)" "json_find ?inner ''sdpMid'' = Some (JString mid)"
    using map_of_fold_obj_set [of ?in "reread fl" "[]"] by (simp_all add: json_find_def)
  have "map_of ?ms ''type'' = Some (JString ''candidate'')" "map_of ?ms ''candidate'' = Some ?inner"
    by (simp_all only: ms if_True simp_thms) simp
  from signal_of_members [OF p this(2,1) f] show ?thesis .
qed

lemma browser_signal_parsed:
  assumes "browser_ok b"
  shows "candidate_in (signal_of fl) (bytes_of (browser_text fl b), TEXT) = browser_candidate b"
    and "offers (signal_of fl) (bytes_of (browser_text fl b), TEXT) \<longleftrightarrow> (\<exists>descr. b = BrowserOffer descr)"
proof -
  have "candidate_in (signal_of fl) (bytes_of (browser_text fl b), TEXT) = browser_candidate b \<and>
    (offers (signal_of fl) (bytes_of (browser_text fl b), TEXT) \<longleftrightarrow> (\<exists>descr. b = BrowserOffer descr))"
  proof (cases b)
    case (BrowserOffer descr)
    with assms signal_of_offer [of descr fl] show ?thesis
      by (auto simp: candidate_in_def offers_def simp del: map_map split: sum.split)
  next
    case (BrowserCandidate c mid i frag)
    with assms signal_of_candidate [of c mid frag fl i] show ?thesis
      by (auto simp: candidate_in_def offers_def simp del: map_map)
  qed
  then show "candidate_in (signal_of fl) (bytes_of (browser_text fl b), TEXT) = browser_candidate b"
    and "offers (signal_of fl) (bytes_of (browser_text fl b), TEXT) \<longleftrightarrow> (\<exists>descr. b = BrowserOffer descr)" by blast+
qed

text \<open>
  Signalling from the browser to the peer connection. Whatever offers and candidates the
  browser sends, in any order and in the JSON form of its own interface, the candidates handed to
  the peer connection followed by those held back are exactly the candidates that were sent, each
  with its media line, without empty ones and without a leading \<open>a=\<close>; the remote description is set
  exactly when an offer was sent, before any candidate, and then none is held back. The peer
  connection is taken not to throw.
\<close>

theorem browser_signalling:
  assumes "list_all browser_ok bs"
  shows "let msgs = map (\<lambda>b. (bytes_of (browser_text fl b), TEXT)) bs;
      s = signal_all (signal_of fl) msgs (createPeerConnection env vars streamId ports fds garbage) in
    candidates_of (sess_pc s) @ sess_earlyCandidates s = concat (map browser_candidate bs) \<and>
    (sess_hasRemoteDescription s \<longleftrightarrow> (\<exists>descr. BrowserOffer descr \<in> set bs)) \<and>
    (if sess_hasRemoteDescription s
     then sess_earlyCandidates s = [] \<and> (\<exists>descr cs. sess_pc s = SetRemoteDescription descr # cs)
     else sess_pc s = [])"
proof -
  let ?msgs = "map (\<lambda>b. (bytes_of (browser_text fl b), TEXT)) bs"
  have "signalled (signal_of fl) [] (createPeerConnection env vars streamId ports fds garbage)"
    by (simp add: signalled_def createPeerConnection_def new_session_def)
  note s = signalled_all [OF this, of ?msgs]
  have ok: "browser_ok b" if "b \<in> set bs" for b using assms that by (simp add: list_all_iff)
  have c: "map (candidate_in (signal_of fl)) ?msgs = map browser_candidate bs"
    unfolding list.map_comp comp_def using browser_signal_parsed(1) [OF ok] by (intro map_cong refl) blast
  have o: "list_ex (offers (signal_of fl)) ?msgs \<longleftrightarrow> (\<exists>descr. BrowserOffer descr \<in> set bs)"
    using browser_signal_parsed(2) [OF ok] by (auto simp: list_ex_iff simp del: map_map)
  from s [unfolded signalled_def c o] show ?thesis unfolding Let_def by blast
qed

theorem browser_signalling_witness:
  "candidates_of (sess_pc (signal_all (signal_of text_floats)
      (map (\<lambda>b. (bytes_of (browser_text text_floats b), TEXT))
        [BrowserCandidate ''candidate:1'' ''0'' 0 ''u'', BrowserOffer ''v=0'', BrowserCandidate ''a=x'' ''1'' 1 ''u''])
      (createPeerConnection (\<lambda>_. None) [] ''ann'' (5000, 5002) (7, 8) 0))) = [(''candidate:1'', ''0''), (''x'', ''1'')]"
proof -
  let ?bs = "[BrowserCandidate ''candidate:1'' ''0'' 0 ''u'', BrowserOffer ''v=0'', BrowserCandidate ''a=x'' ''1'' 1 ''u'']"
  have u: "utf8 ''candidate:1''" "utf8 ''0''" "utf8 ''u''" "utf8 ''v=0''" "utf8 ''a=x''" "utf8 ''1''" by (rule utf8_ascii; simp)+
  then have "list_all browser_ok ?bs" by simp
  from browser_signalling [OF this, of text_floats "\<lambda>_. None" "[]" "''ann''" "(5000, 5002)" "(7, 8)" 0] show ?thesis
    by (auto simp only: Let_def list.set) (simp_all split: if_splits)
qed

section \<open>The history of streams\<close>

text \<open>
  \<open>/api/users/me/streams\<close> builds its JSON by hand. When no field holds a quote, a backslash or a
  control character, the library reads its rows as the objects that were meant.
\<close>

definition history_fields :: "Stream \<Rightarrow> string \<Rightarrow> (string \<times> string) list" where
  "history_fields s ended = [(''id'', stream_id s), (''title'', stream_title s), (''status'', stream_status s),
     (''started_at'', stream_started_at s), (''ended_at'', ended)]"

lemma quoted_plain: "plain s \<Longrightarrow> utf8 s \<Longrightarrow> quoted compact s = [CHR 0x22] @ s @ [CHR 0x22]"
  using escaped_text_plain [of s Strict] by (simp add: quoted_def dump_layout_def)

lemma history_row_text:
  assumes "stream_ended_at s = Some ended" and "\<forall>(k, v) \<in> set (history_fields s ended). plain v \<and> utf8 v"
  shows "history_json_row s = Inr (js_object fl (string_fields (history_fields s ended)))"
proof -
  have k: "quoted compact ''id'' = [CHR 0x22] @ ''id'' @ [CHR 0x22]" "quoted compact ''title'' = [CHR 0x22] @ ''title'' @ [CHR 0x22]"
    "quoted compact ''status'' = [CHR 0x22] @ ''status'' @ [CHR 0x22]"
    "quoted compact ''started_at'' = [CHR 0x22] @ ''started_at'' @ [CHR 0x22]"
    "quoted compact ''ended_at'' = [CHR 0x22] @ ''ended_at'' @ [CHR 0x22]"
    by (rule quoted_plain; (rule utf8_ascii)?; simp add: plain_def)+
  have v: "\<forall>(k, v) \<in> set (history_fields s ended). quoted compact v = [CHR 0x22] @ v @ [CHR 0x22]"
    using assms(2) quoted_plain by fastforce
  show ?thesis
    using v unfolding history_json_row_def assms(1) js_object_def js_members_def history_fields_def string_fields_def
    by (simp add: k sep_by_Cons)
qed

lemma string_members: "(k, v) \<in> set (string_fields kvs) \<Longrightarrow> \<exists>s. v = JString s \<and> (k, s) \<in> set kvs"
  by (auto simp: string_fields_def)

lemma history_rows_texts:
  assumes "\<forall>s \<in> set ss. \<exists>ended. stream_ended_at s = Some ended \<and>
    (\<forall>(k, v) \<in> set (history_fields s ended). plain v \<and> utf8 v)"
  shows "history_rows ss = Inr (map (\<lambda>s. js_object fl (string_fields (history_fields s (the (stream_ended_at s))))) ss)"
  using assms by (induction ss) (auto simp: history_row_text [where fl = fl])

lemma reads_strings:
  assumes "\<forall>(k, v) \<in> set kvs. utf8 k \<and> utf8 v" and "kvs \<noteq> []"
  shows "reads fl (js_object fl (string_fields kvs)) (JObject (fold (\<lambda>(k, v). obj_set k (JString v)) kvs []))"
proof -
  have "reads fl (js_object fl (string_fields kvs))
      (JObject (fold (\<lambda>(k, v). obj_set k (reread fl v)) (string_fields kvs) []))"
    using assms by (intro reads_js_object) (auto dest!: string_members simp: string_fields_def)
  then show ?thesis by (simp add: string_fields_def fold_map comp_def split_def)
qed

text \<open>
  The body of \<open>/api/users/me/streams\<close>, JSON written by hand, is read by the library as the array of
  the user's streams as long as no field holds a quote, a backslash or a control character: the
  handler escapes nothing.
\<close>

theorem history_body_json:
  assumes "GetHistoryByUserId db (au_id user) d = Inr ss"
    and "\<forall>s \<in> set ss. \<exists>ended. stream_ended_at s = Some ended \<and>
      (\<forall>(k, v) \<in> set (history_fields s ended). plain v \<and> utf8 v)"
  shows "\<exists>b. my_streams_handler db request user d = (Inr (Json b), d) \<and>
    parse fl b = Inr (JArray (map (\<lambda>s. JObject (fold (\<lambda>(k, v). obj_set k (JString v))
      (history_fields s (the (stream_ended_at s))) [])) ss))"
proof -
  let ?row = "\<lambda>s. js_object fl (string_fields (history_fields s (the (stream_ended_at s))))"
  let ?val = "\<lambda>s. JObject (fold (\<lambda>(k, v). obj_set k (JString v)) (history_fields s (the (stream_ended_at s))) [])"
  have keys: "utf8 ''id''" "utf8 ''title''" "utf8 ''status''" "utf8 ''started_at''" "utf8 ''ended_at''"
    by (rule utf8_ascii; simp)+
  have r: "reads fl (?row s) (?val s)" if "s \<in> set ss" for s
    using that assms(2) by (intro reads_strings) (auto simp: history_fields_def keys)
  let ?b = "''['' @ sep_by '','' (map ?row ss) @ '']''"
  have "reads fl ?b (JArray (map ?val ss))"
  proof (cases "ss = []")
    case True
    then show ?thesis using reads_empty by simp
  next
    case False
    have "reads fl (''['' @ [] @ sep_by ('','' @ []) (map ?row ss) @ [] @ '']'') (JArray (map ?val ss))"
      by (rule reads_array) (use False r in \<open>auto simp: zip_map1 zip_map2 zip_same_conv_map\<close>)
    then show ?thesis by simp
  qed
  from parse_reads [OF this, of "[]"] have "parse fl ?b = Inr (JArray (map ?val ss))"
    by (simp add: number_end_def scan_def scan_token_def)
  moreover have "my_streams_handler db request user d = (Inr (Json ?b), d)"
    using history_rows_texts [OF assms(2), of fl] assms(1) by (simp add: my_streams_handler_def)
  ultimately show ?thesis by blast
qed

text \<open>
  The parser takes a null byte for the end of the input: whatever stands behind it is ignored.
\<close>

theorem parse_stops_at_null:
  assumes "strings_utf8 v" and "keys_sorted v" and "floats_ok fl v"
  shows "parse fl (json_text fl compact 0 v @ [CHR 0x00] @ junk) = Inr (reread fl v)"
proof (rule parse_reads)
  show "reads fl (json_text fl compact 0 v) (reread fl v)" using reads_json_text [of compact] assms by simp
  show "scan fl ([CHR 0x00] @ junk) = (EndOfInput, junk)" by (simp add: scan_def scan_token_def is_ws_def is_digit_def)
qed (use json_text_first [OF assms(3)] in \<open>simp_all add: number_end_def is_digit_def\<close>)

end
