(* ===== verification/Exchange.thy ===== *)
theory Exchange
  imports JsonApps Server
begin

text \<open>
  A whole exchange over HTTP: the bytes of a request, cut into pieces by the network, through
  \<open>OnReadable\<close>, \<open>Parse\<close>, the dispatch to a handler, CORS and \<open>OnWritable\<close> to the bytes of the answer.
\<close>

section \<open>A client's request\<close>

text \<open>The text of a request that declares the length of its body, among other headers.\<close>

definition sent_headers :: "(string \<times> string) list \<Rightarrow> string \<Rightarrow> (string \<times> string) list \<Rightarrow> (string \<times> string) list" where
  "sent_headers pre b post = pre @ (''Content-Length'', nat_to_string (length b)) # post"

definition client_request ::
    "HttpMethod \<Rightarrow> string \<Rightarrow> (string \<times> string) list \<Rightarrow> string \<Rightarrow> (string \<times> string) list \<Rightarrow> string" where
  "client_request m path pre b post = print_request m path [] ''HTTP/1.1'' (sent_headers pre b post) b"

definition sendable :: "HttpMethod \<Rightarrow> string \<Rightarrow> (string \<times> string) list \<Rightarrow> string \<Rightarrow> (string \<times> string) list \<Rightarrow> bool" where
  "sendable m path pre b post \<longleftrightarrow>
     word_ok path \<and> CHR ''?'' \<notin> set path \<and> cl_free (GetStringForEnum m @ '' '' @ path @ '' HTTP/1.1'') \<and>
     list_all header_ok (pre @ post) \<and> list_all (\<lambda>h. cl_free (header_line h)) pre \<and>
     length (client_request m path pre b post) < 2 ^ 64"

lemma cl_header: "header_line (''Content-Length'', nat_to_string n) = cl_line n"
  by (simp add: header_line_def cl_line_def)

lemma client_request_text:
  "client_request m path pre b post =
     http_text (((GetStringForEnum m @ '' '' @ path @ '' HTTP/1.1'') # map header_line pre) @
       cl_line (length b) # map header_line post) b"
  by (simp add: client_request_def print_request_def sent_headers_def cl_header target_text_def)

lemma sendable_frame:
  assumes "sendable m path pre b post"
  shows "http_frame (client_request m path pre b post) = Inr (Some (length (client_request m path pre b post)))"
proof -
  let ?l = "GetStringForEnum m @ '' '' @ path @ '' HTTP/1.1''"
  have "word_ok (GetStringForEnum m)" using GetStringForEnum_word by (simp add: word_ok_def)
  then have "http_line ?l"
    using assms word_ok_no_cr by (auto simp: sendable_def http_line_def)
  moreover have "list_all http_line (map header_line (pre @ post))"
    using assms header_line_ok by (auto simp: sendable_def list_all_iff)
  ultimately have "list_all http_line ((?l # map header_line pre) @ map header_line post)" by simp
  moreover have "list_all cl_free (?l # map header_line pre)"
    using assms by (simp add: sendable_def list.pred_map o_def)
  ultimately show ?thesis
    using http_frame_message [of "?l # map header_line pre" "map header_line post" b] assms
    unfolding client_request_text by (simp add: sendable_def client_request_text)
qed

lemma cl_header_ok: "header_ok (''Content-Length'', nat_to_string n)"
proof -
  have d: "list_all is_digit (nat_to_string n)" "nat_to_string n \<noteq> []" using nat_to_string_digits by simp_all
  then have "hd (nat_to_string n) \<noteq> CHR '' ''" by (cases "nat_to_string n") (auto simp: is_digit_def)
  with d show ?thesis by (auto simp: header_ok_def list_all_iff is_digit_def)
qed

lemma sendable_headers:
  assumes "sendable m path pre b post"
  shows "list_all header_ok (sent_headers pre b post)" and "sent_headers pre b post \<noteq> []"
  using assms cl_header_ok by (auto simp: sendable_def sent_headers_def)

text \<open>The headers as the parser stores them.\<close>

definition stored_headers :: "(string \<times> string) list \<Rightarrow> smap" where
  "stored_headers hs = foldl (\<lambda>m (k, v). smap_set k v m) [] hs"

lemma stored_headers_of: "map_of (stored_headers hs) k = map_of (rev hs) k"
  using map_of_foldl_pairs [of "[]" hs k] by (simp add: stored_headers_def split: option.split)

lemma sendable_parse:
  assumes "sendable m path pre b post"
  shows "\<exists>request. ParseRequest json_items (client_request m path pre b post) = Inr request \<and>
    req_method request = Some m \<and> req_path request = path \<and>
    req_headers request = stored_headers (sent_headers pre b post)"
proof -
  have "word_ok (target_text path [])" "word_ok ''HTTP/1.1''"
    using assms by (simp_all add: sendable_def target_text_def word_ok_def is_space_def)
  from ParseRequest_print [OF this _ _ sendable_headers(2) [OF assms] sendable_headers(1) [OF assms],
      of json_items m b] assms
  show ?thesis by (simp add: client_request_def sendable_def stored_headers_def Let_def)
qed

section \<open>The exchange\<close>

text \<open>The pieces of a request arrive one by one; then the socket becomes writable and takes what is sent.\<close>

definition http_exchange ::
    "(string \<Rightarrow> (string \<times> string) list option) \<Rightarrow> 'w http_server \<Rightarrow> string list \<Rightarrow> http_conn \<Rightarrow> 'w
      \<Rightarrow> http_conn \<times> 'w \<times> exn option" where
  "http_exchange json_items srv pieces c w =
     (case on_pieces json_items srv pieces c w of
        (c', w', e) \<Rightarrow> (OnWritable (\<lambda>s. Some (length s)) c', w', e))"

definition idle_conn :: "http_conn \<Rightarrow> bool" where
  "idle_conn c \<longleftrightarrow> read_buffer c = [] \<and> response_queue c = [] \<and> \<not> want_write c"

text \<open>What the CORS policy makes of a response to a request with these headers.\<close>

definition with_cors :: "Cors \<Rightarrow> (string \<times> string) list \<Rightarrow> HttpResponse \<Rightarrow> HttpResponse" where
  "with_cors cors hs response =
     snd (apply_cors_headers cors (empty_request\<lparr>req_headers := stored_headers hs\<rparr>) response)"

lemma with_cors_request:
  "req_headers request = stored_headers hs \<Longrightarrow> snd (apply_cors_headers cors request response) = with_cors cors hs response"
  by (simp add: with_cors_def apply_cors_headers_def is_origin_valid_def)

lemma exchange_answer:
  assumes "sendable m path pre b post" and "concat ps @ q = client_request m path pre b post" and "q \<noteq> []"
    and "idle_conn c" and "ParseRequest json_items (client_request m path pre b post) = Inr request"
    and "\<not> is_ws_upgrade request" and "\<not> is_cors_preflight request"
    and "dispatch (srv_auth srv) (srv_routes srv) request w = Inr (response, request', w')"
  shows "http_exchange json_items srv (ps @ [q]) c w =
    (c\<lparr>sent_bytes := sent_bytes c @
       render_response (snd (apply_cors_headers (srv_cors srv) request' response))\<rparr>, w', None)"
proof -
  have c: "read_buffer c = []" "response_queue c = []" "want_write c = False"
    using assms(4) by (simp_all add: idle_conn_def)
  have "on_pieces json_items srv (ps @ [q]) c w =
      serve_request json_items srv (client_request m path pre b post) (c\<lparr>read_buffer := []\<rparr>) w"
    by (rule on_pieces_message [OF sendable_frame [OF assms(1)] assms(3)]) (simp add: assms(2) c(1))
  also have "\<dots> = (queue_response (snd (apply_cors_headers (srv_cors srv) request' response)) (c\<lparr>read_buffer := []\<rparr>), w', None)"
    using assms(5-8) by (simp add: serve_request_def HandleRead_def)
  finally show ?thesis
    using c by (cases c) (simp add: http_exchange_def queue_response_def OnWritable_def)
qed

section \<open>Requests of a browser\<close>

text \<open>A request that is neither an upgrade nor a preflight.\<close>

lemma plain_request:
  assumes "req_headers request = stored_headers hs" and "req_method request = Some m"
  shows "m = POST \<Longrightarrow> \<not> is_ws_upgrade request \<and> \<not> is_cors_preflight request"
    and "m = GET \<Longrightarrow> ''Upgrade'' \<notin> fst ` set hs \<Longrightarrow> \<not> is_ws_upgrade request \<and> \<not> is_cors_preflight request"
proof -
  show "m = POST \<Longrightarrow> \<not> is_ws_upgrade request \<and> \<not> is_cors_preflight request"
    using assms(2) by (simp add: is_ws_upgrade_def is_cors_preflight_def)
next
  assume "m = GET" and "''Upgrade'' \<notin> fst ` set hs"
  then have "map_of (req_headers request) ''Upgrade'' = None"
    unfolding assms(1) stored_headers_of by (simp add: map_of_eq_None_iff)
  with \<open>m = GET\<close> assms(2) show "\<not> is_ws_upgrade request \<and> \<not> is_cors_preflight request"
    by (simp add: is_ws_upgrade_def is_cors_preflight_def)
qed

text \<open>The form as the parser hands it to the handler.\<close>

lemma sendable_form:
  assumes "sendable m path pre (js_object fl (string_fields form)) post"
    and "map_of (rev (sent_headers pre (js_object fl (string_fields form)) post)) ''Content-Type'' = Some ''application/json''"
    and "\<And>k v. (k, v) \<in> set form \<Longrightarrow> utf8 k \<and> utf8 v" and "form \<noteq> []" and "distinct (map fst form)"
  shows "\<exists>request. ParseRequest (body_items fl) (client_request m path pre (js_object fl (string_fields form)) post) = Inr request \<and>
    req_method request = Some m \<and> req_path request = path \<and>
    req_headers request = stored_headers (sent_headers pre (js_object fl (string_fields form)) post) \<and>
    (\<forall>k. BodyParam request k = map_of form k)"
proof -
  have w: "word_ok (target_text path [])" "word_ok ''HTTP/1.1''" "CHR ''?'' \<notin> set path"
    using assms(1) by (simp_all add: sendable_def target_text_def word_ok_def is_space_def)
  obtain r1 where "ParseRequest (body_items fl) (client_request m path pre (js_object fl (string_fields form)) post) = Inr r1"
    "\<forall>k. BodyParam r1 k = map_of form k"
    using form_request [OF w _ sendable_headers(2,1) [OF assms(1)] assms(2,3,4,5), of fl m]
    by (auto simp: client_request_def)
  with sendable_parse [OF assms(1), of "body_items fl"] show ?thesis by auto
qed

text \<open>The cookie of a session can stand in a header.\<close>

lemma Base64URLEncode_no_cr: "CHR 0x0D \<notin> set (Base64URLEncode d)"
proof
  assume "CHR 0x0D \<in> set (Base64URLEncode d)"
  then obtain c where "c \<in> set (b64url_groups d)" "to_url_char c = CHR 0x0D"
    by (metis Base64URLEncode_def imageE list.set_map)
  then have c: "c \<in> set b64_table" "to_url_char c = CHR 0x0D" by (simp_all add: b64url_groups_alphabet)
  then have "c = CHR 0x0D" by (simp add: to_url_char_def split: if_splits)
  with c(1) b64_table_class show False by (auto simp: list_all_iff is_alnum_def is_digit_def is_upper_def is_lower_def)
qed

lemma Create_no_cr: "CHR 0x0D \<notin> set (Create i u secret ttl now)"
  using Base64URLEncode_no_cr by (simp add: Create_def Let_def jwt_sign_def)

lemma session_header_ok: "header_ok (''Cookie'', cookie_pair (session_cookie (Create i u secret ttl now)))"
  using Create_no_cr by (simp add: header_ok_def cookie_pair_session [OF Create_no_semicolon])

end
