(* ===== verification/ThreadPool.thy ===== *)
theory ThreadPool
  imports Prelude "HOL-Library.Multiset"
begin

text \<open>
  The thread pool of both servers: \<open>include/ptsouchlos_thread-pool/thread_pool.h\<close> and
  \<open>thread_safe_queue.h\<close>. Each access to a shared variable (a queue under its lock, a semaphore,
  an atomic counter or flag) is one step, and the steps of the workers and of the threads that
  call the pool interleave in any order; memory is taken to be sequentially consistent, and the
  64-bit counters not to overflow.
\<close>

section \<open>The queue\<close>

text \<open>Every method holds the queue's lock, so it is one step on the list of elements.\<close>

definition q_push_back :: "'a \<Rightarrow> 'a list \<Rightarrow> 'a list" where
  "q_push_back v data = data @ [v]"

definition q_push_front :: "'a \<Rightarrow> 'a list \<Rightarrow> 'a list" where
  "q_push_front v data = v # data"

definition q_clear :: "'a list \<Rightarrow> nat \<times> 'a list" where
  "q_clear data = (length data, [])"

definition q_pop_front :: "'a list \<Rightarrow> 'a option \<times> 'a list" where
  "q_pop_front data = (if data = [] then (None, data) else (Some (hd data), tl data))"

definition q_pop_back :: "'a list \<Rightarrow> 'a option \<times> 'a list" where
  "q_pop_back data = (if data = [] then (None, data) else (Some (last data), butlast data))"

definition q_steal :: "'a list \<Rightarrow> 'a option \<times> 'a list" where
  "q_steal data = (if data = [] then (None, data) else (Some (last data), butlast data))"

text \<open>\<open>find\<close> and \<open>erase\<close> take out the first equal element, when there is one.\<close>

definition rotate_to_front :: "'a \<Rightarrow> 'a list \<Rightarrow> 'a list" where
  "rotate_to_front item data = item # remove1 item data"

definition copy_front_and_rotate_to_back :: "'a list \<Rightarrow> 'a option \<times> 'a list" where
  "copy_front_and_rotate_to_back data =
     (if data = [] then (None, data) else (Some (hd data), tl data @ [hd data]))"

section \<open>Tasks\<close>

text \<open>
  A task is what \<open>enqueue\<close> or \<open>enqueue_detach\<close> made of a function: with the promise behind the
  future it returned, or with nothing. A function returns or throws; neither wrapper lets the
  exception out.
\<close>

datatype 'f task =
    Promised 'f nat
  | Detached 'f

section \<open>Workers\<close>

text \<open>
  Where a worker stands in its loop; the flag tells whether its task came from its own queue.
\<close>

datatype 'f worker =
    Acquire
  | PopFront
  | Popped bool "'f task"
  | Running bool "'f task"
  | Finished bool
  | Steal nat
  | CheckUnassigned
  | Rotate
  | CheckInFlight
  | SetComplete
  | NotifyOne
  | CheckStop
  | Returned

text \<open>
  The threads that use the pool: each is one call of \<open>enqueue_task\<close>, \<open>clear_tasks\<close>,
  \<open>wait_for_tasks\<close> or the destructor (the flag of a wait), at the step it takes next.
\<close>

datatype 'f client =
    Pick "'f task"
  | AddUnassigned "'f task" nat
  | AddInFlight "'f task" nat
  | ResetComplete "'f task" nat
  | PushTask "'f task" nat
  | ReleaseSignal nat
  | ClearQueue nat nat
  | SubInFlight nat
  | SubUnassigned nat
  | LoadInFlight bool
  | WaitComplete bool
  | Asleep bool
  | RequestStop nat
  | ReleaseStopped nat
  | Join nat
  | WaitDone
  | CallDone

text \<open>
  The members of the pool, the threads, the promises; and, for the statements below, the tasks
  whose enqueueing was counted, those that were run (in the order they were started), cleared, or
  refused because the pool has no thread.
\<close>

record ('f, 'r) pool =
  queues :: "'f task list list"
  signals :: "nat list"
  priority_queue :: "nat list"
  unassigned_tasks :: int
  in_flight_tasks :: int
  threads_complete :: bool
  stop_requests :: "bool list"
  workers :: "'f worker list"
  clients :: "'f client list"
  promises :: "nat \<Rightarrow> 'r res option"
  accepted :: "'f task list"
  ran :: "'f task list"
  cleared :: "'f task list"
  refused :: "'f task list"

text \<open>
  The constructor: for each thread a number is put into the priority queue and a thread is
  started; when that throws, the last queue and the number are taken out again.
\<close>

fun create_threads :: "bool list \<Rightarrow> ('f, 'r) pool \<Rightarrow> ('f, 'r) pool" where
  "create_threads [] p = p"
| "create_threads (ok # oks) p =
     (let current_id = length (workers p);
          p = p\<lparr>priority_queue := q_push_back current_id (priority_queue p)\<rparr>
      in create_threads oks
           (if ok then p\<lparr>workers := workers p @ [Acquire], stop_requests := stop_requests p @ [False]\<rparr>
            else p\<lparr>queues := butlast (queues p), signals := butlast (signals p),
              priority_queue := snd (q_pop_back (priority_queue p))\<rparr>))"

definition new_pool :: "bool list \<Rightarrow> ('f, 'r) pool" where
  "new_pool started =
     create_threads started \<lparr>queues = replicate (length started) [], signals = replicate (length started) 0,
       priority_queue = [], unassigned_tasks = 0, in_flight_tasks = 0, threads_complete = False,
       stop_requests = [], workers = [], clients = [], promises = (\<lambda>_. None),
       accepted = [], ran = [], cleared = [], refused = []\<rparr>"

text \<open>\<open>size()\<close>.\<close>

definition pool_size :: "('f, 'r) pool \<Rightarrow> nat" where
  "pool_size p = length (workers p)"

section \<open>Steps\<close>

definition goto :: "nat \<Rightarrow> 'f worker \<Rightarrow> ('f, 'r) pool \<Rightarrow> ('f, 'r) pool" where
  "goto i w p = p\<lparr>workers := (workers p)[i := w]\<rparr>"

text \<open>The wrapper of a task calls the function and, for a future, stores its result or exception.\<close>

definition invoke :: "('f \<Rightarrow> 'r res) \<Rightarrow> 'f task \<Rightarrow> ('f, 'r) pool \<Rightarrow> ('f, 'r) pool" where
  "invoke call t p =
     (case t of
        Promised f k \<Rightarrow> p\<lparr>promises := (promises p)(k \<mapsto> call f), ran := ran p @ [t]\<rparr>
      | Detached f \<Rightarrow> p\<lparr>ran := ran p @ [t]\<rparr>)"

text \<open>
  \<open>notify_one\<close> wakes one of the threads that sleep in \<open>wait_for_tasks\<close>, if there are any: the
  one that \<open>woken\<close> numbers.
\<close>

fun asleep :: "'f client \<Rightarrow> bool" where
  "asleep (Asleep d) \<longleftrightarrow> True"
| "asleep _ \<longleftrightarrow> False"

definition notify_one :: "nat \<Rightarrow> ('f, 'r) pool \<Rightarrow> ('f, 'r) pool option" where
  "notify_one woken p =
     (if \<not> list_ex asleep (clients p) then Some p
      else if woken < length (clients p) then
        (case clients p ! woken of
           Asleep d \<Rightarrow> Some (p\<lparr>clients := (clients p)[woken := WaitComplete d]\<rparr>)
         | _ \<Rightarrow> None)
      else None)"

text \<open>One step of worker \<open>i\<close>; \<^const>\<open>None\<close> when it has to wait or has returned.\<close>

definition worker_step :: "('f \<Rightarrow> 'r res) \<Rightarrow> nat \<Rightarrow> nat \<Rightarrow> ('f, 'r) pool \<Rightarrow> ('f, 'r) pool option" where
  "worker_step call woken i p =
     (case workers p ! i of
        Acquire \<Rightarrow>
          if 0 < signals p ! i
          then Some (goto i PopFront (p\<lparr>signals := (signals p)[i := signals p ! i - 1]\<rparr>))
          else None
      | PopFront \<Rightarrow>
          (case q_pop_front (queues p ! i) of
             (None, _) \<Rightarrow> Some (goto i (Steal 1) p)
           | (Some t, q) \<Rightarrow> Some (goto i (Popped True t) (p\<lparr>queues := (queues p)[i := q]\<rparr>)))
      | Popped own t \<Rightarrow> Some (goto i (Running own t) (p\<lparr>unassigned_tasks := unassigned_tasks p - 1\<rparr>))
      | Running own t \<Rightarrow> Some (goto i (Finished own) (invoke call t p))
      | Finished own \<Rightarrow>
          Some (goto i (if own then PopFront else CheckUnassigned)
            (p\<lparr>in_flight_tasks := in_flight_tasks p - 1\<rparr>))
      | Steal j \<Rightarrow>
          if j < length (queues p) then
            (let index = (i + j) mod length (queues p)
             in case q_steal (queues p ! index) of
                  (None, _) \<Rightarrow> Some (goto i (Steal (j + 1)) p)
                | (Some t, q) \<Rightarrow> Some (goto i (Popped False t) (p\<lparr>queues := (queues p)[index := q]\<rparr>)))
          else Some (goto i CheckUnassigned p)
      | CheckUnassigned \<Rightarrow> Some (goto i (if 0 < unassigned_tasks p then PopFront else Rotate) p)
      | Rotate \<Rightarrow> Some (goto i CheckInFlight (p\<lparr>priority_queue := rotate_to_front i (priority_queue p)\<rparr>))
      | CheckInFlight \<Rightarrow> Some (goto i (if in_flight_tasks p = 0 then SetComplete else CheckStop) p)
      | SetComplete \<Rightarrow> Some (goto i NotifyOne (p\<lparr>threads_complete := True\<rparr>))
      | NotifyOne \<Rightarrow> map_option (goto i CheckStop) (notify_one woken p)
      | CheckStop \<Rightarrow> Some (goto i (if stop_requests p ! i then Returned else Acquire) p)
      | Returned \<Rightarrow> None)"

text \<open>
  \<open>release\<close> of a \<open>std::binary_semaphore\<close> whose counter is at its maximum of one is undefined.
\<close>

definition release_signal :: "nat \<Rightarrow> ('f, 'r) pool \<Rightarrow> ('f, 'r) pool res" where
  "release_signal i p =
     (if 1 \<le> signals p ! i then Inl UndefinedBehaviour
      else Inr (p\<lparr>signals := (signals p)[i := signals p ! i + 1]\<rparr>))"

definition next_call :: "nat \<Rightarrow> 'f client \<Rightarrow> ('f, 'r) pool \<Rightarrow> ('f, 'r) pool" where
  "next_call j c p = p\<lparr>clients := (clients p)[j := c]\<rparr>"

text \<open>The loop of the destructor, after it has waited for the tasks.\<close>

definition destructor_step :: "nat \<Rightarrow> ('f, 'r) pool \<Rightarrow> ('f, 'r) pool res option" where
  "destructor_step j p =
     (case clients p ! j of
        RequestStop i \<Rightarrow>
          if i < length (workers p)
          then Some (Inr (next_call j (ReleaseStopped i) (p\<lparr>stop_requests := (stop_requests p)[i := True]\<rparr>)))
          else Some (Inr (next_call j WaitDone p))
      | ReleaseStopped i \<Rightarrow> Some (map_sum id (next_call j (Join i)) (release_signal i p))
      | Join i \<Rightarrow>
          if workers p ! i = Returned then Some (Inr (next_call j (RequestStop (i + 1)) p)) else None
      | _ \<Rightarrow> None)"

text \<open>A step of a call of the pool.\<close>

definition client_step :: "nat \<Rightarrow> ('f, 'r) pool \<Rightarrow> ('f, 'r) pool res option" where
  "client_step j p =
     (case clients p ! j of
        Pick t \<Rightarrow>
          (case copy_front_and_rotate_to_back (priority_queue p) of
             (None, _) \<Rightarrow> Some (Inr (next_call j CallDone (p\<lparr>refused := refused p @ [t]\<rparr>)))
           | (Some i, q) \<Rightarrow> Some (Inr (next_call j (AddUnassigned t i) (p\<lparr>priority_queue := q\<rparr>))))
      | AddUnassigned t i \<Rightarrow>
          Some (Inr (next_call j (AddInFlight t i) (p\<lparr>unassigned_tasks := unassigned_tasks p + 1\<rparr>)))
      | AddInFlight t i \<Rightarrow>
          (let prev_in_flight = in_flight_tasks p
           in Some (Inr (next_call j (if prev_in_flight = 0 then ResetComplete t i else PushTask t i)
                (p\<lparr>in_flight_tasks := prev_in_flight + 1, accepted := accepted p @ [t]\<rparr>))))
      | ResetComplete t i \<Rightarrow> Some (Inr (next_call j (PushTask t i) (p\<lparr>threads_complete := False\<rparr>)))
      | PushTask t i \<Rightarrow>
          Some (Inr (next_call j (ReleaseSignal i)
            (p\<lparr>queues := (queues p)[i := q_push_back t (queues p ! i)]\<rparr>)))
      | ReleaseSignal i \<Rightarrow> Some (map_sum id (next_call j CallDone) (release_signal i p))
      | ClearQueue k removed \<Rightarrow>
          if k < length (queues p) then
            (case q_clear (queues p ! k) of
               (n, q) \<Rightarrow> Some (Inr (next_call j (ClearQueue (k + 1) (removed + n))
                 (p\<lparr>queues := (queues p)[k := q], cleared := cleared p @ queues p ! k\<rparr>))))
          else Some (Inr (next_call j (SubInFlight removed) p))
      | SubInFlight removed \<Rightarrow>
          Some (Inr (next_call j (SubUnassigned removed)
            (p\<lparr>in_flight_tasks := in_flight_tasks p - int removed\<rparr>)))
      | SubUnassigned removed \<Rightarrow>
          Some (Inr (next_call j CallDone (p\<lparr>unassigned_tasks := unassigned_tasks p - int removed\<rparr>)))
      | LoadInFlight destroy \<Rightarrow>
          Some (Inr (next_call j
            (if 0 < in_flight_tasks p then WaitComplete destroy
             else if destroy then RequestStop 0 else WaitDone) p))
      | WaitComplete destroy \<Rightarrow>
          Some (Inr (next_call j (if threads_complete p then LoadInFlight destroy else Asleep destroy) p))
      | Asleep destroy \<Rightarrow> None
      | RequestStop i \<Rightarrow> destructor_step j p
      | ReleaseStopped i \<Rightarrow> destructor_step j p
      | Join i \<Rightarrow> destructor_step j p
      | WaitDone \<Rightarrow> None
      | CallDone \<Rightarrow> None)"

lemmas client_step_simps = client_step_def destructor_step_def

text \<open>A call of the pool starts with one of these.\<close>

fun new_call :: "'f client \<Rightarrow> bool" where
  "new_call (Pick t) \<longleftrightarrow> True"
| "new_call (ClearQueue k removed) \<longleftrightarrow> k = 0 \<and> removed = 0"
| "new_call (LoadInFlight destroy) \<longleftrightarrow> True"
| "new_call _ \<longleftrightarrow> False"

inductive threads_step :: "('f \<Rightarrow> 'r res) \<Rightarrow> ('f, 'r) pool \<Rightarrow> ('f, 'r) pool \<Rightarrow> bool" for call where
  work: "i < length (workers p) \<Longrightarrow> worker_step call woken i p = Some p' \<Longrightarrow> threads_step call p p'"
| serve: "j < length (clients p) \<Longrightarrow> client_step j p = Some (Inr p') \<Longrightarrow> threads_step call p p'"
| arrive: "new_call c \<Longrightarrow> threads_step call p (p\<lparr>clients := clients p @ [c]\<rparr>)"

inductive threads_reach :: "('f \<Rightarrow> 'r res) \<Rightarrow> bool list \<Rightarrow> ('f, 'r) pool \<Rightarrow> bool" for call started where
  created: "threads_reach call started (new_pool started)"
| stepped: "threads_reach call started p \<Longrightarrow> threads_step call p p' \<Longrightarrow> threads_reach call started p'"

section \<open>The pool after construction\<close>

definition fresh_pool :: "nat \<Rightarrow> nat \<Rightarrow> ('f, 'r) pool" where
  "fresh_pool n rest = \<lparr>queues = replicate (n + rest) [], signals = replicate (n + rest) 0,
     priority_queue = [0..<n], unassigned_tasks = 0, in_flight_tasks = 0, threads_complete = False,
     stop_requests = replicate n False, workers = replicate n Acquire, clients = [], promises = (\<lambda>_. None),
     accepted = [], ran = [], cleared = [], refused = []\<rparr>"

lemma butlast_replicate_Suc: "butlast (replicate (Suc n) x) = replicate n x"
  by (simp add: butlast_append flip: replicate_append_same)

lemma create_threads_fresh:
  "create_threads oks (fresh_pool n (length oks)) = fresh_pool (n + length (filter id oks)) 0"
proof (induction oks arbitrary: n)
  case (Cons ok oks)
  show ?case
  proof (cases ok)
    case True
    have "create_threads (ok # oks) (fresh_pool n (length (ok # oks))) =
        create_threads oks (fresh_pool (Suc n) (length oks) :: ('a, 'b) pool)"
      using True by (simp add: fresh_pool_def q_push_back_def replicate_append_same)
    with True Cons.IH [of "Suc n"] show ?thesis by simp
  next
    case False
    have "create_threads (ok # oks) (fresh_pool n (length (ok # oks))) =
        create_threads oks (fresh_pool n (length oks) :: ('a, 'b) pool)"
      using False by (simp add: fresh_pool_def q_push_back_def q_pop_back_def butlast_replicate_Suc del: replicate_Suc)
    with False Cons.IH [of n] show ?thesis by simp
  qed
qed simp

lemma new_pool_fresh: "new_pool started = fresh_pool (length (filter id started)) 0"
  using create_threads_fresh [of started 0] by (simp add: new_pool_def fresh_pool_def)

section \<open>Counting\<close>

definition tally :: "('a \<Rightarrow> int) \<Rightarrow> 'a list \<Rightarrow> int" where
  "tally f xs = sum_list (map f xs)"

lemma tally_simps [simp]: "tally f [] = 0" "tally f (x # xs) = f x + tally f xs"
  "tally f (xs @ ys) = tally f xs + tally f ys"
  by (simp_all add: tally_def)

lemma tally_update: "i < length xs \<Longrightarrow> tally f (xs[i := y]) = tally f xs - f (xs ! i) + f y"
  by (induction xs arbitrary: i) (auto split: nat.split)

lemma tally_replicate: "f x = 0 \<Longrightarrow> tally f (replicate n x) = 0"
  by (induction n) simp_all

lemma tally_nonneg: "(\<And>x. x \<in> set xs \<Longrightarrow> 0 \<le> f x) \<Longrightarrow> 0 \<le> tally f xs"
  by (induction xs) (auto simp: add_nonneg_nonneg)

lemma tally_member: "(\<And>x. x \<in> set xs \<Longrightarrow> 0 \<le> f x) \<Longrightarrow> x \<in> set xs \<Longrightarrow> f x \<le> tally f xs"
proof (induction xs)
  case (Cons y ys)
  have "0 \<le> f y" "0 \<le> tally f ys" using Cons.prems tally_nonneg [of ys f] by simp_all
  moreover have "x = y \<or> f x \<le> tally f ys" using Cons by auto
  ultimately show ?case by auto
qed simp

text \<open>What a worker or a caller has in hand: for each counter, and for a given task.\<close>

fun w_unassigned :: "'f worker \<Rightarrow> int" where
  "w_unassigned (Popped own t) = 1"
| "w_unassigned _ = 0"

fun w_flight :: "'f worker \<Rightarrow> int" where
  "w_flight (Popped own t) = 1"
| "w_flight (Running own t) = 1"
| "w_flight (Finished own) = 1"
| "w_flight _ = 0"

fun w_task :: "'f task \<Rightarrow> 'f worker \<Rightarrow> int" where
  "w_task u (Popped own t) = of_bool (t = u)"
| "w_task u (Running own t) = of_bool (t = u)"
| "w_task u _ = 0"

fun c_unassigned :: "'f client \<Rightarrow> int" where
  "c_unassigned (AddInFlight t i) = 1"
| "c_unassigned (ResetComplete t i) = 1"
| "c_unassigned (PushTask t i) = 1"
| "c_unassigned (ClearQueue k removed) = int removed"
| "c_unassigned (SubInFlight removed) = int removed"
| "c_unassigned (SubUnassigned removed) = int removed"
| "c_unassigned _ = 0"

fun c_flight :: "'f client \<Rightarrow> int" where
  "c_flight (ResetComplete t i) = 1"
| "c_flight (PushTask t i) = 1"
| "c_flight (ClearQueue k removed) = int removed"
| "c_flight (SubInFlight removed) = int removed"
| "c_flight _ = 0"

fun c_task :: "'f task \<Rightarrow> 'f client \<Rightarrow> int" where
  "c_task u (ResetComplete t i) = of_bool (t = u)"
| "c_task u (PushTask t i) = of_bool (t = u)"
| "c_task u _ = 0"

definition q_task :: "'f task \<Rightarrow> 'f task list \<Rightarrow> int" where
  "q_task u ts = int (count_list ts u)"

definition q_size :: "'f task list \<Rightarrow> int" where
  "q_size ts = int (length ts)"

fun client_ok :: "nat \<Rightarrow> 'f client \<Rightarrow> bool" where
  "client_ok n (AddUnassigned t i) \<longleftrightarrow> i < n"
| "client_ok n (AddInFlight t i) \<longleftrightarrow> i < n"
| "client_ok n (ResetComplete t i) \<longleftrightarrow> i < n"
| "client_ok n (PushTask t i) \<longleftrightarrow> i < n"
| "client_ok n (ReleaseSignal i) \<longleftrightarrow> i < n"
| "client_ok n (ReleaseStopped i) \<longleftrightarrow> i < n"
| "client_ok n (Join i) \<longleftrightarrow> i < n"
| "client_ok n _ \<longleftrightarrow> True"

definition shaped :: "('f, 'r) pool \<Rightarrow> bool" where
  "shaped p \<longleftrightarrow> length (queues p) = length (workers p) \<and> length (signals p) = length (workers p) \<and>
     length (stop_requests p) = length (workers p) \<and> mset (priority_queue p) = mset [0..<length (workers p)] \<and>
     (\<forall>c \<in> set (clients p). client_ok (length (workers p)) c)"

definition balanced :: "('f, 'r) pool \<Rightarrow> bool" where
  "balanced p \<longleftrightarrow>
     unassigned_tasks p = tally q_size (queues p) + tally w_unassigned (workers p) + tally c_unassigned (clients p) \<and>
     in_flight_tasks p = tally q_size (queues p) + tally w_flight (workers p) + tally c_flight (clients p)"

definition conserved :: "'f task \<Rightarrow> ('f, 'r) pool \<Rightarrow> bool" where
  "conserved u p \<longleftrightarrow> q_task u (accepted p) = tally (q_task u) (queues p) + tally (w_task u) (workers p) +
     tally (c_task u) (clients p) + q_task u (ran p) + q_task u (cleared p)"

lemma q_task_simps [simp]: "q_task u [] = 0" "q_task u (xs @ ys) = q_task u xs + q_task u ys"
  "q_task u (x # xs) = of_bool (x = u) + q_task u xs"
  by (simp_all add: q_task_def)

lemma q_size_simps [simp]: "q_size [] = 0" "q_size (xs @ ys) = q_size xs + q_size ys" "q_size (x # xs) = 1 + q_size xs"
  by (simp_all add: q_size_def)

lemma q_hd: "xs \<noteq> [] \<Longrightarrow> q_size (tl xs) = q_size xs - 1" "xs \<noteq> [] \<Longrightarrow> q_task u (tl xs) = q_task u xs - of_bool (hd xs = u)"
  by (cases xs; simp)+

lemma q_last: "xs \<noteq> [] \<Longrightarrow> q_size (butlast xs) = q_size xs - 1"
  "xs \<noteq> [] \<Longrightarrow> q_task u (butlast xs) = q_task u xs - of_bool (last xs = u)"
  using append_butlast_last_id [of xs] q_size_simps(2) [of "butlast xs" "[last xs]"]
    q_task_simps(2) [of u "butlast xs" "[last xs]"]
  by simp_all

lemmas pool_simps = goto_def next_call_def q_pop_front_def q_steal_def q_push_back_def q_clear_def tally_update
  q_hd q_last

lemma shaped_new: "shaped (new_pool started)"
  by (simp add: new_pool_fresh fresh_pool_def shaped_def)

lemma balanced_new: "balanced (new_pool started)"
  by (simp add: new_pool_fresh fresh_pool_def balanced_def tally_replicate)

lemma conserved_new: "conserved u (new_pool started)"
  by (simp add: new_pool_fresh fresh_pool_def conserved_def tally_replicate)

lemma rotate_to_front_mset: "x \<in> set xs \<Longrightarrow> mset (rotate_to_front x xs) = mset xs"
  by (simp add: rotate_to_front_def)

lemma copy_front_mset:
  "copy_front_and_rotate_to_back xs = (r, ys) \<Longrightarrow> mset ys = mset xs \<and> (\<forall>x. r = Some x \<longrightarrow> x \<in> set xs) \<and> (r = None \<longleftrightarrow> xs = [])"
  by (cases xs) (auto simp: copy_front_and_rotate_to_back_def)

text \<open>Waking a sleeping thread changes nothing but that thread.\<close>

lemma notify_one_cases:
  assumes "notify_one woken p = Some p'"
  obtains "p' = p" "\<not> list_ex asleep (clients p)"
  | d where "woken < length (clients p)" "clients p ! woken = Asleep d"
      "p' = p\<lparr>clients := (clients p)[woken := WaitComplete d]\<rparr>"
proof (cases "list_ex asleep (clients p)")
  case False
  with assms that(1) show ?thesis by (simp add: notify_one_def)
next
  case True
  with assms have w: "woken < length (clients p)" by (simp add: notify_one_def split: if_splits)
  show ?thesis
  proof (cases "clients p ! woken")
    case (Asleep d)
    with assms True w that(2) show ?thesis by (simp add: notify_one_def)
  qed (use assms True w in \<open>simp_all add: notify_one_def\<close>)
qed

section \<open>Every step keeps the books\<close>

lemma shaped_worker:
  assumes "shaped p" and "i < length (workers p)" and "worker_step call woken i p = Some p'"
  shows "shaped p'"
proof (cases "workers p ! i")
  case PopFront
  then show ?thesis using assms
    by (auto simp: worker_step_def shaped_def pool_simps Let_def split: if_splits)
next
  case (Steal j)
  then show ?thesis using assms
    by (auto simp: worker_step_def shaped_def pool_simps Let_def split: if_splits)
next
  case (Running own t)
  then show ?thesis using assms
    by (cases t) (auto simp: worker_step_def shaped_def pool_simps invoke_def)
next
  case Rotate
  moreover have "i \<in> set (priority_queue p)"
    using assms(1,2) by (metis shaped_def atLeastLessThan_iff set_mset_mset set_upt zero_le)
  ultimately show ?thesis using assms rotate_to_front_mset [of i "priority_queue p"]
    by (auto simp: worker_step_def shaped_def pool_simps)
next
  case NotifyOne
  with assms(3) obtain q where q: "notify_one woken p = Some q" "p' = goto i CheckStop q"
    by (auto simp: worker_step_def)
  from q(1) show ?thesis
  proof (cases rule: notify_one_cases)
    case (2 d)
    then show ?thesis using assms(1) q(2) by (auto simp: shaped_def pool_simps dest: set_update_subset_insert [THEN subsetD])
  qed (use assms(1) q(2) in \<open>simp add: shaped_def pool_simps\<close>)
qed (use assms in \<open>auto simp: worker_step_def shaped_def pool_simps split: if_splits\<close>)

lemma shaped_call:
  assumes "shaped p" and "client_ok (length (workers p)) c"
  shows "shaped (next_call j c p)"
  using assms set_update_subset_insert [of "clients p" j c] by (auto simp: shaped_def next_call_def)

lemma release_signal_Inr:
  "release_signal i p = Inr p' \<longleftrightarrow> signals p ! i = 0 \<and> p' = p\<lparr>signals := (signals p)[i := 1]\<rparr>"
  by (cases "signals p ! i") (auto simp: release_signal_def)

text \<open>What a step of a caller does to the rest of the pool, and where it goes on.\<close>

lemma shaped_client:
  assumes "shaped p" and "j < length (clients p)" and "client_step j p = Some (Inr p')"
  shows "shaped p'"
proof -
  have c: "client_ok (length (workers p)) (clients p ! j)" using assms(1,2) by (simp add: shaped_def)
  have sh: "shaped (q\<lparr>queues := (queues q)[k := x]\<rparr>)" "shaped (q\<lparr>signals := (signals q)[k := y]\<rparr>)"
    "shaped (q\<lparr>stop_requests := (stop_requests q)[k := z]\<rparr>)" "shaped (q\<lparr>unassigned_tasks := a\<rparr>)"
    "shaped (q\<lparr>in_flight_tasks := a, accepted := b\<rparr>)" "shaped (q\<lparr>in_flight_tasks := a\<rparr>)"
    "shaped (q\<lparr>threads_complete := z\<rparr>)" "shaped (q\<lparr>refused := b\<rparr>)"
    "shaped (q\<lparr>queues := (queues q)[k := x], cleared := b\<rparr>)"
    if "shaped q" for q :: "('a, 'b) pool" and k x y z a b
    using that by (simp_all add: shaped_def)
  show ?thesis
  proof (cases "clients p ! j")
    case (Pick t)
    obtain r ys where f: "copy_front_and_rotate_to_back (priority_queue p) = (r, ys)" by fastforce
    from copy_front_mset [OF f] assms(1) have m: "shaped (p\<lparr>priority_queue := ys\<rparr>)" by (simp add: shaped_def)
    have "i < length (workers p)" if "r = Some i" for i
      using copy_front_mset [OF f] assms(1) that
      by (metis shaped_def atLeastLessThan_iff set_mset_mset set_upt)
    then show ?thesis using assms(1,3) Pick f m
      by (cases r) (auto simp: client_step_simps intro!: shaped_call sh)
  qed (use assms(1,3) c in \<open>auto simp: client_step_simps q_clear_def Let_def map_sum_def release_signal_Inr
      split: if_splits sum.splits intro!: shaped_call sh\<close>)
qed

lemma balanced_worker:
  assumes "balanced p" and "shaped p" and "i < length (workers p)" and "worker_step call woken i p = Some p'"
  shows "balanced p'"
proof (cases "workers p ! i")
  case PopFront
  then show ?thesis using assms
    by (auto simp: worker_step_def balanced_def shaped_def pool_simps Let_def split: if_splits)
next
  case (Steal j)
  have "(i + j) mod length (workers p) < length (workers p)" using assms(3) by (intro mod_less_divisor) linarith
  with Steal show ?thesis using assms
    by (auto simp: worker_step_def balanced_def shaped_def pool_simps Let_def split: if_splits)
next
  case (Running own t)
  then show ?thesis using assms
    by (cases t) (auto simp: worker_step_def balanced_def pool_simps invoke_def)
next
  case NotifyOne
  with assms(4) obtain q where q: "notify_one woken p = Some q" "p' = goto i CheckStop q"
    by (auto simp: worker_step_def)
  from q(1) show ?thesis
    by (cases rule: notify_one_cases)
      (use assms(1,3) q(2) NotifyOne in \<open>simp_all add: balanced_def pool_simps\<close>)
qed (use assms in \<open>auto simp: worker_step_def balanced_def pool_simps split: if_splits\<close>)

lemma conserved_worker:
  assumes "conserved u p" and "shaped p" and "i < length (workers p)" and "worker_step call woken i p = Some p'"
  shows "conserved u p'"
proof (cases "workers p ! i")
  case PopFront
  then show ?thesis using assms
    by (auto simp: worker_step_def conserved_def shaped_def pool_simps Let_def split: if_splits)
next
  case (Steal j)
  have "(i + j) mod length (workers p) < length (workers p)" using assms(3) by (intro mod_less_divisor) linarith
  with Steal show ?thesis using assms
    by (auto simp: worker_step_def conserved_def shaped_def pool_simps Let_def split: if_splits)
next
  case (Running own t)
  then show ?thesis using assms
    by (cases t) (auto simp: worker_step_def conserved_def pool_simps invoke_def)
next
  case NotifyOne
  with assms(4) obtain q where q: "notify_one woken p = Some q" "p' = goto i CheckStop q"
    by (auto simp: worker_step_def)
  from q(1) show ?thesis
    by (cases rule: notify_one_cases)
      (use assms(1,3) q(2) NotifyOne in \<open>simp_all add: conserved_def pool_simps\<close>)
qed (use assms in \<open>auto simp: worker_step_def conserved_def pool_simps split: if_splits\<close>)

lemma client_index:
  assumes "shaped p" and "j < length (clients p)"
  shows "client_ok (length (queues p)) (clients p ! j)"
  using assms by (simp add: shaped_def)

lemma balanced_client:
  assumes "balanced p" and "shaped p" and "j < length (clients p)" and "client_step j p = Some (Inr p')"
  shows "balanced p'"
proof (cases "clients p ! j")
  case (Pick t)
  obtain r ys where f: "copy_front_and_rotate_to_back (priority_queue p) = (r, ys)" by fastforce
  with assms(1,3,4) Pick show ?thesis
    by (cases r) (auto simp: client_step_simps balanced_def pool_simps)
qed (use assms(1,3,4) client_index [OF assms(2,3)] in \<open>auto simp: client_step_simps balanced_def pool_simps Let_def map_sum_def
      release_signal_Inr q_size_def split: if_splits sum.splits\<close>)

lemma conserved_client:
  assumes "conserved u p" and "shaped p" and "j < length (clients p)" and "client_step j p = Some (Inr p')"
  shows "conserved u p'"
proof (cases "clients p ! j")
  case (Pick t)
  obtain r ys where f: "copy_front_and_rotate_to_back (priority_queue p) = (r, ys)" by fastforce
  with assms(1,3,4) Pick show ?thesis
    by (cases r) (auto simp: client_step_simps conserved_def pool_simps)
qed (use assms(1,3,4) client_index [OF assms(2,3)] in \<open>auto simp: client_step_simps conserved_def pool_simps Let_def map_sum_def
      release_signal_Inr split: if_splits sum.splits\<close>)

lemma arrive_inv:
  assumes "new_call c"
  shows "shaped p \<Longrightarrow> shaped (p\<lparr>clients := clients p @ [c]\<rparr>)"
    and "balanced p \<Longrightarrow> balanced (p\<lparr>clients := clients p @ [c]\<rparr>)"
    and "conserved u p \<Longrightarrow> conserved u (p\<lparr>clients := clients p @ [c]\<rparr>)"
  using assms by (cases c; simp add: shaped_def balanced_def conserved_def)+

lemma pool_reach_inv:
  assumes "threads_reach call started p"
  shows "shaped p \<and> balanced p \<and> (\<forall>u. conserved u p)"
  using assms
proof (induction rule: threads_reach.induct)
  case created
  show ?case by (simp add: shaped_new balanced_new conserved_new)
next
  case (stepped p p')
  from stepped.hyps(2) show ?case
  proof (cases rule: threads_step.cases)
    case (work i woken)
    with stepped.IH show ?thesis
      using shaped_worker [OF _ work] balanced_worker [OF _ _ work] conserved_worker [OF _ _ work] by blast
  next
    case (serve j)
    with stepped.IH show ?thesis
      using shaped_client [OF _ serve] balanced_client [OF _ _ serve] conserved_client [OF _ _ serve] by blast
  next
    case (arrive c)
    with stepped.IH arrive_inv show ?thesis by blast
  qed
qed

section \<open>Wake-ups\<close>

fun awake :: "'f worker \<Rightarrow> bool" where
  "awake PopFront \<longleftrightarrow> True"
| "awake (Popped own t) \<longleftrightarrow> True"
| "awake (Running own t) \<longleftrightarrow> True"
| "awake (Finished own) \<longleftrightarrow> True"
| "awake (Steal j) \<longleftrightarrow> True"
| "awake CheckUnassigned \<longleftrightarrow> True"
| "awake _ \<longleftrightarrow> False"

fun will_check :: "'f worker \<Rightarrow> bool" where
  "will_check Rotate \<longleftrightarrow> True"
| "will_check CheckInFlight \<longleftrightarrow> True"
| "will_check SetComplete \<longleftrightarrow> True"
| "will_check w \<longleftrightarrow> awake w"

text \<open>
  Something will bring worker \<open>i\<close> to look for tasks again (\<open>prompted\<close>), or to look at the number
  of tasks in flight (\<open>active\<close>): its semaphore, a caller about to release it, or where it stands.
\<close>

definition summoned :: "nat \<Rightarrow> ('f, 'r) pool \<Rightarrow> bool" where
  "summoned i p \<longleftrightarrow> 0 < signals p ! i \<or> ReleaseSignal i \<in> set (clients p)"

definition prompted :: "nat \<Rightarrow> ('f, 'r) pool \<Rightarrow> bool" where
  "prompted i p \<longleftrightarrow> summoned i p \<or> awake (workers p ! i)"

definition active :: "nat \<Rightarrow> ('f, 'r) pool \<Rightarrow> bool" where
  "active i p \<longleftrightarrow> summoned i p \<or> will_check (workers p ! i)"

lemma awake_will_check: "awake w \<Longrightarrow> will_check w"
  by (cases w) simp_all

lemma prompted_active: "prompted i p \<Longrightarrow> active i p"
  by (auto simp: prompted_def active_def awake_will_check)

text \<open>A step of a worker changes the clients only by waking one that sleeps.\<close>

lemma worker_step_same_clients:
  assumes "worker_step call woken i p = Some p'" and "workers p ! i \<noteq> NotifyOne"
  shows "clients p' = clients p"
proof (cases "workers p ! i")
  case (Running own t)
  with assms(1) show ?thesis by (cases t) (auto simp: worker_step_def goto_def invoke_def)
qed (use assms in \<open>auto simp: worker_step_def goto_def Let_def split: if_splits prod.splits option.splits\<close>)

lemma set_update_other:
  "k < length xs \<Longrightarrow> c \<noteq> xs ! k \<Longrightarrow> c \<noteq> y \<Longrightarrow> c \<in> set (xs[k := y]) \<longleftrightarrow> c \<in> set xs"
  by (auto simp: set_conv_nth nth_list_update)

lemma worker_step_clients:
  assumes "worker_step call woken i p = Some p'" and "\<not> asleep c" and "\<not> (\<exists>d. c = WaitComplete d)"
  shows "c \<in> set (clients p') \<longleftrightarrow> c \<in> set (clients p)"
proof (cases "workers p ! i = NotifyOne")
  case True
  with assms(1) obtain q where q: "notify_one woken p = Some q" "p' = goto i CheckStop q"
    by (auto simp: worker_step_def)
  from q(1) show ?thesis
  proof (cases rule: notify_one_cases)
    case (2 d)
    have "c \<noteq> clients p ! woken" using 2(2) assms(2) by auto
    from set_update_other [OF 2(1) this, of "WaitComplete d"] assms(3) 2(3) q(2)
    show ?thesis by (simp add: goto_def)
  qed (simp add: q(2) goto_def)
next
  case False
  from worker_step_same_clients [OF assms(1) this] show ?thesis by simp
qed

lemma worker_step_workers:
  assumes "worker_step call woken i p = Some p'" and "i < length (workers p)"
  shows "length (workers p') = length (workers p)" and "k \<noteq> i \<Longrightarrow> workers p' ! k = workers p ! k"
proof -
  have "\<exists>w. workers p' = (workers p)[i := w]"
  proof (cases "workers p ! i")
    case (Running own t)
    with assms(1) show ?thesis by (cases t) (auto simp: worker_step_def goto_def invoke_def)
  next
    case NotifyOne
    with assms(1) obtain q where q: "notify_one woken p = Some q" "p' = goto i CheckStop q"
      by (auto simp: worker_step_def)
    from q(1) show ?thesis by (cases rule: notify_one_cases) (auto simp: q(2) goto_def)
  qed (use assms(1) in \<open>auto simp: worker_step_def goto_def Let_def split: if_splits prod.splits option.splits\<close>)
  then show "length (workers p') = length (workers p)" and "k \<noteq> i \<Longrightarrow> workers p' ! k = workers p ! k" by auto
qed

lemma worker_step_signals:
  assumes "worker_step call woken i p = Some p'"
  shows "signals p' = (if workers p ! i = Acquire then (signals p)[i := signals p ! i - 1] else signals p)"
proof (cases "workers p ! i")
  case (Running own t)
  with assms show ?thesis by (cases t) (auto simp: worker_step_def goto_def invoke_def)
next
  case NotifyOne
  with assms obtain q where q: "notify_one woken p = Some q" "p' = goto i CheckStop q"
    by (auto simp: worker_step_def)
  from q(1) show ?thesis by (cases rule: notify_one_cases) (auto simp: q(2) goto_def NotifyOne)
qed (use assms in \<open>auto simp: worker_step_def goto_def Let_def split: if_splits prod.splits option.splits\<close>)

lemma summoned_worker:
  assumes "worker_step call woken i p = Some p'" and "summoned k p" and "k = i \<longrightarrow> workers p ! i \<noteq> Acquire"
  shows "summoned k p'"
  using assms worker_step_clients [OF assms(1), of "ReleaseSignal k"]
  by (auto simp: summoned_def worker_step_signals [OF assms(1)])

lemma worker_step_stays:
  assumes "worker_step call woken i p = Some p'" and "i < length (workers p)"
  shows "workers p ! i = Acquire \<Longrightarrow> awake (workers p' ! i)"
    and "awake (workers p ! i) \<Longrightarrow> awake (workers p' ! i) \<or> (workers p ! i = CheckUnassigned \<and> unassigned_tasks p \<le> 0)"
    and "will_check (workers p ! i) \<Longrightarrow> will_check (workers p' ! i) \<or>
      (workers p ! i = CheckInFlight \<and> in_flight_tasks p \<noteq> 0) \<or> (workers p ! i = SetComplete \<and> threads_complete p')"
  using assms
  by (cases "workers p ! i"; auto simp: worker_step_def goto_def invoke_def Let_def split: if_splits prod.splits option.splits task.splits)+

lemma prompted_worker:
  assumes "worker_step call woken i p = Some p'" and "i < length (workers p)" and "prompted k p"
  shows "prompted k p' \<or> (workers p ! i = CheckUnassigned \<and> unassigned_tasks p \<le> 0)"
proof (cases "k = i")
  case True
  show ?thesis
  proof (cases "workers p ! i = Acquire")
    case True
    with worker_step_stays(1) [OF assms(1,2)] \<open>k = i\<close> show ?thesis by (simp add: prompted_def)
  next
    case False
    with assms summoned_worker [OF assms(1), of k] worker_step_stays(2) [OF assms(1,2)] True
    show ?thesis by (auto simp: prompted_def)
  qed
next
  case False
  with assms(3) summoned_worker [OF assms(1), of k] worker_step_workers(2) [OF assms(1,2) False]
  show ?thesis by (auto simp: prompted_def)
qed

lemma active_worker:
  assumes "worker_step call woken i p = Some p'" and "i < length (workers p)" and "active k p"
  shows "active k p' \<or> (workers p ! i = CheckInFlight \<and> in_flight_tasks p \<noteq> 0) \<or> threads_complete p'"
proof (cases "k = i")
  case True
  show ?thesis
  proof (cases "workers p ! i = Acquire")
    case True
    with worker_step_stays(1) [OF assms(1,2)] \<open>k = i\<close> show ?thesis by (simp add: active_def awake_will_check)
  next
    case False
    with assms summoned_worker [OF assms(1), of k] worker_step_stays(3) [OF assms(1,2)] True
    show ?thesis by (auto simp: active_def)
  qed
next
  case False
  with assms(3) summoned_worker [OF assms(1), of k] worker_step_workers(2) [OF assms(1,2) False]
  show ?thesis by (auto simp: active_def)
qed

text \<open>
  A step of a caller changes its own entry only, releases at most a semaphore, and leaves the
  workers alone.
\<close>

lemma client_step_frame:
  assumes "client_step j p = Some (Inr p')"
  shows "workers p' = workers p" and "\<exists>c. clients p' = (clients p)[j := c]"
    and "signals p' = signals p \<or> (\<exists>k. (clients p ! j = ReleaseSignal k \<or> clients p ! j = ReleaseStopped k) \<and>
      signals p' = (signals p)[k := 1])"
proof -
  have "workers p' = workers p \<and> (\<exists>c. clients p' = (clients p)[j := c]) \<and>
    (signals p' = signals p \<or> (\<exists>k. (clients p ! j = ReleaseSignal k \<or> clients p ! j = ReleaseStopped k) \<and>
      signals p' = (signals p)[k := 1]))"
  proof (cases "clients p ! j")
    case (Pick t)
    obtain r ys where "copy_front_and_rotate_to_back (priority_queue p) = (r, ys)" by fastforce
    with assms Pick show ?thesis by (cases r) (auto simp: client_step_simps next_call_def)
  qed (use assms in \<open>auto simp: client_step_simps next_call_def q_clear_def Let_def map_sum_def release_signal_Inr
      split: if_splits sum.splits\<close>)
  then show "workers p' = workers p" and "\<exists>c. clients p' = (clients p)[j := c]"
    and "signals p' = signals p \<or> (\<exists>k. (clients p ! j = ReleaseSignal k \<or> clients p ! j = ReleaseStopped k) \<and>
      signals p' = (signals p)[k := 1])" by blast+
qed

lemma client_step_keeps:
  assumes "client_step j p = Some (Inr p')" and "j < length (clients p)" and "c \<in> set (clients p)" and "c \<noteq> clients p ! j"
  shows "c \<in> set (clients p')"
proof -
  obtain d where "clients p' = (clients p)[j := d]" using client_step_frame(2) [OF assms(1)] by blast
  with assms(2-4) show ?thesis by (auto simp: set_conv_nth nth_list_update)
qed

lemma list_update_pos: "k < length xs \<Longrightarrow> 0 < xs ! k \<Longrightarrow> 0 < (xs[i := Suc 0]) ! k"
  by (cases "i = k") auto

lemma summoned_client:
  assumes "client_step j p = Some (Inr p')" and "shaped p" and "j < length (clients p)" and "k < length (workers p)"
    and "summoned k p"
  shows "summoned k p'"
proof -
  have k: "k < length (signals p)" using assms(2,4) by (simp add: shaped_def)
  have sig: "0 < signals p' ! k" if "0 < signals p ! k"
    using client_step_frame(3) [OF assms(1)] that k list_update_pos by fastforce
  show ?thesis
  proof (cases "clients p ! j = ReleaseSignal k")
    case True
    then have "signals p' = (signals p)[k := 1]"
      using assms(1) by (auto simp: client_step_simps next_call_def map_sum_def release_signal_Inr split: sum.splits)
    with k show ?thesis by (simp add: summoned_def)
  next
    case False
    with assms(5) sig client_step_keeps [OF assms(1,3), of "ReleaseSignal k"] show ?thesis
      by (auto simp: summoned_def)
  qed
qed

lemma prompted_client:
  assumes "client_step j p = Some (Inr p')" and "shaped p" and "j < length (clients p)" and "k < length (workers p)"
  shows "prompted k p \<Longrightarrow> prompted k p'" and "active k p \<Longrightarrow> active k p'"
  using summoned_client [OF assms] client_step_frame(1) [OF assms(1)]
  by (auto simp: prompted_def active_def)

section \<open>Nothing is forgotten\<close>

fun clearing :: "'f client \<Rightarrow> bool" where
  "clearing (ClearQueue k removed) \<longleftrightarrow> 0 < removed"
| "clearing (SubInFlight removed) \<longleftrightarrow> 0 < removed"
| "clearing (SubUnassigned removed) \<longleftrightarrow> 0 < removed"
| "clearing _ \<longleftrightarrow> False"

fun pushing :: "'f client \<Rightarrow> bool" where
  "pushing (ResetComplete t i) \<longleftrightarrow> True"
| "pushing (PushTask t i) \<longleftrightarrow> True"
| "pushing _ \<longleftrightarrow> False"

fun waiting :: "'f client \<Rightarrow> bool" where
  "waiting (WaitComplete d) \<longleftrightarrow> True"
| "waiting (Asleep d) \<longleftrightarrow> True"
| "waiting _ \<longleftrightarrow> False"

definition queued_prompts :: "('f, 'r) pool \<Rightarrow> bool" where
  "queued_prompts p \<longleftrightarrow> (\<forall>k < length (workers p). queues p ! k \<noteq> [] \<longrightarrow> prompted k p)"

definition cleared_prompts :: "('f, 'r) pool \<Rightarrow> bool" where
  "cleared_prompts p \<longleftrightarrow> (\<forall>c \<in> set (clients p). clearing c \<longrightarrow> (\<exists>k < length (workers p). prompted k p))"

definition completes :: "('f, 'r) pool \<Rightarrow> bool" where
  "completes p \<longleftrightarrow> accepted p \<noteq> [] \<longrightarrow> threads_complete p \<or> (\<exists>k < length (workers p). active k p) \<or>
     (\<exists>c \<in> set (clients p). pushing c)"

lemma q_size_nonneg [simp]: "0 \<le> q_size q"
  by (simp add: q_size_def)

lemma weights_nonneg [simp]: "0 \<le> w_unassigned w" "0 \<le> w_flight w" "0 \<le> c_unassigned c" "0 \<le> c_flight c"
  by (cases w; simp)+ (cases c; simp)+

lemma tallies_nonneg [simp]: "0 \<le> tally q_size qs" "0 \<le> tally w_unassigned ws" "0 \<le> tally w_flight ws"
  "0 \<le> tally c_unassigned cs" "0 \<le> tally c_flight cs"
  by (rule tally_nonneg; simp)+

lemma unassigned_pos:
  assumes "balanced p"
  shows "k < length (queues p) \<Longrightarrow> queues p ! k \<noteq> [] \<Longrightarrow> 0 < unassigned_tasks p"
    and "c \<in> set (clients p) \<Longrightarrow> clearing c \<Longrightarrow> 0 < unassigned_tasks p"
proof -
  assume k: "k < length (queues p)" "queues p ! k \<noteq> []"
  then have "q_size (queues p ! k) \<le> tally q_size (queues p)" by (intro tally_member) simp_all
  moreover have "0 < q_size (queues p ! k)" using k(2) by (simp add: q_size_def)
  ultimately have "0 < tally q_size (queues p)" by linarith
  with assms tallies_nonneg(2) [of "workers p"] tallies_nonneg(4) [of "clients p"]
  show "0 < unassigned_tasks p" unfolding balanced_def by linarith
next
  assume c: "c \<in> set (clients p)" "clearing c"
  then have "c_unassigned c \<le> tally c_unassigned (clients p)" by (intro tally_member) simp_all
  moreover have "0 < c_unassigned c" using c(2) by (cases c) simp_all
  ultimately have "0 < tally c_unassigned (clients p)" by linarith
  with assms tallies_nonneg(1) [of "queues p"] tallies_nonneg(2) [of "workers p"]
  show "0 < unassigned_tasks p" unfolding balanced_def by linarith
qed

lemma tally_pos: "0 < tally f xs \<Longrightarrow> \<exists>x \<in> set xs. 0 < f x"
  by (induction xs) (auto simp: not_less, metis add_nonpos_nonpos not_less)

text \<open>Tasks in flight keep a worker prompted, unless a caller is about to push one.\<close>

lemma flight_prompted:
  assumes "shaped p" and "balanced p" and "queued_prompts p" and "cleared_prompts p" and "in_flight_tasks p \<noteq> 0"
  shows "(\<exists>k < length (workers p). prompted k p) \<or> (\<exists>c \<in> set (clients p). pushing c)"
proof -
  have "0 < tally q_size (queues p) \<or> 0 < tally w_flight (workers p) \<or> 0 < tally c_flight (clients p)"
    using assms(2,5) tallies_nonneg(1) [of "queues p"] tallies_nonneg(3) [of "workers p"] tallies_nonneg(5) [of "clients p"]
    unfolding balanced_def by linarith
  then show ?thesis
  proof (elim disjE)
    assume "0 < tally q_size (queues p)"
    from tally_pos [OF this] obtain q where "q \<in> set (queues p)" "0 < q_size q" by blast
    then obtain k where "k < length (workers p)" "queues p ! k \<noteq> []"
      using assms(1) by (auto simp: shaped_def in_set_conv_nth q_size_def)
    with assms(3) show ?thesis by (auto simp: queued_prompts_def)
  next
    assume "0 < tally w_flight (workers p)"
    from tally_pos [OF this] obtain k where k: "k < length (workers p)" "0 < w_flight (workers p ! k)"
      by (auto simp: in_set_conv_nth)
    from k(2) have "awake (workers p ! k)" by (cases "workers p ! k") simp_all
    with k(1) show ?thesis by (auto simp: prompted_def)
  next
    assume "0 < tally c_flight (clients p)"
    from tally_pos [OF this] obtain c where c: "c \<in> set (clients p)" "0 < c_flight c" by blast
    from c(2) have "pushing c \<or> clearing c" by (cases c) simp_all
    with c(1) assms(4) show ?thesis by (auto simp: cleared_prompts_def)
  qed
qed

lemma nonempty_update:
  "k < length xs \<Longrightarrow> (xs[i := ys]) ! k \<noteq> [] \<Longrightarrow> xs ! k \<noteq> [] \<or> (i = k \<and> ys \<noteq> [])"
  by (cases "i = k") auto

lemma other_clients:
  "clearing c \<Longrightarrow> \<not> asleep c \<and> \<not> (\<exists>d. c = WaitComplete d)"
  "pushing c \<Longrightarrow> \<not> asleep c \<and> \<not> (\<exists>d. c = WaitComplete d)"
  by (cases c; simp)+

lemma worker_step_rest:
  assumes "worker_step call woken i p = Some p'" and "shaped p" and "i < length (workers p)"
  shows "k < length (queues p) \<Longrightarrow> queues p' ! k \<noteq> [] \<Longrightarrow> queues p ! k \<noteq> []"
    and "accepted p' = accepted p" and "threads_complete p \<Longrightarrow> threads_complete p'"
proof -
  have "(\<forall>k < length (queues p). queues p' ! k \<noteq> [] \<longrightarrow> queues p ! k \<noteq> []) \<and>
    accepted p' = accepted p \<and> (threads_complete p \<longrightarrow> threads_complete p')"
  proof (cases "workers p ! i")
    case PopFront
    with assms show ?thesis
      by (auto simp: worker_step_def goto_def q_pop_front_def split: if_splits dest: nonempty_update)
  next
    case (Steal j)
    with assms show ?thesis
      by (auto simp: worker_step_def goto_def q_steal_def Let_def split: if_splits dest: nonempty_update)
  next
    case (Running own t)
    with assms(1) show ?thesis by (cases t) (auto simp: worker_step_def goto_def invoke_def)
  next
    case NotifyOne
    with assms(1) obtain q where q: "notify_one woken p = Some q" "p' = goto i CheckStop q"
      by (auto simp: worker_step_def)
    from q(1) show ?thesis by (cases rule: notify_one_cases) (auto simp: q(2) goto_def)
  qed (use assms(1) in \<open>auto simp: worker_step_def goto_def split: if_splits\<close>)
  then show "k < length (queues p) \<Longrightarrow> queues p' ! k \<noteq> [] \<Longrightarrow> queues p ! k \<noteq> []"
    and "accepted p' = accepted p" and "threads_complete p \<Longrightarrow> threads_complete p'" by blast+
qed

lemma prompts_worker:
  assumes "shaped p" and "balanced p" and "queued_prompts p" and "cleared_prompts p" and "completes p"
    and "i < length (workers p)" and "worker_step call woken i p = Some p'"
  shows "queued_prompts p' \<and> cleared_prompts p' \<and> completes p'"
proof -
  note len = worker_step_workers(1) [OF assms(7,6)]
  have q: "queued_prompts p'"
    unfolding queued_prompts_def len
  proof (intro allI impI)
    fix k assume k: "k < length (workers p)" "queues p' ! k \<noteq> []"
    then have k': "k < length (queues p)" using assms(1) by (simp add: shaped_def)
    from worker_step_rest(1) [OF assms(7,1,6) this k(2)] have ne: "queues p ! k \<noteq> []" .
    with assms(3) k(1) have "prompted k p" by (simp add: queued_prompts_def)
    from prompted_worker [OF assms(7,6) this] unassigned_pos(1) [OF assms(2) k' ne]
    show "prompted k p'" by auto
  qed
  have c: "cleared_prompts p'"
    unfolding cleared_prompts_def len
  proof (intro ballI impI)
    fix c assume c: "c \<in> set (clients p')" "clearing c"
    then have "c \<in> set (clients p)" using worker_step_clients [OF assms(7), of c] other_clients(1) by blast
    with assms(4) c(2) obtain k where k: "k < length (workers p)" "prompted k p" by (auto simp: cleared_prompts_def)
    from prompted_worker [OF assms(7,6) k(2)] unassigned_pos(2) [OF assms(2) \<open>c \<in> set (clients p)\<close> c(2)]
    have "prompted k p'" by auto
    with k(1) show "\<exists>k < length (workers p). prompted k p'" by blast
  qed
  have keep: "\<exists>c \<in> set (clients p'). pushing c" if "\<exists>c \<in> set (clients p). pushing c"
  proof -
    from that obtain c where c: "c \<in> set (clients p)" "pushing c" by blast
    then have "c \<in> set (clients p')" using worker_step_clients [OF assms(7), of c] other_clients(2) by blast
    with c(2) show ?thesis by blast
  qed
  have "completes p'"
    unfolding completes_def worker_step_rest(2) [OF assms(7,1,6)] len
  proof
    assume "accepted p \<noteq> []"
    with assms(5) consider "threads_complete p" | k where "k < length (workers p)" "active k p"
      | "\<exists>c \<in> set (clients p). pushing c" by (auto simp: completes_def)
    then show "threads_complete p' \<or> (\<exists>k < length (workers p). active k p') \<or> (\<exists>c \<in> set (clients p'). pushing c)"
    proof cases
      case 1
      with worker_step_rest(3) [OF assms(7,1,6)] show ?thesis by simp
    next
      case 2
      show ?thesis
      proof (cases "workers p ! i = CheckInFlight \<and> in_flight_tasks p \<noteq> 0")
        case True
        from flight_prompted [OF assms(1-4)] True have
          "(\<exists>k < length (workers p). prompted k p) \<or> (\<exists>c \<in> set (clients p). pushing c)" by blast
        then show ?thesis
        proof
          assume "\<exists>k < length (workers p). prompted k p"
          then obtain k' where k': "k' < length (workers p)" "prompted k' p" by blast
          with prompted_worker [OF assms(7,6) k'(2)] True have "prompted k' p'" by simp
          with k'(1) prompted_active show ?thesis by blast
        qed (use keep in blast)
      next
        case False
        with active_worker [OF assms(7,6) 2(2)] 2(1) show ?thesis by blast
      qed
    qed (use keep in blast)
  qed
  with q c show ?thesis by blast
qed

lemma client_step_queues:
  assumes "client_step j p = Some (Inr p')" and "shaped p" and "j < length (clients p)" and "k < length (workers p)"
    and "queues p' ! k \<noteq> []"
  shows "queues p ! k \<noteq> [] \<or> ReleaseSignal k \<in> set (clients p')"
proof (cases "clients p ! j")
  case (Pick t)
  obtain r ys where "copy_front_and_rotate_to_back (priority_queue p) = (r, ys)" by fastforce
  with assms(1,5) Pick show ?thesis by (cases r) (auto simp: client_step_simps next_call_def)
next
  case (PushTask t i)
  then have "p' = next_call j (ReleaseSignal i) (p\<lparr>queues := (queues p)[i := q_push_back t (queues p ! i)]\<rparr>)"
    using assms(1) by (simp add: client_step_simps)
  moreover have "ReleaseSignal i \<in> set ((clients p)[j := ReleaseSignal i])" using assms(3) by (rule set_update_memI)
  ultimately show ?thesis using assms(5) by (cases "i = k") (auto simp: next_call_def)
next
  case (ClearQueue m removed)
  with assms(1,2,4,5) show ?thesis
    by (cases "m = k") (auto simp: client_step_simps next_call_def q_clear_def shaped_def split: if_splits)
qed (use assms(1,5) in \<open>auto simp: client_step_simps next_call_def Let_def map_sum_def release_signal_Inr
      split: if_splits sum.splits\<close>)

lemma client_step_clearing:
  assumes "client_step j p = Some (Inr p')" and "shaped p" and "j < length (clients p)"
    and "c \<in> set (clients p')" and "clearing c"
  shows "(\<exists>d \<in> set (clients p). clearing d) \<or> (\<exists>k < length (workers p). queues p ! k \<noteq> [])"
proof (cases "c \<in> set (clients p)")
  case False
  obtain d where d: "clients p' = (clients p)[j := d]" using client_step_frame(2) [OF assms(1)] by blast
  with assms(4) False have c: "d = c" using set_update_subset_insert by fastforce
  have m: "clients p ! j \<in> set (clients p)" using assms(3) by simp
  have new: "clients p' ! j = c" using d c assms(3) by simp
  show ?thesis
  proof (cases "clients p ! j")
    case (Pick t)
    obtain r ys where "copy_front_and_rotate_to_back (priority_queue p) = (r, ys)" by fastforce
    with assms(1,3,5) new Pick show ?thesis by (cases r) (auto simp: client_step_simps next_call_def)
  next
    case (ClearQueue k removed)
    show ?thesis
    proof (cases "0 < removed")
      case True
      with ClearQueue m show ?thesis by force
    next
      case False
      with ClearQueue assms(1,2,3,5) new show ?thesis
        by (auto simp: client_step_simps next_call_def q_clear_def shaped_def split: if_splits)
    qed
  next
    case (SubInFlight removed)
    with m assms(1,3,5) new show ?thesis by (force simp: client_step_simps next_call_def)
  next
    case (SubUnassigned removed)
    with m assms(1,3,5) new show ?thesis by (force simp: client_step_simps next_call_def)
  qed (use assms(1,3,5) new in \<open>auto simp: client_step_simps next_call_def Let_def map_sum_def release_signal_Inr
      split: if_splits sum.splits\<close>)
qed (use assms(5) in blast)

lemma client_step_quiet:
  assumes "client_step j p = Some (Inr p')" and "\<not> pushing (clients p ! j)" and "\<not> (\<exists>t i. clients p ! j = AddInFlight t i)"
  shows "accepted p' = accepted p" and "threads_complete p' = threads_complete p"
proof -
  have "accepted p' = accepted p \<and> threads_complete p' = threads_complete p"
  proof (cases "clients p ! j")
    case (Pick t)
    obtain r ys where "copy_front_and_rotate_to_back (priority_queue p) = (r, ys)" by fastforce
    with assms(1) Pick show ?thesis by (cases r) (auto simp: client_step_simps next_call_def)
  qed (use assms in \<open>auto simp: client_step_simps next_call_def q_clear_def Let_def map_sum_def release_signal_Inr
      split: if_splits sum.splits\<close>)
  then show "accepted p' = accepted p" and "threads_complete p' = threads_complete p" by blast+
qed

lemma prompts_client:
  assumes "shaped p" and "queued_prompts p" and "cleared_prompts p" and "completes p"
    and "j < length (clients p)" and "client_step j p = Some (Inr p')"
  shows "queued_prompts p' \<and> cleared_prompts p' \<and> completes p'"
proof -
  note len = client_step_frame(1) [OF assms(6)]
  have keep: "prompted k p'" if "k < length (workers p)" "prompted k p" for k
    using prompted_client(1) [OF assms(6,1,5) that] .
  have "prompted k p'" if k: "k < length (workers p)" "queues p' ! k \<noteq> []" for k
  proof (cases "queues p ! k = []")
    case True
    with client_step_queues [OF assms(6,1,5) k] show ?thesis by (simp add: prompted_def summoned_def)
  next
    case False
    with assms(2) k(1) keep show ?thesis unfolding queued_prompts_def by blast
  qed
  then have q: "queued_prompts p'" by (simp add: queued_prompts_def len)
  have "\<exists>k < length (workers p). prompted k p'" if c: "c \<in> set (clients p')" "clearing c" for c
    using client_step_clearing [OF assms(6,1,5) c] assms(2,3) keep
    unfolding queued_prompts_def cleared_prompts_def by blast
  then have c: "cleared_prompts p'" by (auto simp: cleared_prompts_def len)
  have "completes p'"
  proof (cases "pushing (clients p ! j) \<or> (\<exists>t i. clients p ! j = AddInFlight t i)")
    case True
    then obtain t i where "clients p ! j = ResetComplete t i \<or> clients p ! j = PushTask t i \<or> clients p ! j = AddInFlight t i"
      by (cases "clients p ! j") auto
    moreover have "client_ok (length (workers p)) (clients p ! j)" using assms(1,5) by (simp add: shaped_def)
    ultimately have i: "i < length (workers p)"
      "PushTask t i \<in> set (clients p') \<or> ResetComplete t i \<in> set (clients p') \<or> ReleaseSignal i \<in> set (clients p')"
      using assms(5,6) by (auto simp: client_step_simps next_call_def Let_def set_update_memI split: if_splits)
    moreover have "pushing (PushTask t i)" "pushing (ResetComplete t i)" by simp_all
    moreover have "ReleaseSignal i \<in> set (clients p') \<Longrightarrow> active i p'" by (simp add: active_def summoned_def)
    ultimately have "(\<exists>k < length (workers p'). active k p') \<or> (\<exists>c \<in> set (clients p'). pushing c)"
      unfolding len by blast
    then show ?thesis by (simp add: completes_def)
  next
    case False
    then have quiet: "accepted p' = accepted p" "threads_complete p' = threads_complete p"
      using client_step_quiet [OF assms(6)] by blast+
    have "\<exists>c \<in> set (clients p'). pushing c" if "\<exists>c \<in> set (clients p). pushing c"
      using that False client_step_keeps [OF assms(6,5)] by blast
    moreover have "\<exists>k < length (workers p). active k p'" if "\<exists>k < length (workers p). active k p"
      using that prompted_client(2) [OF assms(6,1,5)] by blast
    ultimately show ?thesis using assms(4) unfolding completes_def quiet len by blast
  qed
  with q c show ?thesis by blast
qed

lemma prompts_arrive:
  assumes "new_call c" and "queued_prompts p" and "cleared_prompts p" and "completes p"
  shows "queued_prompts (p\<lparr>clients := clients p @ [c]\<rparr>) \<and> cleared_prompts (p\<lparr>clients := clients p @ [c]\<rparr>) \<and>
    completes (p\<lparr>clients := clients p @ [c]\<rparr>)"
proof -
  have "\<not> clearing c" using assms(1) by (cases c) simp_all
  moreover have "prompted k (p\<lparr>clients := clients p @ [c]\<rparr>)" if "prompted k p" for k
    using that by (auto simp: prompted_def summoned_def)
  moreover have "active k (p\<lparr>clients := clients p @ [c]\<rparr>)" if "active k p" for k
    using that by (auto simp: active_def summoned_def)
  ultimately show ?thesis using assms(2-4) by (auto simp: queued_prompts_def cleared_prompts_def completes_def)
qed

lemma pool_reach_prompts:
  assumes "threads_reach call started p"
  shows "queued_prompts p \<and> cleared_prompts p \<and> completes p"
  using assms
proof (induction rule: threads_reach.induct)
  case created
  show ?case by (simp add: new_pool_fresh fresh_pool_def queued_prompts_def cleared_prompts_def completes_def)
next
  case (stepped p p')
  note inv = pool_reach_inv [OF stepped.hyps(1)]
  from stepped.hyps(2) show ?case
  proof (cases rule: threads_step.cases)
    case (work i woken)
    with stepped.IH inv show ?thesis using prompts_worker [OF _ _ _ _ _ work] by blast
  next
    case (serve j)
    with stepped.IH inv show ?thesis using prompts_client [OF _ _ _ _ serve] by blast
  next
    case (arrive c)
    with stepped.IH prompts_arrive show ?thesis by blast
  qed
qed

section \<open>Threads that wait\<close>

fun waiter :: "'f client \<Rightarrow> bool" where
  "waiter (LoadInFlight d) \<longleftrightarrow> True"
| "waiter (WaitComplete d) \<longleftrightarrow> True"
| "waiter (Asleep d) \<longleftrightarrow> True"
| "waiter (RequestStop i) \<longleftrightarrow> True"
| "waiter (ReleaseStopped i) \<longleftrightarrow> True"
| "waiter (Join i) \<longleftrightarrow> True"
| "waiter WaitDone \<longleftrightarrow> True"
| "waiter _ \<longleftrightarrow> False"

definition used :: "('f, 'r) pool \<Rightarrow> bool" where
  "used p \<longleftrightarrow> accepted p \<noteq> [] \<or> (in_flight_tasks p \<le> 0 \<and> (\<forall>c \<in> set (clients p). \<not> waiting c))"

text \<open>With a single waiting thread: while it sleeps, the pool is not complete or about to notify.\<close>

definition waiters :: "('f, 'r) pool \<Rightarrow> int" where
  "waiters p = tally (\<lambda>c. of_bool (waiter c)) (clients p)"

definition notifies :: "('f, 'r) pool \<Rightarrow> bool" where
  "notifies p \<longleftrightarrow> waiters p \<le> 1 \<longrightarrow> list_ex asleep (clients p) \<longrightarrow> \<not> threads_complete p \<or> NotifyOne \<in> set (workers p)"

text \<open>Only a requested stop ends a worker.\<close>

definition stops :: "('f, 'r) pool \<Rightarrow> bool" where
  "stops p \<longleftrightarrow> (\<forall>i < length (workers p). workers p ! i = Returned \<longrightarrow> stop_requests p ! i) \<and>
     (\<forall>i. ReleaseStopped i \<in> set (clients p) \<or> Join i \<in> set (clients p) \<longrightarrow> stop_requests p ! i)"

lemma asleep_waiter: "asleep c \<Longrightarrow> waiter c"
  by (cases c) simp_all

lemma one_sleeper:
  assumes "waiters p \<le> 1" and "k < length (clients p)" and "asleep (clients p ! k)"
  shows "\<not> list_ex asleep ((clients p)[k := WaitComplete d])"
proof
  assume "list_ex asleep ((clients p)[k := WaitComplete d])"
  then have "\<exists>c \<in> set ((clients p)[k := WaitComplete d]). asleep c" by (simp add: list_ex_iff)
  then obtain m where m: "m < length (clients p)" "asleep ((clients p)[k := WaitComplete d] ! m)"
    by (auto simp: in_set_conv_nth)
  then have "m \<noteq> k" using assms(2) by auto
  with m have w: "waiter (clients p ! m)" by (simp add: asleep_waiter)
  let ?xs = "(clients p)[k := CallDone]"
  have "of_bool (waiter (?xs ! m)) \<le> tally (\<lambda>c. of_bool (waiter c)) ?xs"
    by (rule tally_member) (use m(1) in simp_all)
  then have "1 \<le> tally (\<lambda>c. of_bool (waiter c)) ?xs" using w \<open>m \<noteq> k\<close> by simp
  moreover have "tally (\<lambda>c. of_bool (waiter c)) ?xs = waiters p - 1"
    using assms(2,3) by (simp add: tally_update waiters_def asleep_waiter)
  ultimately show False using assms(1) by linarith
qed

lemma waiters_worker:
  assumes "worker_step call woken i p = Some p'"
  shows "waiters p' = waiters p"
proof (cases "workers p ! i = NotifyOne")
  case True
  with assms obtain q where q: "notify_one woken p = Some q" "p' = goto i CheckStop q"
    by (auto simp: worker_step_def)
  from q(1) show ?thesis by (cases rule: notify_one_cases) (auto simp: q(2) goto_def waiters_def tally_update)
next
  case False
  from worker_step_same_clients [OF assms this] show ?thesis by (simp add: waiters_def)
qed

lemma waiters_client:
  assumes "client_step j p = Some (Inr p')" and "j < length (clients p)"
  shows "waiters p' = waiters p"
proof (cases "clients p ! j")
  case (Pick t)
  obtain r ys where "copy_front_and_rotate_to_back (priority_queue p) = (r, ys)" by fastforce
  with assms Pick show ?thesis by (cases r) (auto simp: client_step_simps next_call_def waiters_def tally_update)
qed (use assms in \<open>auto simp: client_step_simps next_call_def waiters_def tally_update q_clear_def Let_def map_sum_def
      release_signal_Inr split: if_splits sum.splits\<close>)

lemma notifies_worker:
  assumes "notifies p" and "i < length (workers p)" and "worker_step call woken i p = Some p'"
  shows "notifies p'"
proof (cases "workers p ! i = NotifyOne")
  case True
  with assms(3) obtain q where q: "notify_one woken p = Some q" "p' = goto i CheckStop q"
    by (auto simp: worker_step_def)
  from q(1) show ?thesis
  proof (cases rule: notify_one_cases)
    case (2 d)
    then show ?thesis
      using one_sleeper [of p woken d] waiters_worker [OF assms(3)] by (simp add: notifies_def q(2) goto_def)
  qed (simp add: notifies_def q(2) goto_def)
next
  case False
  have same: "clients p' = clients p" by (rule worker_step_same_clients [OF assms(3) False])
  have "NotifyOne \<in> set (workers p')" if n: "NotifyOne \<in> set (workers p)"
  proof -
    from n obtain k where k: "k < length (workers p)" "workers p ! k = NotifyOne" by (auto simp: in_set_conv_nth)
    with False have "k \<noteq> i" by auto
    with k worker_step_workers [OF assms(3,2)] show ?thesis by (metis nth_mem)
  qed
  moreover have "threads_complete p' \<longrightarrow> threads_complete p \<or> NotifyOne \<in> set (workers p')"
  proof (cases "workers p ! i")
    case SetComplete
    with assms(2,3) show ?thesis by (auto simp: worker_step_def goto_def set_update_memI)
  next
    case (Running own t)
    with assms(3) show ?thesis by (cases t) (auto simp: worker_step_def goto_def invoke_def)
  qed (use assms(3) False in \<open>auto simp: worker_step_def goto_def Let_def split: if_splits prod.splits option.splits\<close>)
  ultimately show ?thesis using assms(1) waiters_worker [OF assms(3)] by (auto simp: notifies_def same)
qed

lemma notifies_client:
  assumes "notifies p" and "j < length (clients p)" and "client_step j p = Some (Inr p')"
  shows "notifies p'"
proof -
  obtain d where d: "clients p' = (clients p)[j := d]" using client_step_frame(2) [OF assms(3)] by blast
  have new: "clients p' ! j = d" using d assms(2) by simp
  have "threads_complete p' \<longrightarrow> threads_complete p"
  proof (cases "pushing (clients p ! j) \<or> (\<exists>t i. clients p ! j = AddInFlight t i)")
    case True
    then show ?thesis using assms(3) by (cases "clients p ! j") (auto simp: client_step_simps next_call_def Let_def)
  qed (use client_step_quiet [OF assms(3)] in blast)
  moreover have "asleep d \<Longrightarrow> \<not> threads_complete p'"
  proof (cases "clients p ! j")
    case (Pick t)
    obtain r ys where "copy_front_and_rotate_to_back (priority_queue p) = (r, ys)" by fastforce
    moreover assume "asleep d"
    ultimately show ?thesis using assms(2,3) Pick new by (cases r) (auto simp: client_step_simps next_call_def)
  qed (use assms(2,3) new in \<open>auto simp: client_step_simps next_call_def q_clear_def Let_def map_sum_def
      release_signal_Inr split: if_splits sum.splits\<close>)
  moreover have "list_ex asleep (clients p') \<longrightarrow> list_ex asleep (clients p) \<or> asleep d"
    using set_update_subset_insert [of "clients p" j d] by (auto simp: d list_ex_iff)
  ultimately show ?thesis
    using assms(1) waiters_client [OF assms(3,2)] client_step_frame(1) [OF assms(3)] by (auto simp: notifies_def)
qed

lemma used_worker:
  assumes "used p" and "worker_step call woken i p = Some p'"
  shows "used p'"
proof (cases "workers p ! i")
  case (Running own t)
  with assms show ?thesis by (cases t) (auto simp: used_def worker_step_def goto_def invoke_def)
next
  case NotifyOne
  with assms(2) obtain q where q: "notify_one woken p = Some q" "p' = goto i CheckStop q"
    by (auto simp: worker_step_def)
  from q(1) show ?thesis
  proof (cases rule: notify_one_cases)
    case (2 d)
    then have "Asleep d \<in> set (clients p)" by (metis nth_mem)
    then have "accepted p \<noteq> []" using assms(1) unfolding used_def by force
    then show ?thesis by (simp add: used_def q(2) 2(3) goto_def)
  qed (use assms(1) in \<open>simp add: used_def q(2) goto_def\<close>)
qed (use assms in \<open>auto simp: used_def worker_step_def goto_def Let_def split: if_splits prod.splits option.splits\<close>)

lemma used_client:
  assumes "used p" and "j < length (clients p)" and "client_step j p = Some (Inr p')"
  shows "used p'"
proof (cases "accepted p = []")
  case True
  then have u: "in_flight_tasks p \<le> 0" "\<forall>c \<in> set (clients p). \<not> waiting c" using assms(1) by (simp_all add: used_def)
  then have nw: "\<not> waiting (clients p ! j)" using assms(2) by simp
  obtain d where d: "clients p' = (clients p)[j := d]" using client_step_frame(2) [OF assms(3)] by blast
  have new: "clients p' ! j = d" using d assms(2) by simp
  have "accepted p' \<noteq> [] \<or> (in_flight_tasks p' \<le> 0 \<and> \<not> waiting d)"
  proof (cases "clients p ! j")
    case (Pick t)
    obtain r ys where "copy_front_and_rotate_to_back (priority_queue p) = (r, ys)" by fastforce
    with assms(2,3) Pick new u(1) show ?thesis by (cases r) (auto simp: client_step_simps next_call_def)
  qed (use assms(2,3) new u(1) nw in \<open>auto simp: client_step_simps next_call_def q_clear_def Let_def map_sum_def
      release_signal_Inr split: if_splits sum.splits\<close>)
  moreover have "\<not> waiting c" if "c \<in> set (clients p')" "\<not> waiting d" for c
    using that u(2) set_update_subset_insert [of "clients p" j d] by (auto simp: d)
  ultimately show ?thesis by (auto simp: used_def)
next
  case False
  have "accepted p' \<noteq> []"
  proof (cases "pushing (clients p ! j) \<or> (\<exists>t i. clients p ! j = AddInFlight t i)")
    case True
    then show ?thesis using assms(3) False by (cases "clients p ! j") (auto simp: client_step_simps next_call_def Let_def)
  qed (use client_step_quiet [OF assms(3)] False in auto)
  then show ?thesis by (simp add: used_def)
qed

lemma stops_worker:
  assumes "stops p" and "i < length (workers p)" and "worker_step call woken i p = Some p'"
  shows "stops p'"
proof -
  have r: "workers p' ! i = Returned \<longrightarrow> stop_requests p ! i" and s: "stop_requests p' = stop_requests p"
  proof -
    have "(workers p' ! i = Returned \<longrightarrow> stop_requests p ! i) \<and> stop_requests p' = stop_requests p"
    proof (cases "workers p ! i")
      case (Running own t)
      with assms(2,3) show ?thesis by (cases t) (auto simp: worker_step_def goto_def invoke_def)
    next
      case NotifyOne
      with assms(3) obtain q where q: "notify_one woken p = Some q" "p' = goto i CheckStop q"
        by (auto simp: worker_step_def)
      from q(1) show ?thesis using assms(2) by (cases rule: notify_one_cases) (auto simp: q(2) goto_def)
    qed (use assms(2,3) in \<open>auto simp: worker_step_def goto_def Let_def split: if_splits prod.splits option.splits\<close>)
    then show "workers p' ! i = Returned \<longrightarrow> stop_requests p ! i" "stop_requests p' = stop_requests p" by blast+
  qed
  have "stop_requests p ! k" if "k < length (workers p)" "workers p' ! k = Returned" for k
    using that assms(1) r worker_step_workers(2) [OF assms(3,2), of k] by (cases "k = i") (auto simp: stops_def)
  then show ?thesis
    using assms(1) worker_step_clients [OF assms(3)] worker_step_workers(1) [OF assms(3,2)]
    by (auto simp: stops_def s)
qed

lemma list_update_true: "xs ! k \<Longrightarrow> (xs[i := True]) ! k"
  by (cases "i = k"; cases "i < length xs") (auto simp: list_update_beyond)

lemma stops_client:
  assumes "stops p" and "shaped p" and "j < length (clients p)" and "client_step j p = Some (Inr p')"
  shows "stops p'"
proof -
  obtain d where d: "clients p' = (clients p)[j := d]" using client_step_frame(2) [OF assms(4)] by blast
  have new: "clients p' ! j = d" using d assms(3) by simp
  have m: "clients p ! j \<in> set (clients p)" using assms(3) by simp
  have "(\<forall>k. stop_requests p ! k \<longrightarrow> stop_requests p' ! k) \<and>
    (\<forall>k. d = ReleaseStopped k \<or> d = Join k \<longrightarrow> stop_requests p' ! k)"
  proof (cases "clients p ! j")
    case (Pick t)
    obtain r ys where "copy_front_and_rotate_to_back (priority_queue p) = (r, ys)" by fastforce
    with assms(3,4) Pick new show ?thesis by (cases r) (auto simp: client_step_simps next_call_def)
  next
    case (RequestStop i)
    with assms(2,3,4) new list_update_true show ?thesis
      by (auto simp: client_step_simps next_call_def shaped_def split: if_splits)
  next
    case (ReleaseStopped i)
    with m assms(1) have "stop_requests p ! i" by (simp add: stops_def)
    with assms(3,4) new ReleaseStopped show ?thesis
      by (auto simp: client_step_simps next_call_def map_sum_def release_signal_Inr split: sum.splits)
  qed (use assms(3,4) new in \<open>auto simp: client_step_simps next_call_def q_clear_def Let_def map_sum_def
      release_signal_Inr split: if_splits sum.splits\<close>)
  moreover have "c \<in> set (clients p) \<or> c = d" if "c \<in> set (clients p')" for c
    using that set_update_subset_insert [of "clients p" j d] by (auto simp: d)
  ultimately show ?thesis
    using assms(1) client_step_frame(1) [OF assms(4)] unfolding stops_def by metis
qed

lemma pool_reach_waits:
  assumes "threads_reach call started p"
  shows "used p \<and> notifies p \<and> stops p"
  using assms
proof (induction rule: threads_reach.induct)
  case created
  show ?case by (simp add: new_pool_fresh fresh_pool_def used_def notifies_def stops_def)
next
  case (stepped p p')
  have sh: "shaped p" using pool_reach_inv [OF stepped.hyps(1)] by simp
  from stepped.hyps(2) show ?case
  proof (cases rule: threads_step.cases)
    case (work i woken)
    with stepped.IH show ?thesis
      using used_worker [OF _ work(2)] notifies_worker [OF _ work] stops_worker [OF _ work] by blast
  next
    case (serve j)
    with stepped.IH sh show ?thesis
      using used_client [OF _ serve] notifies_client [OF _ serve] stops_client [OF _ _ serve] by blast
  next
    case (arrive c)
    have "\<not> waiting c" "\<not> asleep c" "c \<noteq> ReleaseStopped i" "c \<noteq> Join i" for i
      using arrive(2) by (cases c; simp)+
    moreover have "waiters p \<le> waiters p'" by (simp add: arrive(1) waiters_def)
    ultimately show ?thesis using stepped.IH by (auto simp: arrive(1) used_def notifies_def stops_def)
  qed
qed

section \<open>Results\<close>

definition fulfil :: "('f \<Rightarrow> 'r res) \<Rightarrow> 'f task \<Rightarrow> (nat \<Rightarrow> 'r res option) \<Rightarrow> nat \<Rightarrow> 'r res option" where
  "fulfil call t m = (case t of Promised f k \<Rightarrow> m(k \<mapsto> call f) | Detached f \<Rightarrow> m)"

lemma worker_step_ran:
  assumes "worker_step call woken i p = Some p'"
  shows "(promises p', ran p') = (case workers p ! i of
      Running own t \<Rightarrow> (fulfil call t (promises p), ran p @ [t]) | _ \<Rightarrow> (promises p, ran p))"
proof (cases "workers p ! i")
  case (Running own t)
  with assms show ?thesis by (cases t) (auto simp: worker_step_def goto_def invoke_def fulfil_def)
next
  case NotifyOne
  with assms obtain q where q: "notify_one woken p = Some q" "p' = goto i CheckStop q"
    by (auto simp: worker_step_def)
  from q(1) show ?thesis by (cases rule: notify_one_cases) (auto simp: q(2) goto_def NotifyOne)
qed (use assms in \<open>auto simp: worker_step_def goto_def Let_def split: if_splits prod.splits option.splits\<close>)

lemma client_step_ran:
  assumes "client_step j p = Some (Inr p')"
  shows "promises p' = promises p" and "ran p' = ran p"
proof -
  have "promises p' = promises p \<and> ran p' = ran p"
  proof (cases "clients p ! j")
    case (Pick t)
    obtain r ys where "copy_front_and_rotate_to_back (priority_queue p) = (r, ys)" by fastforce
    with assms Pick show ?thesis by (cases r) (auto simp: client_step_simps next_call_def)
  qed (use assms in \<open>auto simp: client_step_simps next_call_def q_clear_def Let_def map_sum_def
      release_signal_Inr split: if_splits sum.splits\<close>)
  then show "promises p' = promises p" and "ran p' = ran p" by blast+
qed

lemma promises_ran:
  assumes "threads_reach call started p"
  shows "promises p = fold (fulfil call) (ran p) (\<lambda>_. None)"
  using assms
proof (induction rule: threads_reach.induct)
  case created
  show ?case by (simp add: new_pool_fresh fresh_pool_def)
next
  case (stepped p p')
  from stepped.hyps(2) show ?case
  proof (cases rule: threads_step.cases)
    case (work i woken)
    from worker_step_ran [OF work(2)] stepped.IH show ?thesis by (cases "workers p ! i") simp_all
  next
    case (serve j)
    from client_step_ran [OF serve(2)] stepped.IH show ?thesis by simp
  next
    case (arrive c)
    with stepped.IH show ?thesis by simp
  qed
qed

lemma fulfil_other: "(\<forall>f. Promised f k \<notin> set ts) \<Longrightarrow> fold (fulfil call) ts m k = m k"
proof (induction ts arbitrary: m)
  case (Cons t ts)
  then have "fold (fulfil call) ts (fulfil call t m) k = fulfil call t m k" by simp
  moreover have "fulfil call t m k = m k" using Cons.prems by (cases t) (simp_all add: fulfil_def)
  ultimately show ?case by simp
qed simp

lemma fulfil_only:
  assumes "Promised f k \<in> set ts" and "\<And>f'. Promised f' k \<in> set ts \<Longrightarrow> f' = f"
  shows "fold (fulfil call) ts m k = Some (call f)"
  using assms
proof (induction ts arbitrary: m)
  case Nil
  from Nil.prems(1) show ?case by (simp only: list.set empty_iff)
next
  case (Cons t ts)
  have only: "f' = f" if "Promised f' k \<in> set ts" for f'
    by (rule Cons.prems(2)) (rule list.set_intros(2) [OF that])
  show ?case
  proof (cases "Promised f k \<in> set ts")
    case True
    from Cons.IH [OF True only, of "fulfil call t m"] show ?thesis by (simp only: fold.simps o_def)
  next
    case False
    with Cons.prems(1) have t: "t = Promised f k" by (metis set_ConsD)
    have none: "\<forall>f'. Promised f' k \<notin> set ts"
    proof (intro allI notI)
      fix f' assume held: "Promised f' k \<in> set ts"
      from only [OF this] held False show False by (simp only:)
    qed
    from fulfil_other [OF none, of call "fulfil call t m"] show ?thesis
      by (simp only: fold.simps o_def t) (simp add: fulfil_def)
  qed
qed

section \<open>Runs\<close>

text \<open>A schedule: which worker or which calling thread takes the next step, or which call arrives.\<close>

datatype 'f move =
    Work nat nat
  | Serve nat
  | Arrive "'f client"

fun threads_move :: "('f \<Rightarrow> 'r res) \<Rightarrow> 'f move \<Rightarrow> ('f, 'r) pool \<Rightarrow> ('f, 'r) pool option" where
  "threads_move call (Work woken i) p = (if i < length (workers p) then worker_step call woken i p else None)"
| "threads_move call (Serve j) p =
     (if j < length (clients p) then (case client_step j p of Some (Inr p') \<Rightarrow> Some p' | _ \<Rightarrow> None) else None)"
| "threads_move call (Arrive c) p = (if new_call c then Some (p\<lparr>clients := clients p @ [c]\<rparr>) else None)"

fun threads_run :: "('f \<Rightarrow> 'r res) \<Rightarrow> 'f move list \<Rightarrow> ('f, 'r) pool \<Rightarrow> ('f, 'r) pool option" where
  "threads_run call [] p = Some p"
| "threads_run call (m # ms) p = (case threads_move call m p of None \<Rightarrow> None | Some q \<Rightarrow> threads_run call ms q)"

lemma pool_move_step: "threads_move call m p = Some q \<Longrightarrow> threads_step call p q"
  by (cases m) (auto intro: threads_step.intros split: if_splits option.splits sum.splits)

lemma pool_run_reach:
  "threads_run call ms p = Some q \<Longrightarrow> threads_reach call started p \<Longrightarrow> threads_reach call started q"
proof (induction ms arbitrary: p)
  case (Cons m ms)
  from Cons.prems(1) obtain r where r: "threads_move call m p = Some r" "threads_run call ms r = Some q"
    by (auto split: option.splits)
  from Cons.IH [OF r(2) threads_reach.stepped [OF Cons.prems(2) pool_move_step [OF r(1)]]] show ?case .
qed simp

text \<open>Nothing can move: every worker and every calling thread waits or has ended.\<close>

definition stuck :: "('f \<Rightarrow> 'r res) \<Rightarrow> ('f, 'r) pool \<Rightarrow> bool" where
  "stuck call p \<longleftrightarrow> (\<forall>i < length (workers p). \<forall>woken. worker_step call woken i p = None) \<and>
     (\<forall>j < length (clients p). client_step j p = None)"

section \<open>The tasks in the pool\<close>

fun held :: "'f worker \<Rightarrow> 'f task list" where
  "held (Popped own t) = [t]"
| "held (Running own t) = [t]"
| "held _ = []"

fun carried :: "'f client \<Rightarrow> 'f task list" where
  "carried (ResetComplete t i) = [t]"
| "carried (PushTask t i) = [t]"
| "carried _ = []"

lemma q_task_count: "q_task u xs = int (count (mset xs) u)"
  by (induction xs) simp_all

lemma tally_concat: "(\<And>x. f x = q_task u (g x)) \<Longrightarrow> tally f xs = q_task u (concat (map g xs))"
  by (induction xs) simp_all

lemma w_task_held: "w_task u w = q_task u (held w)"
  by (cases w) simp_all

lemma c_task_carried: "c_task u c = q_task u (carried c)"
  by (cases c) simp_all

lemma tasks_accounted:
  assumes "threads_reach call started p"
  shows "mset (accepted p) = mset (concat (queues p)) + mset (concat (map held (workers p))) +
    mset (concat (map carried (clients p))) + mset (ran p) + mset (cleared p)"
proof (rule multiset_eqI)
  fix u
  have "conserved u p" using pool_reach_inv [OF assms] by blast
  moreover have "tally (q_task u) (queues p) = q_task u (concat (queues p))"
    using tally_concat [of "q_task u" u "\<lambda>x. x"] by simp
  moreover note tally_concat [of "w_task u" u held "workers p", OF w_task_held]
    tally_concat [of "c_task u" u carried "clients p", OF c_task_carried]
  ultimately have "int (count (mset (accepted p)) u) = int (count (mset (concat (queues p)) +
      mset (concat (map held (workers p))) + mset (concat (map carried (clients p))) + mset (ran p) + mset (cleared p)) u)"
    unfolding conserved_def by (simp add: q_task_count)
  then show "count (mset (accepted p)) u = count (mset (concat (queues p)) +
      mset (concat (map held (workers p))) + mset (concat (map carried (clients p))) + mset (ran p) + mset (cleared p)) u"
    by (simp only: of_nat_eq_iff)
qed

lemma held_flight: "w_flight w \<le> 0 \<Longrightarrow> held w = []"
  by (cases w) simp_all

lemma carried_flight: "c_flight c \<le> 0 \<Longrightarrow> carried c = []"
  by (cases c) simp_all

lemma concat_map_Nil: "(\<And>x. x \<in> set xs \<Longrightarrow> g x = []) \<Longrightarrow> concat (map g xs) = []"
  by (induction xs) simp_all

text \<open>With no task in flight every task accepted has been run or cleared.\<close>

lemma nothing_in_flight:
  assumes "threads_reach call started p" and "in_flight_tasks p \<le> 0"
  shows "concat (queues p) = []" and "\<forall>w \<in> set (workers p). held w = []"
    and "mset (accepted p) = mset (ran p) + mset (cleared p)"
proof -
  have "tally q_size (queues p) + tally w_flight (workers p) + tally c_flight (clients p) \<le> 0"
    using pool_reach_inv [OF assms(1)] assms(2) by (simp add: balanced_def)
  then have zero: "tally q_size (queues p) \<le> 0" "tally w_flight (workers p) \<le> 0" "tally c_flight (clients p) \<le> 0"
    using tallies_nonneg(1) [of "queues p"] tallies_nonneg(3) [of "workers p"] tallies_nonneg(5) [of "clients p"]
    by linarith+
  have "q = []" if "q \<in> set (queues p)" for q
    using order_trans [OF tally_member [of "queues p" q_size, OF _ that] zero(1)] by (simp add: q_size_def)
  then show q: "concat (queues p) = []" using concat_map_Nil [of "queues p" "\<lambda>x. x"] by simp
  have w: "held w = []" if "w \<in> set (workers p)" for w
    by (rule held_flight) (rule order_trans [OF tally_member [of "workers p" w_flight, OF _ that] zero(2)], simp)
  then show "\<forall>w \<in> set (workers p). held w = []" by simp
  have c: "carried c = []" if "c \<in> set (clients p)" for c
    by (rule carried_flight) (rule order_trans [OF tally_member [of "clients p" c_flight, OF _ that] zero(3)], simp)
  show "mset (accepted p) = mset (ran p) + mset (cleared p)"
    using tasks_accounted [OF assms(1)] q concat_map_Nil [of "workers p" held, OF w]
      concat_map_Nil [of "clients p" carried, OF c] by simp
qed

section \<open>A pool at rest\<close>

lemma notify_one_moves: "\<exists>woken. notify_one woken p \<noteq> None"
proof (cases "list_ex asleep (clients p)")
  case True
  then obtain k where k: "k < length (clients p)" "asleep (clients p ! k)"
    by (auto simp: list_ex_iff in_set_conv_nth)
  from k(2) have "\<exists>d. clients p ! k = Asleep d" by (cases "clients p ! k") simp_all
  with True k(1) show ?thesis by (intro exI [of _ k]) (auto simp: notify_one_def)
qed (simp add: notify_one_def)

lemma stuck_worker:
  assumes "stuck call p" and "i < length (workers p)"
  shows "workers p ! i = Returned \<or> (workers p ! i = Acquire \<and> signals p ! i = 0)"
proof -
  have none: "worker_step call woken i p = None" for woken using assms by (simp add: stuck_def)
  show ?thesis
  proof (cases "workers p ! i")
    case NotifyOne
    obtain woken where "notify_one woken p \<noteq> None" using notify_one_moves by blast
    with none [of woken] NotifyOne show ?thesis by (simp add: worker_step_def)
  qed (use none [of 0] in \<open>auto simp: worker_step_def Let_def split: if_splits option.splits prod.splits\<close>)
qed

lemma stuck_client:
  assumes "stuck call p" and "c \<in> set (clients p)"
  shows "c = CallDone \<or> c = WaitDone \<or> asleep c \<or> (\<exists>i. c = Join i)"
proof -
  obtain j where j: "j < length (clients p)" "clients p ! j = c" using assms(2) by (auto simp: in_set_conv_nth)
  have none: "client_step j p = None" using assms(1) j(1) by (simp add: stuck_def)
  show ?thesis
    by (cases c) (use none j(2) in \<open>auto simp: client_step_simps Let_def split: if_splits option.splits prod.splits\<close>)
qed

text \<open>The semaphores of a pool at rest are down and its queues are empty.\<close>

lemma stuck_idle:
  assumes "threads_reach call started p" and "stuck call p" and "True \<notin> set (stop_requests p)"
  shows "\<forall>i < length (workers p). workers p ! i = Acquire \<and> signals p ! i = 0"
    and "\<forall>c \<in> set (clients p). c = CallDone \<or> c = WaitDone \<or> asleep c"
proof -
  have sh: "shaped p" using pool_reach_inv [OF assms(1)] by simp
  have st: "stops p" using pool_reach_waits [OF assms(1)] by simp
  have no: "\<not> stop_requests p ! i" if "i < length (workers p)" for i
    using assms(3) that sh by (metis nth_mem shaped_def)
  show "\<forall>i < length (workers p). workers p ! i = Acquire \<and> signals p ! i = 0"
    using stuck_worker [OF assms(2)] no st by (auto simp: stops_def)
  have "c \<noteq> Join i" if "c \<in> set (clients p)" for c i
  proof
    assume c: "c = Join i"
    with that sh have "i < length (workers p)" by (auto simp: shaped_def)
    moreover have "stop_requests p ! i" using that st c by (auto simp: stops_def)
    ultimately show False using no by blast
  qed
  then show "\<forall>c \<in> set (clients p). c = CallDone \<or> c = WaitDone \<or> asleep c"
    using stuck_client [OF assms(2)] by blast
qed

lemma idle_inactive:
  assumes "\<forall>i < length (workers p). workers p ! i = Acquire \<and> signals p ! i = 0"
    and "\<forall>c \<in> set (clients p). c = CallDone \<or> c = WaitDone \<or> asleep c" and "k < length (workers p)"
  shows "\<not> prompted k p" and "\<not> active k p"
proof -
  have "ReleaseSignal k \<notin> set (clients p)" using assms(2) by force
  with assms(1,3) show "\<not> prompted k p" "\<not> active k p"
    by (simp_all add: prompted_def active_def summoned_def)
qed

lemma idle_client: "c = CallDone \<or> c = WaitDone \<or> asleep c \<Longrightarrow> c_flight c = 0 \<and> \<not> pushing c \<and> \<not> clearing c"
  by (cases c) simp_all

lemma stuck_empty:
  assumes "threads_reach call started p" and "stuck call p" and "True \<notin> set (stop_requests p)"
  shows "in_flight_tasks p = 0" and "accepted p \<noteq> [] \<Longrightarrow> threads_complete p"
proof -
  note idle = stuck_idle [OF assms]
  have quiet: "\<not> pushing c" if "c \<in> set (clients p)" for c using idle(2) idle_client that by blast
  show "in_flight_tasks p = 0"
  proof (rule ccontr)
    assume "in_flight_tasks p \<noteq> 0"
    with pool_reach_inv [OF assms(1)] pool_reach_prompts [OF assms(1)]
    have "(\<exists>k < length (workers p). prompted k p) \<or> (\<exists>c \<in> set (clients p). pushing c)"
      by (intro flight_prompted) simp_all
    with idle_inactive(1) [OF idle] quiet show False by blast
  qed
  show "threads_complete p" if "accepted p \<noteq> []"
    using pool_reach_prompts [OF assms(1)] that idle_inactive(2) [OF idle] quiet by (auto simp: completes_def)
qed

text \<open>A single waiting thread does not sleep in a pool at rest.\<close>

lemma stuck_no_sleeper:
  assumes "threads_reach call started p" and "stuck call p" and "True \<notin> set (stop_requests p)" and "waiters p \<le> 1"
  shows "\<not> list_ex asleep (clients p)"
proof
  assume sleeper: "list_ex asleep (clients p)"
  then obtain c where c: "c \<in> set (clients p)" "asleep c" by (auto simp: list_ex_iff)
  from c(2) have "waiting c" by (cases c) simp_all
  with c(1) pool_reach_waits [OF assms(1)] have "accepted p \<noteq> []" by (auto simp: used_def)
  from stuck_empty(2) [OF assms(1-3) this] have "threads_complete p" .
  with pool_reach_waits [OF assms(1)] assms(4) sleeper have "NotifyOne \<in> set (workers p)"
    by (simp add: notifies_def)
  with stuck_idle(1) [OF assms(1-3)] show False by (auto simp: in_set_conv_nth)
qed

section \<open>The destructor\<close>

text \<open>The workers that the destructor has joined so far.\<close>

fun joined :: "'f client \<Rightarrow> nat" where
  "joined (RequestStop i) = i"
| "joined (ReleaseStopped i) = i"
| "joined (Join i) = i"
| "joined _ = 0"

definition joins :: "('f, 'r) pool \<Rightarrow> bool" where
  "joins p \<longleftrightarrow> (\<forall>c \<in> set (clients p). \<forall>i < length (workers p). i < joined c \<longrightarrow> workers p ! i = Returned)"

lemma joins_worker:
  assumes "joins p" and "i < length (workers p)" and "worker_step call woken i p = Some p'"
  shows "joins p'"
  unfolding joins_def
proof (intro ballI allI impI)
  fix c k
  assume c: "c \<in> set (clients p')" and k: "k < length (workers p')" "k < joined c"
  have "c \<in> set (clients p)"
    using worker_step_clients [OF assms(3), of c] c k(2) by (cases c) auto
  then have ret: "workers p ! k = Returned"
    using assms(1) k worker_step_workers(1) [OF assms(3,2)] by (simp add: joins_def)
  then have "k \<noteq> i" using assms(3) by (auto simp: worker_step_def)
  with worker_step_workers(2) [OF assms(3,2)] ret show "workers p' ! k = Returned" by simp
qed

lemma client_step_joined:
  assumes "j < length (clients p)" and "client_step j p = Some (Inr p')"
  shows "joined (clients p' ! j) \<le> joined (clients p ! j) \<or>
    (\<exists>i. clients p ! j = Join i \<and> joined (clients p' ! j) = Suc i \<and> workers p ! i = Returned)"
proof (cases "clients p ! j")
  case (Pick t)
  obtain r ys where "copy_front_and_rotate_to_back (priority_queue p) = (r, ys)" by fastforce
  with assms Pick show ?thesis by (cases r) (auto simp: client_step_simps next_call_def)
qed (use assms in \<open>auto simp: client_step_simps next_call_def q_clear_def Let_def map_sum_def release_signal_Inr
    split: if_splits sum.splits\<close>)

lemma joins_client:
  assumes "joins p" and "j < length (clients p)" and "client_step j p = Some (Inr p')"
  shows "joins p'"
  unfolding joins_def client_step_frame(1) [OF assms(3)]
proof (intro ballI allI impI)
  fix c k
  assume c: "c \<in> set (clients p')" and k: "k < length (workers p)" "k < joined c"
  have old: "workers p ! k = Returned" if "d \<in> set (clients p)" "k < joined d" for d
    using assms(1) that k(1) by (auto simp: joins_def)
  obtain e where e: "clients p' = (clients p)[j := e]" using client_step_frame(2) [OF assms(3)] by blast
  show "workers p ! k = Returned"
  proof (cases "c \<in> set (clients p)")
    case True
    from old [OF this k(2)] show ?thesis .
  next
    case False
    with c e assms(2) have "c = clients p' ! j" using set_update_subset_insert [of "clients p" j e] by auto
    with client_step_joined [OF assms(2,3)] k(2) old [OF nth_mem [OF assms(2)]]
    show ?thesis by (auto simp: less_Suc_eq)
  qed
qed

lemma pool_reach_joins:
  assumes "threads_reach call started p"
  shows "joins p"
  using assms
proof (induction rule: threads_reach.induct)
  case created
  show ?case by (simp add: new_pool_fresh fresh_pool_def joins_def)
next
  case (stepped p p')
  from stepped.hyps(2) show ?case
  proof (cases rule: threads_step.cases)
    case (arrive c)
    have "joined c = 0" using arrive(2) by (cases c) simp_all
    with stepped.IH show ?thesis by (auto simp: arrive(1) joins_def)
  qed (use stepped.IH joins_worker joins_client in blast)+
qed

section \<open>Scenarios\<close>

text \<open>
  Client \<open>j\<close> enqueues \<open>t\<close>, in \<open>n\<close> steps: six on a pool with nothing in flight, otherwise five.
\<close>

definition enqueue_moves :: "nat \<Rightarrow> nat \<Rightarrow> 'f task \<Rightarrow> 'f move list" where
  "enqueue_moves n j t = Arrive (Pick t) # replicate n (Serve j)"

text \<open>A pool that was handed \<open>ts\<close> while its \<open>n\<close> threads had no time to run.\<close>

definition burst_pool :: "nat \<Rightarrow> 'f task list \<Rightarrow> ('f, 'r) pool" where
  "burst_pool n ts = (fresh_pool n 0)\<lparr>
     queues := map (\<lambda>t. [t]) ts @ replicate (n - length ts) [],
     signals := replicate (length ts) 1 @ replicate (n - length ts) 0,
     priority_queue := [length ts..<n] @ [0..<length ts], unassigned_tasks := int (length ts),
     in_flight_tasks := int (length ts), clients := replicate (length ts) CallDone, accepted := ts\<rparr>"

lemma burst_pool_Nil: "burst_pool n [] = fresh_pool n 0"
  by (simp add: burst_pool_def fresh_pool_def)

lemma pool_run_append: "threads_run call (ms @ ms') p = Option.bind (threads_run call ms p) (threads_run call ms')"
  by (induction ms arbitrary: p) (auto split: option.splits)

lemma rest_Suc: "k < n \<Longrightarrow> replicate (n - k) x = x # replicate (n - Suc k) x"
  by (metis Suc_diff_Suc replicate_Suc)

lemma burst_pool_fields:
  "queues (burst_pool n ts) = map (\<lambda>t. [t]) ts @ replicate (n - length ts) []"
  "signals (burst_pool n ts) = replicate (length ts) 1 @ replicate (n - length ts) 0"
  "priority_queue (burst_pool n ts) = [length ts..<n] @ [0..<length ts]"
  "in_flight_tasks (burst_pool n ts) = int (length ts)" "clients (burst_pool n ts) = replicate (length ts) CallDone"
  "accepted (burst_pool n ts) = ts" "ran (burst_pool n ts) = []"
  by (simp_all add: burst_pool_def fresh_pool_def)

lemmas enqueue_simps = enqueue_moves_def eval_nat_numeral client_step_simps next_call_def
  copy_front_and_rotate_to_back_def release_signal_def q_push_back_def nth_append list_update_append Let_def

lemma burst_enqueue:
  assumes "length ts < n"
  shows "threads_run call (enqueue_moves (if ts = [] then 6 else 5) (length ts) t) (burst_pool n ts) =
    Some (burst_pool n (ts @ [t]))"
proof (cases "ts = []")
  case True
  with assms obtain m where "n = Suc m" by (cases n) simp_all
  with True show ?thesis
    by (simp add: enqueue_simps burst_pool_def fresh_pool_def upt_conv_Cons del: upt_Suc)
next
  case False
  with assms show ?thesis
    by (simp add: enqueue_simps burst_pool_def fresh_pool_def rest_Suc [OF assms] upt_conv_Cons [OF assms]
        replicate_append_same)
qed

lemma burst_reach:
  "length ts \<le> length (filter id started) \<Longrightarrow> threads_reach call started (burst_pool (length (filter id started)) ts)"
proof (induction ts rule: rev_induct)
  case Nil
  show ?case using threads_reach.created [of call started] by (simp only: burst_pool_Nil new_pool_fresh)
next
  case (snoc t ts)
  have less: "length ts < length (filter id started)" using snoc.prems by (simp only: length_append_singleton Suc_le_eq)
  show ?case by (rule pool_run_reach [OF burst_enqueue [OF less] snoc.IH [OF less_imp_le [OF less]]])
qed

text \<open>
  A pool of one thread (the start of a second one failed): a task with a promise is enqueued and
  run, a thread waits for it and returns, and the worker is back at its semaphore.
\<close>

definition demo_moves :: "nat move list" where
  "demo_moves = enqueue_moves 6 0 (Promised 7 0) @ [Arrive (LoadInFlight False)] @ replicate 2 (Serve 1) @
     replicate 5 (Work 0 0) @ replicate 8 (Work 1 0) @ replicate 2 (Serve 1)"

definition demo_call :: "nat \<Rightarrow> nat res" where
  "demo_call f = (if f = 0 then Inl UndefinedBehaviour else Inr (f * 2))"

definition demo_pool :: "nat \<Rightarrow> (nat, nat) pool" where
  "demo_pool n = the (threads_run demo_call (take n demo_moves) (new_pool [True, False]))"

lemma demo_threads_reach:
  assumes "\<not> Option.is_none (threads_run demo_call (take n demo_moves) (new_pool [True, False]))"
  shows "threads_reach demo_call [True, False] (demo_pool n)"
  using assms pool_run_reach [OF _ threads_reach.created, of demo_call "take n demo_moves"]
  by (auto simp: demo_pool_def Option.is_none_def)

lemma demo_reaches: "threads_reach demo_call [True, False] (demo_pool 24)" "threads_reach demo_call [True, False] (demo_pool 25)"
  by (rule demo_threads_reach, code_simp)+

lemma demo_waiting: "clients (demo_pool 24) = [CallDone, LoadInFlight False]" "in_flight_tasks (demo_pool 24) = 0"
  by code_simp+

lemma demo_rest: "workers (demo_pool 25) = [Acquire]" "signals (demo_pool 25) = [0]"
  "clients (demo_pool 25) = [CallDone, WaitDone]" "accepted (demo_pool 25) = [Promised 7 0]"
  "ran (demo_pool 25) = [Promised 7 0]" "stop_requests (demo_pool 25) = [False]"
  by code_simp+

text \<open>
  One thread, one task, and two threads that wait for it: \<open>notify_one\<close> wakes the first of them
  only, and when everything has come to rest the second still sleeps. \<open>wait_for_tasks\<close> needs
  \<open>notify_all\<close> to serve more than one caller.
\<close>

definition two_waiters :: "nat move list" where
  "two_waiters = enqueue_moves 6 0 (Detached 7) @ [Arrive (LoadInFlight False), Arrive (LoadInFlight False)] @
     replicate 2 (Serve 1) @ replicate 2 (Serve 2) @ replicate 13 (Work 1 0) @ replicate 2 (Serve 1)"

definition waiters_pool :: "(nat, nat) pool" where
  "waiters_pool = the (threads_run demo_call two_waiters (new_pool [True]))"

lemma waiters_rest: "workers waiters_pool = [Acquire]" "signals waiters_pool = [0]"
  "clients waiters_pool = [CallDone, WaitDone, Asleep False]" "accepted waiters_pool = [Detached 7]"
  "ran waiters_pool = [Detached 7]" "stop_requests waiters_pool = [False]"
  by code_simp+

lemma waiters_reach: "threads_reach demo_call [True] waiters_pool"
proof -
  have "\<not> Option.is_none (threads_run demo_call two_waiters (new_pool [True]))" by code_simp
  then show ?thesis
    using pool_run_reach [OF _ threads_reach.created, of demo_call two_waiters]
    by (auto simp: waiters_pool_def Option.is_none_def)
qed

lemma stuck_single:
  assumes "workers p = [Acquire]" and "signals p = [0]"
    and "\<forall>c \<in> set (clients p). c = CallDone \<or> c = WaitDone \<or> asleep c"
  shows "stuck call p"
  unfolding stuck_def
proof (intro conjI allI impI)
  fix j assume "j < length (clients p)"
  with assms(3) have "clients p ! j = CallDone \<or> clients p ! j = WaitDone \<or> asleep (clients p ! j)" by simp
  then show "client_step j p = None" by (cases "clients p ! j") (simp_all add: client_step_simps)
qed (use assms(1,2) in \<open>simp add: worker_step_def\<close>)

theorem second_waiter_sleeps:
  "threads_reach demo_call [True] waiters_pool \<and> stuck demo_call waiters_pool \<and>
    ran waiters_pool = accepted waiters_pool \<and> clients waiters_pool ! 2 = Asleep False"
  using waiters_reach stuck_single [OF waiters_rest(1,2)] by (simp add: waiters_rest)

section \<open>Properties\<close>

fun promise_of :: "'f task \<Rightarrow> nat option" where
  "promise_of (Promised f k) = Some k"
| "promise_of (Detached f) = None"

lemma count_list_filter: "P y \<Longrightarrow> count_list (filter P xs) y = count_list xs y"
  by (induction xs) auto



text \<open>
  C31: when \<open>wait_for_tasks\<close> finds no task in flight and returns (or the destructor goes on to stop
  the threads), every queue is empty, no worker holds a task, and each task that was accepted
  until then has been run to its end or was cleared.
\<close>

theorem pool_wait_sound:
  assumes "threads_reach call started p" and "j < length (clients p)" and "clients p ! j = LoadInFlight destroy"
    and "client_step j p = Some (Inr p')" and "clients p' ! j \<noteq> WaitComplete destroy"
  shows "concat (queues p') = [] \<and> (\<forall>w \<in> set (workers p'). held w = []) \<and>
    mset (accepted p') = mset (ran p') + mset (cleared p')"
proof -
  have "\<not> 0 < in_flight_tasks p"
    using assms(2-5) by (auto simp: client_step_simps next_call_def)
  moreover have "in_flight_tasks p' = in_flight_tasks p"
    using assms(3,4) by (auto simp: client_step_simps next_call_def)
  ultimately have "in_flight_tasks p' \<le> 0" by simp
  with nothing_in_flight [OF threads_reach.stepped [OF assms(1) threads_step.serve [OF assms(2,4)]]]
  show ?thesis by blast
qed

theorem pool_wait_sound_witness:
  "concat (queues (next_call 1 WaitDone (demo_pool 24))) = [] \<and>
    concat (map held (workers (next_call 1 WaitDone (demo_pool 24)))) = [] \<and>
    mset (accepted (next_call 1 WaitDone (demo_pool 24))) =
      mset (ran (next_call 1 WaitDone (demo_pool 24))) + mset (cleared (next_call 1 WaitDone (demo_pool 24)))"
  unfolding concat_eq_Nil_conv [of "map _ _"] set_map ball_simps
  by (rule pool_wait_sound [OF demo_reaches(1), of 1 False])
    (simp_all add: demo_waiting client_step_simps next_call_def)

text \<open>
  The destructor returns only when every worker has returned from its loop.
\<close>

theorem pool_destructor_joins:
  assumes "threads_reach call started p" and "j < length (clients p)" and "clients p ! j = RequestStop i"
    and "client_step j p = Some (Inr p')" and "clients p' ! j = WaitDone"
  shows "\<forall>w \<in> set (workers p'). w = Returned"
proof
  fix w assume "w \<in> set (workers p')"
  then obtain k where k: "k < length (workers p)" "workers p ! k = w"
    by (auto simp: client_step_frame(1) [OF assms(4)] in_set_conv_nth)
  have "length (workers p) \<le> i"
    using assms(2-5) by (simp add: client_step_simps next_call_def split: if_splits) auto
  with pool_reach_joins [OF assms(1)] nth_mem [OF assms(2)] assms(3) k show "w = Returned"
    by (fastforce simp: joins_def)
qed

text \<open>
  C22: no wake-up is lost. When nothing in the pool can move any more and no stop was requested,
  every worker waits at its semaphore, which is down; every accepted task has been run or
  cleared and the counter of tasks in flight is zero; the completion flag is set once a task was
  accepted; every call has returned, except waits that sleep; and none sleeps when at most one
  thread waits.
\<close>

theorem pool_no_lost_wakeup:
  assumes "threads_reach call started p" and "stuck call p" and "True \<notin> set (stop_requests p)"
  shows "(\<forall>i < length (workers p). workers p ! i = Acquire \<and> signals p ! i = 0) \<and>
    concat (queues p) = [] \<and> mset (accepted p) = mset (ran p) + mset (cleared p) \<and> in_flight_tasks p = 0 \<and>
    (accepted p \<noteq> [] \<longrightarrow> threads_complete p) \<and>
    (\<forall>c \<in> set (clients p). c = CallDone \<or> c = WaitDone \<or> asleep c) \<and>
    (waiters p \<le> 1 \<longrightarrow> \<not> list_ex asleep (clients p))"
proof (intro conjI)
  have flight: "in_flight_tasks p \<le> 0" using stuck_empty(1) [OF assms] by simp
  show "concat (queues p) = []" by (rule nothing_in_flight(1) [OF assms(1) flight])
  show "mset (accepted p) = mset (ran p) + mset (cleared p)" by (rule nothing_in_flight(3) [OF assms(1) flight])
qed (use stuck_idle [OF assms] stuck_empty [OF assms] stuck_no_sleeper [OF assms] in blast)+

theorem pool_no_lost_wakeup_witness:
  "mset (accepted (demo_pool 25)) = mset (ran (demo_pool 25)) + mset (cleared (demo_pool 25)) \<and>
    threads_complete (demo_pool 25)"
  using pool_no_lost_wakeup [OF demo_reaches(2) stuck_single [OF demo_rest(1,2)]] by (simp add: demo_rest)

text \<open>
  C38: a burst of more tasks than the pool has threads, before any of them comes to its semaphore,
  makes \<open>enqueue_task\<close> release a \<open>std::binary_semaphore\<close> whose counter is already one, which is
  undefined: the last task has been counted and pushed, and no task has been run.
\<close>

theorem pool_burst_overflows:
  assumes "length ts = length (filter id started)" and "ts \<noteq> []"
  shows "\<exists>p. threads_reach call started p \<and> accepted p = ts @ [t] \<and> ran p = [] \<and>
    client_step (length ts) p = Some (Inl UndefinedBehaviour)"
proof -
  let ?n = "length ts"
  have reach: "threads_reach call started (burst_pool ?n ts)"
    using burst_reach [of ts started call] assms(1) by (simp only: order_refl)
  obtain m where m: "?n = Suc m" using assms(2) by (cases ts) simp_all
  obtain p where p: "threads_run call (Arrive (Pick t) # replicate 4 (Serve ?n)) (burst_pool ?n ts) = Some p"
    "accepted p = ts @ [t]" "ran p = []" "clients p ! ?n = ReleaseSignal 0" "signals p ! 0 = 1"
    using assms(2) by (simp add: enqueue_simps burst_pool_fields upt_conv_Cons m del: upt_Suc)
  from p(4,5) have "client_step ?n p = Some (Inl UndefinedBehaviour)"
    by (simp add: client_step_simps release_signal_def)
  with pool_run_reach [OF p(1) reach] p(2,3) show ?thesis by blast
qed

theorem pool_burst_overflows_witness:
  "\<exists>p. threads_reach demo_call [True, True] p \<and> accepted p = [Detached 1, Detached 2, Detached 3] \<and> ran p = [] \<and>
    client_step 2 p = Some (Inl UndefinedBehaviour)"
  using pool_burst_overflows [of "[Detached 1, Detached 2]" "[True, True]" demo_call "Detached 3"] by (simp add: numeral_2_eq_2)

text \<open>A pool of one thread that is destroyed before it was given a task.\<close>

definition closing_moves :: "nat move list" where
  "closing_moves = Arrive (LoadInFlight True) # replicate 3 (Serve 0) @ replicate 9 (Work 0 0) @ [Serve 0]"

definition closing_pool :: "(nat, nat) pool" where
  "closing_pool = the (threads_run demo_call closing_moves (new_pool [True]))"

lemma closing_reach: "threads_reach demo_call [True] closing_pool"
proof -
  have "\<not> Option.is_none (threads_run demo_call closing_moves (new_pool [True]))" by code_simp
  then show ?thesis
    using pool_run_reach [OF _ threads_reach.created, of demo_call closing_moves]
    by (auto simp: closing_pool_def Option.is_none_def)
qed

lemma closing_last: "clients closing_pool = [RequestStop 1]" "workers closing_pool = [Returned]"
  by code_simp+

theorem pool_destructor_joins_witness: "\<forall>w \<in> set (workers (next_call 0 WaitDone closing_pool)). w = Returned"
  by (rule pool_destructor_joins [OF closing_reach, of 0 1])
    (simp_all add: closing_last client_step_simps next_call_def)

end
