(* ===== verification/StartUp.thy ===== *)
theory StartUp
  imports Pools Uploader Server
begin

text \<open>
  How the two processes start: the service locator, the WebRTC configuration, the listening socket and both
  \<open>main\<close> functions up to their event loops. What the system calls, the databases and the files answer is
  an argument.
\<close>

section \<open>The service locator\<close>

text \<open>The objects that are registered are statics of \<open>main\<close>; a pointer to one is its name.\<close>

datatype service =
    UserRepositoryObject
  | StreamRepositoryObject
  | RedisClientObject
  | RedisPoolObject
  | ViewerRegistryObject
  | ChatRepositoryObject
  | ChatRelayObject

record locator =
  userRepo :: "service option"
  streamRepo :: "service option"
  redisClient :: "service option"
  redisPool :: "service option"
  viewerRegistry :: "service option"
  chatRepo :: "service option"
  chatRelay :: "service option"

definition no_services :: locator where
  "no_services = \<lparr>userRepo = None, streamRepo = None, redisClient = None, redisPool = None, viewerRegistry = None,
     chatRepo = None, chatRelay = None\<rparr>"

definition registered :: "string \<Rightarrow> service option \<Rightarrow> service res" where
  "registered what p = (case p of None \<Rightarrow> Inl (RuntimeError (what @ '' not registered'')) | Some x \<Rightarrow> Inr x)"

definition SetUserRepository :: "service \<Rightarrow> locator \<Rightarrow> locator" where
  "SetUserRepository repo l = l\<lparr>userRepo := Some repo\<rparr>"

definition GetUserRepository :: "locator \<Rightarrow> service res" where
  "GetUserRepository l = registered ''UserRepository'' (userRepo l)"

definition SetStreamRepository :: "service \<Rightarrow> locator \<Rightarrow> locator" where
  "SetStreamRepository repo l = l\<lparr>streamRepo := Some repo\<rparr>"

definition GetStreamRepository :: "locator \<Rightarrow> service res" where
  "GetStreamRepository l = registered ''StreamRepository'' (streamRepo l)"

definition SetRedisClient :: "service \<Rightarrow> locator \<Rightarrow> locator" where
  "SetRedisClient client l = l\<lparr>redisClient := Some client\<rparr>"

definition GetRedisClient :: "locator \<Rightarrow> service res" where
  "GetRedisClient l = registered ''RedisClient'' (redisClient l)"

definition SetRedisPool :: "service \<Rightarrow> locator \<Rightarrow> locator" where
  "SetRedisPool pool l = l\<lparr>redisPool := Some pool\<rparr>"

definition GetRedisPool :: "locator \<Rightarrow> service res" where
  "GetRedisPool l = registered ''RedisPool'' (redisPool l)"

definition SetViewerRegistry :: "service \<Rightarrow> locator \<Rightarrow> locator" where
  "SetViewerRegistry reg l = l\<lparr>viewerRegistry := Some reg\<rparr>"

definition GetViewerRegistry :: "locator \<Rightarrow> service res" where
  "GetViewerRegistry l = registered ''ViewerRegistry'' (viewerRegistry l)"

definition SetChatRepository :: "service \<Rightarrow> locator \<Rightarrow> locator" where
  "SetChatRepository repo l = l\<lparr>chatRepo := Some repo\<rparr>"

definition GetChatRepository :: "locator \<Rightarrow> service res" where
  "GetChatRepository l = registered ''ChatRepository'' (chatRepo l)"

definition SetChatRelay :: "service \<Rightarrow> locator \<Rightarrow> locator" where
  "SetChatRelay relay l = l\<lparr>chatRelay := Some relay\<rparr>"

definition GetChatRelay :: "locator \<Rightarrow> service res" where
  "GetChatRelay l = registered ''ChatRelay'' (chatRelay l)"

section \<open>WebRTC\<close>

record rtc_config =
  portRangeBegin :: u16
  portRangeEnd :: u16
  disableAutoNegotiation :: bool
  mtu :: nat
  iceServers :: "string list"

definition WebRTCConfig_load :: rtc_config where
  "WebRTCConfig_load = \<lparr>portRangeBegin = 10000, portRangeEnd = 20000, disableAutoNegotiation = False, mtu = 1200,
     iceServers = [''stun:stun.l.google.com:19302'', ''stun:stun1.l.google.com:19302'']\<rparr>"

section \<open>The listening socket\<close>

text \<open>
  The results of the system calls, and what \<open>inet_pton\<close> writes for a text: nothing when it is not the
  dotted form of an address. A socket's options and address are those the calls were made with.
\<close>

record socket_calls =
  sc_socket :: int
  sc_setsockopt :: int
  sc_inet_pton :: "string \<Rightarrow> u32 option"
  sc_bind :: int
  sc_listen :: int

record listener =
  lis_fd :: int
  lis_nonblocking :: bool
  lis_options :: "u32 list"
  lis_address :: u32
  lis_port :: u16
  lis_backlog :: int

definition CreateTCPSocket :: "socket_calls \<Rightarrow> int res" where
  "CreateTCPSocket sc = (if sc_socket sc < 0 then Inl (RuntimeError ''Failed to create a TCP socket'') else Inr (sc_socket sc))"

definition SetSocketToNonBlocking :: "listener \<Rightarrow> listener" where
  "SetSocketToNonBlocking l = l\<lparr>lis_nonblocking := True\<rparr>"

definition mk_ZvejysServer :: "socket_calls \<Rightarrow> listener res" where
  "mk_ZvejysServer sc = bind_res (CreateTCPSocket sc) (\<lambda>fd. Inr (SetSocketToNonBlocking
     \<lparr>lis_fd = fd, lis_nonblocking = True, lis_options = [], lis_address = 0, lis_port = 0, lis_backlog = 0\<rparr>))"

text \<open>\<open>SO_REUSEADDR | SO_REUSEPORT\<close> is the number of one option; the port is cut to sixteen bits.\<close>

definition SO_REUSEADDR :: u32 where
  "SO_REUSEADDR = 2"

definition SO_REUSEPORT :: u32 where
  "SO_REUSEPORT = 15"

definition StartServer :: "socket_calls \<Rightarrow> string \<Rightarrow> int \<Rightarrow> listener \<Rightarrow> listener res" where
  "StartServer sc host port l =
     (if sc_setsockopt sc < 0 then Inl (RuntimeError ''Failed to set socket options'')
      else
        let l1 = l\<lparr>lis_options := [or SO_REUSEADDR SO_REUSEPORT],
              lis_address := (case sc_inet_pton sc host of None \<Rightarrow> 0 | Some a \<Rightarrow> a), lis_port := of_int port\<rparr>
        in if sc_bind sc < 0 then Inl (RuntimeError ''Failed to bind to socket'')
           else if sc_listen sc < 0 then Inl (RuntimeError (''Failed to listen on port '' @ int_to_string port))
           else Inr (l1\<lparr>lis_backlog := 128\<rparr>))"

section \<open>Start-up\<close>

text \<open>
  How \<open>main\<close> ends before its loop: by returning a code, or by an exception that nobody catches.
\<close>

datatype stop = ExitCode int | Uncaught exn

definition or_stop :: "'a res \<Rightarrow> ('a \<Rightarrow> stop + 'b) \<Rightarrow> stop + 'b" where
  "or_stop r f = (case r of Inl e \<Rightarrow> Inl (Uncaught e) | Inr x \<Rightarrow> f x)"

record process_calls =
  pc_env_file :: "string option"
  pc_environ :: "string \<Rightarrow> string option"
  pc_epoll_create :: int
  pc_socket :: socket_calls

definition CreateEpoll :: "process_calls \<Rightarrow> int res" where
  "CreateEpoll pc = (if pc_epoll_create pc < 0 then Inl (RuntimeError ''Failed to create epoll instance'')
     else Inr (pc_epoll_create pc))"

text \<open>What the databases answer: a connection of the pool, a connection of a Redis client.\<close>

record backend_calls =
  bc_process :: process_calls
  bc_pg :: "nat \<Rightarrow> unit res"
  bc_redis :: "(string list \<times> nat list) option"
  bc_pool :: "nat \<Rightarrow> (string list \<times> nat list) option"
  bc_relay :: "(string list \<times> nat list) option"

text \<open>A process in its event loop: the descriptor that epoll watches, edge-triggered, is the listener's.\<close>

record 'd running =
  run_services :: locator
  run_listener :: listener
  run_epoll :: int
  run_watched :: "int list"
  run_routes :: "'d routes"
  run_quiet :: bool

definition backend_main :: "backend_calls \<Rightarrow> 'd backend_deps \<Rightarrow> 'd \<Rightarrow> stop + ('d running \<times> 'd)" where
  "backend_main bc bd d =
     (let vars = LoadEnv (pc_env_file (bc_process bc)) [];
          env = GetEnvDefault (pc_environ (bc_process bc)) vars;
          quiet = (env ''QUIET_LOGS'' ''0'' = ''1'')
      in or_stop (createPool (bc_pg bc)) (\<lambda>_.
         let l1 = SetChatRepository ChatRepositoryObject (SetStreamRepository StreamRepositoryObject
               (SetUserRepository UserRepositoryObject no_services));
             redisHost = env ''REDIS_HOST'' ''127.0.0.1'';
             redisPort = env ''REDIS_PORT'' ''6379''
         in or_stop (stoi redisPort) (\<lambda>_.
         if \<not> fst (connect_redis (bc_redis bc) new_redis) then Inl (ExitCode 1)
         else let l2 = SetRedisClient RedisClientObject l1
         in or_stop (mk_RedisPool (bc_pool bc) 4) (\<lambda>_.
         let l3 = SetViewerRegistry ViewerRegistryObject (SetRedisPool RedisPoolObject l2)
         in if \<not> fst (connect_redis (bc_relay bc) new_redis) then Inl (ExitCode 1)
         else let l4 = SetChatRelay ChatRelayObject l3
         in case EndAll (bd_db bd) d of
              (Inl e, d') \<Rightarrow> Inl (Uncaught e)
            | (Inr _, d') \<Rightarrow>
         or_stop (CreateEpoll (bc_process bc)) (\<lambda>epoll_fd.
         let serverHost = env ''SERVER_HOST'' ''127.0.0.1''
         in or_stop (stoi (env ''SERVER_PORT'' ''8080'')) (\<lambda>serverPort.
         or_stop (mk_ZvejysServer (pc_socket (bc_process bc))) (\<lambda>sock.
         or_stop (StartServer (pc_socket (bc_process bc)) serverHost serverPort sock) (\<lambda>httpServer.
         Inr (\<lparr>run_services = l4, run_listener = httpServer, run_epoll = epoll_fd, run_watched = [lis_fd httpServer],
           run_routes = backend_routes bd, run_quiet = quiet\<rparr>, d')))))))))"

text \<open>The storage server: its directory, then the same socket, without services.\<close>

definition pocket_main :: "process_calls \<Rightarrow> unit res \<Rightarrow> pocket \<Rightarrow> stop + fsys running" where
  "pocket_main pc created pk =
     or_stop created (\<lambda>_.
       let vars = LoadEnv (pc_env_file pc) [];
           env = GetEnvDefault (pc_environ pc) vars
       in or_stop (CreateEpoll pc) (\<lambda>epoll_fd.
          let serverHost = env ''STREAM_POCKET_SERVER_HOST'' ''127.0.0.1''
          in or_stop (stoi (env ''STREAM_POCKET_SERVER_PORT'' ''7070'')) (\<lambda>serverPort.
          or_stop (mk_ZvejysServer (pc_socket pc)) (\<lambda>sock.
          or_stop (StartServer (pc_socket pc) serverHost serverPort sock) (\<lambda>httpServer.
          Inr \<lparr>run_services = no_services, run_listener = httpServer, run_epoll = epoll_fd,
            run_watched = [lis_fd httpServer],
            run_routes = RegisterSegmentRoutes pk (PocketHealthRoutes no_routes), run_quiet = False\<rparr>)))))"

section \<open>What a started process is\<close>

lemma or_stop_stoi: "or_stop (stoi t) f = Inr x \<longleftrightarrow> (\<exists>n. stoi t = Inr n \<and> f n = Inr x)"
  by (simp add: or_stop_def split: sum.split)

lemma fill_pg_pool_Inr: "(\<exists>q. fill_pg_pool mk i n p = Inr q) \<longleftrightarrow> (\<forall>k < n. \<exists>c. mk (i + k) = Inr c)"
proof (induction n arbitrary: i p)
  case (Suc n)
  have "(\<forall>k < Suc n. \<exists>c. mk (i + k) = Inr c) \<longleftrightarrow> (\<exists>c. mk i = Inr c) \<and> (\<forall>k < n. \<exists>c. mk (i + 1 + k) = Inr c)"
    by (auto simp: less_Suc_eq_0_disj)
  with Suc.IH [of "i + 1"] show ?case by (auto split: sum.split)
qed simp

lemma fill_redis_pool_Inr: "(\<exists>q. fill_redis_pool socks i n p = Inr q) \<longleftrightarrow> (\<forall>k < n. socks (i + k) \<noteq> None)"
proof (induction n arbitrary: i p)
  case (Suc n)
  have "(\<forall>k < Suc n. socks (i + k) \<noteq> None) \<longleftrightarrow> socks i \<noteq> None \<and> (\<forall>k < n. socks (i + 1 + k) \<noteq> None)"
    by (auto simp: less_Suc_eq_0_disj)
  with Suc.IH [of "i + 1"] show ?case by (auto simp: connect_redis_def split: option.split prod.split)
qed simp

lemma or_stop_pg:
  "or_stop (createPool mk) (\<lambda>_. g) = Inr x \<longleftrightarrow> (\<forall>k < POOL_SIZE. \<exists>c. mk k = Inr c) \<and> g = Inr x"
  using fill_pg_pool_Inr [of mk 0 POOL_SIZE "\<lparr>m_pool = []\<rparr>"] by (auto simp: createPool_def or_stop_def split: sum.splits)

lemma or_stop_pool:
  "or_stop (mk_RedisPool socks 4) (\<lambda>_. g) = Inr x \<longleftrightarrow> (\<forall>k < 4. socks k \<noteq> None) \<and> g = Inr x"
  using fill_redis_pool_Inr [of socks 0 4 "[]"] by (auto simp: mk_RedisPool_def or_stop_def split: sum.splits)

lemma or_stop_epoll:
  "or_stop (CreateEpoll pc) f = Inr x \<longleftrightarrow> 0 \<le> pc_epoll_create pc \<and> f (pc_epoll_create pc) = Inr x"
  by (simp add: CreateEpoll_def or_stop_def)

lemma connect_redis_ok: "fst (connect_redis s c) \<longleftrightarrow> s \<noteq> None"
  by (auto simp: connect_redis_def split: option.split)

definition all_registered :: locator where
  "all_registered = \<lparr>userRepo = Some UserRepositoryObject, streamRepo = Some StreamRepositoryObject,
     redisClient = Some RedisClientObject, redisPool = Some RedisPoolObject, viewerRegistry = Some ViewerRegistryObject,
     chatRepo = Some ChatRepositoryObject, chatRelay = Some ChatRelayObject\<rparr>"

lemmas locator_defs = SetUserRepository_def SetStreamRepository_def SetRedisClient_def SetRedisPool_def
  SetViewerRegistry_def SetChatRepository_def SetChatRelay_def no_services_def

definition sockets_work :: "socket_calls \<Rightarrow> bool" where
  "sockets_work sc \<longleftrightarrow> 0 \<le> sc_socket sc \<and> 0 \<le> sc_setsockopt sc \<and> 0 \<le> sc_bind sc \<and> 0 \<le> sc_listen sc"

definition listening :: "socket_calls \<Rightarrow> string \<Rightarrow> int \<Rightarrow> listener" where
  "listening sc host port = \<lparr>lis_fd = sc_socket sc, lis_nonblocking = True, lis_options = [SO_REUSEPORT],
     lis_address = (case sc_inet_pton sc host of None \<Rightarrow> 0 | Some a \<Rightarrow> a), lis_port = of_int port, lis_backlog = 128\<rparr>"

lemma reuse_option: "or SO_REUSEADDR SO_REUSEPORT = SO_REUSEPORT"
  by (simp add: SO_REUSEADDR_def SO_REUSEPORT_def)

lemma or_stop_server:
  "or_stop (mk_ZvejysServer sc) (\<lambda>sock. or_stop (StartServer sc host port sock) f) = Inr x \<longleftrightarrow>
    sockets_work sc \<and> f (listening sc host port) = Inr x"
  by (auto simp: or_stop_def sockets_work_def listening_def mk_ZvejysServer_def CreateTCPSocket_def StartServer_def
      SetSocketToNonBlocking_def reuse_option Let_def)

text \<open>The configuration: the environment first, then the file.\<close>

definition setting :: "process_calls \<Rightarrow> string \<Rightarrow> string \<Rightarrow> string" where
  "setting pc = GetEnvDefault (pc_environ pc) (LoadEnv (pc_env_file pc) [])"

lemma backend_main_iff:
  "backend_main bc bd d = Inr (r, d') \<longleftrightarrow>
    (\<forall>k < POOL_SIZE. \<exists>c. bc_pg bc k = Inr c) \<and> (\<exists>n. stoi (setting (bc_process bc) ''REDIS_PORT'' ''6379'') = Inr n) \<and>
    bc_redis bc \<noteq> None \<and> (\<forall>k < 4. bc_pool bc k \<noteq> None) \<and> bc_relay bc \<noteq> None \<and>
    (\<exists>u. EndAll (bd_db bd) d = (Inr u, d')) \<and> 0 \<le> pc_epoll_create (bc_process bc) \<and> sockets_work (pc_socket (bc_process bc)) \<and>
    (\<exists>port. stoi (setting (bc_process bc) ''SERVER_PORT'' ''8080'') = Inr port \<and>
      r = \<lparr>run_services = all_registered,
        run_listener = listening (pc_socket (bc_process bc)) (setting (bc_process bc) ''SERVER_HOST'' ''127.0.0.1'') port,
        run_epoll = pc_epoll_create (bc_process bc), run_watched = [sc_socket (pc_socket (bc_process bc))],
        run_routes = backend_routes bd, run_quiet = (setting (bc_process bc) ''QUIET_LOGS'' ''0'' = ''1'')\<rparr>)"
  unfolding backend_main_def Let_def setting_def [symmetric]
  by (cases "EndAll (bd_db bd) d"; cases "fst (EndAll (bd_db bd) d)")
    (auto simp: or_stop_pg or_stop_pool or_stop_epoll or_stop_server or_stop_stoi connect_redis_ok locator_defs
      all_registered_def listening_def)

section \<open>Property\<close>


definition quiet_backends :: "'d backends" where
  "quiet_backends = \<lparr>exec_insert_chat = (\<lambda>s u name m d. (Inl OutOfRange, d)), exec_select_chat = (\<lambda>s limit d. Inr []),
     api_incr = (\<lambda>key d. (Inr 0, d)), api_decr = (\<lambda>key d. (Inr 0, d)), api_set = (\<lambda>key v d. (True, d)),
     api_publish = (\<lambda>ch m d. (Inr 0, d))\<rparr>"

definition quiet_streams :: "'d stream_db" where
  "quiet_streams = \<lparr>exec_end_all = (\<lambda>d. (Inr (), d)), exec_insert_stream = (\<lambda>i u t d. (Inl OutOfRange, d)),
     exec_set_ended = (\<lambda>i d. (Inr (), d)), exec_select_stream = (\<lambda>i d. Inr []), exec_select_active = (\<lambda>d. Inr []),
     exec_select_history = (\<lambda>u d. Inr [])\<rparr>"

definition demo_site :: "User list backend_deps" where
  "demo_site = \<lparr>bd_env = (\<lambda>_. None), bd_vars = [], bd_users = demo_deps, bd_be = quiet_backends, bd_js = plain_texts,
     bd_db = quiet_streams, bd_get = (\<lambda>key d. (Inr None, d)), bd_dump = (\<lambda>_. Inr ''[]'')\<rparr>"

definition demo_calls :: backend_calls where
  "demo_calls = \<lparr>bc_process = \<lparr>pc_env_file = Some ''SERVER_HOST=localhost'', pc_environ = (\<lambda>_. None), pc_epoll_create = 4,
       pc_socket = \<lparr>sc_socket = 5, sc_setsockopt = 0, sc_inet_pton = (\<lambda>_. None), sc_bind = 0, sc_listen = 0\<rparr>\<rparr>,
     bc_pg = (\<lambda>_. Inr ()), bc_redis = Some ([], []), bc_pool = (\<lambda>_. Some ([], [])), bc_relay = Some ([], [])\<rparr>"


end
