(* ===== verification/EventLoop.thy ===== *)
theory EventLoop
  imports Server
begin

text \<open>
  The event loop of \<open>main.cpp\<close> beside the workers that it feeds: which connection objects are still there
  when an event is handled. An object is owned by the tables of the server and by the tasks
  that hold a \<open>shared_ptr\<close> to it; epoll and the batch of ready events hold plain pointers. The loop of the
  storage server follows at the end.
\<close>

section \<open>State\<close>

text \<open>What \<open>epoll_wait\<close> reports: the listening socket, or the pointer registered with a connection.\<close>

datatype ready = Listening | Ready nat bool

text \<open>
  A task of the pool for the object it captured: the events are handled (the flag says that the
  peer hung up or failed); \<open>HandleClientClosedConnection\<close> closes the descriptor, then takes the
  mutex and erases the entry.
\<close>

datatype task_stage = Handling bool | Closing | Erasing

record loop =
  lp_table :: conn_table
  lp_ready :: "ready list"
  lp_tasks :: "(nat \<times> task_stage) list"

definition start_loop :: loop where
  "start_loop = \<lparr>lp_table = empty_table, lp_ready = [], lp_tasks = []\<rparr>"

definition owned :: "conn_table \<Rightarrow> nat \<Rightarrow> bool" where
  "owned t conn \<longleftrightarrow> connections t (fd_of t conn) = Some conn \<or> ws_connections t (fd_of t conn) = Some conn"

definition alive :: "loop \<Rightarrow> nat \<Rightarrow> bool" where
  "alive l conn \<longleftrightarrow> owned (lp_table l) conn \<or> conn \<in> fst ` set (lp_tasks l)"

section \<open>The loop\<close>

text \<open>
  The body of the \<open>for\<close> loop on the next event of the batch. One call of the accept loop's condition is a
  step. \<open>shared_from_this\<close> on an object that is gone is undefined.
\<close>

definition loop_next :: "loop \<Rightarrow> loop res" where
  "loop_next l =
     (case lp_ready l of
        [] \<Rightarrow> Inr l
      | Listening # rest \<Rightarrow>
          (case HandleEpollNewConnection (lp_table l) of
             (r, t) \<Rightarrow> Inr (l\<lparr>lp_table := t, lp_ready := (if 0 \<le> r then lp_ready l else rest)\<rparr>))
      | Ready raw_conn hup # rest \<Rightarrow>
          if alive l raw_conn
          then Inr (l\<lparr>lp_ready := rest, lp_tasks := lp_tasks l @ [(raw_conn, Handling hup)]\<rparr>)
          else Inl UndefinedBehaviour)"

section \<open>The workers\<close>

definition close_fd :: "nat \<Rightarrow> conn_table \<Rightarrow> conn_table" where
  "close_fd conn t = t\<lparr>open_fds := removeAll (fd_of t conn) (open_fds t), interest := (interest t)(fd_of t conn := None)\<rparr>"

definition erase_entry :: "nat \<Rightarrow> conn_table \<Rightarrow> conn_table" where
  "erase_entry conn t = t\<lparr>connections := (connections t)(fd_of t conn := None)\<rparr>"

lemma HandleClientClosedConnection_steps:
  "HandleClientClosedConnection conn t = erase_entry conn (close_fd conn t)"
  by (simp add: HandleClientClosedConnection_def erase_entry_def close_fd_def Let_def)

text \<open>
  One step of the \<open>i\<close>-th task: handling the events may upgrade the connection, when it is an HTTP
  connection, or throw, which ends the task.
\<close>

definition end_task :: "nat \<Rightarrow> loop \<Rightarrow> loop" where
  "end_task i l = l\<lparr>lp_tasks := take i (lp_tasks l) @ drop (Suc i) (lp_tasks l)\<rparr>"

definition task_step :: "bool \<Rightarrow> bool \<Rightarrow> nat \<Rightarrow> loop \<Rightarrow> loop" where
  "task_step upgrades throws i l =
     (case lp_tasks l ! i of
        (conn, Handling hup) \<Rightarrow>
          let t = lp_table l;
              l1 = (if upgrades \<and> connections t (fd_of t conn) = Some conn
                    then l\<lparr>lp_table := swap_connection (fd_of t conn) t\<rparr> else l)
          in if throws \<or> \<not> hup then end_task i l1
             else l1\<lparr>lp_tasks := (lp_tasks l1)[i := (conn, Closing)]\<rparr>
      | (conn, Closing) \<Rightarrow>
          l\<lparr>lp_table := close_fd conn (lp_table l), lp_tasks := (lp_tasks l)[i := (conn, Erasing)]\<rparr>
      | (conn, Erasing) \<Rightarrow> end_task i (l\<lparr>lp_table := erase_entry conn (lp_table l)\<rparr>))"

section \<open>Runs\<close>

text \<open>
  A client arrives; \<open>epoll_wait\<close> returns a batch of at most 64 events of registered connections and the
  listener, when the last batch is done; the loop handles an event, where the kernel hands out only
  descriptors that are not open; a worker takes a step.
\<close>

definition reportable :: "conn_table \<Rightarrow> ready \<Rightarrow> bool" where
  "reportable t e \<longleftrightarrow> (case e of Listening \<Rightarrow> True | Ready conn hup \<Rightarrow> interest t (fd_of t conn) = Some conn)"

definition unused_fd :: "conn_table \<Rightarrow> bool" where
  "unused_fd t \<longleftrightarrow> (case pending t of Accepted fd ok # q \<Rightarrow> fd \<notin> set (open_fds t) | _ \<Rightarrow> True)"

definition may_accept :: "loop \<Rightarrow> bool" where
  "may_accept l \<longleftrightarrow> (case lp_ready l of Listening # rest \<Rightarrow> unused_fd (lp_table l) | _ \<Rightarrow> True)"

datatype loop_move = Client accept_result | Wait "ready list" | Next | Task bool bool nat

fun loop_do :: "loop_move \<Rightarrow> loop \<Rightarrow> loop option" where
  "loop_do (Client r) l = Some (l\<lparr>lp_table := (lp_table l)\<lparr>pending := pending (lp_table l) @ [r]\<rparr>\<rparr>)"
| "loop_do (Wait evs) l =
     (if lp_ready l = [] \<and> length evs \<le> 64 \<and> list_all (reportable (lp_table l)) evs
      then Some (l\<lparr>lp_ready := evs\<rparr>) else None)"
| "loop_do Next l =
     (if may_accept l then (case loop_next l of Inl e \<Rightarrow> None | Inr l' \<Rightarrow> Some l') else None)"
| "loop_do (Task upgrades throws i) l =
     (if i < length (lp_tasks l) then Some (task_step upgrades throws i l) else None)"

fun loop_run :: "loop_move list \<Rightarrow> loop \<Rightarrow> loop option" where
  "loop_run [] l = Some l"
| "loop_run (m # ms) l = (case loop_do m l of None \<Rightarrow> None | Some l' \<Rightarrow> loop_run ms l')"

section \<open>Quiet runs\<close>

text \<open>No connection is upgraded, and no event says that a peer hung up.\<close>

fun quiet_event :: "ready \<Rightarrow> bool" where
  "quiet_event Listening \<longleftrightarrow> True"
| "quiet_event (Ready conn hup) \<longleftrightarrow> \<not> hup"

fun quiet_move :: "loop_move \<Rightarrow> bool" where
  "quiet_move (Wait evs) \<longleftrightarrow> list_all quiet_event evs"
| "quiet_move (Task upgrades throws i) \<longleftrightarrow> \<not> upgrades"
| "quiet_move _ \<longleftrightarrow> True"

definition quiet_loop :: "loop \<Rightarrow> bool" where
  "quiet_loop l \<longleftrightarrow> tables_ok (lp_table l) \<and>
     (\<forall>e \<in> set (lp_ready l). reportable (lp_table l) e \<and> quiet_event e) \<and>
     (\<forall>c \<in> set (lp_tasks l). snd c = Handling False)"

lemma reportable_alive: "tables_ok t \<Longrightarrow> reportable t (Ready conn hup) \<Longrightarrow> owned t conn"
  using tables_okD(3) [of t "fd_of t conn" conn] by (auto simp: reportable_def owned_def)

lemma quiet_loop_next: "quiet_loop l \<Longrightarrow> loop_next l \<noteq> Inl e"
  using reportable_alive [of "lp_table l"]
  by (auto simp: quiet_loop_def loop_next_def alive_def split: list.split ready.split prod.split)

text \<open>Accepting a connection keeps what is reported of the others.\<close>

lemma reportable_accept:
  assumes "tables_ok t" and "unused_fd t" and "reportable t e"
  shows "reportable (snd (HandleEpollNewConnection t)) e"
proof (cases e)
  case (Ready conn hup)
  have i: "interest t (fd_of t conn) = Some conn" using assms(3) by (simp add: Ready reportable_def)
  have n: "conn < next_obj t" by (rule tables_okD(2) [OF assms(1) i])
  have o: "fd_of t conn \<in> set (open_fds t)" using tables_okD(6) [OF assms(1)] i by simp
  show ?thesis
  proof (cases "pending t")
    case (Cons r q)
    show ?thesis
    proof (cases r)
      case (Accepted fd ok)
      have "fd \<notin> set (open_fds t)" using assms(2) by (simp add: unused_fd_def Cons Accepted)
      with o have "fd_of t conn \<noteq> fd" by auto
      with i n show ?thesis
        by (auto simp: Ready reportable_def HandleEpollNewConnection_def Cons Accepted Let_def)
    next
      case AcceptError
      with i show ?thesis by (simp add: Ready reportable_def HandleEpollNewConnection_def Cons)
    qed
  qed (use i in \<open>simp add: Ready reportable_def HandleEpollNewConnection_def\<close>)
qed (simp add: reportable_def)

lemma tables_ok_new:
  assumes "tables_ok t" and "unused_fd t"
  shows "tables_ok (snd (HandleEpollNewConnection t))"
proof (cases "pending t")
  case Nil
  then show ?thesis using assms(1) by (simp add: HandleEpollNewConnection_def)
next
  case (Cons r q)
  show ?thesis
  proof (cases r)
    case (Accepted fd ok)
    have "fd \<notin> set (open_fds t)" using assms(2) by (simp add: unused_fd_def Cons Accepted)
    then show ?thesis using tables_ok_accept [OF assms(1)] by (simp add: Cons Accepted)
  next
    case AcceptError
    show ?thesis by (rule tables_ok_step [OF accept_error assms(1)]) (simp add: Cons AcceptError)
  qed
qed

lemma quiet_step:
  assumes "quiet_loop l" and "quiet_move m" and "loop_do m l = Some l'"
  shows "quiet_loop l'"
proof (cases m)
  case (Client r)
  let ?t = "(lp_table l)\<lparr>pending := pending (lp_table l) @ [r]\<rparr>"
  have "tables_ok ?t" by (rule tables_ok_step [OF arrive]) (use assms(1) in \<open>simp add: quiet_loop_def\<close>)
  moreover have "reportable ?t e = reportable (lp_table l) e" for e by (simp add: reportable_def split: ready.split)
  ultimately show ?thesis using assms(1,3) by (auto simp: Client quiet_loop_def)
next
  case (Wait evs)
  with assms show ?thesis by (auto simp: quiet_loop_def list_all_iff split: if_splits)
next
  case Next
  from assms(3) have u: "may_accept l" and n: "loop_next l = Inr l'"
    by (auto simp: Next split: if_splits sum.splits)
  have t: "tables_ok (lp_table l)" using assms(1) by (simp add: quiet_loop_def)
  show ?thesis
  proof (cases "lp_ready l")
    case (Cons e rest)
    show ?thesis
    proof (cases e)
      case Listening
      with u Cons have u': "unused_fd (lp_table l)" by (simp add: may_accept_def)
      from Listening n Cons have l': "lp_table l' = snd (HandleEpollNewConnection (lp_table l))" "lp_tasks l' = lp_tasks l"
        "set (lp_ready l') \<subseteq> set (lp_ready l)"
        by (auto simp: loop_next_def split: prod.splits if_splits)
      with assms(1) tables_ok_new [OF t u'] reportable_accept [OF t u'] show ?thesis
        by (auto simp: quiet_loop_def)
    next
      case (Ready conn hup)
      with n Cons assms(1) show ?thesis by (auto simp: loop_next_def quiet_loop_def split: if_splits)
    qed
  qed (use n assms(1) in \<open>simp add: loop_next_def\<close>)
next
  case (Task upgrades throws i)
  with assms(3) have i: "i < length (lp_tasks l)" "l' = task_step False throws i l"
    using assms(2) by (auto split: if_splits)
  then have "snd (lp_tasks l ! i) = Handling False" using assms(1) by (simp add: quiet_loop_def)
  then have "l' = end_task i l" by (cases "lp_tasks l ! i") (simp add: i(2) task_step_def)
  with assms(1) show ?thesis
    by (auto simp: quiet_loop_def end_task_def dest: in_set_takeD in_set_dropD)
qed

lemma quiet_run: "loop_run ms l = Some l' \<Longrightarrow> list_all quiet_move ms \<Longrightarrow> quiet_loop l \<Longrightarrow> quiet_loop l'"
  by (induction ms arbitrary: l) (auto split: option.splits dest: quiet_step)

lemma quiet_start: "quiet_loop start_loop"
  by (simp add: quiet_loop_def start_loop_def empty_table_def tables_ok_def)

section \<open>Property\<close>

definition accept_moves :: "loop_move list" where
  "accept_moves = [Client (Accepted 7 True), Wait [Listening], Next, Next]"

text \<open>A second event is fetched while the first, with a hang-up, is handled.\<close>

definition stale_hangup :: "loop_move list" where
  "stale_hangup = accept_moves @ [Wait [Ready 0 True], Next, Wait [Ready 0 False], Task False False 0,
     Task False False 0, Task False False 0]"

text \<open>The same while the first event's request upgrades the connection.\<close>

definition stale_upgrade :: "loop_move list" where
  "stale_upgrade = accept_moves @ [Wait [Ready 0 False], Next, Wait [Ready 0 False], Task True False 0]"

text \<open>A client is accepted between the \<open>close\<close> of the same descriptor and the \<open>erase\<close> behind it.\<close>

definition reused_descriptor :: "loop_move list" where
  "reused_descriptor = accept_moves @ [Wait [Ready 0 True], Next, Task False False 0, Task False False 0,
     Client (Accepted 7 True), Wait [Listening], Next, Next, Task False False 0, Wait [Ready 1 False]]"

definition after :: "loop_move list \<Rightarrow> loop" where
  "after ms = the (loop_run ms start_loop)"

text \<open>
  C29: the loop and the life of connections. As long as no connection is upgraded and no peer hangs up, every
  event of a batch finds its object, whatever the workers do. Otherwise it may not: an event that was
  fetched while a worker handles a hang-up, or an upgrade, of the same connection is handled on an
  object that is gone; and when a new client gets the descriptor that a worker has closed but not yet
  erased, the worker erases the new client's entry, and epoll is left with a pointer to nothing.
\<close>

theorem event_objects:
  "(\<forall>ms l. loop_run ms start_loop = Some l \<and> list_all quiet_move ms \<longrightarrow>
      (\<forall>e. loop_next l \<noteq> Inl e) \<and> (\<forall>conn hup. reportable (lp_table l) (Ready conn hup) \<longrightarrow> alive l conn)) \<and>
   (\<forall>ms \<in> {stale_hangup, stale_upgrade, reused_descriptor}.
      loop_run ms start_loop = Some (after ms) \<and> loop_next (after ms) = Inl UndefinedBehaviour) \<and>
   interest (lp_table (after reused_descriptor)) 7 = Some 1 \<and> \<not> alive (after reused_descriptor) 1"
proof (intro conjI allI impI ballI)
  fix ms l
  assume run: "loop_run ms start_loop = Some l \<and> list_all quiet_move ms"
  then have q: "quiet_loop l" using quiet_run quiet_start by blast
  show "loop_next l \<noteq> Inl e" for e by (rule quiet_loop_next [OF q])
  show "alive l conn" if "reportable (lp_table l) (Ready conn hup)" for conn hup
    using q that reportable_alive by (simp add: quiet_loop_def alive_def)
next
  fix ms
  assume ms: "ms \<in> {stale_hangup, stale_upgrade, reused_descriptor}"
  have "\<not> Option.is_none (loop_run ms start_loop)" using ms
    by (elim insertE emptyE; hypsubst; code_simp)
  then show "loop_run ms start_loop = Some (after ms)" by (simp add: after_def Option.is_none_def)
  have "lp_ready (after ms) = [Ready (if ms = reused_descriptor then 1 else 0) False] \<and>
      \<not> alive (after ms) (if ms = reused_descriptor then 1 else 0)" using ms
    by (elim insertE emptyE; hypsubst; code_simp)
  then show "loop_next (after ms) = Inl UndefinedBehaviour" by (simp add: loop_next_def)
next
  show "interest (lp_table (after reused_descriptor)) 7 = Some 1" by code_simp
  show "\<not> alive (after reused_descriptor) 1" by code_simp
qed

theorem event_objects_witness:
  "loop_next (after (accept_moves @ [Wait [Ready 0 False]])) \<noteq> Inl UndefinedBehaviour \<and>
    loop_next (after stale_upgrade) = Inl UndefinedBehaviour"
proof -
  let ?ms = "accept_moves @ [Wait [Ready 0 False]]"
  have "\<not> Option.is_none (loop_run ?ms start_loop)" by code_simp
  then have "loop_run ?ms start_loop = Some (after ?ms)" by (simp add: after_def Option.is_none_def)
  moreover have "list_all quiet_move ?ms" by code_simp
  ultimately show ?thesis using event_objects by blast
qed

section \<open>The storage server's loop\<close>

text \<open>
  The storage server handles the events of a batch itself, one after the other, and accepts one client per
  event. \<open>OnReadable\<close> may upgrade the connection, to a socket that is then closed because there is no route;
  what it throws leaves \<open>main\<close>.
\<close>

definition pocket_readable :: "nat \<Rightarrow> bool \<Rightarrow> exn option \<Rightarrow> conn_table \<Rightarrow> exn option \<times> conn_table" where
  "pocket_readable conn upgrades thrown t =
     (thrown, if upgrades \<and> connections t (fd_of t conn) = Some conn then swap_connection (fd_of t conn) t else t)"

definition pocket_next :: "bool \<Rightarrow> bool \<Rightarrow> bool \<Rightarrow> exn option \<Rightarrow> loop \<Rightarrow> loop res" where
  "pocket_next epollin epollout upgrades thrown l =
     (case lp_ready l of
        [] \<Rightarrow> Inr l
      | Listening # rest \<Rightarrow> Inr (l\<lparr>lp_table := snd (HandleEpollNewConnection (lp_table l)), lp_ready := rest\<rparr>)
      | Ready raw_conn hup # rest \<Rightarrow>
          if \<not> owned (lp_table l) raw_conn then Inl UndefinedBehaviour
          else case pocket_task epollin epollout hup (pocket_readable raw_conn upgrades thrown) (Pair None)
                 (HandleClientClosedConnection raw_conn) (lp_table l) of
                 (Some e, t) \<Rightarrow> Inl e
               | (None, t) \<Rightarrow> Inr (l\<lparr>lp_table := t, lp_ready := rest\<rparr>))"

datatype pocket_move = PocketClient accept_result | PocketWait "ready list" | PocketNext bool bool bool "exn option"

text \<open>\<open>epoll_wait\<close> reports a descriptor at most once in a batch.\<close>

fun ready_key :: "ready \<Rightarrow> nat option" where
  "ready_key Listening = None"
| "ready_key (Ready conn hup) = Some conn"

fun pocket_do :: "pocket_move \<Rightarrow> loop \<Rightarrow> loop option" where
  "pocket_do (PocketClient r) l = Some (l\<lparr>lp_table := (lp_table l)\<lparr>pending := pending (lp_table l) @ [r]\<rparr>\<rparr>)"
| "pocket_do (PocketWait evs) l =
     (if lp_ready l = [] \<and> length evs \<le> 64 \<and> list_all (reportable (lp_table l)) evs \<and> distinct (map ready_key evs)
      then Some (l\<lparr>lp_ready := evs\<rparr>) else None)"
| "pocket_do (PocketNext epollin epollout upgrades thrown) l =
     (if may_accept l
      then (case pocket_next epollin epollout upgrades thrown l of Inl e \<Rightarrow> None | Inr l' \<Rightarrow> Some l') else None)"

fun pocket_run :: "pocket_move list \<Rightarrow> loop \<Rightarrow> loop option" where
  "pocket_run [] l = Some l"
| "pocket_run (m # ms) l = (case pocket_do m l of None \<Rightarrow> None | Some l' \<Rightarrow> pocket_run ms l')"

definition pocket_loop_ok :: "loop \<Rightarrow> bool" where
  "pocket_loop_ok l \<longleftrightarrow> tables_ok (lp_table l) \<and> distinct (map ready_key (lp_ready l)) \<and>
     (\<forall>e \<in> set (lp_ready l). reportable (lp_table l) e)"

text \<open>Work on one connection leaves what is registered with the others.\<close>

lemma other_fd:
  "tables_ok t \<Longrightarrow> reportable t (Ready conn h) \<Longrightarrow> reportable t (Ready conn' h') \<Longrightarrow> conn \<noteq> conn' \<Longrightarrow>
    fd_of t conn \<noteq> fd_of t conn'"
  by (auto simp: reportable_def)

lemma reportable_hangup:
  "fd_of t conn \<noteq> fd_of t conn' \<Longrightarrow>
    reportable (HandleClientClosedConnection conn t) (Ready conn' h) = reportable t (Ready conn' h)"
  by (simp add: reportable_def HandleClientClosedConnection_def Let_def)

lemma reportable_swap:
  assumes "tables_ok t" and "reportable t (Ready conn' h)" and "fd \<noteq> fd_of t conn'"
  shows "reportable (swap_connection fd t) (Ready conn' h) \<and> fd_of (swap_connection fd t) conn' = fd_of t conn'"
  using assms tables_okD(2) [OF assms(1), of "fd_of t conn'" conn']
  by (auto simp: reportable_def swap_connection_def Let_def)

lemma fd_of_swap: "conn < next_obj t \<Longrightarrow> fd_of (swap_connection fd t) conn = fd_of t conn"
  by (simp add: swap_connection_def Let_def)

lemma readable_ok:
  assumes "tables_ok t" and "reportable t (Ready conn h)"
  shows "tables_ok (snd (pocket_readable conn upgrades thrown t)) \<and>
    fd_of (snd (pocket_readable conn upgrades thrown t)) conn = fd_of t conn"
  using assms tables_ok_upgrade [OF assms(1), of "fd_of t conn" conn]
    tables_okD(2) [OF assms(1), of "fd_of t conn" conn]
  by (auto simp: pocket_readable_def fd_of_swap reportable_def)

lemma readable_others:
  assumes "tables_ok t" and "reportable t (Ready conn' h)" and "fd_of t conn \<noteq> fd_of t conn'"
  shows "reportable (snd (pocket_readable conn upgrades thrown t)) (Ready conn' h) \<and>
    fd_of (snd (pocket_readable conn upgrades thrown t)) conn' = fd_of t conn'"
  using assms reportable_swap [of t conn' h "fd_of t conn"] by (auto simp: pocket_readable_def)

lemma pocket_task_ok:
  assumes "tables_ok t" and "reportable t (Ready conn h)"
    and "pocket_task epollin epollout hup (pocket_readable conn upgrades thrown) (Pair None)
      (HandleClientClosedConnection conn) t = (r, t')"
  shows "tables_ok t' \<and> (r = None \<or> r = thrown) \<and>
    (\<forall>conn' h'. conn' \<noteq> conn \<longrightarrow> reportable t (Ready conn' h') \<longrightarrow> reportable t' (Ready conn' h'))"
proof -
  let ?u = "snd (pocket_readable conn upgrades thrown t)"
  note u = readable_ok [OF assms(1,2), of upgrades thrown]
  have t': "t' \<in> {t, ?u, HandleClientClosedConnection conn t}" and r: "r = None \<or> r = thrown"
    using assms(3) by (auto simp: pocket_task_def pocket_readable_def split: if_splits option.splits)
  have o: "reportable t' (Ready conn' h')" if "conn' \<noteq> conn" "reportable t (Ready conn' h')" for conn' h'
  proof -
    have f: "fd_of t conn \<noteq> fd_of t conn'" using other_fd [OF assms(1,2) that(2)] that(1) by simp
    show ?thesis using t' that(2) readable_others [OF assms(1) that(2) f] reportable_hangup [OF f] by auto
  qed
  have "tables_ok t'" using t' u assms(1) tables_ok_hangup [OF assms(1)] by auto
  with r o show ?thesis by blast
qed

lemma pocket_step:
  assumes "pocket_loop_ok l" and "pocket_do m l = Some l'"
  shows "pocket_loop_ok l'"
proof (cases m)
  case (PocketClient r)
  let ?t = "(lp_table l)\<lparr>pending := pending (lp_table l) @ [r]\<rparr>"
  have "tables_ok ?t" by (rule tables_ok_step [OF arrive]) (use assms(1) in \<open>simp add: pocket_loop_ok_def\<close>)
  moreover have "reportable ?t e = reportable (lp_table l) e" for e by (simp add: reportable_def split: ready.split)
  ultimately show ?thesis using assms by (auto simp: PocketClient pocket_loop_ok_def)
next
  case (PocketWait evs)
  with assms show ?thesis by (auto simp: pocket_loop_ok_def list_all_iff split: if_splits)
next
  case (PocketNext epollin epollout upgrades thrown)
  from assms(2) have u: "may_accept l" and n: "pocket_next epollin epollout upgrades thrown l = Inr l'"
    by (auto simp: PocketNext split: if_splits sum.splits)
  have t: "tables_ok (lp_table l)" using assms(1) by (simp add: pocket_loop_ok_def)
  show ?thesis
  proof (cases "lp_ready l")
    case (Cons e rest)
    show ?thesis
    proof (cases e)
      case Listening
      with u Cons have u': "unused_fd (lp_table l)" by (simp add: may_accept_def)
      from Listening n Cons assms(1) tables_ok_new [OF t u'] reportable_accept [OF t u'] show ?thesis
        by (auto simp: pocket_next_def pocket_loop_ok_def)
    next
      case (Ready conn hup)
      have own: "reportable (lp_table l) (Ready conn hup)" using assms(1) by (simp add: pocket_loop_ok_def Cons Ready)
      obtain t' where t': "pocket_task epollin epollout hup (pocket_readable conn upgrades thrown) (Pair None)
          (HandleClientClosedConnection conn) (lp_table l) = (None, t')" "l' = l\<lparr>lp_table := t', lp_ready := rest\<rparr>"
        using n by (auto simp: pocket_next_def Cons Ready split: if_splits prod.splits option.splits)
      have rest: "reportable (lp_table l) x" "ready_key x \<noteq> Some conn" if "x \<in> set rest" for x
        using assms(1) that by (auto simp: pocket_loop_ok_def Cons Ready image_iff)
      have "reportable t' x" if x: "x \<in> set rest" for x
      proof (cases x)
        case (Ready conn' h')
        with rest [OF x] pocket_task_ok [OF t own t'(1)] show ?thesis by simp
      qed (simp add: reportable_def)
      with pocket_task_ok [OF t own t'(1)] t'(2) assms(1) show ?thesis by (auto simp: pocket_loop_ok_def Cons)
    qed
  qed (use n assms(1) in \<open>simp add: pocket_next_def\<close>)
qed

lemma pocket_run_ok: "pocket_run ms l = Some l' \<Longrightarrow> pocket_loop_ok l \<Longrightarrow> pocket_loop_ok l'"
  by (induction ms arbitrary: l) (auto split: option.splits dest: pocket_step)

lemma pocket_start: "pocket_loop_ok start_loop"
  by (simp add: pocket_loop_ok_def start_loop_def empty_table_def tables_ok_def)

text \<open>
  C37: the loop of the storage server. Whatever clients do, hang-ups, upgrades and reused descriptors included,
  every event of a batch finds its object, and the loop ends only with an exception that \<open>OnReadable\<close> threw.
\<close>

theorem pocket_event_objects:
  assumes "pocket_run ms start_loop = Some l"
  shows "(pocket_next epollin epollout upgrades thrown l = Inl e \<longrightarrow> thrown = Some e) \<and>
    (reportable (lp_table l) (Ready conn hup) \<longrightarrow> owned (lp_table l) conn) \<and>
    (Ready conn hup \<in> set (lp_ready l) \<longrightarrow> owned (lp_table l) conn)"
proof -
  have ok: "pocket_loop_ok l" by (rule pocket_run_ok [OF assms pocket_start])
  then have t: "tables_ok (lp_table l)" by (simp add: pocket_loop_ok_def)
  have own: "owned (lp_table l) c" if "Ready c h \<in> set (lp_ready l)" for c h
    using ok that reportable_alive [OF t] by (auto simp: pocket_loop_ok_def)
  have "thrown = Some e" if n: "pocket_next epollin epollout upgrades thrown l = Inl e"
  proof -
    from n obtain c h rest where c: "lp_ready l = Ready c h # rest"
      by (auto simp: pocket_next_def split: list.splits ready.splits)
    moreover have "owned (lp_table l) c" by (rule own [of c h]) (simp add: c)
    ultimately obtain t' where "pocket_task epollin epollout h (pocket_readable c upgrades thrown) (Pair None)
        (HandleClientClosedConnection c) (lp_table l) = (Some e, t')"
      using n by (auto simp: pocket_next_def split: prod.splits option.splits)
    moreover have "reportable (lp_table l) (Ready c h)" using ok by (simp add: pocket_loop_ok_def c)
    ultimately show ?thesis using pocket_task_ok [OF t] by fastforce
  qed
  with own reportable_alive [OF t] show ?thesis by blast
qed

definition pocket_moves :: "pocket_move list" where
  "pocket_moves = [PocketClient (Accepted 7 True), PocketClient (Accepted 8 True), PocketWait [Listening],
     PocketNext True False False None, PocketWait [Listening], PocketNext True False False None,
     PocketClient (Accepted 7 True), PocketWait [Ready 0 True, Listening, Ready 1 False],
     PocketNext False False False None, PocketNext True False False None]"

text \<open>A descriptor is reused within the batch.\<close>

theorem pocket_event_objects_witness:
  "\<exists>l. pocket_run pocket_moves start_loop = Some l \<and> lp_ready l = [Ready 1 False] \<and> owned (lp_table l) 1"
proof -
  have "\<not> Option.is_none (pocket_run pocket_moves start_loop)"
    "lp_ready (the (pocket_run pocket_moves start_loop)) = [Ready 1 False]" by code_simp+
  then obtain l where l: "pocket_run pocket_moves start_loop = Some l" "lp_ready l = [Ready 1 False]"
    by (auto simp: Option.is_none_def)
  with pocket_event_objects [OF l(1), of True False False None OutOfRange 1 False] show ?thesis by auto
qed

end
