(* ===== verification/Recording.thy ===== *)
theory Recording
  imports Uploader
begin

text \<open>
  The life of a recording: the encoder that writes into its directory, the upload thread of
  \<open>startSegmentUploader\<close>, the callbacks that end the broadcast, and the destructor of \<open>StreamerSession\<close>, as
  steps that interleave. What the encoder writes, and when, is arbitrary.
\<close>

section \<open>State\<close>

text \<open>Where the upload thread stands, and the destructor.\<close>

datatype upload_step = CheckLive | Pass | FinalPass | UploaderDone

datatype destroy_step = NotDestroyed | JoinUploader | QuitEncoder | RemoveFiles | Destroyed

text \<open>
  The directory, while it exists; beside the thread's set of uploaded names and the state of the world that
  its uploads change, the views of the directory that its passes had.
\<close>

record 'w recording =
  rec_session :: session
  rec_dir :: "(string \<times> string) list option"
  rec_upload :: upload_step
  rec_uploaded :: "string list"
  rec_world :: 'w
  rec_views :: "dir_view option list"
  rec_final :: "dir_view option"
  rec_destructor :: destroy_step

definition new_recording :: "session \<Rightarrow> 'w \<Rightarrow> 'w recording" where
  "new_recording s w = \<lparr>rec_session = s, rec_dir = None, rec_upload = CheckLive, rec_uploaded = [], rec_world = w,
     rec_views = [], rec_final = None, rec_destructor = NotDestroyed\<rparr>"

definition view_of :: "session \<Rightarrow> (string \<times> string) list option \<Rightarrow> dir_view option" where
  "view_of s dir = map_option (\<lambda>files. \<lparr>view_entries = map (\<lambda>(f, c). (f, Some c)) files,
     view_playlist = map_option Some (map_of files (sess_streamId s @ sess_outputFormat s))\<rparr>) dir"

section \<open>Ports\<close>

text \<open>
  What \<open>socket\<close> returned, and the port that the kernel chose when \<open>bind\<close> succeeded. The temporary socket is
  closed on every path, so that the port is free again when the function returns: the ports for video and
  audio, which are asked for one after the other, may be the same.
\<close>

definition GetFreeLocalPort :: "int \<Rightarrow> u16 option \<Rightarrow> int" where
  "GetFreeLocalPort tempSock bound =
     (if tempSock < 0 then -1 else case bound of None \<Rightarrow> -1 | Some port \<Rightarrow> uint port)"

lemma local_port_range: "GetFreeLocalPort tempSock bound \<in> insert (-1) {0..<65536}"
  using uint_bounded [where 'a = 16] by (auto simp: GetFreeLocalPort_def split: option.split)

section \<open>Steps\<close>

definition create_output :: "'w recording \<Rightarrow> 'w recording" where
  "create_output r = r\<lparr>rec_dir := (case rec_dir r of None \<Rightarrow> Some [] | Some files \<Rightarrow> Some files)\<rparr>"

text \<open>The encoder writes a file or deletes an old segment, in a directory that exists.\<close>

definition encoder_writes :: "string \<Rightarrow> string \<Rightarrow> 'w recording \<Rightarrow> 'w recording" where
  "encoder_writes f c r = r\<lparr>rec_dir := map_option (AList.update f c) (rec_dir r)\<rparr>"

definition encoder_deletes :: "string \<Rightarrow> 'w recording \<Rightarrow> 'w recording" where
  "encoder_deletes f r = r\<lparr>rec_dir := map_option (AList.delete f) (rec_dir r)\<rparr>"

text \<open>
  \<open>q\<close> and \<open>pclose\<close>: the encoder finishes its files and ends.
\<close>

definition quit_encoder :: "(string \<times> string) list \<Rightarrow> 'w recording \<Rightarrow> 'w recording" where
  "quit_encoder last_files r =
     (if sess_ffmpeg_running (rec_session r)
      then fold (\<lambda>(f, c). encoder_writes f c) last_files r
        \<lparr>rec_session := (rec_session r)\<lparr>sess_ffmpeg_running := False\<rparr>\<rparr>
      else r)"

text \<open>The callback of the peer connection's state.\<close>

definition peer_state :: "pc_state \<Rightarrow> (string \<times> string) list \<Rightarrow> 'w recording \<Rightarrow> 'w recording" where
  "peer_state st last_files r =
     (if st \<in> {PcDisconnected, PcFailed, PcClosed} then quit_encoder last_files r else r)"

text \<open>The upload thread; a pass is the one of \<open>Uploader\<close>, on the directory as it is.\<close>

definition upload_thread :: "'w curl \<Rightarrow> SegmentUploader \<Rightarrow> 'w recording \<Rightarrow> 'w recording" where
  "upload_thread cu up r =
     (let sid = sess_streamId (rec_session r); v = view_of (rec_session r) (rec_dir r) in
      case rec_upload r of
        CheckLive \<Rightarrow> r\<lparr>rec_upload := (if sess_isLive (rec_session r) then Pass else FinalPass)\<rparr>
      | Pass \<Rightarrow>
          (case upload_pass cu up sid v (rec_uploaded r, rec_world r) of (uploaded, w) \<Rightarrow>
             r\<lparr>rec_uploaded := uploaded, rec_world := w, rec_views := rec_views r @ [v], rec_upload := CheckLive\<rparr>)
      | FinalPass \<Rightarrow>
          r\<lparr>rec_world := (case v of None \<Rightarrow> rec_world r
               | Some v \<Rightarrow> upload_playlist cu up sid v
                   (final_segments cu up sid (rec_uploaded r) (view_entries v) (rec_world r))),
            rec_final := v, rec_upload := UploaderDone\<rparr>
      | UploaderDone \<Rightarrow> r)"

text \<open>The destructor of the session; joining the thread waits for its end.\<close>

definition destroy_session :: "(string \<times> string) list \<Rightarrow> 'w recording \<Rightarrow> 'w recording option" where
  "destroy_session last_files r =
     (case rec_destructor r of
        NotDestroyed \<Rightarrow> Some (r\<lparr>rec_session := (rec_session r)\<lparr>sess_isLive := False\<rparr>, rec_destructor := JoinUploader\<rparr>)
      | JoinUploader \<Rightarrow> if rec_upload r = UploaderDone then Some (r\<lparr>rec_destructor := QuitEncoder\<rparr>) else None
      | QuitEncoder \<Rightarrow> Some ((quit_encoder last_files r)\<lparr>rec_destructor := RemoveFiles\<rparr>)
      | RemoveFiles \<Rightarrow> Some (r\<lparr>rec_dir := None, rec_destructor := Destroyed\<rparr>)
      | Destroyed \<Rightarrow> None)"

text \<open>
  Everything that happens to a recording. The broadcast ends with the close callback of the signalling
  socket, which clears \<open>isLive\<close> and then closes the peer connection; the latter is a change of its state.
\<close>

datatype rec_move =
    CreateOutput
  | StartEncoder
  | Writes string string
  | Deletes string
  | PeerState pc_state "(string \<times> string) list"
  | EndBroadcast
  | UploadThread
  | Destroy "(string \<times> string) list"

fun rec_do :: "'w curl \<Rightarrow> SegmentUploader \<Rightarrow> rec_move \<Rightarrow> 'w recording \<Rightarrow> 'w recording option" where
  "rec_do cu up CreateOutput r = (if rec_destructor r = NotDestroyed then Some (create_output r) else None)"
| "rec_do cu up StartEncoder r =
     (if rec_destructor r = NotDestroyed
      then Some (r\<lparr>rec_session := (rec_session r)\<lparr>sess_ffmpeg_running := True\<rparr>\<rparr>) else None)"
| "rec_do cu up (Writes f c) r = (if sess_ffmpeg_running (rec_session r) then Some (encoder_writes f c r) else None)"
| "rec_do cu up (Deletes f) r = (if sess_ffmpeg_running (rec_session r) then Some (encoder_deletes f r) else None)"
| "rec_do cu up (PeerState st last_files) r =
     (if rec_destructor r = NotDestroyed then Some (peer_state st last_files r) else None)"
| "rec_do cu up EndBroadcast r =
     (if rec_destructor r = NotDestroyed then Some (r\<lparr>rec_session := (rec_session r)\<lparr>sess_isLive := False\<rparr>\<rparr>) else None)"
| "rec_do cu up UploadThread r = Some (upload_thread cu up r)"
| "rec_do cu up (Destroy last_files) r = destroy_session last_files r"

fun rec_run :: "'w curl \<Rightarrow> SegmentUploader \<Rightarrow> rec_move list \<Rightarrow> 'w recording \<Rightarrow> 'w recording option" where
  "rec_run cu up [] r = Some r"
| "rec_run cu up (m # ms) r = (case rec_do cu up m r of None \<Rightarrow> None | Some r' \<Rightarrow> rec_run cu up ms r')"

section \<open>The thread against its sequential model\<close>

definition uploads_ok :: "'w curl \<Rightarrow> SegmentUploader \<Rightarrow> string \<Rightarrow> 'w \<Rightarrow> 'w recording \<Rightarrow> bool" where
  "uploads_ok cu up sid w r \<longleftrightarrow> sess_streamId (rec_session r) = sid \<and>
     (if rec_upload r = UploaderDone then rec_world r = startSegmentUploader cu up sid (rec_views r) (rec_final r) w
      else fold (upload_pass cu up sid) (rec_views r) ([], w) = (rec_uploaded r, rec_world r))"

definition ends_ok :: "'w recording \<Rightarrow> bool" where
  "ends_ok r \<longleftrightarrow>
     (rec_destructor r \<noteq> NotDestroyed \<or> rec_upload r = FinalPass \<or> rec_upload r = UploaderDone \<longrightarrow> \<not> sess_isLive (rec_session r)) \<and>
     (rec_destructor r \<in> {QuitEncoder, RemoveFiles, Destroyed} \<longrightarrow> rec_upload r = UploaderDone) \<and>
     (rec_destructor r \<in> {RemoveFiles, Destroyed} \<longrightarrow> \<not> sess_ffmpeg_running (rec_session r)) \<and>
     (rec_destructor r = Destroyed \<longrightarrow> rec_dir r = None)"

lemma writes_frame [simp]:
  "rec_session (fold (\<lambda>(f, c). encoder_writes f c) fs r) = rec_session r"
  "rec_upload (fold (\<lambda>(f, c). encoder_writes f c) fs r) = rec_upload r"
  "rec_uploaded (fold (\<lambda>(f, c). encoder_writes f c) fs r) = rec_uploaded r"
  "rec_world (fold (\<lambda>(f, c). encoder_writes f c) fs r) = rec_world r"
  "rec_views (fold (\<lambda>(f, c). encoder_writes f c) fs r) = rec_views r"
  "rec_final (fold (\<lambda>(f, c). encoder_writes f c) fs r) = rec_final r"
  "rec_destructor (fold (\<lambda>(f, c). encoder_writes f c) fs r) = rec_destructor r"
  by (induction fs arbitrary: r) (auto simp: encoder_writes_def)

lemmas rec_defs = create_output_def encoder_writes_def encoder_deletes_def quit_encoder_def peer_state_def
  destroy_session_def

lemma uploads_step:
  assumes "uploads_ok cu up sid w r" and "rec_do cu up m r = Some r'"
  shows "uploads_ok cu up sid w r'"
proof (cases m)
  case UploadThread
  show ?thesis
  proof (cases "rec_upload r")
    case FinalPass
    with assms UploadThread show ?thesis
      by (auto simp: uploads_ok_def upload_thread_def startSegmentUploader_def Let_def split: option.splits)
  qed (use assms UploadThread in \<open>auto simp: uploads_ok_def upload_thread_def Let_def split: prod.splits if_splits\<close>)
qed (use assms in \<open>auto simp: uploads_ok_def rec_defs split: if_splits destroy_step.splits\<close>)

lemma ends_step:
  assumes "ends_ok r" and "rec_do cu up m r = Some r'"
  shows "ends_ok r'"
proof (cases m)
  case UploadThread
  with assms show ?thesis
    by (cases "rec_upload r") (auto simp: ends_ok_def upload_thread_def Let_def split: prod.splits)
next
  case (Destroy last_files)
  with assms show ?thesis
    by (cases "rec_destructor r") (auto simp: ends_ok_def rec_defs split: if_splits)
qed (use assms in \<open>auto simp: ends_ok_def rec_defs split: if_splits\<close>)

lemma rec_run_ok:
  "rec_run cu up ms r = Some r' \<Longrightarrow> uploads_ok cu up sid w r \<Longrightarrow> ends_ok r \<Longrightarrow> uploads_ok cu up sid w r' \<and> ends_ok r'"
  by (induction ms arbitrary: r) (auto split: option.splits dest: uploads_step ends_step)

lemma new_recording_ok: "uploads_ok cu up (sess_streamId s) w (new_recording s w)" "ends_ok (new_recording s w)"
  by (simp_all add: uploads_ok_def ends_ok_def new_recording_def)

text \<open>Without a running encoder the directory keeps its files until it is removed.\<close>

lemma quiet_rec_step:
  assumes "rec_do cu up m r = Some r'" and "\<not> sess_ffmpeg_running (rec_session r)" and "m \<noteq> StartEncoder" and "m \<noteq> CreateOutput"
    and "rec_upload r = UploaderDone"
  shows "\<not> sess_ffmpeg_running (rec_session r') \<and> rec_upload r' = UploaderDone \<and> rec_final r' = rec_final r \<and>
    (rec_dir r' = rec_dir r \<or> rec_dir r' = None)"
  using assms by (cases m) (auto simp: rec_defs upload_thread_def Let_def split: if_splits destroy_step.splits)

lemma quiet_rec_run:
  "rec_run cu up ms r = Some r' \<Longrightarrow> \<not> sess_ffmpeg_running (rec_session r) \<Longrightarrow> StartEncoder \<notin> set ms \<Longrightarrow>
    CreateOutput \<notin> set ms \<Longrightarrow> rec_upload r = UploaderDone \<Longrightarrow>
    rec_final r' = rec_final r \<and> (rec_dir r' = rec_dir r \<or> rec_dir r' = None)"
proof (induction ms arbitrary: r)
  case (Cons m ms)
  then obtain q where q: "rec_do cu up m r = Some q" "rec_run cu up ms q = Some r'" by (auto split: option.splits)
  have "\<not> sess_ffmpeg_running (rec_session q) \<and> rec_upload q = UploaderDone \<and> rec_final q = rec_final r \<and>
      (rec_dir q = rec_dir r \<or> rec_dir q = None)"
    by (rule quiet_rec_step [OF q(1)]) (use Cons.prems in auto)
  moreover from this have "rec_final r' = rec_final q \<and> (rec_dir r' = rec_dir q \<or> rec_dir r' = None)"
    using Cons.IH [OF q(2)] Cons.prems by auto
  ultimately show ?case by auto
qed simp

section \<open>Property\<close>

text \<open>
  C19: the life of a recording. However the encoder, the upload thread, the end of the broadcast and
  the destructor interleave, what the thread does to the storage is \<open>startSegmentUploader\<close> on what its passes
  saw; the local files are removed only after its final pass; and when the encoder had
  ended before that pass, the pass saw every file that was left.
\<close>

theorem recording_lifecycle:
  assumes "rec_run cu up ms (new_recording s w) = Some r"
  shows "(rec_upload r = UploaderDone \<longrightarrow>
      rec_world r = startSegmentUploader cu up (sess_streamId s) (rec_views r) (rec_final r) w) \<and>
    (rec_destructor r = Destroyed \<longrightarrow> rec_upload r = UploaderDone \<and> rec_dir r = None \<and> \<not> sess_ffmpeg_running (rec_session r)) \<and>
    (\<forall>ms' r'. rec_upload r = FinalPass \<and> \<not> sess_ffmpeg_running (rec_session r) \<and>
       rec_run cu up (UploadThread # ms') r = Some r' \<and> StartEncoder \<notin> set ms' \<and> CreateOutput \<notin> set ms' \<longrightarrow>
       rec_final r' = view_of (rec_session r) (rec_dir r) \<and> (rec_dir r' = rec_dir r \<or> rec_dir r' = None))"
proof (intro conjI allI impI)
  note ok = rec_run_ok [OF assms new_recording_ok]
  show "rec_world r = startSegmentUploader cu up (sess_streamId s) (rec_views r) (rec_final r) w" if "rec_upload r = UploaderDone"
    using ok that by (simp add: uploads_ok_def)
  show "rec_upload r = UploaderDone" "rec_dir r = None" "\<not> sess_ffmpeg_running (rec_session r)"
    if "rec_destructor r = Destroyed"
    using ok that by (auto simp: ends_ok_def)
next
  fix ms' r'
  assume a: "rec_upload r = FinalPass \<and> \<not> sess_ffmpeg_running (rec_session r) \<and>
    rec_run cu up (UploadThread # ms') r = Some r' \<and> StartEncoder \<notin> set ms' \<and> CreateOutput \<notin> set ms'"
  let ?q = "upload_thread cu up r"
  have q: "rec_session ?q = rec_session r" "rec_dir ?q = rec_dir r" "rec_upload ?q = UploaderDone"
    "rec_final ?q = view_of (rec_session r) (rec_dir r)"
    using a by (simp_all add: upload_thread_def Let_def)
  then show "rec_final r' = view_of (rec_session r) (rec_dir r)" "rec_dir r' = rec_dir r \<or> rec_dir r' = None"
    using quiet_rec_run [of cu up ms' ?q r'] a by simp_all
qed

text \<open>
  A broadcast that lasts less than a pass of the thread: its end clears \<open>isLive\<close>, the thread makes its final
  pass, and only then the encoder is told to finish. Whatever it writes at its end is removed
  with the directory, and nothing has been uploaded.
\<close>

definition short_broadcast :: "(string \<times> string) list \<Rightarrow> rec_move list" where
  "short_broadcast last_files = [CreateOutput, StartEncoder, EndBroadcast, UploadThread, UploadThread,
     PeerState PcClosed last_files, Destroy [], Destroy [], Destroy [], Destroy []]"

lemma writes_dir: "rec_dir (fold (\<lambda>(f, c). encoder_writes f c) fs r) =
    map_option (fold (\<lambda>(f, c). AList.update f c) fs) (rec_dir r)"
  by (induction fs arbitrary: r) (auto simp: encoder_writes_def option.map_comp o_def option.map_ident option.map_id
      split: prod.splits)

theorem last_files_lost:
  "\<exists>r r'. rec_run cu up (take 6 (short_broadcast last_files)) (new_recording s w) = Some r \<and>
    rec_run cu up (short_broadcast last_files) (new_recording s w) = Some r' \<and>
    rec_dir r = Some (fold (\<lambda>(f, c). AList.update f c) last_files []) \<and> rec_upload r = UploaderDone \<and>
    rec_dir r' = None \<and> rec_world r' = w"
  by (simp add: short_broadcast_def new_recording_def rec_defs(1,4,5,6) upload_thread_def view_of_def
      upload_playlist_def writes_dir)

section \<open>Witness\<close>

definition demo_curl :: "(string \<times> string) list curl" where
  "demo_curl = \<lparr>curl_init = True, curl_put = (\<lambda>u header content w. (Some 200, w @ [(u, content)])),
     curl_delete = (\<lambda>u header w. (Some 200, w))\<rparr>"

definition rec_demo_moves :: "rec_move list" where
  "rec_demo_moves = [CreateOutput, StartEncoder, Writes ''ann0.ts'' ''x'', UploadThread, UploadThread,
     PeerState PcDisconnected [(''ann1.ts'', ''y'')], EndBroadcast, UploadThread]"

definition demo_recording_end :: "(string \<times> string) list recording" where
  "demo_recording_end = the (rec_run demo_curl \<lparr>storageUrl = ''http://s'', up_secret = ''k''\<rparr> rec_demo_moves
     (new_recording (new_session ''ann'' ''./recordings'' 0) []))"

lemma rec_demo_run: "rec_run demo_curl \<lparr>storageUrl = ''http://s'', up_secret = ''k''\<rparr> rec_demo_moves
     (new_recording (new_session ''ann'' ''./recordings'' 0) []) \<noteq> None"
  by code_simp

lemma rec_demo_facts: "rec_upload demo_recording_end = FinalPass \<and> \<not> sess_ffmpeg_running (rec_session demo_recording_end) \<and>
    rec_dir demo_recording_end = Some [(''ann0.ts'', ''x''), (''ann1.ts'', ''y'')]"
  by code_simp

theorem recording_lifecycle_witness:
  "\<exists>r'. rec_run demo_curl \<lparr>storageUrl = ''http://s'', up_secret = ''k''\<rparr> [UploadThread, Destroy [], Destroy []] demo_recording_end = Some r' \<and>
    rec_final r' = view_of (rec_session demo_recording_end) (rec_dir demo_recording_end)"
proof -
  let ?up = "\<lparr>storageUrl = ''http://s'', up_secret = ''k''\<rparr>"
  have run: "rec_run demo_curl ?up rec_demo_moves (new_recording (new_session ''ann'' ''./recordings'' 0) []) = Some demo_recording_end"
    using rec_demo_run by (simp add: demo_recording_end_def)
  have "rec_run demo_curl ?up [UploadThread, Destroy [], Destroy []] demo_recording_end \<noteq> None" by code_simp
  then obtain r' where r': "rec_run demo_curl ?up [UploadThread, Destroy [], Destroy []] demo_recording_end = Some r'" by blast
  have "\<forall>ms' r'. rec_upload demo_recording_end = FinalPass \<and> \<not> sess_ffmpeg_running (rec_session demo_recording_end) \<and>
       rec_run demo_curl ?up (UploadThread # ms') demo_recording_end = Some r' \<and> StartEncoder \<notin> set ms' \<and> CreateOutput \<notin> set ms' \<longrightarrow>
       rec_final r' = view_of (rec_session demo_recording_end) (rec_dir demo_recording_end)"
    using recording_lifecycle [OF run] by blast
  from this [rule_format, of "[Destroy [], Destroy []]" r'] rec_demo_facts r'
  have "rec_final r' = view_of (rec_session demo_recording_end) (rec_dir demo_recording_end)"
    by (simp del: rec_run.simps)
  with r' show ?thesis by blast
qed

end
