(* ===== verification/RadixOps.thy ===== *)
theory RadixOps
  imports RadixTree
begin

text \<open>
  The rest of \<open>include/PhamPhiLong_Radix-Tree\<close>: \<open>erase\<close>, \<open>clear\<close>, \<open>find_with_prefix\<close>, the overload of \<open>insert\<close>
  that copies, and the iterator, with which the routes are listed.
\<close>

section \<open>Erasing\<close>

text \<open>
  \<open>find_node\<close> once more, down to the leaf that is erased. Its parent loses the entry; when one other child
  is left and the parent is not the root, the grandparent takes that child instead of the parent. The flag
  says that the node lost a child of its own.
\<close>

fun erase_node :: "string \<Rightarrow> nat \<Rightarrow> 'v rnode \<Rightarrow> (bool \<times> 'v rnode) option"
  and erase_children :: "string \<Rightarrow> nat \<Rightarrow> nat \<Rightarrow> (string \<times> 'v rnode) list \<Rightarrow> (string \<times> 'v rnode) list \<Rightarrow>
    (bool \<times> (string \<times> 'v rnode) list) option" where
  "erase_node key cur_key_depth (RNode k v d cs) =
     map_option (\<lambda>(direct, cs'). (direct, RNode k v d cs')) (erase_children key cur_key_depth d cs cs)"
| "erase_children key cur_key_depth d children [] = None"
| "erase_children key cur_key_depth d children ((e, ch) # cs) =
     (if 0 < length e \<and> e = slice key cur_key_depth (length e) then
        (if is_leaf ch then
           if cur_key_depth + length e = length key \<and> node_key ch = key
           then Some (True, AList.delete (get_search_key d ch) children) else None
         else case erase_node key (cur_key_depth + length e) ch of
             None \<Rightarrow> None
           | Some (direct, ch') \<Rightarrow>
               if direct \<and> length (node_children ch') = 1 then
                 let sibling = snd (hd (node_children ch'))
                 in Some (False, umap_insert (get_search_key d sibling) sibling
                      (AList.delete (get_search_key d ch') children))
               else Some (False, AList.update e ch' children))
      else if length e = 0 \<and> is_leaf ch \<and> node_depth ch = length key \<and> node_key ch = key
      then Some (True, AList.delete (get_search_key d ch) children)
      else erase_children key cur_key_depth d children cs)"

text \<open>A root without children is what \<open>find_node\<close> takes for a leaf; it has no parent to erase it from.\<close>

definition tree_erase :: "string \<Rightarrow> 'v radix_tree \<Rightarrow> ('v radix_tree \<times> nat) res" where
  "tree_erase key t =
     (case root_node t of
        None \<Rightarrow> Inr (t, 0)
      | Some r \<Rightarrow>
          if is_leaf r then if length key = 0 \<and> node_key r = key then Inl UndefinedBehaviour else Inr (t, 0)
          else case erase_node key 0 r of
              None \<Rightarrow> Inr (t, 0)
            | Some (_, r') \<Rightarrow> Inr (\<lparr>root_node = Some r', tree_size = tree_size t - 1\<rparr>, 1))"

definition tree_clear :: "'v radix_tree \<Rightarrow> 'v radix_tree" where
  "tree_clear t = t\<lparr>root_node := None, tree_size := 0\<rparr>"

text \<open>With a root the function ends without a \<open>return\<close>.\<close>

definition find_with_prefix :: "string \<Rightarrow> 'v radix_tree \<Rightarrow> 'v rnode list res" where
  "find_with_prefix key t = (case root_node t of None \<Rightarrow> Inr [] | Some r \<Rightarrow> Inl UndefinedBehaviour)"

text \<open>The overload for an lvalue has the same statements and copies the pair.\<close>

definition tree_insert_copy :: "string \<times> 'v \<Rightarrow> 'v radix_tree \<Rightarrow> 'v radix_tree \<times> bool" where
  "tree_insert_copy val t = tree_insert (fst val) (snd val) t"

section \<open>Iterating\<close>

text \<open>An iterator is a node with its ancestors, the parent first; the end is \<^const>\<open>None\<close>.\<close>

type_synonym 'v iterator = "('v rnode \<times> 'v rnode list) option"

text \<open>The loop upwards; a node that is not among its parent's children ends it where it stands.\<close>

fun next_sibling :: "'v rnode \<Rightarrow> 'v rnode list \<Rightarrow> 'v iterator" where
  "next_sibling n [] = None"
| "next_sibling n (p # ps) =
     (case dropWhile (\<lambda>(e, _). e \<noteq> get_search_key (node_depth p) n) (node_children p) of
        [] \<Rightarrow> Some (n, p # ps)
      | it # (_, sibling) # _ \<Rightarrow> Some (sibling, p # ps)
      | [it] \<Rightarrow> next_sibling p ps)"

text \<open>The recursive calls of \<open>operator++\<close> on inner nodes.\<close>

fun first_leaf :: "'v rnode \<Rightarrow> 'v rnode list \<Rightarrow> 'v rnode \<times> 'v rnode list" where
  "first_leaf (RNode k v d []) ps = (RNode k v d [], ps)"
| "first_leaf (RNode k v d ((e, ch) # cs)) ps = first_leaf ch (RNode k v d ((e, ch) # cs) # ps)"

definition increment :: "'v rnode \<Rightarrow> 'v rnode list \<Rightarrow> 'v iterator" where
  "increment n ps =
     (if is_leaf n then map_option (\<lambda>(m, qs). first_leaf m qs) (next_sibling n ps) else Some (first_leaf n ps))"

definition tree_begin :: "'v radix_tree \<Rightarrow> 'v iterator" where
  "tree_begin t = (case root_node t of None \<Rightarrow> None | Some r \<Rightarrow> increment r [])"

text \<open>A loop from an iterator to the end, of at most so many rounds.\<close>

fun iterate :: "nat \<Rightarrow> 'v iterator \<Rightarrow> (string \<times> 'v option) list option" where
  "iterate rounds None = Some []"
| "iterate 0 (Some it) = None"
| "iterate (Suc rounds) (Some (n, ps)) =
     map_option ((#) (node_key n, node_value n)) (iterate rounds (increment n ps))"

section \<open>Branching\<close>

text \<open>No inner node below the root has a single child.\<close>

fun branching :: "'v rnode \<Rightarrow> bool" where
  "branching (RNode k v d cs) \<longleftrightarrow> length cs \<noteq> 1 \<and> (\<forall>(e, ch) \<in> set cs. branching ch)"

declare branching.simps [simp del]

definition all_branch :: "(string \<times> 'v rnode) list \<Rightarrow> bool" where
  "all_branch cs \<longleftrightarrow> (\<forall>(e, ch) \<in> set cs. branching ch)"

lemma all_branch_simps [simp]:
  "all_branch []" "all_branch ((e, ch) # cs) \<longleftrightarrow> branching ch \<and> all_branch cs"
  "all_branch (xs @ ys) \<longleftrightarrow> all_branch xs \<and> all_branch ys"
  by (auto simp: all_branch_def)

lemma branching_iff: "branching (RNode k v d cs) \<longleftrightarrow> length cs \<noteq> 1 \<and> all_branch cs"
  by (simp add: branching.simps all_branch_def)

subsection \<open>What an erased key leaves\<close>

definition erases :: "string \<Rightarrow> (string \<times> 'v rnode) list \<Rightarrow> string \<Rightarrow> (string \<times> 'v rnode) list \<Rightarrow> bool" where
  "erases k cs s cs' \<longleftrightarrow> wf_children k cs' \<and> all_branch cs' \<and>
     (\<forall>r. below_children k cs' r = (if r = s then None else below_children k cs r))"

lemma edges_distinct: "wf_children k (xs @ (e, ch) # ys) \<Longrightarrow> e \<notin> fst ` set (xs @ ys)"
  by (auto simp: wf_children_middle)

lemma delete_middle: "e \<notin> fst ` set (xs @ ys) \<Longrightarrow> AList.delete e (xs @ (e, ch) # ys) = xs @ ys"
  by (induction xs) (auto simp: delete_notin_dom image_iff)

lemma update_middle: "e \<notin> fst ` set (xs @ ys) \<Longrightarrow> AList.update e ch' (xs @ (e, ch) # ys) = xs @ (e, ch') # ys"
  by (induction xs) auto

lemma search_key_child: "wf_node ch \<Longrightarrow> node_key ch = k @ e \<Longrightarrow> get_search_key (length k) ch = e"
  by (cases ch) (auto simp: wf_node_iff get_search_key_def slice_def)

lemma erases_leaf:
  assumes "wf_children k (xs @ (s, ch) # ys)" and "is_leaf ch" and "all_branch (xs @ ys)"
  shows "erases k (xs @ (s, ch) # ys) s (xs @ ys)"
proof -
  have ch: "wf_node ch" "wf_children k (xs @ ys)" using assms(1) by (auto simp: wf_children_middle)
  have n: "below_children k (xs @ ys) s = None"
    using assms(1) by (intro below_children_unfit [OF ch(2)]) (fastforce simp: wf_children_middle dest: fits_take1)
  have "below_children k (xs @ ys) r = below_children k (xs @ (s, ch) # ys) r" if "r \<noteq> s" for r
  proof (cases "head1 r = head1 s")
    case True
    have "below_children k (xs @ ys) r = None"
      using assms(1) True by (intro below_children_unfit [OF ch(2)]) (fastforce simp: wf_children_middle dest: fits_take1)
    moreover have "below ch (drop (length s) r) = None" if f: "fits s r"
    proof -
      have "\<not> length r \<le> length s" using fits_whole [OF f] \<open>r \<noteq> s\<close> by blast
      then show ?thesis by (simp add: below_leaf [OF ch(1) assms(2)])
    qed
    ultimately show ?thesis using assms(1) True by (simp add: below_children_middle)
  qed (use assms(1) in \<open>simp add: below_children_middle\<close>)
  with n ch(2) assms(3) show ?thesis by (simp add: erases_def)
qed

lemma erases_replace:
  assumes wf: "wf_children k (xs @ (e, ch) # ys)" and e: "e \<noteq> []" and b: "all_branch (xs @ ys)"
    and f: "head1 f = head1 e" "node_key n = k @ f" "wf_node n" "branching n" "f \<noteq> []"
    and r: "\<And>r. (if fits f r then below n (drop (length f) r) else None) =
      (if r = e @ t then None else if fits e r then below ch (drop (length e) r) else None)"
  shows "erases k (xs @ (e, ch) # ys) (e @ t) (xs @ (f, n) # ys)"
proof -
  have w: "wf_children k (xs @ (f, n) # ys)" using wf f by (auto simp: wf_children_middle)
  have "below_children k (xs @ (f, n) # ys) r =
      (if r = e @ t then None else below_children k (xs @ (e, ch) # ys) r)" for r
    using r [of r] f(1) e unfolding below_children_middle [OF w] below_children_middle [OF wf]
    by (cases "head1 r = head1 e") auto
  with w b f(4) show ?thesis by (simp add: erases_def)
qed

subsection \<open>Erasing is right where the tree branches\<close>

lemma erase_children_skip:
  "\<forall>(f, _) \<in> set xs. \<not> fits f s \<Longrightarrow> wf_children k (xs @ zs) \<Longrightarrow>
    erase_children (k @ s) (length k) d all (xs @ zs) = erase_children (k @ s) (length k) d all zs"
proof (induction xs)
  case (Cons x xs)
  obtain f n where x: "x = (f, n)" by (cases x)
  with Cons have c: "\<not> fits f s" "wf_children k (xs @ zs)" "node_key n = k @ f"
    by (auto simp: wf_children_Cons)
  have "f = [] \<Longrightarrow> s \<noteq> []" using c(1) by auto
  with c Cons show ?case by (auto simp: x fits_def slice_def)
qed simp

lemma below_node: "node_children n \<noteq> [] \<Longrightarrow> below n s = below_children (node_key n) (node_children n) s"
  by (cases n) (simp add: below_inner)

lemma take_eq_prefix: "take (length p) r = p \<longleftrightarrow> (\<exists>z. r = p @ z)"
  by (metis append_eq_conv_conj append_take_drop_id)

lemma fits_append: "e \<noteq> [] \<Longrightarrow> fits (e @ f) r \<longleftrightarrow> fits e r \<and> take (length f) (drop (length e) r) = f"
  unfolding fits_def take_eq_prefix by auto

lemma append_fits: "e \<noteq> [] \<Longrightarrow> r = e @ t \<longleftrightarrow> fits e r \<and> drop (length e) r = t"
  by (auto simp: fits_def) (metis append_take_drop_id)

lemma erases_below:
  assumes w: "wf_children k (xs @ (e, ch) # ys)" and e: "e \<noteq> []" and b: "all_branch (xs @ ys)"
    and c: "\<not> is_leaf ch" "erases (k @ e) (node_children ch) t ccs" "ccs \<noteq> []" "length ccs \<noteq> 1"
  shows "erases k (xs @ (e, ch) # ys) (e @ t) (xs @ (e, RNode (k @ e) None (length (k @ e)) ccs) # ys)"
proof (rule erases_replace [OF w e b refl])
  have ch: "node_key ch = k @ e" using w by (simp add: wf_children_middle)
  show "wf_node (RNode (k @ e) None (length (k @ e)) ccs)" "branching (RNode (k @ e) None (length (k @ e)) ccs)"
    using c by (simp_all add: erases_def wf_node_iff branching_iff)
  fix r
  show "(if fits e r then below (RNode (k @ e) None (length (k @ e)) ccs) (drop (length e) r) else None) =
      (if r = e @ t then None else if fits e r then below ch (drop (length e) r) else None)"
    using c(1,2) unfolding append_fits [OF e, of r t]
    by (simp add: below_inner [OF c(3)] erases_def below_node ch is_leaf_def)
qed (use e in simp_all)

lemma erases_merge:
  assumes w: "wf_children k (xs @ (e, ch) # ys)" and e: "e \<noteq> []" and b: "all_branch (xs @ ys)"
    and c: "\<not> is_leaf ch" "erases (k @ e) (node_children ch) t [(f, sib)]"
  shows "erases k (xs @ (e, ch) # ys) (e @ t) ((e @ f, sib) # xs @ ys)"
proof -
  have w1: "wf_children k ((e, ch) # xs @ ys)" using w by (simp add: wf_children_middle wf_children_Cons)
  have same: "below_children k ((e, ch) # xs @ ys) r = below_children k (xs @ (e, ch) # ys) r" for r
    using below_children_middle [of k "[]" e ch "xs @ ys" r] w1 by (simp add: below_children_middle [OF w])
  have ch: "node_key ch = k @ e" using w by (simp add: wf_children_middle)
  have ws: "wf_children (k @ e) [(f, sib)]" "branching sib" using c(2) by (simp_all add: erases_def)
  then have sib: "node_key sib = k @ (e @ f)" "wf_node sib" "f = [] \<Longrightarrow> is_leaf sib" by (simp_all add: wf_children_Cons)
  have u: "(if fits f u then below sib (drop (length f) u) else None) = (if u = t then None else below ch u)" for u
  proof (rule trans)
    show "(if fits f u then below sib (drop (length f) u) else None) = below_children (k @ e) [(f, sib)] u"
      by (simp add: below_children_Cons [OF ws(1)])
    show "below_children (k @ e) [(f, sib)] u = (if u = t then None else below ch u)"
      using c by (simp add: erases_def below_node ch is_leaf_def)
  qed
  have "erases k ([] @ (e, ch) # (xs @ ys)) (e @ t) ([] @ (e @ f, sib) # (xs @ ys))"
  proof (rule erases_replace)
    fix r
    have "(if fits (e @ f) r then below sib (drop (length (e @ f)) r) else None) =
        (if fits e r then if fits f (drop (length e) r) then below sib (drop (length f) (drop (length e) r)) else None
         else None)"
    proof (cases "f = []")
      case True
      then show ?thesis by (simp add: fits_def [of "[]"] below_leaf [OF sib(2) sib(3)])
    qed (simp add: fits_append [OF e] fits_def [of f] add.commute)
    then show "(if fits (e @ f) r then below sib (drop (length (e @ f)) r) else None) =
        (if r = e @ t then None else if fits e r then below ch (drop (length e) r) else None)"
      unfolding u append_fits [OF e, of r t] by simp
  qed (use w1 e b sib ws in simp_all)
  then show ?thesis by (simp add: erases_def same)
qed

lemma erase_children_leaf:
  assumes w: "wf_children k (xs @ (e, ch) # ys)" and f: "fits e s" and l: "is_leaf ch"
  shows "erase_children (k @ s) (length k) (length k) (xs @ (e, ch) # ys) ((e, ch) # zs) =
    (if s = e then Some (True, xs @ ys) else None)"
proof -
  have ch: "wf_node ch" "node_key ch = k @ e" using w by (auto simp: wf_children_middle)
  have d: "node_depth ch = length (k @ e)" using ch by (cases ch) (simp add: wf_node_iff)
  note s = search_key_child [OF ch] delete_middle [OF edges_distinct [OF w]]
  show ?thesis
  proof (cases "s = e")
    case True
    then show ?thesis using l ch(2) d s by (cases e) (auto simp: slice_def)
  next
    case False
    with f have e: "e \<noteq> []" by (auto simp: fits_def)
    have "\<not> length s \<le> length e" using fits_whole [OF f] False by blast
    with e f l False show ?thesis by (simp add: fits_def slice_def)
  qed
qed

definition erase_outcome :: "string \<Rightarrow> (string \<times> 'v rnode) list \<Rightarrow> string \<Rightarrow> (bool \<times> (string \<times> 'v rnode) list) option \<Rightarrow> bool" where
  "erase_outcome k cs s res \<longleftrightarrow>
     (case res of
        None \<Rightarrow> below_children k cs s = None
      | Some (direct, cs') \<Rightarrow> below_children k cs s \<noteq> None \<and> erases k cs s cs' \<and>
          length cs' + of_bool direct = length cs)"

lemma erase_inner:
  assumes w: "wf_children k (xs @ (e, ch) # ys)" and e: "e \<noteq> []" and b: "all_branch (xs @ (e, ch) # ys)"
    and l: "\<not> is_leaf ch"
    and ih: "erase_outcome (k @ e) (node_children ch) t
      (erase_children (k @ e @ t) (length (k @ e)) (length (k @ e)) (node_children ch) (node_children ch))"
  shows "erase_outcome k (xs @ (e, ch) # ys) (e @ t)
    (erase_children (k @ e @ t) (length k) (length k) (xs @ (e, ch) # ys) ((e, ch) # ys))"
proof -
  let ?cs = "xs @ (e, ch) # ys"
  obtain ccs where c: "ch = RNode (k @ e) None (length (k @ e)) ccs" "ccs \<noteq> []" "length ccs \<noteq> 1"
    using w b l by (cases ch) (auto simp: wf_children_middle wf_node_iff is_leaf_def branching_iff)
  have bc: "below_children k ?cs (e @ t) = below_children (k @ e) ccs t"
    using e below_children_middle [OF w, of "e @ t"] c(2) by (simp add: fits_def c(1) below_inner)
  let ?r = "erase_children (k @ e @ t) (length (k @ e)) (length (k @ e)) ccs ccs"
  have ih: "erase_outcome (k @ e) ccs t ?r" using ih by (simp add: c(1))
  have at: "erase_children (k @ e @ t) (length k) (length k) ?cs ((e, ch) # ys) =
     (case ?r of None \<Rightarrow> None
      | Some (direct, ccs') \<Rightarrow>
          if direct \<and> length ccs' = 1 then
            Some (False, umap_insert (get_search_key (length k) (snd (hd ccs'))) (snd (hd ccs'))
                 (AList.delete (get_search_key (length k) (RNode (k @ e) None (length (k @ e)) ccs')) ?cs))
          else Some (False, AList.update e (RNode (k @ e) None (length (k @ e)) ccs') ?cs))"
    using e l by (auto simp: slice_def c(1) Let_def split: option.split)
  show ?thesis
  proof (cases ?r)
    case None
    with ih show ?thesis unfolding at by (simp add: bc erase_outcome_def)
  next
    case (Some a)
    obtain direct ccs' where a: "a = (direct, ccs')" by (cases a)
    have "erase_outcome (k @ e) ccs t (Some (direct, ccs'))" using ih unfolding Some a .
    then have r: "below_children (k @ e) ccs t \<noteq> None" "erases (k @ e) (node_children ch) t ccs'"
      "length ccs' + of_bool direct = length ccs"
      by (simp_all add: erase_outcome_def c(1))
    have bs: "all_branch (xs @ ys)" using b by simp
    show ?thesis
    proof (cases "direct \<and> length ccs' = 1")
      case True
      then obtain f sib where cs1: "ccs' = [(f, sib)]" by (cases ccs') auto
      have m: "erases k ?cs (e @ t) ((e @ f, sib) # xs @ ys)"
        by (rule erases_merge [OF w e bs l r(2) [unfolded cs1]])
      have "wf_node sib" "node_key sib = k @ (e @ f)"
        using r(2) by (simp_all add: erases_def cs1 wf_children_Cons)
      then have "get_search_key (length k) sib = e @ f" by (rule search_key_child)
      moreover have "get_search_key (length k) (RNode (k @ e) None (length (k @ e)) ccs') = e"
        by (simp add: get_search_key_def slice_def)
      moreover have "e @ f \<notin> fst ` set (xs @ ys)"
      proof
        assume "e @ f \<in> fst ` set (xs @ ys)"
        moreover have "\<forall>(g, _) \<in> set (xs @ ys). head1 g \<noteq> head1 e" using w by (simp add: wf_children_middle)
        ultimately have "head1 (e @ f) \<noteq> head1 e" by fastforce
        with e show False by simp
      qed
      ultimately have "erase_children (k @ e @ t) (length k) (length k) ?cs ((e, ch) # ys) = Some (False, (e @ f, sib) # xs @ ys)"
        unfolding at Some a by (simp add: True cs1 delete_middle [OF edges_distinct [OF w]] umap_insert_def)
      with m r(1) show ?thesis by (simp add: erase_outcome_def bc)
    next
      case False
      have n: "ccs' \<noteq> []" "length ccs' \<noteq> 1" using r(3) c(2,3) False by (cases direct; auto)+
      have "erases k ?cs (e @ t) (xs @ (e, RNode (k @ e) None (length (k @ e)) ccs') # ys)"
        by (rule erases_below [OF w e bs l r(2) n])
      moreover have "erase_children (k @ e @ t) (length k) (length k) ?cs ((e, ch) # ys) =
          Some (False, xs @ (e, RNode (k @ e) None (length (k @ e)) ccs') # ys)"
        unfolding at Some a using False by (auto simp: update_middle [OF edges_distinct [OF w]])
      ultimately show ?thesis using r(1) by (simp add: erase_outcome_def bc)
    qed
  qed
qed

lemma erase_children_correct:
  "wf_children k cs \<Longrightarrow> all_branch cs \<Longrightarrow>
    erase_outcome k cs s (erase_children (k @ s) (length k) (length k) cs cs)"
proof (induction s arbitrary: k cs rule: length_induct)
  case (1 s)
  show ?case
  proof (cases "\<exists>(e, ch) \<in> set cs. fits e s")
    case False
    then have "\<forall>(e, _) \<in> set cs. \<not> fits e s" by auto
    with erase_children_skip [of cs s k "[]" "length k" cs] "1.prems"(1) below_children_unfit [OF "1.prems"(1) this]
    show ?thesis by (simp add: erase_outcome_def)
  next
    case True
    then obtain e ch xs ys where fit: "fits e s" and cs: "cs = xs @ (e, ch) # ys" by (auto dest!: split_list)
    have w: "wf_children k (xs @ (e, ch) # ys)" and b: "all_branch (xs @ (e, ch) # ys)"
      using "1.prems" by (simp_all add: cs)
    have ch: "wf_node ch" "node_key ch = k @ e" "e = [] \<Longrightarrow> is_leaf ch" using w by (auto simp: wf_children_middle)
    have "\<forall>(f, _) \<in> set xs. \<not> fits f s"
      using w fits_take1 [OF fit] by (fastforce simp: wf_children_middle dest: fits_take1)
    then have at: "erase_children (k @ s) (length k) (length k) cs cs =
        erase_children (k @ s) (length k) (length k) cs ((e, ch) # ys)"
      unfolding cs by (rule erase_children_skip [OF _ w])
    show ?thesis
    proof (cases "is_leaf ch")
      case l: True
      have "below_children k cs s = (if s = e then Some (node_value ch) else None)"
        unfolding cs using fit fits_take1 [OF fit] fits_whole [OF fit]
        by (auto simp: below_children_middle [OF w] below_leaf [OF ch(1) l])
      moreover have "erases k cs s (xs @ ys)" if "s = e"
        using erases_leaf [of k xs e ch ys] w l b that by (simp add: cs)
      moreover have "erase_children (k @ s) (length k) (length k) cs cs = (if s = e then Some (True, xs @ ys) else None)"
        unfolding at unfolding cs by (rule erase_children_leaf [OF w fit l])
      ultimately show ?thesis by (cases "s = e") (simp_all add: cs erase_outcome_def del: erase_children.simps)
    next
      case False
      then have e: "e \<noteq> []" using ch(3) by blast
      with fit obtain t where s: "s = e @ t" by (metis append_take_drop_id fits_def)
      have "wf_children (k @ e) (node_children ch)" "all_branch (node_children ch)"
        using ch(1,2) b by (cases ch; simp add: wf_node_iff branching_iff)+
      moreover have "length t < length s" using e by (simp add: s)
      ultimately have "erase_outcome (k @ e) (node_children ch) t
          (erase_children ((k @ e) @ t) (length (k @ e)) (length (k @ e)) (node_children ch) (node_children ch))"
        using "1.IH" by blast
      with erase_inner [OF w e b False, of t] show ?thesis
        unfolding at by (simp add: cs s del: erase_children.simps)
    qed
  qed
qed

section \<open>Inserting a new key keeps the branching\<close>

lemma branching_leaf [simp]: "branching (RNode k v d [])"
  by (simp add: branching_iff)

lemma insert_here_branch:
  assumes "wf_children k cs" and "\<And>e ch. (e, ch) \<in> set cs \<Longrightarrow> e \<noteq> [] \<Longrightarrow> \<not> fits e s" and "is_root \<or> cs \<noteq> []"
    and "all_branch cs"
  shows "\<exists>cs' b. insert_here is_root (k @ s) v (RNode k w (length k) cs) = (RNode k w (length k) cs', b) \<and>
    all_branch cs' \<and> length cs \<le> length cs'"
proof (cases "split_children (length k) (k @ s) v cs")
  case (Some cs')
  then obtain xs c e ch ys t where
    "cs = xs @ (c @ e, ch) # ys" "cs' = xs @ (c, RNode (k @ c) None (length (k @ c))
      [(t, RNode (k @ c @ t) (Some v) (length (k @ c @ t)) []), (e, ch)]) # ys"
    using split_children_result [OF assms(1) _ Some] assms(2) by metis
  with Some assms(4) show ?thesis by (auto simp: insert_here_def branching_iff)
next
  case None
  with assms(3,4) show ?thesis by (auto simp: insert_here_def is_leaf_def Let_def umap_insert_def)
qed

lemma insert_leaf_branch:
  "s \<noteq> [] \<Longrightarrow> branching (fst (insert_here False (k @ s) v (RNode k w (length k) [])))"
  by (simp add: insert_here_def is_leaf_def Let_def umap_insert_def branching_iff)

lemma insert_children_branch:
  assumes wf: "wf_children k cs" and b: "all_branch cs" and fresh: "below_children k cs s = None"
    and IH: "\<And>e ch t ch' b. (e, ch) \<in> set cs \<Longrightarrow> e \<noteq> [] \<Longrightarrow> s = e @ t \<Longrightarrow> below ch t = None \<Longrightarrow>
      insert_node False (node_key ch @ t) v (length (node_key ch)) ch = (ch', b) \<Longrightarrow> branching ch'"
    and i: "insert_children (k @ s) v (length k) cs = Some (cs', b')"
  shows "all_branch cs' \<and> length cs' = length cs"
proof -
  obtain xs e ch ys ch' where cs: "cs = xs @ (e, ch) # ys" "e \<noteq> []" "e = slice (k @ s) (length k) (length e)"
    "insert_node False (k @ s) v (length k + length e) ch = (ch', b')" "cs' = xs @ (e, ch') # ys"
    using i by (auto dest: insert_children_SomeD)
  then obtain t where s: "s = e @ t" by (metis append_eq_conv_conj append_take_drop_id slice_def)
  have w: "wf_children k (xs @ (e, ch) # ys)" using wf by (simp add: cs(1))
  have ch: "node_key ch = k @ e" using w by (simp add: wf_children_middle)
  have none: "below ch t = None" using fresh cs(2) unfolding cs(1) below_children_middle [OF w] by (simp add: s fits_def)
  have "branching ch'" by (rule IH [OF _ cs(2) s none]) (use cs(1,4) ch s in auto)
  with b show ?thesis by (simp add: cs(1,5))
qed

lemma insert_node_branch:
  "wf_node n \<Longrightarrow> branching n \<Longrightarrow> below n s = None \<Longrightarrow>
    insert_node False (node_key n @ s) v (length (node_key n)) n = (n', b) \<Longrightarrow> branching n'"
proof (induction s arbitrary: n n' b rule: length_induct)
  case (1 s)
  obtain k w d cs where n: "n = RNode k w d cs" by (cases n)
  have wf: "d = length k" "wf_children k cs" and br: "length cs \<noteq> 1" "all_branch cs"
    using "1.prems"(1,2) by (simp_all add: n wf_node_iff branching_iff)
  show ?case
  proof (cases "insert_children (k @ s) v (length k) cs")
    case (Some a)
    obtain cs' b' where a: "a = (cs', b')" by (cases a)
    have "cs \<noteq> []" using Some by auto
    then have f: "below_children k cs s = None" using "1.prems"(3) by (simp add: n below_inner)
    have "all_branch cs' \<and> length cs' = length cs"
    proof (rule insert_children_branch [OF wf(2) br(2) f _ Some [unfolded a]])
      fix e ch t ch' b
      assume h: "(e, ch) \<in> set cs" "e \<noteq> []" "s = e @ t" "below ch t = None"
        "insert_node False (node_key ch @ t) v (length (node_key ch)) ch = (ch', b)"
      have "wf_node ch" "branching ch" using wf(2) br(2) h(1) by (auto simp: wf_children_def all_branch_def)
      moreover have "length t < length s" using h(2,3) by simp
      ultimately show "branching ch'" using "1.IH" h(4,5) by blast
    qed
    with "1.prems"(4) Some a br(1) wf(1) show ?thesis by (auto simp: n branching_iff)
  next
    case None
    have nofit: "\<not> fits e s" if "(e, ch) \<in> set cs" "e \<noteq> []" for e ch
      using insert_children_NoneD [OF None that] that(2) by (simp add: fits_def slice_def)
    have i: "insert_here False (k @ s) v (RNode k w (length k) cs) = (n', b)"
      using "1.prems"(4) None wf(1) by (simp add: n)
    show ?thesis
    proof (cases "cs = []")
      case True
      then have "s \<noteq> []" using "1.prems"(1,3) by (auto simp: n below_leaf is_leaf_def)
      with i True show ?thesis using insert_leaf_branch [of s k v w] by simp
    next
      case False
      have "\<exists>cs' b. insert_here False (k @ s) v (RNode k w (length k) cs) = (RNode k w (length k) cs', b) \<and>
          all_branch cs' \<and> length cs \<le> length cs'"
        by (rule insert_here_branch [OF wf(2) _ _ br(2)]) (use nofit False in blast)+
      then obtain cs' where "n' = RNode k w (length k) cs'" "all_branch cs'" "length cs \<le> length cs'"
        using i by auto
      with br(1) False show ?thesis by (cases cs) (auto simp: branching_iff)
    qed
  qed
qed

lemma insert_root_branch:
  assumes "wf_children [] cs" and "all_branch cs" and "below_children [] cs s = None"
  shows "\<exists>cs' b. insert_node True s v 0 (RNode [] None 0 cs) = (RNode [] None 0 cs', b) \<and> all_branch cs'"
proof (cases "insert_children s v 0 cs")
  case (Some a)
  obtain cs' b' where a: "a = (cs', b')" by (cases a)
  have "all_branch cs' \<and> length cs' = length cs"
  proof (rule insert_children_branch [OF assms, of v cs' b'])
    fix e ch t ch' b
    assume h: "(e, ch) \<in> set cs" "below ch t = None"
      "insert_node False (node_key ch @ t) v (length (node_key ch)) ch = (ch', b)"
    have "wf_node ch" "branching ch" using assms(1,2) h(1) by (auto simp: wf_children_def all_branch_def)
    with h show "branching ch'" by (rule_tac insert_node_branch)
  qed (simp add: Some a)
  with Some a show ?thesis by simp
next
  case None
  have nofit: "\<not> fits e s" if "(e, ch) \<in> set cs" "e \<noteq> []" for e ch
    using insert_children_NoneD [OF None that] that(2) by (simp add: fits_def slice_def)
  have "\<exists>cs' b. insert_here True ([] @ s) v (RNode [] None (length ([] :: string)) cs) = (RNode [] None (length ([] :: string)) cs', b) \<and>
      all_branch cs' \<and> length cs \<le> length cs'"
    by (rule insert_here_branch [OF assms(1) _ _ assms(2)]) (use nofit in blast)+
  with None show ?thesis by auto
qed

section \<open>The tree as a table that shrinks\<close>

definition branching_tree :: "'v radix_tree \<Rightarrow> bool" where
  "branching_tree t \<longleftrightarrow> wf_tree t \<and> (\<forall>k v d cs. root_node t = Some (RNode k v d cs) \<longrightarrow> all_branch cs)"

lemma tree_erase_correct:
  assumes t: "branching_tree t"
  shows "tree_find key t = None \<Longrightarrow> tree_erase key t = Inr (t, 0)"
    and "tree_find key t \<noteq> None \<Longrightarrow> tree_find other t \<noteq> None \<Longrightarrow> other \<noteq> key \<Longrightarrow>
      \<exists>t'. tree_erase key t = Inr (t', 1) \<and> branching_tree t' \<and> tree_size t' = tree_size t - 1 \<and>
        (\<forall>k. tree_find k t' = (if k = key then None else tree_find k t))"
proof -
  have wf: "wf_tree t" using t by (simp add: branching_tree_def)
  consider "root_node t = None" "\<And>k. tree_find k t = None"
    | cs where "root_node t = Some (RNode [] None 0 cs)" "wf_children [] cs" "cs \<noteq> []" "all_branch cs"
      "\<And>k. tree_find k t = below_children [] cs k"
    using wf
  proof (cases rule: wf_tree_cases)
    case (2 cs)
    with t that(2) show thesis by (simp add: branching_tree_def)
  qed (use that(1) in auto)
  note cases = this
  show "tree_erase key t = Inr (t, 0)" if "tree_find key t = None"
  proof (cases rule: cases)
    case (2 cs)
    with erase_children_correct [OF 2(2,4), of key] that show ?thesis
      by (auto simp: tree_erase_def is_leaf_def erase_outcome_def split: option.splits)
  qed (simp add: tree_erase_def)
  show "\<exists>t'. tree_erase key t = Inr (t', 1) \<and> branching_tree t' \<and> tree_size t' = tree_size t - 1 \<and>
      (\<forall>k. tree_find k t' = (if k = key then None else tree_find k t))"
    if f: "tree_find key t \<noteq> None" "tree_find other t \<noteq> None" "other \<noteq> key"
  proof (cases rule: cases)
    case (2 cs)
    obtain direct cs' where e: "erase_children key 0 0 cs cs = Some (direct, cs')" "erases [] cs key cs'"
      using erase_children_correct [OF 2(2,4), of key] f(1) 2(5)
      by (auto simp: erase_outcome_def split: option.splits)
    have "below_children [] cs' other \<noteq> None" using e(2) f(2,3) 2(5) by (simp add: erases_def)
    then have n: "cs' \<noteq> []" by auto
    have "tree_erase key t = Inr (\<lparr>root_node = Some (RNode [] None 0 cs'), tree_size = tree_size t - 1\<rparr>, 1)"
      using 2(1,3) by (simp add: tree_erase_def is_leaf_def e(1))
    with e(2) n 2(5) show ?thesis
      by (auto simp: branching_tree_def wf_tree_def erases_def tree_find_below)
  qed (use f in simp)
qed

lemma tree_insert_branch:
  assumes "branching_tree t" and "tree_find key t = None"
  shows "branching_tree (fst (tree_insert key v t))"
proof -
  have wf: "wf_tree t" using assms(1) by (simp add: branching_tree_def)
  obtain cs where cs: "wf_children [] cs" "all_branch cs" "below_children [] cs key = None"
    "(case root_node t of None \<Rightarrow> RNode [] None 0 [] | Some r \<Rightarrow> r) = RNode [] None 0 cs"
    using wf
  proof (cases rule: wf_tree_cases)
    case 1
    then show thesis using that [of "[]"] by simp
  next
    case (2 cs)
    with assms that [of cs] show thesis by (simp add: branching_tree_def)
  qed
  have "wf_tree (fst (tree_insert key v t))" using tree_insert_correct [OF wf] by blast
  with insert_root_branch [OF cs(1-3), of v] show ?thesis
    by (auto simp: branching_tree_def tree_insert_def cs(4) simp del: insert_node.simps)
qed

section \<open>Iterating over all leaves\<close>

fun leaves :: "'v rnode \<Rightarrow> (string \<times> 'v option) list" where
  "leaves (RNode k v d cs) = (if cs = [] then [(k, v)] else concat (map (\<lambda>(e, ch). leaves ch) cs))"

declare leaves.simps [simp del]

lemma leaves_leaf: "leaves (RNode k v d []) = [(k, v)]"
  by (simp add: leaves.simps)

lemma leaves_inner: "cs \<noteq> [] \<Longrightarrow> leaves (RNode k v d cs) = concat (map (\<lambda>(e, ch). leaves ch) cs)"
  by (simp add: leaves.simps)

lemma dropWhile_edge:
  "e \<notin> fst ` set pre \<Longrightarrow> dropWhile (\<lambda>(f, _). f \<noteq> e) (pre @ (e, ch) # rest) = (e, ch) # rest"
  by (induction pre) (auto simp: image_iff)

lemma increment_leaf: "increment (RNode k v d []) ps = map_option (\<lambda>(m, qs). first_leaf m qs) (next_sibling (RNode k v d []) ps)"
  by (simp add: increment_def is_leaf_def)

definition onward :: "'v iterator \<Rightarrow> 'v iterator" where
  "onward = map_option (\<lambda>(m, qs). first_leaf m qs)"

text \<open>From the first leaf of a subtree the iterator visits its leaves, then goes where its root's sibling is.\<close>

lemma iterate_subtree:
  "wf_node n \<Longrightarrow>
    iterate (length (leaves n) + rounds) (Some (first_leaf n ps)) =
      map_option ((@) (leaves n)) (iterate rounds (onward (next_sibling n ps)))"
proof (induction n arbitrary: ps rounds rule: leaves.induct)
  case (1 k v d cs)
  let ?n = "RNode k v d cs"
  have wf: "wf_children k cs" "d = length k" using "1.prems" by (simp_all add: wf_node_iff)
  have suffix: "iterate (length (concat (map (\<lambda>(e, ch). leaves ch) ((e, ch) # rest))) + rounds) (Some (first_leaf ch (?n # ps))) =
      map_option ((@) (concat (map (\<lambda>(e, ch). leaves ch) ((e, ch) # rest)))) (iterate rounds (onward (next_sibling ?n ps)))"
    if "cs = pre @ (e, ch) # rest" for pre e ch rest rounds
    using that
  proof (induction rest arbitrary: pre e ch)
    case Nil
    have w: "wf_children k (pre @ (e, ch) # [])" using wf(1) Nil by simp
    have c: "wf_node ch" "node_key ch = k @ e" using w by (auto simp: wf_children_middle)
    have "next_sibling ch (?n # ps) = next_sibling ?n ps"
      using edges_distinct [OF w] dropWhile_edge [of e pre ch "[]"]
      by (simp add: search_key_child [OF c] wf(2) Nil)
    with "1.IH" [of "(e, ch)" e ch rounds "?n # ps"] c(1) Nil show ?case by auto
  next
    case (Cons r rest)
    obtain f m where r: "r = (f, m)" by (cases r)
    have w: "wf_children k (pre @ (e, ch) # (f, m) # rest)" using wf(1) Cons.prems r by simp
    have c: "wf_node ch" "node_key ch = k @ e" using w by (auto simp: wf_children_middle)
    have "next_sibling ch (?n # ps) = Some (m, ?n # ps)"
      using edges_distinct [OF w] dropWhile_edge [of e pre ch "(f, m) # rest"]
      by (simp add: search_key_child [OF c] wf(2) Cons.prems r image_Un)
    with "1.IH" [of "(e, ch)" e ch "length (concat (map (\<lambda>(e, ch). leaves ch) (r # rest))) + rounds" "?n # ps"] c(1) Cons.prems
      Cons.IH [of "pre @ [(e, ch)]" f m]
    show ?case by (auto simp: onward_def r add.assoc option.map_comp o_def)
  qed
  show ?case
  proof (cases cs)
    case Nil
    then show ?thesis by (simp add: leaves_leaf increment_leaf onward_def)
  next
    case (Cons c rest)
    obtain e ch where c: "c = (e, ch)" by (cases c)
    have "cs = [] @ (e, ch) # rest" by (simp add: Cons c)
    from suffix [OF this, of rounds] show ?thesis
      by (simp only: Cons c leaves_inner [OF list.distinct(2)] first_leaf.simps)
  qed
qed

subsection \<open>The leaves are the keys\<close>

lemma below_children_Some:
  "wf_children k cs \<Longrightarrow> below_children k cs s = Some w \<longleftrightarrow>
    (\<exists>(e, ch) \<in> set cs. fits e s \<and> below ch (drop (length e) s) = Some w)"
proof (induction cs)
  case (Cons c cs)
  obtain e ch where c: "c = (e, ch)" by (cases c)
  have w: "wf_children k ((e, ch) # cs)" "wf_children k cs" using Cons.prems by (auto simp: c wf_children_Cons)
  have "\<not> fits f s" if "fits e s" "(f, m) \<in> set cs" for f m
    using w(1) that fits_take1 [of e s] fits_take1 [of f s] by (auto simp: wf_children_Cons)
  with w Cons.IH show ?case by (auto simp: c below_children_Cons)
qed simp

lemma leaves_below:
  "wf_node n \<Longrightarrow> (x, w) \<in> set (leaves n) \<longleftrightarrow> (\<exists>s. x = node_key n @ s \<and> below n s = Some w)"
proof (induction n arbitrary: x w rule: leaves.induct)
  case (1 k v d cs)
  show ?case
  proof (cases "cs = []")
    case True
    then show ?thesis by (auto simp: leaves_leaf below_leaf [OF "1.prems" [unfolded True]] is_leaf_def)
  next
    case False
    have wf: "wf_children k cs" using "1.prems" by (simp add: wf_node_iff)
    have ch: "(x, w) \<in> set (leaves ch) \<longleftrightarrow> (\<exists>s. x = k @ s \<and> fits e s \<and> below ch (drop (length e) s) = Some w)"
      if m: "(e, ch) \<in> set cs" for e ch
    proof -
      have c: "wf_node ch" "node_key ch = k @ e" "e = [] \<Longrightarrow> is_leaf ch" using wf m by (auto simp: wf_children_def)
      have "(x, w) \<in> set (leaves ch) \<longleftrightarrow> (\<exists>t. x = (k @ e) @ t \<and> below ch t = Some w)"
        using "1.IH" [OF False m refl c(1)] by (simp add: c(2))
      also have "\<dots> \<longleftrightarrow> (\<exists>s. x = k @ s \<and> fits e s \<and> below ch (drop (length e) s) = Some w)"
      proof (cases "e = []")
        case True
        then show ?thesis by (auto simp: fits_def below_leaf [OF c(1,3)] split: if_splits)
      next
        case e: False
        have "fits e s \<longleftrightarrow> (\<exists>t. s = e @ t)" for s using e by (simp add: fits_def take_eq_prefix)
        then show ?thesis by auto
      qed
      finally show ?thesis .
    qed
    have "(x, w) \<in> set (leaves (RNode k v d cs)) \<longleftrightarrow> (\<exists>c \<in> set cs. (x, w) \<in> set (leaves (snd c)))"
      by (auto simp: leaves_inner [OF False] split_beta)
    also have "\<dots> \<longleftrightarrow> (\<exists>c \<in> set cs. \<exists>s. x = k @ s \<and> fits (fst c) s \<and> below (snd c) (drop (length (fst c)) s) = Some w)"
      by (intro bex_cong refl) (simp add: ch)
    also have "\<dots> \<longleftrightarrow> (\<exists>s. x = k @ s \<and> below (RNode k v d cs) s = Some w)"
      unfolding below_inner [OF False] below_children_Some [OF wf] split_beta by blast
    finally show ?thesis by simp
  qed
qed

lemma below_head: "below n s = Some u \<Longrightarrow> wf_node n \<Longrightarrow> (e = [] \<Longrightarrow> is_leaf n) \<Longrightarrow> head1 (e @ s) = head1 e"
  by (cases "e = []") (auto simp: below_leaf split: if_splits)

lemma leaves_disjoint:
  assumes "wf_children k cs" and "(e, ch) \<in> set cs" and "(f, m) \<in> set cs" and "head1 f \<noteq> head1 e"
    and "x \<in> fst ` set (leaves ch)"
  shows "x \<notin> fst ` set (leaves m)"
proof
  assume "x \<in> fst ` set (leaves m)"
  then obtain w where w: "(x, w) \<in> set (leaves m)" by auto
  obtain v where v: "(x, v) \<in> set (leaves ch)" using assms(5) by auto
  have n: "wf_node ch" "node_key ch = k @ e" "e = [] \<Longrightarrow> is_leaf ch" "wf_node m" "node_key m = k @ f" "f = [] \<Longrightarrow> is_leaf m"
    using assms(1-3) by (auto simp: wf_children_def)
  obtain s where s: "x = (k @ e) @ s" "below ch s = Some v" using v leaves_below [OF n(1)] n(2) by auto
  obtain t where t: "x = (k @ f) @ t" "below m t = Some w" using w leaves_below [OF n(4)] n(5) by auto
  have "e @ s = f @ t" using s(1) t(1) by simp
  moreover have "head1 (e @ s) = head1 e" by (rule below_head [OF s(2) n(1,3)])
  moreover have "head1 (f @ t) = head1 f" by (rule below_head [OF t(2) n(4,6)])
  ultimately show False using assms(4) by simp
qed

lemma leaves_distinct: "wf_node n \<Longrightarrow> distinct (map fst (leaves n))"
proof (induction n rule: leaves.induct)
  case (1 k v d cs)
  have wf: "wf_children k cs" using "1.prems" by (simp add: wf_node_iff)
  show ?case
  proof (cases "cs = []")
    case False
    have d: "distinct (map fst (leaves ch))" if m: "(e, ch) \<in> set cs" for e ch
      using "1.IH" [OF False m refl] wf m by (auto simp: wf_children_def)
    have "zs @ rest = cs \<Longrightarrow> distinct (map fst (concat (map (\<lambda>(e, ch). leaves ch) rest)))" for zs rest
    proof (induction rest arbitrary: zs)
      case (Cons c rest)
      obtain e ch where c: "c = (e, ch)" by (cases c)
      have m: "(e, ch) \<in> set cs" using Cons.prems c by auto
      have "head1 f \<noteq> head1 e" "(f, n) \<in> set cs" if "(f, n) \<in> set rest" for f n
      proof -
        have "wf_children k (zs @ (e, ch) # rest)" using wf Cons.prems c by simp
        then have "\<forall>(f, _) \<in> set (zs @ rest). head1 f \<noteq> head1 e" by (simp add: wf_children_middle)
        with that show "head1 f \<noteq> head1 e" by auto
        show "(f, n) \<in> set cs" using that Cons.prems by auto
      qed
      then have "\<forall>x \<in> fst ` set (leaves ch). \<forall>(f, n) \<in> set rest. x \<notin> fst ` set (leaves n)"
        using leaves_disjoint [OF wf m] by blast
      then have "fst ` set (leaves ch) \<inter> fst ` set (concat (map (\<lambda>(e, ch). leaves ch) rest)) = {}"
        by (auto simp: split_beta)
      moreover have "distinct (map fst (concat (map (\<lambda>(e, ch). leaves ch) rest)))"
        using Cons.IH [of "zs @ [c]"] Cons.prems by simp
      ultimately show ?case using d [OF m] by (simp add: c)
    qed simp
    from this [of "[]" cs] show ?thesis by (simp add: leaves_inner [OF False])
  qed (simp add: leaves_leaf)
qed

section \<open>Properties\<close>

definition tree_of :: "(string \<times> 'v) list \<Rightarrow> 'v radix_tree" where
  "tree_of kvs = foldl (\<lambda>t (k, v). fst (tree_insert k v t)) empty_tree kvs"

fun erase_all :: "string list \<Rightarrow> 'v radix_tree \<Rightarrow> 'v radix_tree res" where
  "erase_all [] t = Inr t"
| "erase_all (k # ks) t = (case tree_erase k t of Inl e \<Rightarrow> Inl e | Inr (t', n) \<Rightarrow> erase_all ks t')"

lemma tree_of_add_all: "tree_of kvs = radix.add_all kvs empty_tree"
  by (simp add: tree_of_def radix.add_all_def)

lemma tree_of_facts:
  "wf_tree (tree_of kvs)" "tree_find key (tree_of kvs) = map_option Some (map_of kvs key)"
  "tree_size (tree_of kvs) = card (fst ` set kvs)"
proof -
  show wf: "wf_tree (tree_of kvs)" unfolding tree_of_add_all by (rule radix.inv_add_all [OF radix.inv_empty])
  have "tree_get key (tree_of kvs) = map_of kvs key"
    using radix.lookup_add_all [OF radix.inv_empty, of key kvs] by (simp add: tree_of_add_all radix.lookup_empty)
  with tree_find_get [OF wf] show "tree_find key (tree_of kvs) = map_option Some (map_of kvs key)" by simp
  show "tree_size (tree_of kvs) = card (fst ` set kvs)"
    using radix.count_add_all [OF radix.inv_empty, of kvs]
    by (simp add: tree_of_add_all radix.lookup_empty radix.count_empty)
qed

lemma tree_of_snoc: "tree_of (kvs @ [(k, v)]) = fst (tree_insert k v (tree_of kvs))"
  by (simp add: tree_of_def)

lemma tree_of_branching: "distinct (map fst kvs) \<Longrightarrow> branching_tree (tree_of kvs)"
proof (induction kvs rule: rev_induct)
  case Nil
  then show ?case by (simp add: tree_of_def branching_tree_def wf_tree_def empty_tree_def)
next
  case (snoc x kvs)
  obtain k v where x: "x = (k, v)" by (cases x)
  have "map_of kvs k = None" using snoc.prems by (auto simp: x map_of_eq_None_iff)
  then have "tree_find k (tree_of kvs) = None" by (simp add: tree_of_facts(2))
  with snoc show ?case by (simp add: x tree_of_snoc tree_insert_branch)
qed

lemma erase_all_correct:
  assumes "branching_tree t" and "tree_find other t \<noteq> None" and "other \<notin> set ks"
  shows "\<exists>t'. erase_all ks t = Inr t' \<and> (\<forall>k. tree_find k t' = (if k \<in> set ks then None else tree_find k t)) \<and>
    tree_size t' = tree_size t - card {k \<in> set ks. tree_find k t \<noteq> None}"
  using assms
proof (induction ks arbitrary: t)
  case (Cons key ks)
  show ?case
  proof (cases "tree_find key t = None")
    case True
    then have "erase_all (key # ks) t = erase_all ks t" using tree_erase_correct(1) [OF Cons.prems(1)] by simp
    moreover have "{k. (k = key \<or> k \<in> set ks) \<and> (\<exists>y. tree_find k t = Some y)} =
        {k \<in> set ks. \<exists>y. tree_find k t = Some y}"
      using True by auto
    ultimately show ?thesis using True Cons.IH [OF Cons.prems(1,2)] Cons.prems(3) by auto
  next
    case False
    have "other \<noteq> key" using Cons.prems(3) by simp
    with tree_erase_correct(2) [OF Cons.prems(1) False Cons.prems(2)] obtain t1 where
      t1: "tree_erase key t = Inr (t1, 1)" "branching_tree t1" "tree_size t1 = tree_size t - 1"
        "\<And>k. tree_find k t1 = (if k = key then None else tree_find k t)"
      by blast
    have "tree_find other t1 \<noteq> None" using t1(4) \<open>other \<noteq> key\<close> Cons.prems(2) by simp
    with Cons.IH [OF t1(2) this] Cons.prems(3) obtain t' where
      t': "erase_all ks t1 = Inr t'" "\<And>k. tree_find k t' = (if k \<in> set ks then None else tree_find k t1)"
        "tree_size t' = tree_size t1 - card {k \<in> set ks. tree_find k t1 \<noteq> None}"
      by auto
    have "{k \<in> set (key # ks). tree_find k t \<noteq> None} = insert key {k \<in> set ks. tree_find k t1 \<noteq> None}"
      using False t1(4) by auto
    moreover have "key \<notin> {k \<in> set ks. tree_find k t1 \<noteq> None}" using t1(4) by simp
    ultimately have "card {k \<in> set (key # ks). tree_find k t \<noteq> None} = Suc (card {k \<in> set ks. tree_find k t1 \<noteq> None})"
      by simp
    with t1 t' show ?thesis by auto
  qed
qed auto



text \<open>
  C28: iterating. From \<open>begin()\<close> the iterator visits every key of the tree once, with the value it was first inserted
  with, and no inner node, and is at \<open>end()\<close> after \<open>size()\<close> steps; also when keys were inserted more than once.
\<close>

theorem radix_iteration:
  "\<exists>ls. iterate (tree_size (tree_of kvs)) (tree_begin (tree_of kvs)) = Some ls \<and> distinct (map fst ls) \<and>
    (\<forall>key w. (key, w) \<in> set ls \<longleftrightarrow> w \<noteq> None \<and> map_of kvs key = w)"
  using tree_of_facts(1) [of kvs]
proof (cases rule: wf_tree_cases)
  case 1
  then have "map_of kvs key = None" for key using tree_of_facts(2) [of key kvs] by simp
  with 1 show ?thesis by (auto simp: tree_begin_def)
next
  case (2 cs)
  let ?r = "RNode [] None 0 cs" and ?t = "tree_of kvs"
  have wf: "wf_node ?r" using 2 by (simp add: wf_node_iff)
  have b: "below ?r key = map_option Some (map_of kvs key)" for key
    using 2(4) [of key] tree_of_facts(2) [of key kvs] by (simp add: below_inner [OF 2(3)])
  have m: "(key, w) \<in> set (leaves ?r) \<longleftrightarrow> w \<noteq> None \<and> map_of kvs key = w" for key w
    unfolding leaves_below [OF wf] by (cases w) (simp_all add: b)
  have "fst ` set (leaves ?r) = {key. map_of kvs key \<noteq> None}"
  proof (intro equalityI subsetI)
    fix key assume "key \<in> {key. map_of kvs key \<noteq> None}"
    then have "(key, map_of kvs key) \<in> set (leaves ?r)" by (simp add: m)
    then show "key \<in> fst ` set (leaves ?r)" by force
  qed (use m in auto)
  then have "fst ` set (leaves ?r) = fst ` set kvs" by (auto simp: map_of_eq_None_iff)
  then have "tree_size ?t = length (leaves ?r)"
    using distinct_card [OF leaves_distinct [OF wf]] by (simp add: tree_of_facts(3))
  moreover have "tree_begin ?t = Some (first_leaf ?r [])"
    using 2(1,3) by (simp add: tree_begin_def increment_def is_leaf_def)
  moreover have "iterate (length (leaves ?r)) (Some (first_leaf ?r [])) = Some (leaves ?r)"
    using iterate_subtree [OF wf, of 0 "[]"] by (simp add: onward_def)
  ultimately show ?thesis using m leaves_distinct [OF wf] by auto
qed

end
