(* ===== verification/Spec2Isabelle.thy ===== *)
theory Spec2Isabelle
  imports Env Pools Uploader Exchange ThreadPool StartUp EventLoop Recording RadixOps
begin

text \<open>
  The backend of a live-streaming platform, written in C++ under \<open>src/backend\<close>, and the storage server for
  its recordings, \<open>src/backend/stream-pocket\<close>, modelled function by function and proved correct.

  \<^bold>\<open>The program.\<close> Both processes are built on a small REST framework, \<open>zvejys-rest-api\<close>: an epoll loop
  accepts connections; an \<open>HttpConnection\<close> collects bytes until a request is complete, parses
  it, finds a route in a radix tree or a list of patterns, runs the handler and queues the response;
  a \<open>GET\<close> with the upgrade headers replaces the connection by a \<open>WebSocketConnection\<close>. The backend's
  handlers keep accounts in PostgreSQL and sessions in signed tokens. A streamer signals over
  \<open>/sig\<close>, sends media over WebRTC to an encoder process, and a thread uploads the segments it writes to
  the storage server, which serves them. Viewers watch over \<open>/ws/view\<close>; their number is a counter in
  Redis, and their chat goes through PostgreSQL and Redis to the viewers on every node.

  \<^bold>\<open>Theories\<close>, from the bottom up:
  \<^item> \<open>Prelude\<close>: fixed-width integers, exceptions, and the parts of the C++ library the sources call.
  \<^item> \<open>Base64\<close>, \<open>Sha\<close>, \<open>Sha_Fips\<close>, \<open>Jwt\<close>: \<open>utils/Crypto.h\<close>, \<open>WebSocketUtils.h\<close>, \<open>utils/JsonWebToken.h\<close>.
    The hashes equal the functions of FIPS 180-4 and RFC 2104; the coders are inverse to each other;
    tokens are sound and come back as issued.
  \<^item> \<open>Validation\<close>, \<open>Env\<close>: \<open>utils/Validation.h\<close> against grammars, \<open>env/EnvConfig.h\<close> with a round trip.
  \<^item> \<open>HttpTypes\<close>, \<open>Cors\<close>: requests, responses, the CORS policy.
  \<^item> \<open>RadixTree\<close>, \<open>Routing\<close>: \<open>radix_tree.h\<close> refines a finite map (locale \<open>route_table\<close>, interpreted on the
    tree); registration, pattern matching and dispatch.
  \<^item> \<open>RadixOps\<close>: the rest of the tree: \<open>erase\<close>, with the invariant it needs and the two cases where it goes wrong, and
    the iterator, which visits every key once.
  \<^item> \<open>Framing\<close>: the locale of framing functions, with the lemma that the pieces in which a stream arrives do
    not matter; interpreted on HTTP requests and on WebSocket frames.
  \<^item> \<open>HttpParse\<close>, \<open>HttpConn\<close>: \<open>HttpConnection.cpp\<close>; parsing, reading, handling, writing.
  \<^item> \<open>WsFrame\<close>, \<open>WsConn\<close>: \<open>WebSocketFrame.h\<close>, \<open>WebSocketConnection.h\<close>; frames, and the connection as a
    state machine with its reachable states.
  \<^item> \<open>Users\<close>: \<open>PasswordHash.h\<close>, \<open>UserRepository.cpp\<close>, \<open>UserRoutes.cpp\<close> and the authentication of
    \<open>main.cpp\<close>, over the rows of the table.
  \<^item> \<open>Redis\<close>, \<open>Pools\<close>: \<open>RedisClient.h\<close> over a socket that is cut anywhere; \<open>RedisPool.h\<close> and \<open>pgPool.cpp\<close> as
    interpretations of one locale of lease pools.
  \<^item> \<open>Viewers\<close>: \<open>ViewerRegistry.h\<close>, \<open>VIewerRoutes.cpp\<close>, \<open>ChatRepository.h\<close>, \<open>ChatRelay.h\<close>,
    \<open>StreamCleanup.h\<close>; an inductive relation of a node's life, with the count as its invariant.
  \<^item> \<open>Streams\<close>: \<open>StreamerRoutes.cpp\<close>, \<open>StreamRepository.cpp\<close>; signalling, media, the encoder.
  \<^item> \<open>Segments\<close>: the storage server's handlers over a file system, and its clean-up thread.
  \<^item> \<open>Uploader\<close>: \<open>SegmentUploader.h\<close> and the upload thread, composed with \<open>Segments\<close>.
  \<^item> \<open>Server\<close>: the connection tables, upgrades, the accept loop, the workers and the route tables of
    \<open>main.cpp\<close>.
  \<^item> \<open>StartUp\<close>: \<open>ServiceLocator.h\<close>, \<open>WebRTCConfig.h\<close>, the listening socket of \<open>ZvejysServer.cpp\<close> and both \<open>main\<close>
    functions up to their loops; when a process serves, everything it serves with is there.
  \<^item> \<open>EventLoop\<close>: the loop of \<open>main.cpp\<close> beside its workers: which connection objects still exist when an
    event that carries a pointer to one is handled, and three interleavings where it does not; the storage
    server's loop, which has no workers, always finds them.
  \<^item> \<open>Recording\<close>: the encoder, the upload thread, the callbacks and the destructor of \<open>StreamerSession\<close> as steps that
    interleave, with a simulation by the sequential upload loop of \<open>Uploader\<close>.
  \<^item> \<open>ThreadPool\<close>: the vendored \<open>thread_pool.h\<close> and \<open>thread_safe_queue.h\<close>, whose workers run the handlers: a
    step relation over the interleavings of workers and callers, with invariants by rule induction; tasks
    are run at most once, waiting is sound, no wake-up is lost; and two limits of the code.
  \<^item> \<open>JsonText\<close>, \<open>JsonEscape\<close>, \<open>JsonDump\<close>: the serializer of the vendored \<open>nlohmann/json.hpp\<close>: UTF-8,
    escaping, integers, layout; equal to a reference text, without writes outside its buffers.
  \<^item> \<open>JsonLex\<close>, \<open>JsonParse\<close>, \<open>JsonApi\<close>: its scanner, parser and builder of values, and the accesses the
    servers use; what was dumped is read back, and what was read is well formed.
  \<^item> \<open>JsonApps\<close>: the JSON texts of the handlers, as instances of the parameters of \<open>HttpParse\<close>, \<open>Viewers\<close> and
    \<open>Streams\<close>, and what reaches the handlers of what a browser sends.
  \<^item> \<open>Exchange\<close>: a request and its answer over HTTP, from the bytes that arrive to the bytes that go out.
  \<^item> this theory: which handler of the backend answers a request, and a user's first visit as bytes.

  \<^bold>\<open>How the code is translated.\<close> A class is a record and its methods are functions that return it changed.
  An exception is a value of type \<open>exn\<close> in the left part of a sum; undefined behaviour is a
  value of that type too, so that a theorem about a result shows that it is not reached. Handlers work on a
  state of type \<open>'w\<close> or \<open>'d\<close> that holds everything they can reach. Machine integers are words
  where the code computes with them (hashes, frames, lengths) and bounded \<open>int\<close>s where it only parses and
  prints them. What \<open>recv\<close>, \<open>send\<close>, \<open>accept4\<close> and \<open>crypt_r\<close> return are arguments; so are the SQL
  statements, libcurl, the WebRTC library, the conversion of floating-point numbers, clocks and random
  numbers. The theories below \<open>JsonApps\<close> take the JSON texts as parameters too. What a theorem
  needs of one of these is a named hypothesis (\<open>sql_users\<close>, \<open>crypt_law\<close>, \<open>redis_counters\<close>, \<open>reaches\<close>), and its
  witness gives an instance. Code under a mutex is one step; runs of several threads
  are sequences of steps.

  \<^bold>\<open>Termination.\<close> No function uses fuel. The loops over buffers, sockets and queues end because each round
  consumes input: the read loops of \<open>Redis\<close> by the bytes left, the frame loop of \<open>WsConn\<close> by the buffer, the
  accept loop by the queue; the JSON parser uses up a token in every round. A loop that waits for more input is the function from the input
  that has arrived.

  \<^bold>\<open>Not modelled.\<close> Of the JSON library: the conversion between floating-point numbers and text, the texts of
  parse errors, and what the servers do not use (binary formats, callbacks, pointers, patches). Of the thread pool: the
  initialisation function, which the program leaves empty, weaker memory orders than sequential consistency, and
  the overflow of its 64-bit counters. Log output is left out. Which
  events \<open>epoll_wait\<close> reports, and what the encoder writes, is arbitrary within what the kernel allows. A step
  is atomic: a pass over a directory sees one state of it, and two workers that work on one connection at
  the same time, which the code allows, take turns by whole steps.
\<close>

section \<open>The route table of the backend\<close>

text \<open>The exact routes, in the order in which \<open>main\<close> registers them, and the pattern route.\<close>

definition exact_routes :: "'d backend_deps \<Rightarrow> (string \<times> 'd PathTreeNode) list" where
  "exact_routes bd =
     [(''/5s'', RouteNode GET (Some (\<lambda>request d. (Inr (Ok ''This is a 5s response''), d)))),
      (''/2s'', RouteNode GET (Some (\<lambda>request d. (Inr (mk_response 200 [] ''2s :)''), d)))),
      (''/api/users/register'', RouteNode POST (Some (register_handler (bd_users bd)))),
      (''/api/users/login'', RouteNode POST (Some (login_handler (bd_users bd)))),
      (''/api/users/logout'', RouteNode POST (Some logout_handler)),
      (''/api/users/me'', AuthenticatedRouteNode GET (Some me_handler)),
      (''/api/streams/live'', RouteNode GET (Some (live_streams_handler (bd_db bd) (bd_get bd) (bd_dump bd)))),
      (''/api/users/me/streams'', AuthenticatedRouteNode GET (Some (my_streams_handler (bd_db bd)))),
      (''/api/health'', RouteNode GET (Some (health_handler (bd_env bd) (bd_vars bd))))]"

definition chat_pattern :: string where
  "chat_pattern = ''/api/streams/{streamId}/chat''"

definition chat_node :: "'d backend_deps \<Rightarrow> 'd PathTreeNode" where
  "chat_node bd = RouteNode GET (Some (chat_history_handler (bd_be bd) (bd_js bd)))"

section \<open>Dispatch\<close>

lemma backend_regs:
  "backend_routes bd = register_all (take 8 (exact_routes bd) @ (chat_pattern, chat_node bd) # drop 8 (exact_routes bd))"
  by (simp add: backend_routes_def exact_routes_def chat_node_def chat_pattern_def register_all_def
    RegisterHealthRoutes_def RegisterViewerRoutes_def RegisterStreamerRoutes_def RegisterUserRoutes_def
    RegisterTestRoutes_def RegisterRoute_def RegisterAuthenticatedRoute_def)

lemma exact_routes_plain: "list_all (\<lambda>(p, _). \<not> is_pattern p) (exact_routes bd)"
  by (simp add: exact_routes_def is_pattern_def)

lemma exact_lookup:
  "map_of (take 8 (exact_routes bd) @ (chat_pattern, chat_node bd) # drop 8 (exact_routes bd)) p =
    (if p = chat_pattern \<and> map_of (exact_routes bd) p = None then Some (chat_node bd) else map_of (exact_routes bd) p)"
  by (simp add: exact_routes_def chat_pattern_def)

lemma chat_find:
  "List.find (\<lambda>(pattern, node). is_pattern pattern \<and> P pattern node)
     (take 8 (exact_routes bd) @ (chat_pattern, chat_node bd) # drop 8 (exact_routes bd)) =
   (if P chat_pattern (chat_node bd) then Some (chat_pattern, chat_node bd) else None)"
  by (simp add: exact_routes_def is_pattern_def chat_pattern_def)

lemma backend_dispatch:
  "dispatch auth (backend_routes bd) req w =
    (case map_of (exact_routes bd) (req_path req) of
       Some node \<Rightarrow> run_node auth node req w
     | None \<Rightarrow>
         if fst (MatchPattern chat_pattern (req_path req) []) \<and> req_method req = Some GET
         then run_node auth (chat_node bd)
           (req\<lparr>req_path_params := snd (MatchPattern chat_pattern (req_path req) [])\<rparr>) w
         else Inr (NotFound ''Route not found'', req, w))"
proof -
  have p: "is_pattern chat_pattern" by code_simp
  have "(if is_pattern (req_path req) then None
      else map_of (take 8 (exact_routes bd) @ (chat_pattern, chat_node bd) # drop 8 (exact_routes bd)) (req_path req)) =
    map_of (exact_routes bd) (req_path req)"
  proof (cases "is_pattern (req_path req)")
    case True
    then have "map_of (exact_routes bd) (req_path req) = None"
      using exact_routes_plain [of bd] by (auto simp: map_of_eq_None_iff list_all_iff)
    with True show ?thesis by simp
  next
    case False
    with p show ?thesis unfolding exact_lookup by auto
  qed
  then show ?thesis
    unfolding backend_regs dispatch_register_all chat_find
    by (auto simp: chat_node_def split: option.split)
qed

lemma match_chat:
  assumes "sid \<noteq> []" and "CHR ''/'' \<notin> set sid"
  shows "MatchPattern chat_pattern (''/api/streams'' @ ''/'' @ sid @ ''/'' @ ''chat'') [] = (True, [(''streamId'', sid)])"
proof -
  have b: "path_parts ''/api/streams'' = [''api'', ''streams'']" "path_parts ''chat'' = [''chat'']" by code_simp+
  have "path_parts (''/api/streams'' @ ''/'' @ sid @ ''/'' @ ''chat'') = [''api'', ''streams'', sid, ''chat'']"
    unfolding path_parts_append path_parts_word [OF assms] b by simp
  moreover have "path_parts chat_pattern = [''api'', ''streams'', ''{streamId}'', ''chat'']" by code_simp
  ultimately show ?thesis by (simp add: MatchPattern_def is_param_def param_name_def slice_def)
qed

section \<open>Properties\<close>

text \<open>
  C21: every route of the backend answers, and only these. A request for one of the nine exact paths runs the
  handler registered for it, whatever its method; a \<open>GET\<close> of the chat of a stream runs the history handler with
  the stream's name as parameter, even where an exact path begins the same way; everything else is
  answered 404.
\<close>

theorem backend_routing:
  "(\<forall>node. (req_path req, node) \<in> set (exact_routes bd) \<longrightarrow>
      dispatch auth (backend_routes bd) req w = run_node auth node req w) \<and>
   (\<forall>sid. sid \<noteq> [] \<and> CHR ''/'' \<notin> set sid \<and> req_path req = ''/api/streams/'' @ sid @ ''/chat'' \<and> req_method req = Some GET \<longrightarrow>
      dispatch auth (backend_routes bd) req w =
        run_node auth (chat_node bd) (req\<lparr>req_path_params := [(''streamId'', sid)]\<rparr>) w) \<and>
   (req_path req \<notin> fst ` set (exact_routes bd) \<and> \<not> (fst (MatchPattern chat_pattern (req_path req) []) \<and> req_method req = Some GET) \<longrightarrow>
      dispatch auth (backend_routes bd) req w = Inr (NotFound ''Route not found'', req, w))"
proof (intro conjI allI impI)
  fix node
  assume "(req_path req, node) \<in> set (exact_routes bd)"
  then have "map_of (exact_routes bd) (req_path req) = Some node"
    by (intro map_of_is_SomeI) (simp_all add: exact_routes_def)
  then show "dispatch auth (backend_routes bd) req w = run_node auth node req w" by (simp add: backend_dispatch)
next
  fix sid
  assume s: "sid \<noteq> [] \<and> CHR ''/'' \<notin> set sid \<and> req_path req = ''/api/streams/'' @ sid @ ''/chat'' \<and> req_method req = Some GET"
  then have p: "MatchPattern chat_pattern (req_path req) [] = (True, [(''streamId'', sid)])"
    using match_chat [of sid] by simp
  have "req_path req \<noteq> ''/api/streams/live''"
  proof
    assume "req_path req = ''/api/streams/live''"
    then have "sid @ ''/chat'' = ''live''" using s by simp
    then have "CHR ''/'' \<in> set ''live''" by (metis in_set_conv_decomp append_Cons append_Nil)
    then show False by simp
  qed
  then have "map_of (exact_routes bd) (req_path req) = None" using s by (simp add: exact_routes_def)
  with s p show "dispatch auth (backend_routes bd) req w =
      run_node auth (chat_node bd) (req\<lparr>req_path_params := [(''streamId'', sid)]\<rparr>) w"
    by (simp add: backend_dispatch)
next
  assume "req_path req \<notin> fst ` set (exact_routes bd) \<and> \<not> (fst (MatchPattern chat_pattern (req_path req) []) \<and> req_method req = Some GET)"
  moreover from this have "map_of (exact_routes bd) (req_path req) = None" by (simp add: map_of_eq_None_iff)
  ultimately show "dispatch auth (backend_routes bd) req w = Inr (NotFound ''Route not found'', req, w)"
    by (auto simp: backend_dispatch)
qed

text \<open>
  Who am I. With the cookie of a session that was issued for a valid name, \<open>/api/users/me\<close> through the
  backend's routes answers that user's number and name until the session expires, and 401 from
  then on; the state is unchanged either way.
\<close>

theorem session_whoami:
  assumes "ValidateUsername u = None" and "in_int_range 32 i" and "in_int_range 64 (now + SESSION_SECONDS)"
    and "map_of (req_headers req) ''Cookie'' = Some (cookie_pair (session_cookie (Create i u secret SESSION_SECONDS now)))"
    and "req_path req = ''/api/users/me''"
  shows "dispatch (\<lambda>r d. (ExtractAuthenticatedUser (Some secret) later r, d)) (backend_routes bd) req d =
    Inr (if now + SESSION_SECONDS < later then Unauthorized ''Invalid or missing token''
         else Json (''{'' @ [CHR 0x22] @ ''id'' @ [CHR 0x22] @ '':'' @ int_to_string i @ '', '' @
           [CHR 0x22] @ ''username'' @ [CHR 0x22] @ '':'' @ [CHR 0x22] @ u @ [CHR 0x22] @ ''}''), req, d)"
proof -
  have "ExtractAuthenticatedUser (Some secret) later req =
      Inr (if now + SESSION_SECONDS < later then None else Some \<lparr>au_id = i, au_username = u\<rparr>)"
    by (rule ExtractAuthenticatedUser_session [of _ _ _ _ _ _ "[]"])
      (simp_all add: assms ValidateUsername_no_quote)
  moreover have "map_of (exact_routes bd) (req_path req) = Some (AuthenticatedRouteNode GET (Some me_handler))"
    by (simp add: exact_routes_def assms(5))
  ultimately show ?thesis by (simp add: backend_dispatch run_node_def catch_all_def me_handler_def)
qed

section \<open>From the bytes of a request to the bytes of its answer\<close>

definition backend_server :: "'d backend_deps \<Rightarrow> Cors \<Rightarrow> string \<Rightarrow> int \<Rightarrow> 'd http_server" where
  "backend_server bd cors secret now =
     \<lparr>srv_routes = backend_routes bd, srv_cors = cors,
      srv_auth = (\<lambda>r d. (ExtractAuthenticatedUser (Some secret) now r, d))\<rparr>"

definition user_json :: "int \<Rightarrow> string \<Rightarrow> string" where
  "user_json i u = ''{'' @ [CHR 0x22] @ ''id'' @ [CHR 0x22] @ '':'' @ int_to_string i @ '', '' @
     [CHR 0x22] @ ''username'' @ [CHR 0x22] @ '':'' @ [CHR 0x22] @ u @ [CHR 0x22] @ ''}''"

lemma whoami_exchange:
  assumes "ValidateUsername u = None" and "in_int_range 32 i" and "in_int_range 64 (now + SESSION_SECONDS)"
    and "sendable GET ''/api/users/me'' pre [] post" and "''Upgrade'' \<notin> fst ` set (pre @ post)"
    and "map_of (rev (sent_headers pre [] post)) ''Cookie'' =
      Some (cookie_pair (session_cookie (Create i u secret SESSION_SECONDS now)))"
    and "concat ps @ q = client_request GET ''/api/users/me'' pre [] post" and "q \<noteq> []" and "idle_conn c"
  shows "http_exchange json_items (backend_server bd cors secret later) (ps @ [q]) c d =
    (c\<lparr>sent_bytes := sent_bytes c @ render_response (with_cors cors (sent_headers pre [] post)
       (if now + SESSION_SECONDS < later then Unauthorized ''Invalid or missing token'' else Json (user_json i u)))\<rparr>,
     d, None)"
proof -
  obtain request where r: "ParseRequest json_items (client_request GET ''/api/users/me'' pre [] post) = Inr request"
    "req_method request = Some GET" "req_path request = ''/api/users/me''"
    "req_headers request = stored_headers (sent_headers pre [] post)"
    using sendable_parse [OF assms(4)] by blast
  have "map_of (req_headers request) ''Cookie'' =
      Some (cookie_pair (session_cookie (Create i u secret SESSION_SECONDS now)))"
    using assms(6) by (simp add: r(4) stored_headers_of)
  note me = session_whoami [OF assms(1-3) this r(3), of later bd d]
  have "''Upgrade'' \<notin> fst ` set (sent_headers pre [] post)"
    using assms(5) by (auto simp: sent_headers_def)
  with plain_request(2) [OF r(4,2)] have plain: "\<not> is_ws_upgrade request" "\<not> is_cors_preflight request" by simp_all
  show ?thesis
    using exchange_answer [OF assms(4,7,8,9) r(1) plain, of "backend_server bd cors secret later"] me
      with_cors_request [OF r(4)]
    by (simp add: backend_server_def user_json_def)
qed

text \<open>The body that the browser's form sends.\<close>

definition registration_body :: "'f float_ops \<Rightarrow> string \<Rightarrow> string \<Rightarrow> string \<Rightarrow> string" where
  "registration_body fl u m p =
     js_object fl [(''username'', JString u), (''email'', JString m), (''password'', JString p)]"

lemma register_exchange:
  assumes "utf8 u" and "utf8 m" and "utf8 p"
    and "ValidateUsername u = None" and "ValidateEmail m = None" and "ValidatePassword p = None"
    and "create_account (bd_users bd) u m p d = (Inr r, d')"
    and "sendable POST ''/api/users/register'' pre (registration_body fl u m p) post"
    and "map_of (rev (sent_headers pre (registration_body fl u m p) post)) ''Content-Type'' = Some ''application/json''"
    and "concat ps @ q = client_request POST ''/api/users/register'' pre (registration_body fl u m p) post" and "q \<noteq> []" and "idle_conn c"
  shows "http_exchange (body_items fl) (backend_server bd cors secret now) (ps @ [q]) c d =
    (c\<lparr>sent_bytes := sent_bytes c @ render_response (with_cors cors (sent_headers pre (registration_body fl u m p) post) r)\<rparr>, d', None)"
proof -
  let ?form = "[(''username'', u), (''email'', m), (''password'', p)]"
  have b: "registration_body fl u m p = js_object fl (string_fields ?form)"
    by (simp add: registration_body_def string_fields_def)
  have "utf8 ''username''" "utf8 ''email''" "utf8 ''password''" by (rule utf8_ascii; simp)+
  then have f: "\<And>a b. (a, b) \<in> set ?form \<Longrightarrow> utf8 a \<and> utf8 b" using assms(1-3) by auto
  obtain request where r: "ParseRequest (body_items fl) (client_request POST ''/api/users/register'' pre (registration_body fl u m p) post) = Inr request"
    "req_method request = Some POST" "req_path request = ''/api/users/register''"
    "req_headers request = stored_headers (sent_headers pre (registration_body fl u m p) post)" "\<forall>k. BodyParam request k = map_of ?form k"
    using sendable_form [OF assms(8) [unfolded b] assms(9) [unfolded b] f] unfolding b by auto
  have "register_form request u m p" using r(5) assms(4-6) by (simp add: register_form_def)
  then have "register_handler (bd_users bd) request d = (Inr r, d')"
    using assms(7) by (simp add: register_handler_form)
  moreover have "map_of (exact_routes bd) (req_path request) = Some (RouteNode POST (Some (register_handler (bd_users bd))))"
    by (simp add: exact_routes_def r(3))
  ultimately have "dispatch auth (backend_routes bd) request d = Inr (r, request, d')" for auth
    by (simp add: backend_dispatch run_node_def catch_all_def)
  moreover note plain_request(1) [OF r(4,2)]
  ultimately show ?thesis
    using exchange_answer [OF assms(8,10-12) r(1), of "backend_server bd cors secret now" d r request d'] with_cors_request [OF r(4)]
    by (simp add: backend_server_def)
qed

text \<open>
  C1: a user's first visit, from bytes to bytes. A browser posts the registration form as JSON, over a
  connection that the network cuts anywhere; when the repository creates the account, exactly one row
  is appended, with the hash of the password, and the bytes of the handler's answer go back with a session
  cookie. Whoever later asks \<open>/api/users/me\<close> with that cookie, over any connection
  and at any time, gets the number and the name of the new account until the session expires, and
  401 from then on.
\<close>

theorem registered_over_http:
  assumes "sql_users (dep_db (bd_users bd)) table" and "dep_jwt_secret (bd_users bd) = Some secret"
    and "in_int_range 64 (dep_now (bd_users bd) + SESSION_SECONDS)"
    and "utf8 u" and "utf8 m" and "utf8 p"
    and "ValidateUsername u = None" and "ValidateEmail m = None" and "ValidatePassword p = None"
    and "create_account (bd_users bd) u m p d = (Inr r, d')" and "res_status_code r = 201"
    and "sendable POST ''/api/users/register'' pre (registration_body fl u m p) post"
    and "map_of (rev (sent_headers pre (registration_body fl u m p) post)) ''Content-Type'' = Some ''application/json''"
    and "concat ps @ q = client_request POST ''/api/users/register'' pre (registration_body fl u m p) post" and "q \<noteq> []" and "idle_conn c"
  shows "\<exists>i h cookie.
    table d' = table d @ [\<lparr>user_id = i, user_name = u, user_email = m, user_password_hash = h\<rparr>] \<and>
    HashPassword (dep_crypt (bd_users bd)) (dep_random (bd_users bd)) p = Inr h \<and>
    map_of (res_headers r) ''Set-Cookie'' = Some cookie \<and>
    http_exchange (body_items fl) (backend_server bd cors secret now) (ps @ [q]) c d =
      (c\<lparr>sent_bytes := sent_bytes c @ render_response (with_cors cors (sent_headers pre (registration_body fl u m p) post) r)\<rparr>, d', None) \<and>
    (\<forall>pre2 post2 ps2 q2 c2 d2 later.
      (let headers = (''Cookie'', cookie_pair cookie) # post2 in
       sendable GET ''/api/users/me'' pre2 [] headers \<and> ''Cookie'' \<notin> fst ` set post2 \<and>
       ''Upgrade'' \<notin> fst ` set (pre2 @ headers) \<and>
       concat ps2 @ q2 = client_request GET ''/api/users/me'' pre2 [] headers \<and> q2 \<noteq> [] \<and> idle_conn c2 \<longrightarrow>
       http_exchange (body_items fl) (backend_server bd cors secret later) (ps2 @ [q2]) c2 d2 =
         (c2\<lparr>sent_bytes := sent_bytes c2 @ render_response (with_cors cors (sent_headers pre2 [] headers)
            (if dep_now (bd_users bd) + SESSION_SECONDS < later then Unauthorized ''Invalid or missing token''
             else Json (user_json i u)))\<rparr>, d2, None)))"
proof -
  from create_account_outcome [OF assms(1,10)] assms(11) obtain i h where
    row: "table d' = table d @ [\<lparr>user_id = i, user_name = u, user_email = m, user_password_hash = h\<rparr>]"
      "HashPassword (dep_crypt (bd_users bd)) (dep_random (bd_users bd)) p = Inr h" "in_int_range 32 i"
      and r: "r = issue_session (bd_users bd) \<lparr>user_id = i, user_name = u, user_email = m, user_password_hash = []\<rparr>
        (Created ''User registered successfully'')"
    by auto
  let ?cookie = "session_cookie (Create i u secret SESSION_SECONDS (dep_now (bd_users bd)))"
  have cookie: "map_of (res_headers r) ''Set-Cookie'' = Some ?cookie"
    unfolding r by (simp add: issue_session_cookie [OF assms(2)])
  have later: "http_exchange (body_items fl) (backend_server bd cors secret later) (ps2 @ [q2]) c2 d2 =
      (c2\<lparr>sent_bytes := sent_bytes c2 @ render_response (with_cors cors (sent_headers pre2 [] headers)
        (if dep_now (bd_users bd) + SESSION_SECONDS < later then Unauthorized ''Invalid or missing token''
         else Json (user_json i u)))\<rparr>, d2, None)"
    if "headers = (''Cookie'', cookie_pair ?cookie) # post2" "sendable GET ''/api/users/me'' pre2 [] headers"
      "''Cookie'' \<notin> fst ` set post2" "''Upgrade'' \<notin> fst ` set (pre2 @ headers)"
      "concat ps2 @ q2 = client_request GET ''/api/users/me'' pre2 [] headers" "q2 \<noteq> []" "idle_conn c2"
    for headers pre2 post2 ps2 q2 c2 d2 later
  proof (rule whoami_exchange [OF assms(7) row(3) assms(3) that(2,4) _ that(5-7)])
    have "map_of (rev post2) ''Cookie'' = None" using that(3) by (simp add: map_of_eq_None_iff)
    then show "map_of (rev (sent_headers pre2 [] headers)) ''Cookie'' = Some (cookie_pair ?cookie)"
      by (simp add: that(1) sent_headers_def map_add_def)
  qed
  show ?thesis
    using row cookie later register_exchange [OF assms(4-10) assms(12-16)]
    by (intro exI [of _ i] exI [of _ h] exI [of _ ?cookie] conjI) (simp_all add: Let_def)
qed

section \<open>Witnesses\<close>

definition demo_backend :: "(string \<Rightarrow> int) backend_deps" where
  "demo_backend = \<lparr>bd_env = (\<lambda>_. None), bd_vars = [],
     bd_users = \<lparr>dep_db = \<lparr>exec_insert_user = (\<lambda>u m h d. (Inl OutOfRange, d)), exec_count_username = (\<lambda>u d. Inr 0),
       exec_count_email = (\<lambda>m d. Inr 0), exec_select_user = (\<lambda>u d. Inr [])\<rparr>,
       dep_crypt = (\<lambda>_ _. None), dep_random = (\<lambda>_. 0), dep_jwt_secret = Some ''s'', dep_now = 0\<rparr>,
     bd_be = memory_backends, bd_js = plain_texts, bd_db = demo_stream_db,
     bd_get = (\<lambda>key d. (Inr None, d)), bd_dump = (\<lambda>_. Inr ''[]'')\<rparr>"

theorem backend_routing_witness:
  "dispatch (\<lambda>r d. (Inr None, d)) (backend_routes demo_backend)
      (empty_request\<lparr>req_path := ''/nowhere'', req_method := Some GET\<rparr>) (\<lambda>_. 0) =
    Inr (NotFound ''Route not found'', empty_request\<lparr>req_path := ''/nowhere'', req_method := Some GET\<rparr>, \<lambda>_. 0)"
proof -
  let ?req = "empty_request\<lparr>req_path := ''/nowhere'', req_method := Some GET\<rparr>"
  have "\<not> fst (MatchPattern chat_pattern ''/nowhere'' [])" by code_simp
  moreover have "''/nowhere'' \<notin> fst ` set (exact_routes demo_backend)" by (simp add: exact_routes_def)
  ultimately show ?thesis
    using backend_routing [of ?req demo_backend "\<lambda>r d. (Inr None, d)" "\<lambda>_. 0"] by simp
qed

definition demo_me :: HttpRequest where
  "demo_me = empty_request\<lparr>req_path := ''/api/users/me'', req_headers :=
     [(''Cookie'', cookie_pair (session_cookie (Create 7 ''ann'' ''s'' SESSION_SECONDS 0)))]\<rparr>"

theorem session_whoami_witness:
  "dispatch (\<lambda>r d. (ExtractAuthenticatedUser (Some ''s'') (SESSION_SECONDS + 1) r, d)) (backend_routes demo_backend)
      demo_me (\<lambda>_. 0) = Inr (Unauthorized ''Invalid or missing token'', demo_me, \<lambda>_. 0)"
proof -
  have v: "ValidateUsername ''ann'' = None" by code_simp
  show ?thesis
    using session_whoami [OF v, of 7 0 demo_me "''s''" "SESSION_SECONDS + 1" demo_backend "\<lambda>_. 0"]
    by (simp add: demo_me_def in_int_range_def SESSION_SECONDS_def)
qed

definition demo_body :: string where
  "demo_body = registration_body text_floats ''alice'' ''alice@example.com'' ''Passw0rd''"

lemma demo_body_text: "demo_body = ''{\"username\":\"alice\",\"email\":\"alice@example.com\",\"password\":\"Passw0rd\"}''"
proof -
  have "plain ''username''" "plain ''alice''" "plain ''email''" "plain ''alice@example.com''" "plain ''password''"
    "plain ''Passw0rd''"
    by (simp_all add: plain_def)
  moreover have "utf8 ''username''" "utf8 ''alice''" "utf8 ''email''" "utf8 ''alice@example.com''" "utf8 ''password''"
    "utf8 ''Passw0rd''"
    by (rule utf8_ascii; simp)+
  ultimately show ?thesis
    by (simp add: demo_body_def registration_body_def js_object_def js_members_def quoted_plain)
qed

definition demo_headers :: "(string \<times> string) list" where
  "demo_headers = [(''Content-Type'', ''application/json'')]"

lemma demo_sendable: "sendable POST ''/api/users/register'' demo_headers demo_body []"
proof -
  have "length demo_body = 70" by (simp add: demo_body_text)
  moreover have "nat_to_string 70 = ''70''" by code_simp
  ultimately have n: "nat_to_string (length demo_body) = ''70''" by simp
  have "cl_free ''POST /api/users/register HTTP/1.1''" "cl_free ''Content-Type: application/json''"
    by (simp_all add: cl_free_def)
  then show ?thesis
    by (simp add: sendable_def demo_headers_def header_ok_def word_ok_def is_space_def header_line_def client_request_text
        http_text_def crlf_def cl_line_def n) (simp add: demo_body_text)
qed

theorem registered_over_http_witness:
  "snd (http_exchange (body_items text_floats) (backend_server demo_site (mk_Cors cors_example) ''secret'' 1000)
      [client_request POST ''/api/users/register'' demo_headers demo_body []] new_conn []) = ([demo_user], None)"
proof -
  let ?req = "client_request POST ''/api/users/register'' demo_headers demo_body []"
  have u: "utf8 ''alice''" "utf8 ''alice@example.com''" "utf8 ''Passw0rd''" by (rule utf8_ascii; simp)+
  have v: "ValidateUsername ''alice'' = None" "ValidateEmail ''alice@example.com'' = None"
    "ValidatePassword ''Passw0rd'' = None" by code_simp+
  let ?r = "issue_session demo_deps (demo_user\<lparr>user_password_hash := []\<rparr>) (Created ''User registered successfully'')"
  have c: "create_account (bd_users demo_site) ''alice'' ''alice@example.com'' ''Passw0rd'' [] = (Inr ?r, [demo_user])"
    using demo_create register_handler_form [OF demo_form, of demo_deps "[]"] by (simp add: demo_site_def)
  have d: "sql_users (dep_db (bd_users demo_site)) (\<lambda>rows. rows)" "dep_jwt_secret (bd_users demo_site) = Some ''secret''"
    "in_int_range 64 (dep_now (bd_users demo_site) + SESSION_SECONDS)" "res_status_code ?r = 201"
    using sql_users_list_db by (simp_all add: demo_site_def demo_deps_def in_int_range_def SESSION_SECONDS_def issue_session_code)
  have t: "map_of (rev (sent_headers demo_headers demo_body [])) ''Content-Type'' = Some ''application/json''"
    by (simp add: sent_headers_def demo_headers_def)
  have q: "concat [] @ ?req = ?req" "?req \<noteq> []" "idle_conn new_conn"
    by (simp_all add: idle_conn_def new_conn_def client_request_text http_text_def)
  show ?thesis
    using registered_over_http [OF d(1-3) u v c d(4) demo_sendable [unfolded demo_body_def] t [unfolded demo_body_def]
        q(1) [unfolded demo_body_def] q(2) [unfolded demo_body_def] q(3), of "mk_Cors cors_example" 1000]
    unfolding demo_body_def by auto
qed

end
